(* ===== verification/Prelude.thy ===== *)
theory Prelude
  imports Main "HOL-Library.AList" "HOL-Library.Multiset"
begin

text \<open>
  Shared vocabulary of the development: the errors a TypeScript function can raise and the
  sequencing of code that may raise them, the \<^verbatim>\<open>for ... of\<close> loop over a list with a mutable
  state, and the containers of the language: \<^verbatim>\<open>Map\<close> and \<^verbatim>\<open>Set\<close> (insertion ordered), plain
  objects used as dictionaries (integer-like keys first, in ascending order, then insertion
  order) and arrays (reads out of range give undefined, writes out of range leave holes).
  The collections \<open>js_simps\<close> and \<open>js_intros\<close> gather what the component proofs share.
\<close>

named_theorems js_simps "characteristic equations of the language primitives"
named_theorems js_intros "introduction rules of the language primitives"

section \<open>Errors and sequencing\<close>

text \<open>
  A call returns \<open>Inr\<close> of its result or raises \<open>Inl\<close> of an error. \<open>OutOfFuel\<close> is not an error
  of the program: it marks a recursion that was cut off by the bound the model gives it, and
  every recursive definition comes with a lemma that its bound is never hit.
\<close>

datatype js_error =
    AssertionError string
  | TypeError string
  | UserError string
  | UnexpectedError string
  | OperationalError string
  | JsError string
  | OutOfFuel

type_synonym 'a result = "js_error + 'a"

definition res_bind :: "'e + 'a \<Rightarrow> ('a \<Rightarrow> 'e + 'b) \<Rightarrow> 'e + 'b" where
  "res_bind m f = (case m of Inl e \<Rightarrow> Inl e | Inr x \<Rightarrow> f x)"

definition assert_ok :: "bool \<Rightarrow> string \<Rightarrow> unit result" where
  "assert_ok b msg = (if b then Inr () else Inl (AssertionError msg))"

primrec for_each :: "('a \<Rightarrow> 's \<Rightarrow> 'e + 's) \<Rightarrow> 'a list \<Rightarrow> 's \<Rightarrow> 'e + 's" where
  "for_each f [] s = Inr s"
| "for_each f (x # xs) s = res_bind (f x s) (for_each f xs)"

lemma res_bind_Inl [simp]: "res_bind (Inl e) f = Inl e"
  by (simp add: res_bind_def)

lemma res_bind_Inr [simp]: "res_bind (Inr x) f = f x"
  by (simp add: res_bind_def)

lemma res_bind_eq_Inr [js_simps]:
  "res_bind m f = Inr y \<longleftrightarrow> (\<exists>x. m = Inr x \<and> f x = Inr y)"
  by (cases m) auto

lemma res_bind_eq_Inl [js_simps]:
  "res_bind m f = Inl e \<longleftrightarrow> m = Inl e \<or> (\<exists>x. m = Inr x \<and> f x = Inl e)"
  by (cases m) auto

lemma res_bind_assoc: "res_bind (res_bind m f) g = res_bind m (\<lambda>x. res_bind (f x) g)"
  by (cases m) auto

lemma assert_ok_eq_Inr [js_simps]: "assert_ok b msg = Inr u \<longleftrightarrow> b"
  by (simp add: assert_ok_def)

lemma assert_ok_eq_Inl [js_simps]: "assert_ok b msg = Inl e \<longleftrightarrow> \<not> b \<and> e = AssertionError msg"
  by (auto simp: assert_ok_def)

lemma assert_ok_True [simp]: "assert_ok True msg = Inr ()"
  by (simp add: assert_ok_def)

lemma assert_ok_False [simp]: "assert_ok False msg = Inl (AssertionError msg)"
  by (simp add: assert_ok_def)

lemma for_each_append:
  "for_each f (xs @ ys) s = res_bind (for_each f xs s) (for_each f ys)"
  by (induction xs arbitrary: s) (auto simp: res_bind_assoc fun_eq_iff intro!: arg_cong2 [where f = res_bind])

lemma for_each_cong [fundef_cong]:
  assumes "xs = ys" and "s = t" and "\<And>x s. x \<in> set ys \<Longrightarrow> f x s = g x s"
  shows "for_each f xs s = for_each g ys t"
  using assms(3) unfolding assms(1,2)
  by (induction ys arbitrary: t) (auto simp: res_bind_def split: sum.splits)

text \<open>The loop rules: partial correctness, total correctness, and a loop that cannot fail.\<close>

lemma for_each_rule:
  assumes ret: "for_each f xs s = Inr t"
    and start: "P [] s"
    and step: "\<And>ys x zs s s'. xs = ys @ x # zs \<Longrightarrow> P ys s \<Longrightarrow> f x s = Inr s' \<Longrightarrow> P (ys @ [x]) s'"
  shows "P xs t"
proof -
  have "P (us @ vs) t" if "us @ vs = xs" "P us s" "for_each f vs s = Inr t" for us vs s
    using that
  proof (induction vs arbitrary: us s)
    case Nil
    then show ?case by simp
  next
    case (Cons v vs)
    from Cons.prems(3) obtain s' where s': "f v s = Inr s'" "for_each f vs s' = Inr t"
      by (auto simp: res_bind_eq_Inr)
    from Cons.prems(1,2) s'(1) have "P (us @ [v]) s'"
      by (metis step)
    with Cons.prems(1) s'(2) Cons.IH [of "us @ [v]" s'] show ?case by simp
  qed
  from this [of "[]"] ret start show ?thesis by simp
qed

lemma for_each_total:
  assumes start: "P [] s"
    and step: "\<And>ys x zs s. xs = ys @ x # zs \<Longrightarrow> P ys s \<Longrightarrow> \<exists>s'. f x s = Inr s' \<and> P (ys @ [x]) s'"
  shows "\<exists>t. for_each f xs s = Inr t \<and> P xs t"
proof -
  have "\<exists>t. for_each f vs s = Inr t \<and> P (us @ vs) t" if "us @ vs = xs" "P us s" for us vs s
    using that
  proof (induction vs arbitrary: us s)
    case Nil
    then show ?case by simp
  next
    case (Cons v vs)
    then obtain s' where s': "f v s = Inr s'" "P (us @ [v]) s'"
      by (metis step)
    with Cons.prems(1) Cons.IH [of "us @ [v]" s'] show ?case by simp
  qed
  from this [of "[]"] start show ?thesis by simp
qed

lemma for_each_inv:
  assumes "for_each f xs s = Inr t" and "Q s"
    and "\<And>x s s'. x \<in> set xs \<Longrightarrow> Q s \<Longrightarrow> f x s = Inr s' \<Longrightarrow> Q s'"
  shows "Q t"
  using assms(1) by (rule for_each_rule [where P = "\<lambda>_. Q"]) (use assms(2,3) in auto)

lemma for_each_no_error:
  assumes "\<And>x s. x \<in> set xs \<Longrightarrow> Q s \<Longrightarrow> f x s \<noteq> Inl e"
    and "\<And>x s s'. x \<in> set xs \<Longrightarrow> Q s \<Longrightarrow> f x s = Inr s' \<Longrightarrow> Q s'"
    and "Q s"
  shows "for_each f xs s \<noteq> Inl e"
  using assms
proof (induction xs arbitrary: s)
  case Nil
  then show ?case by simp
next
  case (Cons x xs)
  then have "f x s \<noteq> Inl e" by simp
  moreover have "for_each f xs s' \<noteq> Inl e" if "f x s = Inr s'" for s'
    using Cons.IH [of s'] Cons.prems that by (metis list.set_intros(1,2))
  ultimately show ?case by (auto simp: res_bind_eq_Inl)
qed

lemma for_each_pure: "for_each (\<lambda>x s. Inr (h x s)) xs s = Inr (fold h xs s)"
  by (induction xs arbitrary: s) auto

section \<open>Insertion-ordered maps\<close>

text \<open>
  A \<^verbatim>\<open>Map\<close> is an association list in insertion order. \<^verbatim>\<open>m.set(k, v)\<close> replaces the value of a
  present key where it stands and appends an absent one: the library's \<open>AList.update\<close>;
  \<^verbatim>\<open>m.delete(k)\<close> is \<open>AList.delete\<close>, \<^verbatim>\<open>m.get(k)\<close> is \<open>map_of m k\<close>.
\<close>

type_synonym ('k, 'v) jsmap = "('k \<times> 'v) list"

abbreviation map_set :: "'k \<Rightarrow> 'v \<Rightarrow> ('k, 'v) jsmap \<Rightarrow> ('k, 'v) jsmap" where
  "map_set \<equiv> AList.update"

abbreviation map_delete :: "'k \<Rightarrow> ('k, 'v) jsmap \<Rightarrow> ('k, 'v) jsmap" where
  "map_delete \<equiv> AList.delete"

abbreviation map_keys :: "('k, 'v) jsmap \<Rightarrow> 'k list" where
  "map_keys m \<equiv> map fst m"

abbreviation map_values :: "('k, 'v) jsmap \<Rightarrow> 'v list" where
  "map_values m \<equiv> map snd m"

text \<open>Values stored under a key computed from them: a store indexed by \<open>f\<close>.\<close>

definition indexed_by :: "('v \<Rightarrow> 'k) \<Rightarrow> ('k \<times> 'v) list \<Rightarrow> bool" where
  "indexed_by f m \<longleftrightarrow> distinct (map fst m) \<and> (\<forall>(k, v) \<in> set m. k = f v)"

text \<open>
  The contract of a store that keeps one value per key, shared by \<^verbatim>\<open>Map\<close> and by objects used as
  dictionaries: where a new key lands is the store's own business.
\<close>

locale keyed_store =
  fixes put :: "'k \<Rightarrow> 'v \<Rightarrow> ('k \<times> 'v) list \<Rightarrow> ('k \<times> 'v) list"
  assumes lookup_put: "map_of (put k v m) = (map_of m)(k \<mapsto> v)"
    and distinct_put: "distinct (map fst m) \<Longrightarrow> distinct (map fst (put k v m))"
begin

lemma keys_put: "fst ` set (put k v m) = insert k (fst ` set m)"
  using lookup_put [of k v m] dom_map_of_conv_image_fst [of "put k v m"]
    dom_map_of_conv_image_fst [of m] by simp

lemma entries_put:
  assumes "distinct (map fst m)"
  shows "set (put k v m) = insert (k, v) {e \<in> set m. fst e \<noteq> k}"
proof -
  have d: "distinct (map fst (put k v m))"
    using assms by (rule distinct_put)
  have "(a, b) \<in> set (put k v m) \<longleftrightarrow> (a, b) = (k, v) \<or> (a, b) \<in> set m \<and> a \<noteq> k" for a b
    using map_of_is_SomeI [OF d] map_of_is_SomeI [OF assms] map_of_SomeD
      fun_upd_apply [of "map_of m" k "Some v" a] lookup_put [of k v m]
    by (metis Pair_inject option.inject)
  then show ?thesis by auto
qed

lemma mset_put:
  assumes "distinct (map fst m)"
  shows "mset (put k v m) + (case map_of m k of None \<Rightarrow> {#} | Some w \<Rightarrow> {#(k, w)#}) = add_mset (k, v) (mset m)"
proof -
  have d: "distinct m" "distinct (put k v m)"
    using assms distinct_put [OF assms, of k v] by (auto simp: distinct_map)
  have ent: "set (put k v m) = insert (k, v) {e \<in> set m. fst e \<noteq> k}"
    by (rule entries_put [OF assms])
  show ?thesis
  proof (cases "map_of m k")
    case None
    then have "{e \<in> set m. fst e \<noteq> k} = set m" and "(k, v) \<notin> set m"
      by (auto simp: map_of_eq_None_iff image_iff)
    then have "mset_set (set (put k v m)) = add_mset (k, v) (mset_set (set m))"
      using ent by simp
    with None d show ?thesis by (simp add: mset_set_set)
  next
    case (Some w)
    then have "set m = insert (k, w) {e \<in> set m. fst e \<noteq> k}"
      using assms by (auto dest: map_of_SomeD simp: eq_key_imp_eq_value)
    then have "mset_set (set m) = add_mset (k, w) (mset_set {e \<in> set m. fst e \<noteq> k})"
      by (metis (mono_tags, lifting) List.finite_set finite_insert fst_conv mem_Collect_eq mset_set.insert)
    moreover have "mset_set (set (put k v m)) = add_mset (k, v) (mset_set {e \<in> set m. fst e \<noteq> k})"
      using ent by simp
    ultimately show ?thesis using Some d by (simp add: mset_set_set)
  qed
qed

lemma sum_put:
  fixes h :: "'k \<times> 'v \<Rightarrow> 'x multiset"
  assumes "distinct (map fst m)"
  shows "(\<Sum>e \<in># mset (put k v m). h e) + (case map_of m k of None \<Rightarrow> {#} | Some w \<Rightarrow> h (k, w))
       = h (k, v) + (\<Sum>e \<in># mset m. h e)"
proof -
  have "(\<Sum>e \<in># mset (put k v m) + (case map_of m k of None \<Rightarrow> {#} | Some w \<Rightarrow> {#(k, w)#}). h e)
      = (\<Sum>e \<in># add_mset (k, v) (mset m). h e)"
    by (simp only: mset_put [OF assms])
  then show ?thesis by (cases "map_of m k") (auto simp: add.commute)
qed

lemma distinct_puts: "distinct (map fst m) \<Longrightarrow> distinct (map fst (fold (\<lambda>x. put (f x) (g x)) xs m))"
  by (induction xs arbitrary: m) (auto intro: distinct_put)

lemma keys_puts: "fst ` set (fold (\<lambda>x. put (f x) (g x)) xs m) = f ` set xs \<union> fst ` set m"
  by (induction xs arbitrary: m) (auto simp: keys_put)

lemma entries_puts_fresh:
  assumes "distinct (map fst m)" and "distinct (map f xs)" and "\<And>x. x \<in> set xs \<Longrightarrow> f x \<notin> fst ` set m"
  shows "set (fold (\<lambda>x. put (f x) (g x)) xs m) = (\<lambda>x. (f x, g x)) ` set xs \<union> set m"
  using assms
proof (induction xs arbitrary: m)
  case Nil
  then show ?case by simp
next
  case (Cons x xs)
  have "{e \<in> set m. fst e \<noteq> f x} = set m"
    using Cons.prems(3) [of x] by force
  then have e: "set (put (f x) (g x) m) = insert (f x, g x) (set m)"
    using entries_put [OF Cons.prems(1), of "f x" "g x"] by simp
  have "f y \<notin> fst ` set (put (f x) (g x) m)" if "y \<in> set xs" for y
    using that Cons.prems(2,3) by (auto simp: keys_put image_iff)
  with Cons.IH [of "put (f x) (g x) m"] distinct_put [OF Cons.prems(1)] Cons.prems(2) e
  show ?case by auto
qed

lemma indexed_put:
  assumes "indexed_by f m"
  shows "indexed_by f (put (f v) v m)"
    and "snd ` set (put (f v) v m) = insert v {w \<in> snd ` set m. f w \<noteq> f v}"
proof -
  have d: "distinct (map fst m)" and k: "\<And>e. e \<in> set m \<Longrightarrow> fst e = f (snd e)"
    using assms by (auto simp: indexed_by_def)
  have "\<forall>e \<in> set (put (f v) v m). fst e = f (snd e)"
    unfolding entries_put [OF d] using k by simp
  with distinct_put [OF d] show "indexed_by f (put (f v) v m)"
    by (simp add: indexed_by_def case_prod_beta)
  have "snd ` {e \<in> set m. fst e \<noteq> f v} = {w \<in> snd ` set m. f w \<noteq> f v}"
    using k by auto
  then show "snd ` set (put (f v) v m) = insert v {w \<in> snd ` set m. f w \<noteq> f v}"
    unfolding entries_put [OF d] by simp
qed

lemma indexed_puts:
  assumes "indexed_by f m"
  shows "indexed_by f (fold (\<lambda>v. put (f v) v) vs m)"
    and "snd ` set (fold (\<lambda>v. put (f v) v) vs m) \<subseteq> set vs \<union> snd ` set m"
    and "inj_on f (set vs \<union> snd ` set m) \<Longrightarrow> snd ` set (fold (\<lambda>v. put (f v) v) vs m) = set vs \<union> snd ` set m"
proof -
  have "indexed_by f (fold (\<lambda>v. put (f v) v) vs m)
      \<and> snd ` set (fold (\<lambda>v. put (f v) v) vs m) \<subseteq> set vs \<union> snd ` set m
      \<and> (inj_on f (set vs \<union> snd ` set m) \<longrightarrow> snd ` set (fold (\<lambda>v. put (f v) v) vs m) = set vs \<union> snd ` set m)"
    using assms
  proof (induction vs arbitrary: m)
    case Nil
    then show ?case by simp
  next
    case (Cons v vs)
    note put = indexed_put [OF Cons.prems, of v]
    note IH = Cons.IH [OF put(1)]
    have sub: "snd ` set (fold (\<lambda>v. put (f v) v) vs (put (f v) v m)) \<subseteq> set (v # vs) \<union> snd ` set m"
      using IH put(2) by auto
    have "snd ` set (fold (\<lambda>v. put (f v) v) vs (put (f v) v m)) = set (v # vs) \<union> snd ` set m"
      if inj: "inj_on f (set (v # vs) \<union> snd ` set m)"
    proof -
      have "f w \<noteq> f v" if "w \<in> snd ` set m" "w \<noteq> v" for w
        using inj that unfolding inj_on_def by auto
      then have "insert v {w \<in> snd ` set m. f w \<noteq> f v} = insert v (snd ` set m)" by auto
      with put(2) have V: "set vs \<union> snd ` set (put (f v) v m) = set (v # vs) \<union> snd ` set m" by auto
      with inj IH show ?thesis by auto
    qed
    with IH sub show ?case by simp
  qed
  then show "indexed_by f (fold (\<lambda>v. put (f v) v) vs m)"
    and "snd ` set (fold (\<lambda>v. put (f v) v) vs m) \<subseteq> set vs \<union> snd ` set m"
    and "inj_on f (set vs \<union> snd ` set m) \<Longrightarrow> snd ` set (fold (\<lambda>v. put (f v) v) vs m) = set vs \<union> snd ` set m"
    by blast+
qed

end

interpretation js_map: keyed_store AList.update
  by unfold_locales (simp_all add: update_conv' distinct_update)

text \<open>Appending fresh keys; a map rebuilt from its values.\<close>

lemma fold_fresh:
  assumes "distinct (map f vs)" and "\<forall>v \<in> set vs. f v \<notin> fst ` set m"
  shows "fold (\<lambda>v. map_set (f v) v) vs m = m @ map (\<lambda>v. (f v, v)) vs"
  using assms
proof (induction vs arbitrary: m)
  case Nil
  then show ?case by simp
next
  case (Cons v vs)
  have "map_set (f v) v m = m @ [(f v, v)]"
    using Cons.prems(2) by (induction m) auto
  moreover have "\<forall>w \<in> set vs. f w \<notin> fst ` set (m @ [(f v, v)])"
    using Cons.prems by simp (metis imageI)
  ultimately show ?case using Cons.IH [of "m @ [(f v, v)]"] Cons.prems(1) by simp
qed

lemma fold_rebuild:
  assumes "indexed_by f m"
  shows "fold (\<lambda>v. map_set (f v) v) (map snd m) [] = m"
proof -
  have k: "\<forall>e \<in> set m. f (snd e) = fst e" using assms by (auto simp: indexed_by_def)
  then have eq: "map f (map snd m) = map fst m" by simp
  have "distinct (map f (map snd m))" unfolding eq using assms by (simp add: indexed_by_def)
  from fold_fresh [OF this, of "[]"] have "fold (\<lambda>v. map_set (f v) v) (map snd m) [] = map (\<lambda>e. (f (snd e), snd e)) m"
    by (simp add: o_def)
  also have "\<dots> = map (\<lambda>e. e) m" using k by (intro map_cong) auto
  finally show ?thesis by simp
qed

lemma map_of_map_delete [js_simps]: "map_of (map_delete k m) = (map_of m)(k := None)"
  by (simp add: delete_conv')

lemma entries_map_delete [js_simps]: "set (map_delete k m) = {e \<in> set m. fst e \<noteq> k}"
  by (induction m) auto

lemma update_same: "map_of m k = Some v \<Longrightarrow> map_set k v m = m"
  by (induction m) auto

lemma distinct_map_delete [js_intros]: "distinct (map fst m) \<Longrightarrow> distinct (map fst (map_delete k m))"
  by (rule distinct_delete)

section \<open>Objects used as dictionaries\<close>

text \<open>
  The own string keys of an object enumerate its integer indices first, in ascending order, and
  then the other keys in insertion order. \<open>index_key\<close> recognises an integer index: the canonical
  decimal form of a number below $2^{32}-1$.
\<close>

definition digit_value :: "char \<Rightarrow> nat option" where
  "digit_value c = (if 48 \<le> (of_char c :: nat) \<and> (of_char c :: nat) \<le> 57 then Some (of_char c - 48) else None)"

fun read_digits :: "nat \<Rightarrow> string \<Rightarrow> nat option" where
  "read_digits n [] = Some n"
| "read_digits n (c # cs) =
     (case digit_value c of None \<Rightarrow> None | Some d \<Rightarrow> read_digits (10 * n + d) cs)"

definition index_key :: "string \<Rightarrow> nat option" where
  "index_key s =
     (if s = [] \<or> (hd s = CHR ''0'' \<and> tl s \<noteq> []) then None
      else case read_digits 0 s of
             None \<Rightarrow> None
           | Some n \<Rightarrow> if n < 4294967295 then Some n else None)"

text \<open>Insertion of a fresh integer key: before the first larger integer key or string key.\<close>

fun insert_index :: "nat \<Rightarrow> string \<Rightarrow> 'v \<Rightarrow> (string \<times> 'v) list \<Rightarrow> (string \<times> 'v) list" where
  "insert_index n k v [] = [(k, v)]"
| "insert_index n k v ((k', v') # es) =
     (case index_key k' of
        None \<Rightarrow> (k, v) # (k', v') # es
      | Some n' \<Rightarrow> if n < n' then (k, v) # (k', v') # es
                   else (k', v') # insert_index n k v es)"

definition obj_put :: "string \<Rightarrow> 'v \<Rightarrow> (string \<times> 'v) list \<Rightarrow> (string \<times> 'v) list" where
  "obj_put k v m =
     (if k \<in> set (map fst m) then AList.update k v m
      else case index_key k of None \<Rightarrow> m @ [(k, v)] | Some n \<Rightarrow> insert_index n k v m)"

lemma map_of_insert_index:
  "k \<notin> fst ` set m \<Longrightarrow> map_of (insert_index n k v m) = (map_of m)(k \<mapsto> v)"
  by (induction n k v m rule: insert_index.induct) (auto split: option.splits)

lemma keys_insert_index: "fst ` set (insert_index n k v m) = insert k (fst ` set m)"
  by (induction n k v m rule: insert_index.induct) (auto split: option.splits)

lemma distinct_insert_index:
  "k \<notin> fst ` set m \<Longrightarrow> distinct (map fst m) \<Longrightarrow> distinct (map fst (insert_index n k v m))"
proof (induction n k v m rule: insert_index.induct)
  case (2 n k v k' v' es)
  then show ?case using keys_insert_index [of n k v es] by (auto split: option.splits)
qed simp

lemma map_of_append_fresh: "k \<notin> fst ` set m \<Longrightarrow> map_of (m @ [(k, v)]) = (map_of m)(k \<mapsto> v)"
  by (induction m) auto

interpretation js_obj: keyed_store obj_put
proof
  fix k and v :: 'v and m :: "(string \<times> 'v) list"
  show "map_of (obj_put k v m) = (map_of m)(k \<mapsto> v)"
    by (simp add: obj_put_def update_conv' map_of_insert_index map_of_append_fresh
        del: map_of_append split: option.splits)
  show "distinct (map fst (obj_put k v m))" if "distinct (map fst m)"
    using that by (auto simp: obj_put_def distinct_update distinct_insert_index split: option.splits)
qed

text \<open>Without integer-like keys an object is a plain insertion-ordered map.\<close>

lemma update_fresh: "k \<notin> fst ` set m \<Longrightarrow> AList.update k v m = m @ [(k, v)]"
  by (induction m) auto

lemma obj_put_plain: "index_key k = None \<Longrightarrow> obj_put k v m = AList.update k v m"
  by (simp add: obj_put_def update_fresh)

section \<open>Sets and arrays\<close>

text \<open>A \<^verbatim>\<open>Set\<close> is the list of its elements in insertion order, without duplicates.\<close>

definition set_add :: "'a \<Rightarrow> 'a list \<Rightarrow> 'a list" where
  "set_add x S = (if x \<in> set S then S else S @ [x])"

definition set_add_all :: "'a list \<Rightarrow> 'a list \<Rightarrow> 'a list" where
  "set_add_all xs S = fold set_add xs S"

definition set_of :: "'a list \<Rightarrow> 'a list" where
  "set_of xs = set_add_all xs []"

definition set_remove :: "'a \<Rightarrow> 'a list \<Rightarrow> 'a list" where
  "set_remove x S = filter (\<lambda>y. y \<noteq> x) S"

lemma set_set_add [simp]: "set (set_add x S) = insert x (set S)"
  by (auto simp: set_add_def)

lemma distinct_set_add [simp]: "distinct (set_add x S) = distinct S"
  by (auto simp: set_add_def)

lemma set_set_add_all [simp]: "set (set_add_all xs S) = set xs \<union> set S"
  by (induction xs arbitrary: S) (auto simp: set_add_all_def)

lemma distinct_set_add_all [simp]: "distinct (set_add_all xs S) = distinct S"
  by (induction xs arbitrary: S) (auto simp: set_add_all_def)

lemma set_set_of [simp]: "set (set_of xs) = set xs"
  by (simp add: set_of_def)

lemma distinct_set_of [simp]: "distinct (set_of xs)"
  by (simp add: set_of_def)

lemma set_set_remove [simp]: "set (set_remove x S) = set S - {x}"
  by (auto simp: set_remove_def)

lemma distinct_set_remove [simp]: "distinct S \<Longrightarrow> distinct (set_remove x S)"
  by (simp add: set_remove_def)

text \<open>
  \<^verbatim>\<open>xs[i]\<close> is undefined (\<open>None\<close>) out of range, \<^verbatim>\<open>xs.at(i)\<close> also counts from the end, and
  \<^verbatim>\<open>xs[i] = v\<close> past the end leaves holes, which read as undefined.
\<close>

definition arr_get :: "'a list \<Rightarrow> nat \<Rightarrow> 'a option" where
  "arr_get xs i = (if i < length xs then Some (xs ! i) else None)"

definition arr_at :: "'a list \<Rightarrow> int \<Rightarrow> 'a option" where
  "arr_at xs i =
     (let j = (if i < 0 then int (length xs) + i else i)
      in if 0 \<le> j \<and> j < int (length xs) then Some (xs ! nat j) else None)"

definition arr_put :: "'a \<Rightarrow> nat \<Rightarrow> 'a \<Rightarrow> 'a list \<Rightarrow> 'a list" where
  "arr_put hole i v xs = (xs @ replicate (Suc i - length xs) hole)[i := v]"

lemma arr_get_Some: "arr_get xs i = Some x \<longleftrightarrow> i < length xs \<and> xs ! i = x"
  by (auto simp: arr_get_def)

lemma arr_get_in_set: "arr_get xs i = Some x \<Longrightarrow> x \<in> set xs"
  by (auto simp: arr_get_def split: if_splits)

lemma arr_at_nat: "arr_at xs (int i) = arr_get xs i"
  by (simp add: arr_at_def arr_get_def)

lemma arr_at_last: "xs \<noteq> [] \<Longrightarrow> arr_at xs (-1) = Some (last xs)"
  by (auto simp: arr_at_def last_conv_nth Suc_le_eq nat_diff_distrib)

lemma length_arr_put: "length (arr_put h i v xs) = max (Suc i) (length xs)"
  by (simp add: arr_put_def max_def)

lemma arr_put_same: "arr_put h i v xs ! i = v"
  by (simp add: arr_put_def)

lemma arr_put_other:
  "j \<noteq> i \<Longrightarrow> j < length (arr_put h i v xs) \<Longrightarrow>
   arr_put h i v xs ! j = (if j < length xs then xs ! j else h)"
  by (auto simp: arr_put_def nth_append)

text \<open>
  \<^verbatim>\<open>xs.sort(cmp)\<close>: insertion from the left, each element before the first one it compares below.
  For a consistent comparison this is the stable sort of the language; for an inconsistent one it
  is the order that the engine's insertion sort of short arrays gives.
\<close>

fun insert_by :: "('a \<Rightarrow> 'a \<Rightarrow> int) \<Rightarrow> 'a \<Rightarrow> 'a list \<Rightarrow> 'a list" where
  "insert_by cmp x [] = [x]"
| "insert_by cmp x (y # ys) = (if cmp x y < 0 then x # y # ys else y # insert_by cmp x ys)"

definition js_sort :: "('a \<Rightarrow> 'a \<Rightarrow> int) \<Rightarrow> 'a list \<Rightarrow> 'a list" where
  "js_sort cmp xs = fold (insert_by cmp) xs []"

lemma mset_insert_by: "mset (insert_by cmp x xs) = add_mset x (mset xs)"
  by (induction xs) auto

lemma mset_js_sort [simp]: "mset (js_sort cmp xs) = mset xs"
proof -
  have "mset (fold (insert_by cmp) xs ys) = mset xs + mset ys" for ys
    by (induction xs arbitrary: ys) (simp_all add: mset_insert_by)
  then show ?thesis by (simp add: js_sort_def)
qed

lemma set_js_sort [simp]: "set (js_sort cmp xs) = set xs"
  by (metis mset_js_sort set_mset_mset)

text \<open>The result is in the order \<open>R\<close> that the comparison decides.\<close>

lemma sorted_js_sort:
  assumes less: "\<And>x y. cmp x y < 0 \<Longrightarrow> R x y" and not_less: "\<And>x y. \<not> cmp x y < 0 \<Longrightarrow> R y x" and trans: "transp R"
  shows "sorted_wrt R (js_sort cmp xs)"
proof -
  have set: "set (insert_by cmp x ys) = insert x (set ys)" for x ys
    by (metis mset_insert_by set_mset_add_mset_insert set_mset_mset)
  have insert: "sorted_wrt R (insert_by cmp x ys)" if "sorted_wrt R ys" for x ys
    using that
  proof (induction ys)
    case (Cons y ys)
    then show ?case using less not_less transpD [OF trans, of x y] by (auto simp: set)
  qed simp
  have "sorted_wrt R (fold (insert_by cmp) xs ys)" if "sorted_wrt R ys" for ys
    using that by (induction xs arbitrary: ys) (auto intro: insert)
  then show ?thesis by (simp add: js_sort_def)
qed

section \<open>Decimal numerals\<close>

text \<open>The decimal form of a number, as a template string prints it.\<close>

fun show_nat :: "nat \<Rightarrow> string" where
  "show_nat n =
     (if n < 10 then [char_of (48 + n)] else show_nat (n div 10) @ [char_of (48 + n mod 10)])"

declare show_nat.simps [simp del]

definition value_of_digits :: "string \<Rightarrow> nat" where
  "value_of_digits s = foldl (\<lambda>a c. 10 * a + (of_char c - 48)) 0 s"

lemma of_char_digit: "d < 10 \<Longrightarrow> (of_char (char_of (48 + d) :: char) :: nat) = 48 + d"
  by (simp add: of_char_of)

lemma value_show_nat: "value_of_digits (show_nat n) = n"
proof (induction n rule: show_nat.induct)
  case (1 n)
  show ?case
  proof (cases "n < 10")
    case True
    then show ?thesis
      using of_char_digit [of n] by (subst show_nat.simps) (simp add: value_of_digits_def)
  next
    case False
    have "value_of_digits (show_nat n) = 10 * value_of_digits (show_nat (n div 10)) + n mod 10"
      using False of_char_digit [of "n mod 10"]
      by (subst show_nat.simps) (simp add: value_of_digits_def)
    with 1 False show ?thesis by simp
  qed
qed

lemma show_nat_inject [simp]: "show_nat m = show_nat n \<longleftrightarrow> m = n"
  by (metis value_show_nat)

lemma show_nat_digits: "c \<in> set (show_nat n) \<Longrightarrow> 48 \<le> (of_char c :: nat) \<and> (of_char c :: nat) < 58"
proof (induction n rule: show_nat.induct)
  case (1 n)
  show ?case
  proof (cases "n < 10")
    case True
    with "1.prems" show ?thesis
      using of_char_digit [of n] by (subst (asm) show_nat.simps) auto
  next
    case False
    with "1.prems" have "c \<in> set (show_nat (n div 10)) \<or> c = char_of (48 + n mod 10)"
      by (subst (asm) show_nat.simps) auto
    with "1.IH" [OF False] of_char_digit [of "n mod 10"] show ?thesis by auto
  qed
qed

lemma hyphen_not_in_show_nat: "CHR ''-'' \<notin> set (show_nat n)"
  using show_nat_digits [of "CHR ''-''" n] by auto

section \<open>Finite reachability\<close>

text \<open>A set closed under a relation that holds a start's successors holds all it reaches.\<close>

lemma closed_contains_trancl:
  assumes "(a, b) \<in> R\<^sup>+" and "\<And>y. (a, y) \<in> R \<Longrightarrow> y \<in> X" and "\<And>x y. x \<in> X \<Longrightarrow> (x, y) \<in> R \<Longrightarrow> y \<in> X"
  shows "b \<in> X"
  using assms(1) by (induction rule: trancl_induct) (use assms(2,3) in auto)

lemma closed_contains_rtrancl:
  assumes "(a, b) \<in> R\<^sup>*" and "a \<in> X" and "\<And>x y. x \<in> X \<Longrightarrow> (x, y) \<in> R \<Longrightarrow> y \<in> X"
  shows "b \<in> X"
  using assms(1) by (induction rule: rtrancl_induct) (use assms(2,3) in auto)

end
