(* ===== verification/Workflow_Types.thy ===== *)
theory Workflow_Types
  imports Prelude
begin

text \<open>
  The data of a workflow and of an execution, from \<^verbatim>\<open>packages/workflow/src/interfaces.ts\<close>: JSON
  values, nodes, connections, run data. An interface is a record of the fields the modelled code
  reads or writes; an optional field is an \<open>option\<close>; an object with an index signature is an
  association list in the enumeration order of its keys. A node is an object that the code
  compares by reference: its identity is the field \<open>node_ref\<close>, and \<^verbatim>\<open>===\<close> on nodes is equality
  of the records.
\<close>

datatype json =
    JNull
  | JBool bool
  | JNum int
  | JStr string
  | JArr "json list"
  | JObj "(string \<times> json) list"

type_synonym data_object = "(string \<times> json) list"

section \<open>Nodes and connections\<close>

text \<open>\<open>node_typeVersion\<close> is the version number as major and minor part.\<close>

record inode =
  node_ref :: nat
  node_id :: string
  node_name :: string
  node_typeVersion :: "nat \<times> nat"
  node_type :: string
  node_position :: "int \<times> int"
  node_disabled :: "bool option"
  node_executeOnce :: "bool option"
  node_onError :: "string option"
  node_continueOnFail :: "bool option"
  node_parameters :: data_object
  node_rewireOutputLogTo :: "string option"
  node_retryOnFail :: "bool option"
  node_maxTries :: "nat option"
  node_alwaysOutputData :: "bool option"

text \<open>\<^verbatim>\<open>if (node.disabled)\<close>: only the value true is truthy.\<close>

abbreviation is_disabled :: "inode \<Rightarrow> bool" where
  "is_disabled n \<equiv> node_disabled n = Some True"

abbreviation Main_type :: string where
  "Main_type \<equiv> ''main''"

abbreviation AiTool_type :: string where
  "AiTool_type \<equiv> ''ai_tool''"

record iconnection =
  conn_node :: string
  conn_type :: string
  conn_index :: nat

text \<open>The outputs of one type of one node; a bucket is null (or a hole) when unused.\<close>

type_synonym conn_bucket = "iconnection list option"
type_synonym node_connections = "(string \<times> conn_bucket list) list"
type_synonym iconnections = "(string \<times> node_connections) list"

section \<open>Execution data\<close>

record source_data =
  previousNode :: string
  previousNodeOutput :: "nat option"
  previousNodeRun :: "nat option"

record paired_data =
  paired_item :: nat
  paired_input :: "nat option"
  paired_sourceOverwrite :: "source_data option"

datatype paired = PairedNumber nat | PairedOne paired_data | PairedMany "paired_data list"

record exec_item =
  item_json :: data_object
  item_pairedItem :: "paired option"
  item_error :: "json option"

type_synonym task_connections = "(string \<times> exec_item list option list) list"
type_synonym task_sources = "(string \<times> source_data option list) list"

record task_data =
  td_executionIndex :: "int option"
  td_source :: "source_data option list"
  td_executionStatus :: "string option"
  td_data :: "task_connections option"
  td_inputOverride :: "task_connections option"
  td_error :: "json option"
  td_metadata :: "data_object option"

type_synonym run_data = "(string \<times> task_data list) list"
type_synonym pin_data = "(string \<times> exec_item list) list"

record execute_data =
  ex_node :: inode
  ex_data :: task_connections
  ex_source :: "task_sources option"
  ex_metadata :: "data_object option"
  ex_runIndex :: "nat option"

text \<open>
  Waiting nodes: per node name and run index, the inputs received so far. The run indices are
  the integer keys of an object, so the inner list is ascending.
\<close>

type_synonym waiting_execution = "(string \<times> (nat \<times> task_connections) list) list"
type_synonym waiting_source = "(string \<times> (nat \<times> task_sources) list) list"

section \<open>Flat view of connections\<close>

text \<open>
  A connection object as the list of its entries: source node, connection type, output index
  and target. Loops over a connection object visit the entries in this order.
\<close>

type_synonym conn_entry = "string \<times> string \<times> nat \<times> iconnection"

definition bucket_entries :: "string \<Rightarrow> string \<Rightarrow> conn_bucket list \<Rightarrow> conn_entry list" where
  "bucket_entries nm ty bs =
     concat (map (\<lambda>(i, b). map (\<lambda>c. (nm, ty, i, c)) (case b of None \<Rightarrow> [] | Some cs \<Rightarrow> cs))
       (enumerate 0 bs))"

definition node_entries :: "string \<Rightarrow> node_connections \<Rightarrow> conn_entry list" where
  "node_entries nm tys = concat (map (\<lambda>(ty, bs). bucket_entries nm ty bs) tys)"

definition conn_entries :: "iconnections \<Rightarrow> conn_entry list" where
  "conn_entries cs = concat (map (\<lambda>(nm, tys). node_entries nm tys) cs)"

lemma in_bucket_entries:
  "(a, t, i, c) \<in> set (bucket_entries nm ty bs) \<longleftrightarrow>
   a = nm \<and> t = ty \<and> i < length bs \<and> (\<exists>cs. bs ! i = Some cs \<and> c \<in> set cs)"
proof -
  have "(a, t, i, c) \<in> set (bucket_entries nm ty bs) \<longleftrightarrow>
      (\<exists>b. (i, b) \<in> set (enumerate 0 bs) \<and> a = nm \<and> t = ty \<and> (\<exists>cs. b = Some cs \<and> c \<in> set cs))"
    by (force simp: bucket_entries_def split: option.splits)
  then show ?thesis by (auto simp: in_set_enumerate_eq)
qed

lemma in_node_entries:
  "(a, t, i, c) \<in> set (node_entries nm tys) \<longleftrightarrow>
   a = nm \<and> (\<exists>bs cs. (t, bs) \<in> set tys \<and> i < length bs \<and> bs ! i = Some cs \<and> c \<in> set cs)"
  by (force simp: node_entries_def in_bucket_entries)

lemma in_conn_entries:
  "(a, t, i, c) \<in> set (conn_entries conns) \<longleftrightarrow>
   (\<exists>tys bs cs. (a, tys) \<in> set conns \<and> (t, bs) \<in> set tys \<and> i < length bs \<and> bs ! i = Some cs \<and> c \<in> set cs)"
  by (force simp: conn_entries_def in_node_entries)

text \<open>A connection object as the language has it: one value per key on both levels.\<close>

definition conns_wf :: "iconnections \<Rightarrow> bool" where
  "conns_wf conns \<longleftrightarrow> distinct (map fst conns) \<and> (\<forall>(nm, tys) \<in> set conns. distinct (map fst tys))"

end
