(* ===== verification/Connected_Nodes.thy ===== *)
theory Connected_Nodes
  imports Workflow_Types
begin

text \<open>
  The helpers of \<^verbatim>\<open>packages/workflow/src/common/\<close> over the raw connection object: the inversion
  of a connection object (\<^verbatim>\<open>map-connections-by-destination.ts\<close>), the memoised collection of all
  connected nodes (\<^verbatim>\<open>get-connected-nodes.ts\<close>) with its two callers, node lookup by name and the
  resolution of scoped variables.
\<close>

section \<open>Connections by destination\<close>

text \<open>
  \<open>push_at j c bs\<close> fills the array up to index \<open>j\<close> with empty buckets and appends \<open>c\<close> to bucket
  \<open>j\<close>; \<^verbatim>\<open>?.push\<close> does nothing on a missing bucket.
\<close>

definition push_at :: "nat \<Rightarrow> iconnection \<Rightarrow> conn_bucket list \<Rightarrow> conn_bucket list" where
  "push_at j c bs =
     (let bs' = bs @ replicate (Suc j - length bs) (Some [])
      in bs'[j := map_option (\<lambda>cs. cs @ [c]) (bs' ! j)])"

definition entry_or :: "'v \<Rightarrow> (string \<times> 'v) list \<Rightarrow> string \<Rightarrow> 'v" where
  "entry_or d m k = (case map_of m k of None \<Rightarrow> d | Some v \<Rightarrow> v)"

fun add_by_destination :: "conn_entry \<Rightarrow> iconnections \<Rightarrow> iconnections" where
  "add_by_destination (sourceNode, ty, inputIndex, info) ret =
     (let tys = entry_or [] ret (conn_node info);
          bs = entry_or [] tys (conn_type info);
          back = \<lparr>conn_node = sourceNode, conn_type = ty, conn_index = inputIndex\<rparr>
      in obj_put (conn_node info) (obj_put (conn_type info) (push_at (conn_index info) back bs) tys) ret)"

definition mapConnectionsByDestination :: "iconnections \<Rightarrow> iconnections" where
  "mapConnectionsByDestination connections = fold add_by_destination (conn_entries connections) []"

text \<open>The edge of an entry, seen from its other end.\<close>

fun flip_entry :: "conn_entry \<Rightarrow> conn_entry" where
  "flip_entry (s, t, i, c) =
     (conn_node c, conn_type c, conn_index c, \<lparr>conn_node = s, conn_type = t, conn_index = i\<rparr>)"

lemma flip_flip [simp]: "flip_entry (flip_entry e) = e"
  by (cases e) simp

lemma concat_update:
  "i < length xs \<Longrightarrow> mset (concat (xs[i := y])) + mset (xs ! i) = mset (concat xs) + mset y"
proof (induction xs arbitrary: i)
  case Nil
  then show ?case by simp
next
  case (Cons x xs)
  then show ?case by (cases i) (auto simp: add.assoc add.left_commute)
qed

lemma bucket_entries_append_empty:
  "bucket_entries nm ty (bs @ replicate n (Some [])) = bucket_entries nm ty bs"
proof -
  have "concat (map (\<lambda>(i, b). map (\<lambda>c. (nm, ty, i, c)) (case b of None \<Rightarrow> [] | Some cs \<Rightarrow> cs))
      (enumerate k (replicate n (Some [])))) = []" for k
    by (induction n arbitrary: k) auto
  then show ?thesis by (simp add: bucket_entries_def enumerate_append_eq)
qed

lemma mset_bucket_entries_update:
  assumes "j < length bs" and "bs ! j = Some cs"
  shows "mset (bucket_entries nm ty (bs[j := Some (cs @ [c])])) = add_mset (nm, ty, j, c) (mset (bucket_entries nm ty bs))"
proof -
  let ?f = "\<lambda>(i, b). map (\<lambda>c. (nm, ty, i, c)) (case b of None \<Rightarrow> [] | Some cs \<Rightarrow> cs)"
  have len: "j < length (map ?f (enumerate 0 bs))" using assms by simp
  have nth: "map ?f (enumerate 0 bs) ! j = map (\<lambda>c. (nm, ty, j, c)) cs"
    using assms by (simp add: nth_enumerate_eq)
  have "enumerate 0 (bs[j := Some (cs @ [c])]) = (enumerate 0 bs)[j := (j, Some (cs @ [c]))]"
    using assms(1) by (intro nth_equalityI) (auto simp: nth_enumerate_eq nth_list_update)
  then have upd: "map ?f (enumerate 0 (bs[j := Some (cs @ [c])])) =
      (map ?f (enumerate 0 bs))[j := map (\<lambda>c. (nm, ty, j, c)) (cs @ [c])]"
    by (simp add: map_update)
  show ?thesis
    using concat_update [OF len, of "map (\<lambda>c. (nm, ty, j, c)) (cs @ [c])"]
    unfolding nth upd [symmetric] by (simp add: bucket_entries_def)
qed

text \<open>The buckets of an inverted object are never null.\<close>

definition full_buckets :: "conn_bucket list \<Rightarrow> bool" where
  "full_buckets bs \<longleftrightarrow> None \<notin> set bs"

lemma mset_push_at:
  assumes "full_buckets bs"
  shows "mset (bucket_entries nm ty (push_at j c bs)) = add_mset (nm, ty, j, c) (mset (bucket_entries nm ty bs))"
    and "full_buckets (push_at j c bs)"
proof -
  let ?bs = "bs @ replicate (Suc j - length bs) (Some [])"
  have j: "j < length ?bs" by simp
  have "None \<notin> set ?bs" using assms by (simp add: full_buckets_def)
  with j obtain cs where cs: "?bs ! j = Some cs" by (metis not_None_eq nth_mem)
  have eq: "push_at j c bs = ?bs[j := Some (cs @ [c])]"
    using cs by (simp add: push_at_def Let_def)
  show "mset (bucket_entries nm ty (push_at j c bs)) = add_mset (nm, ty, j, c) (mset (bucket_entries nm ty bs))"
    unfolding eq by (simp add: mset_bucket_entries_update [OF j cs] bucket_entries_append_empty)
  show "full_buckets (push_at j c bs)"
    using \<open>None \<notin> set ?bs\<close> set_update_subset_insert [of ?bs j "Some (cs @ [c])"]
    unfolding eq full_buckets_def by blast
qed

lemma mset_node_entries: "mset (node_entries nm tys) = (\<Sum>e \<in># mset tys. mset (bucket_entries nm (fst e) (snd e)))"
  by (induction tys) (auto simp: node_entries_def)

lemma mset_conn_entries: "mset (conn_entries cs) = (\<Sum>e \<in># mset cs. mset (node_entries (fst e) (snd e)))"
  by (induction cs) (auto simp: conn_entries_def)

definition full_conns :: "iconnections \<Rightarrow> bool" where
  "full_conns cs \<longleftrightarrow> conns_wf cs \<and> (\<forall>(nm, tys) \<in> set cs. \<forall>(ty, bs) \<in> set tys. full_buckets bs)"

lemma full_conns_entry:
  assumes "full_conns cs"
  shows "distinct (map fst (entry_or [] cs nm))"
    and "(ty, bs) \<in> set (entry_or [] cs nm) \<Longrightarrow> full_buckets bs"
  using assms by (auto simp: full_conns_def conns_wf_def entry_or_def split: option.splits dest!: map_of_SomeD)

lemma full_conns_put:
  assumes "full_conns cs" and "distinct (map fst tys)" and "\<forall>(ty, bs) \<in> set tys. full_buckets bs"
  shows "full_conns (obj_put nm tys cs)"
  using assms js_obj.entries_put [of cs nm tys] js_obj.distinct_put [of cs nm tys]
  by (auto simp: full_conns_def conns_wf_def)

lemma add_by_destination_step:
  assumes "full_conns ret"
  shows "full_conns (add_by_destination e ret)
    \<and> mset (conn_entries (add_by_destination e ret)) = add_mset (flip_entry e) (mset (conn_entries ret))"
proof -
  obtain s t i c where e: "e = (s, t, i, c)" by (cases e)
  define tys where "tys = entry_or [] ret (conn_node c)"
  define bs where "bs = entry_or [] tys (conn_type c)"
  define bs' where "bs' = push_at (conn_index c) \<lparr>conn_node = s, conn_type = t, conn_index = i\<rparr> bs"
  define tys' where "tys' = obj_put (conn_type c) bs' tys"
  have eq: "add_by_destination e ret = obj_put (conn_node c) tys' ret"
    by (simp add: e Let_def tys'_def bs'_def bs_def tys_def)
  have dtys: "distinct (map fst tys)" and ftys: "\<And>ty bs. (ty, bs) \<in> set tys \<Longrightarrow> full_buckets bs"
    using full_conns_entry [OF assms] by (auto simp: tys_def)
  have fbs: "full_buckets bs"
    using ftys by (cases "map_of tys (conn_type c)")
      (auto simp: bs_def entry_or_def full_buckets_def dest: map_of_SomeD)
  note push = mset_push_at [OF fbs, where c = "\<lparr>conn_node = s, conn_type = t, conn_index = i\<rparr>"
      and j = "conn_index c", folded bs'_def]
  have "distinct (map fst tys')" "\<forall>(ty, bs) \<in> set tys'. full_buckets bs"
    using js_obj.distinct_put [OF dtys] js_obj.entries_put [OF dtys] ftys push(2) by (auto simp: tys'_def)
  then have full: "full_conns (obj_put (conn_node c) tys' ret)"
    using assms by (rule full_conns_put [rotated])
  let ?n = "conn_node c"
  have sb: "mset (node_entries ?n tys') + mset (bucket_entries ?n (conn_type c) bs)
      = mset (bucket_entries ?n (conn_type c) bs') + mset (node_entries ?n tys)"
    using js_obj.sum_put [OF dtys, of "\<lambda>e. mset (bucket_entries ?n (fst e) (snd e))" "conn_type c" bs']
    by (cases "map_of tys (conn_type c)")
      (auto simp: mset_node_entries tys'_def bs_def entry_or_def bucket_entries_def)
  then have node: "mset (node_entries ?n tys') = add_mset (flip_entry e) (mset (node_entries ?n tys))"
    using push(1) [of ?n "conn_type c"] by (simp add: e)
  have dret: "distinct (map fst ret)" using assms by (simp add: full_conns_def conns_wf_def)
  have "mset (conn_entries (obj_put ?n tys' ret)) + mset (node_entries ?n tys)
      = mset (node_entries ?n tys') + mset (conn_entries ret)"
    using js_obj.sum_put [OF dret, of "\<lambda>e. mset (node_entries (fst e) (snd e))" ?n tys']
    by (cases "map_of ret ?n") (auto simp: mset_conn_entries tys_def entry_or_def node_entries_def)
  with node full show ?thesis by (simp add: eq)
qed

lemma fold_by_destination:
  assumes "full_conns ret"
  shows "full_conns (fold add_by_destination es ret)
    \<and> mset (conn_entries (fold add_by_destination es ret)) = image_mset flip_entry (mset es) + mset (conn_entries ret)"
  using assms
proof (induction es arbitrary: ret)
  case Nil
  then show ?case by simp
next
  case (Cons e es)
  from add_by_destination_step [OF Cons.prems, of e] Cons.IH [of "add_by_destination e ret"]
  show ?case by simp
qed

lemma mapConnectionsByDestination_full: "full_conns (mapConnectionsByDestination cs)"
  and mset_mapConnectionsByDestination:
    "mset (conn_entries (mapConnectionsByDestination cs)) = image_mset flip_entry (mset (conn_entries cs))"
  using fold_by_destination [of "[]" "conn_entries cs"]
  by (simp_all add: mapConnectionsByDestination_def full_conns_def conns_wf_def conn_entries_def)

section \<open>All connected nodes\<close>

text \<open>
  \<^verbatim>\<open>getConnectedNodes\<close> follows one connection type, or all, or all but \<^verbatim>\<open>main\<close>.
\<close>

datatype conn_filter = OneType string | AllTypes | AllNonMain

definition filter_types :: "conn_filter \<Rightarrow> node_connections \<Rightarrow> string list" where
  "filter_types flt tys =
     (case flt of
        AllTypes \<Rightarrow> map fst tys
      | AllNonMain \<Rightarrow> filter (\<lambda>t. t \<noteq> Main_type) (map fst tys)
      | OneType t \<Rightarrow> [t])"

definition bucket_targets :: "conn_bucket list \<Rightarrow> iconnection list" where
  "bucket_targets bs = concat (map (\<lambda>b. case b of None \<Rightarrow> [] | Some cs \<Rightarrow> cs) bs)"

definition type_targets :: "node_connections \<Rightarrow> string \<Rightarrow> iconnection list" where
  "type_targets tys t = (case map_of tys t of None \<Rightarrow> [] | Some bs \<Rightarrow> bucket_targets bs)"

definition followed :: "conn_filter \<Rightarrow> node_connections \<Rightarrow> iconnection list" where
  "followed flt tys = concat (map (type_targets tys) (filter_types flt tys))"

text \<open>Drop the first occurrence, if any, and put the name in front.\<close>

definition move_front :: "'a \<Rightarrow> 'a list \<Rightarrow> 'a list" where
  "move_front x xs = x # remove1 x xs"

text \<open>
  The memo is keyed by remaining depth and node (the code joins the two with a colon, which is
  injective). \<open>path\<close> is the mutable set \<^verbatim>\<open>currentPath\<close>: a call adds its node and deletes it
  before it returns, and it is only called for nodes off the path, so the caller's set is
  unchanged and the model passes it down. A recursive call is one level deeper on the path and
  the path holds nodes with connections only, which bounds the fuel.
\<close>

type_synonym conn_memo = "((int \<times> string) \<times> string list) list"

primrec collectConnectedNodes ::
    "nat \<Rightarrow> iconnections \<Rightarrow> conn_filter \<Rightarrow> string \<Rightarrow> int \<Rightarrow> string list \<Rightarrow> conn_memo
      \<Rightarrow> (string list \<times> conn_memo) result" where
  "collectConnectedNodes 0 connections flt nodeName depth path memo = Inl OutOfFuel"
| "collectConnectedNodes (Suc fuel) connections flt nodeName depth path memo =
     (if depth = 0 then Inr ([], memo)
      else case map_of connections nodeName of
        None \<Rightarrow> Inr ([], memo)
      | Some tys \<Rightarrow>
          (case map_of memo (depth, nodeName) of
             Some cached \<Rightarrow> Inr (cached, memo)
           | None \<Rightarrow>
               (let newDepth = (if depth = -1 then depth else depth - 1);
                    path' = set_add nodeName path
                in res_bind
                     (for_each
                        (\<lambda>c (returnNodes, memo).
                           if conn_node c \<in> set path' then Inr (returnNodes, memo)
                           else res_bind (collectConnectedNodes fuel connections flt (conn_node c) newDepth path' memo)
                                  (\<lambda>(addNodes, memo).
                                     Inr (fold move_front (rev addNodes) (move_front (conn_node c) returnNodes), memo)))
                        (followed flt tys) ([], memo))
                     (\<lambda>(returnNodes, memo). Inr (returnNodes, map_set (depth, nodeName) returnNodes memo)))))"

definition getConnectedNodes :: "iconnections \<Rightarrow> string \<Rightarrow> conn_filter \<Rightarrow> int \<Rightarrow> string list result" where
  "getConnectedNodes connections nodeName flt depth =
     res_bind (collectConnectedNodes (Suc (Suc (length connections))) connections flt nodeName depth [] [])
       (\<lambda>(nodes, _). Inr nodes)"

definition getChildNodes :: "iconnections \<Rightarrow> string \<Rightarrow> conn_filter \<Rightarrow> int \<Rightarrow> string list result" where
  "getChildNodes connectionsBySourceNode nodeName flt depth =
     getConnectedNodes connectionsBySourceNode nodeName flt depth"

definition getParentNodes :: "iconnections \<Rightarrow> string \<Rightarrow> conn_filter \<Rightarrow> int \<Rightarrow> string list result" where
  "getParentNodes connectionsByDestinationNode nodeName flt depth =
     getConnectedNodes connectionsByDestinationNode nodeName flt depth"

text \<open>One hop, and the nodes some hops away.\<close>

definition hops :: "iconnections \<Rightarrow> conn_filter \<Rightarrow> string \<Rightarrow> string set" where
  "hops connections flt nm =
     (case map_of connections nm of None \<Rightarrow> {} | Some tys \<Rightarrow> conn_node ` set (followed flt tys))"

definition hop_rel :: "iconnections \<Rightarrow> conn_filter \<Rightarrow> (string \<times> string) set" where
  "hop_rel connections flt = {(a, b). b \<in> hops connections flt a}"

lemma set_move_front [simp]: "set (move_front x xs) = insert x (set xs)"
  by (induction xs) (auto simp: move_front_def)

lemma distinct_move_front [simp]: "distinct xs \<Longrightarrow> distinct (move_front x xs)"
  by (simp add: move_front_def)

lemma set_move_all [simp]: "set (fold move_front as xs) = set as \<union> set xs"
  by (induction as arbitrary: xs) auto

lemma distinct_move_all [simp]: "distinct xs \<Longrightarrow> distinct (fold move_front as xs)"
  by (induction as arbitrary: xs) auto

text \<open>
  The invariant of the memo under unlimited depth. \<open>settled\<close> nodes need no further expansion.
  A memoised list need not hold all the nodes reachable from its key: nodes that were on the
  path when it was computed are missing, and it is the caller that has them.
\<close>

definition done_in :: "conn_memo \<Rightarrow> string \<Rightarrow> bool" where
  "done_in memo x \<longleftrightarrow> map_of memo (-1, x) \<noteq> None"

definition settled :: "iconnections \<Rightarrow> conn_memo \<Rightarrow> string \<Rightarrow> bool" where
  "settled connections memo x \<longleftrightarrow> done_in memo x \<or> map_of connections x = None"

definition memo_ok :: "iconnections \<Rightarrow> conn_filter \<Rightarrow> string set \<Rightarrow> conn_memo \<Rightarrow> bool" where
  "memo_ok connections flt P memo \<longleftrightarrow>
     (\<forall>x r. map_of memo (-1, x) = Some r \<longrightarrow>
        distinct r \<and> x \<notin> set r \<and> x \<notin> P
        \<and> (\<forall>z \<in> set r. (x, z) \<in> (hop_rel connections flt)\<^sup>+ \<and> settled connections memo z))"

text \<open>What a call for \<open>nm\<close> on path \<open>P\<close> does.\<close>

definition collected ::
    "iconnections \<Rightarrow> conn_filter \<Rightarrow> string set \<Rightarrow> string \<Rightarrow> conn_memo \<Rightarrow> string list \<Rightarrow> conn_memo \<Rightarrow> bool" where
  "collected connections flt P nm memo ret memo' \<longleftrightarrow>
     memo_ok connections flt P memo'
     \<and> (\<forall>x. done_in memo x \<longrightarrow> done_in memo' x)
     \<and> settled connections memo' nm
     \<and> distinct ret \<and> nm \<notin> set ret \<and> set ret \<inter> P = {}
     \<and> (\<forall>z \<in> set ret. settled connections memo' z \<and> (nm, z) \<in> (hop_rel connections flt)\<^sup>+)
     \<and> (\<forall>x. done_in memo' x \<and> \<not> done_in memo x \<longrightarrow>
          x \<in> insert nm (set ret) \<and> hops connections flt x \<subseteq> set ret \<union> insert nm P)"

text \<open>The same while the buckets of \<open>nm\<close> are being followed.\<close>

definition collecting ::
    "iconnections \<Rightarrow> conn_filter \<Rightarrow> string set \<Rightarrow> string \<Rightarrow> conn_memo \<Rightarrow> iconnection list
      \<Rightarrow> string list \<Rightarrow> conn_memo \<Rightarrow> bool" where
  "collecting connections flt P nm memo us R M \<longleftrightarrow>
     memo_ok connections flt (insert nm P) M
     \<and> (\<forall>x. done_in memo x \<longrightarrow> done_in M x)
     \<and> distinct R \<and> set R \<inter> insert nm P = {}
     \<and> (\<forall>z \<in> set R. settled connections M z \<and> (nm, z) \<in> (hop_rel connections flt)\<^sup>+)
     \<and> conn_node ` set us \<subseteq> set R \<union> insert nm P
     \<and> (\<forall>x. done_in M x \<and> \<not> done_in memo x \<longrightarrow> x \<in> set R \<and> hops connections flt x \<subseteq> set R \<union> insert nm P)"

lemma settled_mono: "(\<forall>x. done_in memo x \<longrightarrow> done_in memo' x) \<Longrightarrow> settled cs memo z \<Longrightarrow> settled cs memo' z"
  by (auto simp: settled_def)

lemma collecting_step:
  assumes "collecting cs flt P nm memo us R M"
    and "collected cs flt (insert nm P) (conn_node c) M add M'"
    and "conn_node c \<notin> insert nm P"
    and "conn_node c \<in> hops cs flt nm"
  shows "collecting cs flt P nm memo (us @ [c]) (fold move_front (rev add) (move_front (conn_node c) R)) M'"
proof -
  let ?y = "conn_node c" and ?R = "fold move_front (rev add) (move_front (conn_node c) R)"
  have set: "set ?R = set add \<union> insert ?y (set R)" by simp
  have edge: "(nm, ?y) \<in> hop_rel cs flt" using assms(4) by (simp add: hop_rel_def)
  note A = assms(1) [unfolded collecting_def] and B = assms(2) [unfolded collected_def]
  have mono: "\<forall>x. done_in M x \<longrightarrow> done_in M' x" using B by blast
  have "\<forall>z \<in> set ?R. settled cs M' z \<and> (nm, z) \<in> (hop_rel cs flt)\<^sup>+"
    unfolding set using A B settled_mono [OF mono] edge
    by (auto intro: trancl_into_trancl2)
  moreover have "x \<in> set ?R \<and> hops cs flt x \<subseteq> set ?R \<union> insert nm P"
    if "done_in M' x" "\<not> done_in memo x" for x
  proof (cases "done_in M x")
    case True
    with that A show ?thesis unfolding set by blast
  next
    case False
    with that B show ?thesis unfolding set by blast
  qed
  ultimately show ?thesis
    unfolding collecting_def using A B assms(3) unfolding set by auto
qed

lemma collected_fresh:
  assumes "collecting cs flt P nm memo us R M" and "set us = set (followed flt tys)"
    and "map_of cs nm = Some tys" and "nm \<notin> P"
  shows "collected cs flt P nm memo R (map_set (-1, nm) R M)"
proof -
  let ?M = "map_set (-1, nm) R M"
  have look: "map_of ?M (-1, x) = (if x = nm then Some R else map_of M (-1, x))" for x
    by (simp add: update_conv')
  then have dn: "done_in ?M x \<longleftrightarrow> x = nm \<or> done_in M x" for x
    by (simp add: done_in_def)
  then have st: "settled cs M z \<Longrightarrow> settled cs ?M z" for z by (auto simp: settled_def)
  note A = assms(1) [unfolded collecting_def]
  have "hops cs flt nm \<subseteq> set R \<union> insert nm P"
    using A assms(2,3) by (simp add: hops_def)
  moreover have "memo_ok cs flt P ?M"
    unfolding memo_ok_def look using A assms(4) st by (auto simp: memo_ok_def split: if_splits)
  ultimately show ?thesis
    unfolding collected_def dn using A st dn by (auto simp: settled_def)
qed

lemma card_path_less:
  assumes "distinct path" and "set path \<subseteq> dom (map_of cs)" and "nm \<notin> set path"
    and "map_of cs nm = Some tys" and "length cs - length path < Suc f"
  shows "length cs - length (set_add nm path) < f"
proof -
  have "insert nm (set path) \<subseteq> fst ` set cs"
    using assms(2,4) by (metis domI dom_map_of_conv_image_fst insert_subset)
  then have "card (insert nm (set path)) \<le> length cs"
    using card_mono [of "fst ` set cs" "insert nm (set path)"] card_image_le [of "set cs" fst] card_length [of cs]
    by simp
  moreover have "length (set_add nm path) = Suc (length path)"
    using assms(3) by (simp add: set_add_def)
  moreover have "card (insert nm (set path)) = Suc (length path)"
    using assms(1,3) by (simp add: distinct_card)
  ultimately show ?thesis using assms(5) by simp
qed

lemma collectConnectedNodes_correct:
  assumes "memo_ok cs flt (set path) memo" and "distinct path" and "set path \<subseteq> dom (map_of cs)"
    and "nm \<notin> set path" and "length cs - length path < f"
  shows "\<exists>ret memo'. collectConnectedNodes f cs flt nm (-1) path memo = Inr (ret, memo')
    \<and> collected cs flt (set path) nm memo ret memo'"
  using assms
proof (induction f arbitrary: nm path memo)
  case 0
  then show ?case by simp
next
  case (Suc f)
  show ?case
  proof (cases "map_of cs nm")
    case None
    with Suc.prems(1) show ?thesis by (auto simp: collected_def settled_def)
  next
    case (Some tys)
    show ?thesis
    proof (cases "map_of memo (-1, nm)")
      case (Some cached)
      have "set cached \<inter> set path = {}"
      proof (rule ccontr)
        assume "set cached \<inter> set path \<noteq> {}"
        then obtain z where z: "z \<in> set cached" "z \<in> set path" by blast
        then have "settled cs memo z" using Suc.prems(1) Some by (simp add: memo_ok_def)
        moreover have "map_of cs z \<noteq> None" using Suc.prems(3) z(2) by blast
        ultimately show False using Suc.prems(1) z(2) by (auto simp: settled_def done_in_def memo_ok_def)
      qed
      with Suc.prems(1) Some \<open>map_of cs nm = Some tys\<close> show ?thesis
        by (auto simp: collected_def settled_def memo_ok_def done_in_def)
    next
      case None
      let ?path = "set_add nm path"
      let ?step = "\<lambda>c (ret, memo). if conn_node c \<in> set ?path then Inr (ret, memo)
         else res_bind (collectConnectedNodes f cs flt (conn_node c) (-1) ?path memo)
           (\<lambda>(add, memo). Inr (fold move_front (rev add) (move_front (conn_node c) ret), memo))"
      have path: "distinct ?path" "set ?path \<subseteq> dom (map_of cs)" "length cs - length ?path < f"
        using Suc.prems(2,3) Some card_path_less [OF Suc.prems(2-4) Some Suc.prems(5)] by auto
      have "\<exists>t. for_each ?step (followed flt tys) ([], memo) = Inr t
          \<and> (case t of (R, M) \<Rightarrow> collecting cs flt (set path) nm memo (followed flt tys) R M)"
      proof (rule for_each_total [where P = "\<lambda>us (R, M). collecting cs flt (set path) nm memo us R M"])
        show "case ([], memo) of (R, M) \<Rightarrow> collecting cs flt (set path) nm memo [] R M"
          using Suc.prems(1) None by (auto simp: collecting_def memo_ok_def)
      next
        fix ys c zs s
        assume split: "followed flt tys = ys @ c # zs"
          and inv: "case s of (R, M) \<Rightarrow> collecting cs flt (set path) nm memo ys R M"
        obtain R M where s: "s = (R, M)" by (cases s)
        show "\<exists>s'. ?step c s = Inr s' \<and> (case s' of (R, M) \<Rightarrow> collecting cs flt (set path) nm memo (ys @ [c]) R M)"
        proof (cases "conn_node c \<in> set ?path")
          case True
          with inv s show ?thesis by (auto simp: collecting_def)
        next
          case False
          have "memo_ok cs flt (set ?path) M" using inv s by (simp add: collecting_def)
          from Suc.IH [OF this path(1,2) False path(3)] obtain add M' where
            rec: "collectConnectedNodes f cs flt (conn_node c) (-1) ?path M = Inr (add, M')"
            and col: "collected cs flt (insert nm (set path)) (conn_node c) M add M'" by auto
          have "conn_node c \<in> hops cs flt nm" using split Some by (simp add: hops_def)
          with collecting_step [OF _ col] inv s False rec show ?thesis by auto
        qed
      qed
      then obtain R M where loop: "for_each ?step (followed flt tys) ([], memo) = Inr (R, M)"
        and inv: "collecting cs flt (set path) nm memo (followed flt tys) R M" by auto
      from collected_fresh [OF inv refl Some Suc.prems(4)] loop Some None
      show ?thesis by (simp add: Let_def)
    qed
  qed
qed

text \<open>
  Under unlimited depth the result is exactly the set of the other nodes reachable by one or
  more hops, each listed once.
\<close>

theorem getConnectedNodes_reachable:
  "\<exists>ns. getConnectedNodes cs nm flt (-1) = Inr ns \<and> distinct ns
     \<and> set ns = {x. (nm, x) \<in> (hop_rel cs flt)\<^sup>+ \<and> x \<noteq> nm}"
proof -
  have "memo_ok cs flt (set []) []" by (simp add: memo_ok_def)
  from collectConnectedNodes_correct [OF this, of nm "Suc (Suc (length cs))"] obtain ns memo where
    run: "collectConnectedNodes (Suc (Suc (length cs))) cs flt nm (-1) [] [] = Inr (ns, memo)"
    and col: "collected cs flt {} nm [] ns memo" by auto
  note C = col [unfolded collected_def]
  have closed: "hops cs flt x \<subseteq> set ns \<union> {nm}" if "x \<in> insert nm (set ns)" for x
  proof (cases "done_in memo x")
    case True
    then show ?thesis using C by (auto simp: done_in_def)
  next
    case False
    with that C have "map_of cs x = None" by (auto simp: settled_def)
    then show ?thesis by (simp add: hops_def)
  qed
  have reach: "x \<in> insert nm (set ns)" if "(nm, x) \<in> (hop_rel cs flt)\<^sup>*" for x
    using that by (rule closed_contains_rtrancl) (use closed in \<open>auto simp: hop_rel_def\<close>)
  have "set ns = {x. (nm, x) \<in> (hop_rel cs flt)\<^sup>+ \<and> x \<noteq> nm}"
    using C reach [OF trancl_into_rtrancl] by blast
  moreover have "getConnectedNodes cs nm flt (-1) = Inr ns"
    unfolding getConnectedNodes_def run by simp
  ultimately show ?thesis using C by blast
qed

text \<open>Whatever the depth, the recursion ends within its fuel.\<close>

lemma collectConnectedNodes_fuel:
  assumes "distinct path" and "set path \<subseteq> dom (map_of cs)" and "nm \<notin> set path"
    and "length cs - length path < f"
  shows "\<exists>r. collectConnectedNodes f cs flt nm d path memo = Inr r"
  using assms
proof (induction f arbitrary: nm d path memo)
  case 0
  then show ?case by simp
next
  case (Suc f)
  show ?case
  proof (cases "d = 0 \<or> map_of cs nm = None \<or> map_of memo (d, nm) \<noteq> None")
    case True
    then show ?thesis by (auto split: option.splits)
  next
    case False
    then obtain tys where tys: "map_of cs nm = Some tys" "d \<noteq> 0" "map_of memo (d, nm) = None" by auto
    let ?path = "set_add nm path" and ?d = "if d = -1 then d else d - 1"
    let ?step = "\<lambda>c (ret, memo). if conn_node c \<in> set ?path then Inr (ret, memo)
         else res_bind (collectConnectedNodes f cs flt (conn_node c) ?d ?path memo)
           (\<lambda>(add, memo). Inr (fold move_front (rev add) (move_front (conn_node c) ret), memo))"
    have path: "distinct ?path" "set ?path \<subseteq> dom (map_of cs)" "length cs - length ?path < f"
      using Suc.prems(1,2) tys card_path_less [OF Suc.prems(1-3) tys(1) Suc.prems(4)] by auto
    have "\<exists>t. for_each ?step (followed flt tys) ([], memo) = Inr t \<and> True"
    proof (rule for_each_total)
      fix ys c zs and s :: "string list \<times> conn_memo"
      obtain R M where "s = (R, M)" by (cases s)
      with Suc.IH [OF path(1,2) _ path(3), of "conn_node c" ?d M]
      show "\<exists>s'. ?step c s = Inr s' \<and> True" by fastforce
    qed simp
    then obtain R M where "for_each ?step (followed flt tys) ([], memo) = Inr (R, M)" by auto
    with tys show ?thesis by (simp add: Let_def)
  qed
qed

lemma getConnectedNodes_total: "\<exists>ns. getConnectedNodes cs nm flt d = Inr ns"
  using collectConnectedNodes_fuel [of "[]" cs nm "Suc (Suc (length cs))" flt d "[]"]
  by (auto simp: getConnectedNodes_def simp del: collectConnectedNodes.simps)

end
