(* ===== verification/Workflow_Graph.thy ===== *)
theory Workflow_Graph
  imports Connected_Nodes
begin

text \<open>
  The graph queries of the class \<^verbatim>\<open>Workflow\<close> (\<^verbatim>\<open>packages/workflow/src/workflow.ts\<close>): its state (the
  nodes by name, the connections by source and by destination), the setters, node queries, the
  search for the highest parents, the two breadth-first searches and the choice of a start node.
  The registry of node types is supplied by the host, so it is a field of the state, a function
  from type and version.
\<close>

section \<open>State\<close>

text \<open>
  \<^verbatim>\<open>requiredInputs\<close> is a number of inputs, a list of input indices or an expression that gives one
  of them. \<open>nt_inputsLength\<close> is \<^verbatim>\<open>description.inputs.length\<close>: the number of inputs, or of characters
  where the inputs are an expression.
\<close>

datatype required_inputs = RequiredCount nat | RequiredIndices "nat list" | RequiredExpression string

record node_type =
  nt_name :: string
  nt_group :: "string list"
  nt_trigger :: bool
  nt_poll :: bool
  nt_requiredInputs :: "required_inputs option"
  nt_inputsLength :: nat

record workflow =
  wf_nodes :: "(string \<times> inode) list"
  wf_connectionsBySourceNode :: iconnections
  wf_connectionsByDestinationNode :: iconnections
  wf_nodeTypes :: "string \<Rightarrow> nat \<times> nat \<Rightarrow> node_type option"
  wf_executionOrder :: "string option"
  wf_pinData :: "pin_data option"

definition setNodes :: "inode list \<Rightarrow> workflow \<Rightarrow> workflow" where
  "setNodes nodes w = w\<lparr>wf_nodes := fold (\<lambda>n. obj_put (node_name n) n) nodes []\<rparr>"

definition setConnections :: "iconnections \<Rightarrow> workflow \<Rightarrow> workflow" where
  "setConnections connections w =
     w\<lparr>wf_connectionsBySourceNode := connections,
        wf_connectionsByDestinationNode := mapConnectionsByDestination connections\<rparr>"

definition setPinData :: "pin_data option \<Rightarrow> workflow \<Rightarrow> workflow" where
  "setPinData pinData w = w\<lparr>wf_pinData := pinData\<rparr>"

text \<open>The object's own keys only: an inherited property name is not a node.\<close>

definition getNode :: "workflow \<Rightarrow> string \<Rightarrow> inode option" where
  "getNode w nodeName = map_of (wf_nodes w) nodeName"

definition getNodes :: "workflow \<Rightarrow> string list \<Rightarrow> inode list" where
  "getNodes w nodeNames = List.map_filter (getNode w) nodeNames"

definition getPinDataOfNode :: "workflow \<Rightarrow> string \<Rightarrow> exec_item list option" where
  "getPinDataOfNode w nodeName = Option.bind (wf_pinData w) (\<lambda>p. map_of p nodeName)"

definition node_type_of :: "workflow \<Rightarrow> inode \<Rightarrow> node_type option" where
  "node_type_of w n = wf_nodeTypes w (node_type n) (node_typeVersion n)"

definition queryNodes :: "workflow \<Rightarrow> (node_type \<Rightarrow> bool) \<Rightarrow> inode list" where
  "queryNodes w check =
     filter (\<lambda>n. \<not> is_disabled n \<and> (case node_type_of w n of None \<Rightarrow> False | Some t \<Rightarrow> check t))
       (map_values (wf_nodes w))"

definition getTriggerNodes :: "workflow \<Rightarrow> inode list" where
  "getTriggerNodes w = queryNodes w nt_trigger"

definition getPollNodes :: "workflow \<Rightarrow> inode list" where
  "getPollNodes w = queryNodes w nt_poll"

definition wf_getChildNodes :: "workflow \<Rightarrow> string \<Rightarrow> conn_filter \<Rightarrow> int \<Rightarrow> string list result" where
  "wf_getChildNodes w nodeName ty depth = getChildNodes (wf_connectionsBySourceNode w) nodeName ty depth"

definition wf_getParentNodes :: "workflow \<Rightarrow> string \<Rightarrow> conn_filter \<Rightarrow> int \<Rightarrow> string list result" where
  "wf_getParentNodes w nodeName ty depth = getParentNodes (wf_connectionsByDestinationNode w) nodeName ty depth"

text \<open>A workflow whose two connection objects were set together.\<close>

definition workflow_wf :: "workflow \<Rightarrow> bool" where
  "workflow_wf w \<longleftrightarrow>
     distinct (map fst (wf_nodes w))
     \<and> (\<forall>(k, n) \<in> set (wf_nodes w). node_name n = k)
     \<and> conns_wf (wf_connectionsBySourceNode w)
     \<and> wf_connectionsByDestinationNode w = mapConnectionsByDestination (wf_connectionsBySourceNode w)"

lemma setNodes_entries:
  "distinct (map fst (wf_nodes (setNodes ns w))) \<and> (\<forall>(k, n) \<in> set (wf_nodes (setNodes ns w)). node_name n = k)"
proof -
  have "distinct (map fst (fold (\<lambda>n. obj_put (node_name n) n) ns m))
      \<and> (\<forall>(k, n) \<in> set (fold (\<lambda>n. obj_put (node_name n) n) ns m). node_name n = k)"
    if "distinct (map fst m)" "\<forall>(k, n) \<in> set m. node_name n = k" for m
    using that
  proof (induction ns arbitrary: m)
    case Nil
    then show ?case by simp
  next
    case (Cons n ns)
    have "\<forall>(k, n') \<in> set (obj_put (node_name n) n m). node_name n' = k"
      using Cons.prems js_obj.entries_put [of m "node_name n" n] by auto
    with Cons.IH [OF js_obj.distinct_put [OF Cons.prems(1)]] show ?case by simp
  qed
  from this [of "[]"] show ?thesis by (simp add: setNodes_def)
qed

lemma workflow_wf_set: "conns_wf cs \<Longrightarrow> workflow_wf (setConnections cs (setNodes ns w))"
  using setNodes_entries [of ns w] by (simp add: workflow_wf_def setConnections_def)

section \<open>Highest parent nodes\<close>

text \<open>
  \<^verbatim>\<open>checkedNodes\<close> is one array shared by all recursive calls, so it is part of the state that a
  call returns. Only nodes of the workflow not checked before are descended into.
\<close>

definition indexed_buckets :: "nat option \<Rightarrow> conn_bucket list \<Rightarrow> iconnection list" where
  "indexed_buckets idx bs =
     concat (map (\<lambda>(i, b). case b of None \<Rightarrow> [] | Some cs \<Rightarrow> cs)
       (filter (\<lambda>(i, b). case idx of None \<Rightarrow> True | Some j \<Rightarrow> i = j) (enumerate 0 bs)))"

primrec highest_node :: "nat \<Rightarrow> workflow \<Rightarrow> string \<Rightarrow> nat option \<Rightarrow> string list \<Rightarrow> (string list \<times> string list) result" where
  "highest_node 0 w nodeName idx checked = Inl OutOfFuel"
| "highest_node (Suc fuel) w nodeName idx checked =
     (case map_of (wf_nodes w) nodeName of
        None \<Rightarrow> Inr ([], checked)
      | Some node \<Rightarrow>
          (let currentHighest = (if node_disabled node = Some False then [nodeName] else [])
           in case Option.bind (map_of (wf_connectionsByDestinationNode w) nodeName) (\<lambda>tys. map_of tys Main_type) of
                None \<Rightarrow> Inr (currentHighest, checked)
              | Some bs \<Rightarrow>
                  if nodeName \<in> set checked then Inr (currentHighest, checked)
                  else for_each
                    (\<lambda>c (returnNodes, checked).
                       if conn_node c \<in> set checked then Inr (returnNodes, checked)
                       else case map_of (wf_nodes w) (conn_node c) of
                          None \<Rightarrow> Inr (returnNodes, checked)
                        | Some parent \<Rightarrow>
                            res_bind (highest_node fuel w (conn_node c) None checked)
                              (\<lambda>(addNodes, checked).
                                 let addNodes = (if addNodes = [] \<and> \<not> is_disabled parent then [conn_node c] else addNodes)
                                 in Inr (set_add_all addNodes returnNodes, checked)))
                    (indexed_buckets idx bs) ([], checked @ [nodeName])))"

definition getHighestNode :: "workflow \<Rightarrow> string \<Rightarrow> nat option \<Rightarrow> string list result" where
  "getHighestNode w nodeName idx =
     res_bind (highest_node (Suc (Suc (length (wf_nodes w)))) w nodeName idx []) (\<lambda>(ns, _). Inr ns)"

section \<open>Breadth-first search\<close>

record connected_node =
  cn_name :: string
  cn_indicies :: "nat list"
  cn_depth :: nat

text \<open>
  \<^verbatim>\<open>visited\<close> and \<^verbatim>\<open>returnConns\<close> share their objects: the latter is the former without the source,
  in the order of the visits.
\<close>

definition main_targets :: "iconnections \<Rightarrow> string \<Rightarrow> iconnection list" where
  "main_targets connections nm =
     (case map_of connections nm of None \<Rightarrow> [] | Some tys \<Rightarrow> type_targets tys Main_type)"

definition bfs_visit ::
    "iconnections \<Rightarrow> nat \<Rightarrow> connected_node \<Rightarrow> connected_node list \<times> (string, connected_node) jsmap
      \<Rightarrow> connected_node list \<times> (string, connected_node) jsmap" where
  "bfs_visit connections depth cur = (\<lambda>(queue, visited).
     case map_of visited (cn_name cur) of
       Some v \<Rightarrow> (queue, map_set (cn_name cur) (v\<lparr>cn_indicies := set_of (cn_indicies v @ cn_indicies cur)\<rparr>) visited)
     | None \<Rightarrow>
         (queue @ map (\<lambda>c. \<lparr>cn_name = conn_node c, cn_indicies = [conn_index c], cn_depth = depth\<rparr>)
                    (main_targets connections (cn_name cur)),
          visited @ [(cn_name cur, cur)]))"

primrec bfs_loop ::
    "nat \<Rightarrow> iconnections \<Rightarrow> int \<Rightarrow> connected_node list \<Rightarrow> (string, connected_node) jsmap \<Rightarrow> nat
      \<Rightarrow> (string, connected_node) jsmap result" where
  "bfs_loop 0 connections maxDepth queue visited depth = Inl OutOfFuel"
| "bfs_loop (Suc fuel) connections maxDepth queue visited depth =
     (if queue = [] \<or> (maxDepth \<noteq> -1 \<and> maxDepth < int depth) then Inr visited
      else (let (queue', visited') = fold (bfs_visit connections (Suc depth)) queue ([], visited)
            in bfs_loop fuel connections maxDepth queue' visited' (Suc depth)))"

definition searchNodesBFS :: "iconnections \<Rightarrow> string \<Rightarrow> int \<Rightarrow> connected_node list result" where
  "searchNodesBFS connections sourceNode maxDepth =
     res_bind (bfs_loop (length (conn_entries connections) + 4) connections maxDepth
                 [\<lparr>cn_name = sourceNode, cn_indicies = [], cn_depth = 0\<rparr>] [] 0)
       (\<lambda>visited. Inr (filter (\<lambda>v. cn_name v \<noteq> sourceNode) (map_values visited)))"

definition getParentNodesByDepth :: "workflow \<Rightarrow> string \<Rightarrow> int \<Rightarrow> connected_node list result" where
  "getParentNodesByDepth w nodeName maxDepth =
     searchNodesBFS (wf_connectionsByDestinationNode w) nodeName maxDepth"

section \<open>The connection between a node and an ancestor\<close>

record node_connection =
  nc_sourceIndex :: nat
  nc_destinationIndex :: nat

definition typed_targets :: "iconnections \<Rightarrow> string \<Rightarrow> string \<Rightarrow> (nat \<times> iconnection) list" where
  "typed_targets connections ty nm =
     (case Option.bind (map_of connections nm) (\<lambda>tys. map_of tys ty) of
        None \<Rightarrow> []
      | Some bs \<Rightarrow> concat (map (\<lambda>b. case b of None \<Rightarrow> [] | Some cs \<Rightarrow> enumerate 0 cs) bs))"

text \<open>
  The queue loop. A visited node is dropped; a new one is scanned for the parent, and its
  unvisited targets are queued. Termination: the targets still to be scanned plus the queue.
\<close>

definition pending_targets :: "iconnections \<Rightarrow> string \<Rightarrow> string list \<Rightarrow> nat" where
  "pending_targets connections ty visited =
     (\<Sum>nm \<in> fst ` set connections - set visited. length (typed_targets connections ty nm))"

lemma typed_targets_outside: "nm \<notin> fst ` set cs \<Longrightarrow> typed_targets cs ty nm = []"
  by (auto simp: typed_targets_def map_of_eq_None_iff [THEN iffD2])

lemma pending_targets_visit:
  assumes "nm \<notin> set visited"
  shows "length (typed_targets cs ty nm) + pending_targets cs ty (visited @ [nm]) = pending_targets cs ty visited"
proof (cases "nm \<in> fst ` set cs")
  case True
  have "fst ` set cs - set (visited @ [nm]) = (fst ` set cs - set visited) - {nm}" by auto
  then show ?thesis
    using True assms by (simp add: pending_targets_def sum.remove [of _ nm])
next
  case False
  then have "fst ` set cs - set (visited @ [nm]) = fst ` set cs - set visited" by auto
  with False show ?thesis by (simp add: pending_targets_def typed_targets_outside)
qed

function find_connection ::
    "iconnections \<Rightarrow> string \<Rightarrow> string \<Rightarrow> string list \<Rightarrow> string list \<Rightarrow> node_connection option" where
  "find_connection connections ty parentNodeName [] visited = None"
| "find_connection connections ty parentNodeName (cur # queue) visited =
     (if cur \<in> set visited then find_connection connections ty parentNodeName queue visited
      else case find (\<lambda>(_, c). conn_node c = parentNodeName) (typed_targets connections ty cur) of
             Some (destinationIndex, c) \<Rightarrow>
               Some \<lparr>nc_sourceIndex = conn_index c, nc_destinationIndex = destinationIndex\<rparr>
           | None \<Rightarrow>
               find_connection connections ty parentNodeName
                 (queue @ filter (\<lambda>n. n \<notin> set (visited @ [cur]))
                            (map (\<lambda>(_, c). conn_node c) (typed_targets connections ty cur)))
                 (visited @ [cur]))"
  by pat_completeness auto
termination
proof (relation "measure (\<lambda>(cs, ty, p, queue, visited). length queue + pending_targets cs ty visited)",
    goal_cases)
  case (3 cs ty p cur queue visited)
  then show ?case
    using pending_targets_visit [of cur visited cs ty]
      length_filter_le [of "(\<lambda>n. n \<noteq> cur \<and> n \<notin> set visited) \<circ> (\<lambda>(_, c). conn_node c)" "typed_targets cs ty cur"]
    by (simp del: length_filter_le)
qed simp_all

definition getNodeConnectionIndexes :: "workflow \<Rightarrow> string \<Rightarrow> string \<Rightarrow> string \<Rightarrow> node_connection option" where
  "getNodeConnectionIndexes w nodeName parentNodeName ty =
     (case getNode w parentNodeName of
        None \<Rightarrow> None
      | Some _ \<Rightarrow> find_connection (wf_connectionsByDestinationNode w) ty parentNodeName [nodeName] [])"

section \<open>Start nodes\<close>

text \<open>
  The manual chat trigger is passed over in favour of the other triggers. Reading the type of a
  name that is not in the workflow, or the description of an unknown node type, raises a
  TypeError.
\<close>

definition STARTING_NODE_TYPES :: "string list" where
  "STARTING_NODE_TYPES =
     [''n8n-nodes-base.manualTrigger'', ''n8n-nodes-base.executeWorkflowTrigger'',
      ''n8n-nodes-base.errorTrigger'', ''n8n-nodes-base.evaluationTrigger'',
      ''n8n-nodes-base.formTrigger'']"

definition MANUAL_CHAT_TRIGGER :: string where
  "MANUAL_CHAT_TRIGGER = ''@n8n/n8n-nodes-langchain.manualChatTrigger''"

definition index_of :: "'a \<Rightarrow> 'a list \<Rightarrow> int" where
  "index_of x xs = (if x \<in> set xs then int (length (takeWhile (\<lambda>y. y \<noteq> x) xs)) else -1)"

primrec first_trigger :: "workflow \<Rightarrow> string list \<Rightarrow> inode option result" where
  "first_trigger w [] = Inr None"
| "first_trigger w (nodeName # rest) =
     (case map_of (wf_nodes w) nodeName of
        None \<Rightarrow> Inl (TypeError ''type of undefined'')
      | Some node \<Rightarrow>
          (case node_type_of w node of
             None \<Rightarrow> Inl (TypeError ''description of undefined'')
           | Some nt \<Rightarrow>
               if nt_name nt = MANUAL_CHAT_TRIGGER then first_trigger w rest
               else if nt_trigger nt \<or> nt_poll nt
                    then (if is_disabled node then first_trigger w rest else Inr (Some node))
                    else first_trigger w rest))"

definition sorted_nodes :: "workflow \<Rightarrow> inode list" where
  "sorted_nodes w = sort_key (\<lambda>n. index_of (node_type n) STARTING_NODE_TYPES) (map_values (wf_nodes w))"

definition start_by_type :: "workflow \<Rightarrow> string list \<Rightarrow> inode option result" where
  "start_by_type w nodeNames =
     res_bind (first_trigger w nodeNames)
       (\<lambda>found. case found of
          Some n \<Rightarrow> Inr (Some n)
        | None \<Rightarrow>
            Inr (find (\<lambda>n. node_type n \<in> set STARTING_NODE_TYPES \<and> \<not> is_disabled n) (sorted_nodes w)))"

definition get_start_node :: "workflow \<Rightarrow> string list \<Rightarrow> inode option result" where
  "get_start_node w nodeNames =
     (case (if length nodeNames = 1 then map_of (wf_nodes w) (nodeNames ! 0) else None) of
        Some node \<Rightarrow> if \<not> is_disabled node then Inr (Some node) else start_by_type w nodeNames
      | None \<Rightarrow> start_by_type w nodeNames)"

definition getStartNode :: "workflow \<Rightarrow> string option \<Rightarrow> inode option result" where
  "getStartNode w destinationNode =
     (case destinationNode of
        None \<Rightarrow> get_start_node w (map_keys (wf_nodes w))
      | Some dest \<Rightarrow>
          if dest = [] then get_start_node w (map_keys (wf_nodes w))
          else res_bind (getHighestNode w dest None)
            (\<lambda>highest. let nodeNames = (if highest = [] then [dest] else highest)
               in res_bind (get_start_node w nodeNames)
                    (\<lambda>node. case node of
                       Some n \<Rightarrow> Inr (Some n)
                     | None \<Rightarrow> Inr (map_of (wf_nodes w) (nodeNames ! 0)))))"

section \<open>Connections between two sets of nodes\<close>

definition getConnectionsBetweenNodes ::
    "workflow \<Rightarrow> string list \<Rightarrow> string list \<Rightarrow> (iconnection \<times> iconnection) list" where
  "getConnectionsBetweenNodes w sources targets =
     concat (map (\<lambda>source.
       List.map_filter (\<lambda>(_, ty, i, c).
           if conn_node c \<in> set targets
           then Some (\<lparr>conn_node = source, conn_type = ty, conn_index = i\<rparr>, c) else None)
         (case map_of (wf_connectionsBySourceNode w) source of
            None \<Rightarrow> [] | Some tys \<Rightarrow> node_entries source tys)) sources)"

section \<open>Lemmas on the highest parents\<close>

abbreviation main_rel :: "iconnections \<Rightarrow> (string \<times> string) set" where
  "main_rel cs \<equiv> hop_rel cs (OneType Main_type)"

lemma in_bucket_targets: "c \<in> set (bucket_targets bs) \<longleftrightarrow> (\<exists>b \<in> set bs. \<exists>cs. b = Some cs \<and> c \<in> set cs)"
  by (force simp: bucket_targets_def split: option.splits)

text \<open>Hops against the flat view of the connections.\<close>

lemma in_type_targets:
  assumes "map_of cs x = Some tys" and "c \<in> set (type_targets tys t)"
  shows "\<exists>i. (x, t, i, c) \<in> set (conn_entries cs)"
proof -
  from assms(2) obtain bs l where "map_of tys t = Some bs" "Some l \<in> set bs" "c \<in> set l"
    by (cases "map_of tys t") (auto simp: type_targets_def in_bucket_targets)
  moreover from this obtain i where "i < length bs" "bs ! i = Some l" by (metis in_set_conv_nth)
  ultimately show ?thesis
    using map_of_SomeD [OF assms(1)] unfolding in_conn_entries by (meson map_of_SomeD)
qed

lemma hops_entries: "hops cs flt x \<subseteq> (\<lambda>(_, _, _, c). conn_node c) ` set (conn_entries cs)"
proof
  fix y
  assume "y \<in> hops cs flt x"
  then obtain tys t c where "map_of cs x = Some tys" "c \<in> set (type_targets tys t)" "y = conn_node c"
    by (auto simp: hops_def followed_def split: option.splits)
  with in_type_targets [of cs x tys c t] show "y \<in> (\<lambda>(_, _, _, c). conn_node c) ` set (conn_entries cs)"
    by (force intro: rev_image_eqI)
qed

lemma hop_one_type:
  assumes "conns_wf cs"
  shows "(x, y) \<in> hop_rel cs (OneType t) \<longleftrightarrow> (\<exists>i c. (x, t, i, c) \<in> set (conn_entries cs) \<and> conn_node c = y)"
proof
  assume "(x, y) \<in> hop_rel cs (OneType t)"
  then obtain tys c where "map_of cs x = Some tys" "c \<in> set (type_targets tys t)" "y = conn_node c"
    by (auto simp: hop_rel_def hops_def followed_def filter_types_def split: option.splits)
  with in_type_targets [of cs x tys c t] show "\<exists>i c. (x, t, i, c) \<in> set (conn_entries cs) \<and> conn_node c = y"
    by blast
next
  assume "\<exists>i c. (x, t, i, c) \<in> set (conn_entries cs) \<and> conn_node c = y"
  then obtain i c tys bs l where e: "(x, tys) \<in> set cs" "(t, bs) \<in> set tys" "i < length bs"
      "bs ! i = Some l" "c \<in> set l" "y = conn_node c"
    unfolding in_conn_entries by blast
  then have "map_of cs x = Some tys" "map_of tys t = Some bs"
    using assms by (auto simp: conns_wf_def intro: map_of_is_SomeI)
  moreover have "c \<in> set (bucket_targets bs)"
    using e(3-5) nth_mem [OF e(3)] unfolding in_bucket_targets by metis
  ultimately show "(x, y) \<in> hop_rel cs (OneType t)"
    using e(6) by (auto simp: hop_rel_def hops_def followed_def filter_types_def type_targets_def)
qed

lemma indexed_buckets_subset: "set (indexed_buckets idx bs) \<subseteq> set (bucket_targets bs)"
proof
  fix c
  assume "c \<in> set (indexed_buckets idx bs)"
  then obtain i b where "(i, b) \<in> set (enumerate 0 bs)" "c \<in> set (case b of None \<Rightarrow> [] | Some cs \<Rightarrow> cs)"
    by (auto simp: indexed_buckets_def)
  then show "c \<in> set (bucket_targets bs)"
    by (auto simp: in_bucket_targets in_set_enumerate_eq split: option.splits intro: bexI [of _ b])
qed

lemma main_hop:
  assumes "Option.bind (map_of cs nm) (\<lambda>tys. map_of tys Main_type) = Some bs"
    and "c \<in> set (indexed_buckets idx bs)"
  shows "(nm, conn_node c) \<in> main_rel cs"
  using assms indexed_buckets_subset [of idx bs]
  by (auto simp: hop_rel_def hops_def followed_def filter_types_def type_targets_def split: bind_splits)

definition enabled_in :: "workflow \<Rightarrow> string \<Rightarrow> bool" where
  "enabled_in w nm \<longleftrightarrow> (\<exists>n. map_of (wf_nodes w) nm = Some n \<and> \<not> is_disabled n)"

text \<open>What a call keeps of \<open>checked\<close> and what it returns.\<close>

definition highest_post :: "workflow \<Rightarrow> string \<Rightarrow> string list \<Rightarrow> string list \<Rightarrow> string list \<Rightarrow> bool" where
  "highest_post w nm checked ret checked' \<longleftrightarrow>
     distinct checked' \<and> set checked \<subseteq> set checked' \<and> set checked' \<subseteq> dom (map_of (wf_nodes w))
     \<and> distinct ret
     \<and> (\<forall>x \<in> set ret. enabled_in w x \<and> (nm, x) \<in> (main_rel (wf_connectionsByDestinationNode w))\<^sup>*)"

lemma length_checked:
  assumes "distinct checked" and "set checked \<subseteq> dom (map_of m)"
  shows "length checked \<le> length m"
proof -
  have "set checked \<subseteq> fst ` set m" using assms(2) by (simp add: dom_map_of_conv_image_fst)
  then show ?thesis
    using card_mono [of "fst ` set m" "set checked"] card_image_le [of "set m" fst] card_length [of m]
      distinct_card [OF assms(1)] by simp
qed

lemma highest_node_correct:
  assumes "distinct checked" and "set checked \<subseteq> dom (map_of (wf_nodes w))"
    and "length (wf_nodes w) - length checked < f"
  shows "\<exists>ret checked'. highest_node f w nm idx checked = Inr (ret, checked') \<and> highest_post w nm checked ret checked'"
  using assms
proof (induction f arbitrary: nm idx checked)
  case 0
  then show ?case by simp
next
  case (Suc f)
  let ?D = "wf_connectionsByDestinationNode w"
  show ?case
  proof (cases "map_of (wf_nodes w) nm")
    case None
    with Suc.prems show ?thesis by (auto simp: highest_post_def)
  next
    case (Some node)
    let ?cur = "if node_disabled node = Some False then [nm] else []"
    have cur: "highest_post w nm checked ?cur checked"
      using Suc.prems Some by (auto simp: highest_post_def enabled_in_def)
    show ?thesis
    proof (cases "Option.bind (map_of ?D nm) (\<lambda>tys. map_of tys Main_type)")
      case None
      with Some cur show ?thesis by simp
    next
      case bs: (Some bs)
      show ?thesis
      proof (cases "nm \<in> set checked")
        case True
        with Some bs cur show ?thesis by simp
      next
        case False
        let ?checked = "checked @ [nm]"
        have checked: "distinct ?checked" "set ?checked \<subseteq> dom (map_of (wf_nodes w))"
          using Suc.prems Some False by auto
        then have fuel: "length (wf_nodes w) - length ?checked < f"
          using Suc.prems(3) length_checked [OF checked] by simp
        let ?step = "\<lambda>c (ret, checked). if conn_node c \<in> set checked then Inr (ret, checked)
          else case map_of (wf_nodes w) (conn_node c) of None \<Rightarrow> Inr (ret, checked)
            | Some parent \<Rightarrow> res_bind (highest_node f w (conn_node c) None checked)
                (\<lambda>(addNodes, checked).
                   let addNodes = (if addNodes = [] \<and> \<not> is_disabled parent then [conn_node c] else addNodes)
                   in Inr (set_add_all addNodes ret, checked))"
        have "\<exists>t. for_each ?step (indexed_buckets idx bs) ([], ?checked) = Inr t
            \<and> (case t of (R, C) \<Rightarrow> highest_post w nm ?checked R C)"
        proof (rule for_each_total [where P = "\<lambda>us (R, C). highest_post w nm ?checked R C"])
          show "case ([], ?checked) of (R, C) \<Rightarrow> highest_post w nm ?checked R C"
            using checked by (auto simp: highest_post_def)
        next
          fix ys c zs s
          assume split: "indexed_buckets idx bs = ys @ c # zs"
            and inv: "case s of (R, C) \<Rightarrow> highest_post w nm ?checked R C"
          obtain R C where s: "s = (R, C)" by (cases s)
          have hop: "(nm, conn_node c) \<in> main_rel ?D"
            by (rule main_hop [OF bs, where idx = idx]) (simp add: split)
          show "\<exists>s'. ?step c s = Inr s' \<and> (case s' of (R, C) \<Rightarrow> highest_post w nm ?checked R C)"
          proof (cases "conn_node c \<in> set C \<or> map_of (wf_nodes w) (conn_node c) = None")
            case True
            with inv s show ?thesis by (auto split: option.splits)
          next
            case False
            then obtain parent where parent: "map_of (wf_nodes w) (conn_node c) = Some parent" by auto
            have C: "distinct C" "set C \<subseteq> dom (map_of (wf_nodes w))" "length ?checked \<le> length C"
              using inv s card_mono [of "set C" "set ?checked"] distinct_card [OF checked(1)]
              by (auto simp: highest_post_def distinct_card)
            with fuel have "length (wf_nodes w) - length C < f" by simp
            from Suc.IH [OF C(1,2) this] obtain add C' where
              rec: "highest_node f w (conn_node c) None C = Inr (add, C')"
              and post: "highest_post w (conn_node c) C add C'" by blast
            let ?add = "if add = [] \<and> \<not> is_disabled parent then [conn_node c] else add"
            have "highest_post w nm ?checked (set_add_all ?add R) C'"
              using inv s post parent hop
              by (auto simp: highest_post_def enabled_in_def intro: converse_rtrancl_into_rtrancl)
            with rec parent False s show ?thesis by auto
          qed
        qed
        then obtain R C where "for_each ?step (indexed_buckets idx bs) ([], ?checked) = Inr (R, C)"
          and "highest_post w nm ?checked R C" by auto
        with Some bs False show ?thesis by (auto simp: Let_def highest_post_def)
      qed
    qed
  qed
qed

theorem getHighestNode_enabled:
  "\<exists>ns. getHighestNode w nm idx = Inr ns \<and> distinct ns
     \<and> (\<forall>x \<in> set ns. enabled_in w x \<and> (nm, x) \<in> (main_rel (wf_connectionsByDestinationNode w))\<^sup>*)"
proof -
  have "length (wf_nodes w) - length [] < Suc (Suc (length (wf_nodes w)))" by simp
  from highest_node_correct [OF _ _ this, of nm idx] show ?thesis
    unfolding getHighestNode_def highest_post_def by (auto simp del: highest_node.simps)
qed

section \<open>Lemmas on the breadth-first searches\<close>

text \<open>
  Distances: \<open>at_hops cs s k\<close> are the nodes \<open>k\<close> hops from \<open>s\<close>. At the head of round \<open>d\<close> the
  search has visited the nodes at distance below \<open>d\<close>, with their distances, and the queue covers
  the nodes \<open>d\<close> hops away.
\<close>

definition at_hops :: "iconnections \<Rightarrow> string \<Rightarrow> nat \<Rightarrow> string set" where
  "at_hops cs s k = {x. (s, x) \<in> main_rel cs ^^ k}"

definition distance :: "iconnections \<Rightarrow> string \<Rightarrow> string \<Rightarrow> nat" where
  "distance cs s x = (LEAST k. x \<in> at_hops cs s k)"

definition bfs_visited :: "iconnections \<Rightarrow> string \<Rightarrow> nat \<Rightarrow> (string, connected_node) jsmap \<Rightarrow> bool" where
  "bfs_visited cs s d visited \<longleftrightarrow>
     distinct (map fst visited) \<and> fst ` set visited = (\<Union>k<d. at_hops cs s k)
     \<and> (\<forall>(x, v) \<in> set visited. cn_name v = x \<and> cn_depth v = distance cs s x)"

definition bfs_queue :: "iconnections \<Rightarrow> string \<Rightarrow> nat \<Rightarrow> connected_node list \<Rightarrow> string set \<Rightarrow> bool" where
  "bfs_queue cs s d queue V \<longleftrightarrow>
     (\<forall>q \<in> set queue. cn_name q \<in> at_hops cs s d \<and> cn_depth q = d)
     \<and> at_hops cs s d \<subseteq> cn_name ` set queue \<union> V"

lemma main_targets_hops: "conn_node ` set (main_targets cs nm) = hops cs (OneType Main_type) nm"
  by (auto simp: main_targets_def hops_def followed_def filter_types_def split: option.splits)

lemma at_hops_Suc: "at_hops cs s (Suc k) = (\<Union>x \<in> at_hops cs s k. hops cs (OneType Main_type) x)"
  by (auto simp: at_hops_def hop_rel_def)

lemma distance_new:
  assumes "x \<in> at_hops cs s d" and "\<And>k. k < d \<Longrightarrow> x \<notin> at_hops cs s k"
  shows "distance cs s x = d"
  unfolding distance_def using assms by (intro Least_equality) (auto simp: not_less [symmetric])

text \<open>One round: \<open>us\<close> are the queue elements processed so far.\<close>

definition bfs_round ::
    "iconnections \<Rightarrow> string \<Rightarrow> nat \<Rightarrow> connected_node list \<Rightarrow> string set
      \<Rightarrow> connected_node list \<times> (string, connected_node) jsmap \<Rightarrow> bool" where
  "bfs_round cs s d us V = (\<lambda>(queue', visited).
     distinct (map fst visited) \<and> fst ` set visited = V \<union> cn_name ` set us
     \<and> (\<forall>(x, v) \<in> set visited. cn_name v = x \<and> cn_depth v = distance cs s x)
     \<and> (\<forall>q \<in> set queue'. cn_name q \<in> at_hops cs s (Suc d) \<and> cn_depth q = Suc d)
     \<and> (\<forall>x \<in> cn_name ` set us - V. hops cs (OneType Main_type) x \<subseteq> cn_name ` set queue'))"

lemma bfs_visit_round:
  assumes inv: "bfs_round cs s d us V (queue', visited)"
    and q: "cn_name q \<in> at_hops cs s d" "cn_depth q = d"
    and V: "V = (\<Union>k<d. at_hops cs s k)"
  shows "bfs_round cs s d (us @ [q]) V (bfs_visit cs (Suc d) q (queue', visited))"
proof -
  note inv' = inv [unfolded bfs_round_def split_conv]
  from inv' have dv: "distinct (map fst visited)" by blast
  from inv' have keys: "fst ` set visited = V \<union> cn_name ` set us" by blast
  from inv' have ent: "\<forall>(x, v) \<in> set visited. cn_name v = x \<and> cn_depth v = distance cs s x" by blast
  from inv' have que: "\<forall>q \<in> set queue'. cn_name q \<in> at_hops cs s (Suc d) \<and> cn_depth q = Suc d" by blast
  from inv' have exp: "\<forall>x \<in> cn_name ` set us - V. hops cs (OneType Main_type) x \<subseteq> cn_name ` set queue'" by blast
  show ?thesis
  proof (cases "map_of visited (cn_name q)")
    case (Some v)
    let ?v = "v\<lparr>cn_indicies := set_of (cn_indicies v @ cn_indicies q)\<rparr>"
    let ?visited = "map_set (cn_name q) ?v visited"
    have v: "(cn_name q, v) \<in> set visited" using Some by (rule map_of_SomeD)
    then have member: "cn_name q \<in> fst ` set visited" by force
    have keys': "fst ` set ?visited = V \<union> cn_name ` set (us @ [q])"
      using js_map.keys_put [of "cn_name q" ?v visited] member keys by auto
    have ent': "\<forall>(x, v) \<in> set ?visited. cn_name v = x \<and> cn_depth v = distance cs s x"
      using ent v js_map.entries_put [OF dv, of "cn_name q" ?v] by auto
    have exp': "\<forall>x \<in> cn_name ` set (us @ [q]) - V. hops cs (OneType Main_type) x \<subseteq> cn_name ` set queue'"
      using exp member keys by auto
    show ?thesis
      using js_map.distinct_put [OF dv] keys' ent' que exp' Some
      unfolding bfs_round_def bfs_visit_def by simp
  next
    case None
    then have new: "cn_name q \<notin> fst ` set visited" by (simp add: map_of_eq_None_iff)
    let ?new = "map (\<lambda>c. \<lparr>cn_name = conn_node c, cn_indicies = [conn_index c], cn_depth = Suc d\<rparr>)
                  (main_targets cs (cn_name q))"
    have names: "cn_name ` set ?new = hops cs (OneType Main_type) (cn_name q)"
      by (simp add: main_targets_hops [symmetric] image_image)
    have "cn_name q \<notin> V" using new keys by blast
    then have dist: "distance cs s (cn_name q) = d"
      using V q(1) by (intro distance_new) auto
    have "hops cs (OneType Main_type) (cn_name q) \<subseteq> at_hops cs s (Suc d)"
      using q(1) unfolding at_hops_Suc by blast
    with names have hop: "cn_name ` set ?new \<subseteq> at_hops cs s (Suc d)" by simp
    have que': "\<forall>q \<in> set (queue' @ ?new). cn_name q \<in> at_hops cs s (Suc d) \<and> cn_depth q = Suc d"
    proof
      fix p
      assume "p \<in> set (queue' @ ?new)"
      then consider "p \<in> set queue'" | "p \<in> set ?new" by auto
      then show "cn_name p \<in> at_hops cs s (Suc d) \<and> cn_depth p = Suc d"
      proof cases
        case 1
        with que show ?thesis by blast
      next
        case 2
        moreover from 2 have "cn_name p \<in> at_hops cs s (Suc d)" using hop by blast
        ultimately show ?thesis by auto
      qed
    qed
    have exp': "\<forall>x \<in> cn_name ` set (us @ [q]) - V.
        hops cs (OneType Main_type) x \<subseteq> cn_name ` set (queue' @ ?new)"
    proof
      fix x
      assume "x \<in> cn_name ` set (us @ [q]) - V"
      then have "x \<in> cn_name ` set us - V \<or> x = cn_name q" by auto
      then show "hops cs (OneType Main_type) x \<subseteq> cn_name ` set (queue' @ ?new)"
        using exp names by (auto simp only: set_append image_Un)
    qed
    have ent': "\<forall>(x, v) \<in> set (visited @ [(cn_name q, q)]). cn_name v = x \<and> cn_depth v = distance cs s x"
      using ent dist q(2) by simp
    show ?thesis
      using dv keys new ent' que' exp' None
      unfolding bfs_round_def bfs_visit_def by simp
  qed
qed

lemma bfs_round_fold:
  assumes "bfs_visited cs s d visited" and "bfs_queue cs s d queue (fst ` set visited)"
  shows "bfs_round cs s d queue (fst ` set visited) (fold (bfs_visit cs (Suc d)) queue ([], visited))"
proof -
  let ?V = "fst ` set visited"
  have V: "?V = (\<Union>k<d. at_hops cs s k)" using assms(1) by (simp add: bfs_visited_def)
  have "bfs_round cs s d (us @ vs) ?V (fold (bfs_visit cs (Suc d)) vs st)"
    if "bfs_round cs s d us ?V st" "set vs \<subseteq> set queue" for us vs st
    using that
  proof (induction vs arbitrary: us st)
    case Nil
    then show ?case by simp
  next
    case (Cons q vs)
    then have "cn_name q \<in> at_hops cs s d" "cn_depth q = d"
      using assms(2) by (auto simp: bfs_queue_def)
    with Cons.prems(1) V have "bfs_round cs s d (us @ [q]) ?V (bfs_visit cs (Suc d) q st)"
      by (cases st) (simp add: bfs_visit_round)
    from Cons.IH [OF this] Cons.prems(2) show ?case by simp
  qed
  from this [of "[]" "([], visited)" queue] show ?thesis
    using assms(1) by (simp add: bfs_round_def bfs_visited_def)
qed

lemma bfs_round_next:
  assumes "bfs_visited cs s d visited" and "bfs_queue cs s d queue (fst ` set visited)"
    and step: "fold (bfs_visit cs (Suc d)) queue ([], visited) = (queue', visited')"
  shows "bfs_visited cs s (Suc d) visited'" and "bfs_queue cs s (Suc d) queue' (fst ` set visited')"
proof -
  from bfs_round_fold [OF assms(1,2)] have R: "bfs_round cs s d queue (fst ` set visited) (queue', visited')"
    by (simp add: step)
  note R' = R [unfolded bfs_round_def, simplified] and A = assms(1) [unfolded bfs_visited_def]
    and B = assms(2) [unfolded bfs_queue_def]
  have keys: "fst ` set visited' = (\<Union>k<Suc d. at_hops cs s k)"
    using R' A B by (auto simp: lessThan_Suc)
  then show "bfs_visited cs s (Suc d) visited'" using R' by (auto simp: bfs_visited_def)
  have "y \<in> cn_name ` set queue' \<union> fst ` set visited'" if "y \<in> at_hops cs s (Suc d)" for y
  proof -
    from that obtain x where x: "x \<in> at_hops cs s d" "y \<in> hops cs (OneType Main_type) x"
      by (auto simp: at_hops_Suc)
    show ?thesis
    proof (cases "x \<in> fst ` set visited")
      case True
      then obtain k where "k < d" "x \<in> at_hops cs s k" using A by auto
      with x(2) have "y \<in> at_hops cs s (Suc k)" "Suc k < Suc d" by (auto simp: at_hops_Suc)
      with keys show ?thesis by blast
    next
      case False
      with x B have "x \<in> cn_name ` set queue - fst ` set visited" by blast
      with R' x(2) show ?thesis by blast
    qed
  qed
  then show "bfs_queue cs s (Suc d) queue' (fst ` set visited')"
    using R' by (auto simp: bfs_queue_def)
qed

text \<open>A round that queues something has visited a new node.\<close>

lemma bfs_fold_progress:
  assumes "fold (bfs_visit cs d) queue (q0, v0) = (q', v')"
  shows "length v0 \<le> length v' \<and> (q' = q0 \<or> length v0 < length v')"
  using assms
proof (induction queue arbitrary: q0 v0)
  case Nil
  then show ?case by simp
next
  case (Cons c queue)
  obtain q1 v1 where step: "bfs_visit cs d c (q0, v0) = (q1, v1)" by fastforce
  with Cons.prems have rest: "fold (bfs_visit cs d) queue (q1, v1) = (q', v')" by simp
  show ?case
  proof (cases "map_of v0 (cn_name c)")
    case (Some v)
    then have "length (map_set (cn_name c) (v\<lparr>cn_indicies := set_of (cn_indicies v @ cn_indicies c)\<rparr>) v0) = length v0"
      by (induction v0) auto
    with Some step Cons.IH [OF rest] show ?thesis by (auto simp: bfs_visit_def)
  next
    case None
    with step Cons.IH [OF rest] show ?thesis by (auto simp: bfs_visit_def)
  qed
qed

definition within_depth :: "int \<Rightarrow> nat \<Rightarrow> bool" where
  "within_depth maxDepth k \<longleftrightarrow> maxDepth = -1 \<or> int k \<le> maxDepth"

lemma at_hops_targets: "at_hops cs s k \<subseteq> insert s ((\<lambda>(_, _, _, c). conn_node c) ` set (conn_entries cs))"
proof (cases k)
  case 0
  then show ?thesis by (simp add: at_hops_def)
next
  case (Suc m)
  have "at_hops cs s (Suc m) \<subseteq> (\<lambda>(_, _, _, c). conn_node c) ` set (conn_entries cs)"
    unfolding at_hops_Suc by (rule UN_least) (rule hops_entries)
  with Suc show ?thesis by blast
qed

lemma bfs_closed:
  assumes "at_hops cs s d \<subseteq> (\<Union>k<d. at_hops cs s k)"
  shows "at_hops cs s k \<subseteq> (\<Union>k<d. at_hops cs s k)"
proof (induction k)
  case 0
  show ?case
  proof (cases "d = 0")
    case True
    with assms show ?thesis by (simp add: at_hops_def)
  next
    case False
    then show ?thesis by auto
  qed
next
  case (Suc k)
  show ?case
  proof
    fix y
    assume "y \<in> at_hops cs s (Suc k)"
    then obtain x where x: "x \<in> at_hops cs s k" "y \<in> hops cs (OneType Main_type) x" by (auto simp: at_hops_Suc)
    with Suc obtain j where "j < d" "x \<in> at_hops cs s j" by blast
    with x(2) have "y \<in> at_hops cs s (Suc j)" by (auto simp: at_hops_Suc)
    show "y \<in> (\<Union>k<d. at_hops cs s k)"
    proof (cases "Suc j = d")
      case True
      with \<open>y \<in> at_hops cs s (Suc j)\<close> assms show ?thesis by blast
    next
      case False
      with \<open>y \<in> at_hops cs s (Suc j)\<close> \<open>j < d\<close> show ?thesis by (intro UN_I [of "Suc j"]) auto
    qed
  qed
qed

lemma bfs_loop_correct:
  assumes "bfs_visited cs s d visited" and "bfs_queue cs s d queue (fst ` set visited)"
    and "queue \<noteq> [] \<Longrightarrow> d \<le> length visited"
    and "length (conn_entries cs) + 3 < f + d" and "f \<noteq> 0"
    and "-1 \<le> m" and "\<forall>k < d. within_depth m k"
  shows "\<exists>r. bfs_loop f cs m queue visited d = Inr r \<and> distinct (map fst r)
    \<and> fst ` set r = {x. \<exists>k. within_depth m k \<and> x \<in> at_hops cs s k}
    \<and> (\<forall>(x, v) \<in> set r. cn_name v = x \<and> cn_depth v = distance cs s x)"
  using assms
proof (induction f arbitrary: queue visited d)
  case 0
  then show ?case by simp
next
  case (Suc f)
  note vis = Suc.prems(1) [unfolded bfs_visited_def]
  show ?case
  proof (cases "queue = [] \<or> (m \<noteq> -1 \<and> m < int d)")
    case True
    have "(\<Union>k<d. at_hops cs s k) = {x. \<exists>k. within_depth m k \<and> x \<in> at_hops cs s k}"
    proof (cases "queue = []")
      case True
      then have "at_hops cs s d \<subseteq> (\<Union>k<d. at_hops cs s k)"
        using Suc.prems(2) vis by (simp add: bfs_queue_def)
      from bfs_closed [OF this] Suc.prems(7) show ?thesis by blast
    next
      case False
      with True have "within_depth m k \<longleftrightarrow> k < d" for k
        using Suc.prems(6,7) by (auto simp: within_depth_def)
      then show ?thesis by blast
    qed
    with True vis show ?thesis by auto
  next
    case False
    obtain queue' visited' where step: "fold (bfs_visit cs (Suc d)) queue ([], visited) = (queue', visited')"
      by fastforce
    note nxt = bfs_round_next [OF Suc.prems(1,2) step]
    have prog: "queue' \<noteq> [] \<Longrightarrow> Suc d \<le> length visited'"
      using bfs_fold_progress [OF step] Suc.prems(3) False by auto
    have "fst ` set visited \<subseteq> insert s ((\<lambda>(_, _, _, c). conn_node c) ` set (conn_entries cs))"
      using vis at_hops_targets [of cs s] by blast
    then have "card (fst ` set visited) \<le> Suc (length (conn_entries cs))"
      using card_mono [of "insert s ((\<lambda>(_, _, _, c). conn_node c) ` set (conn_entries cs))" "fst ` set visited"]
        card_image_le [of "set (conn_entries cs)" "\<lambda>(_, _, _, c). conn_node c"]
        card_length [of "conn_entries cs"] card_insert_le_m1
      by (simp add: card_insert_if split: if_splits)
    moreover have "card (fst ` set visited) = length visited"
      using vis distinct_card [of "map fst visited"] by simp
    ultimately have "d \<le> Suc (length (conn_entries cs))" using Suc.prems(3) False by auto
    with Suc.prems(4) have "f \<noteq> 0" by simp
    have "\<forall>k < Suc d. within_depth m k"
      using Suc.prems(6,7) False by (auto simp: within_depth_def less_Suc_eq)
    from Suc.IH [OF nxt prog _ \<open>f \<noteq> 0\<close> Suc.prems(6) this] Suc.prems(4) False step
    show ?thesis by auto
  qed
qed

lemma searchNodesBFS_correct:
  assumes "-1 \<le> m"
  shows "\<exists>ns. searchNodesBFS cs s m = Inr ns \<and> distinct (map cn_name ns)
    \<and> cn_name ` set ns = {x. x \<noteq> s \<and> (\<exists>k. within_depth m k \<and> x \<in> at_hops cs s k)}
    \<and> (\<forall>v \<in> set ns. cn_depth v = distance cs s (cn_name v))"
proof -
  let ?q = "[\<lparr>cn_name = s, cn_indicies = [], cn_depth = 0\<rparr>]"
  have "bfs_visited cs s 0 []" by (simp add: bfs_visited_def)
  moreover have "bfs_queue cs s 0 ?q (fst ` set [])" by (auto simp: bfs_queue_def at_hops_def)
  ultimately obtain r where r: "bfs_loop (length (conn_entries cs) + 4) cs m ?q [] 0 = Inr r"
      "distinct (map fst r)" "fst ` set r = {x. \<exists>k. within_depth m k \<and> x \<in> at_hops cs s k}"
      "\<forall>(x, v) \<in> set r. cn_name v = x \<and> cn_depth v = distance cs s x"
    using bfs_loop_correct [of cs s 0 "[]" ?q "length (conn_entries cs) + 4" m] assms by auto
  let ?ns = "filter (\<lambda>v. cn_name v \<noteq> s) (map_values r)"
  have names: "map cn_name (map_values r) = map fst r"
    using r(4) by (auto simp: case_prod_beta)
  have "distinct (map cn_name ?ns)"
    using r(2) names by (metis distinct_map_filter)
  moreover have "cn_name ` set ?ns = {x \<in> cn_name ` set (map_values r). x \<noteq> s}" by auto
  moreover have "cn_name ` set (map_values r) = fst ` set r"
    using arg_cong [OF names, of set] by (simp add: image_image)
  ultimately show ?thesis
    using r by (fastforce simp: searchNodesBFS_def simp del: bfs_loop.simps)
qed

section \<open>Lemmas on the connection to an ancestor\<close>

lemma in_typed_targets:
  assumes "(k, c) \<in> set (typed_targets cs ty x)"
  shows "\<exists>tys bs l. map_of cs x = Some tys \<and> map_of tys ty = Some bs \<and> Some l \<in> set bs \<and> k < length l \<and> l ! k = c"
proof (cases "Option.bind (map_of cs x) (\<lambda>tys. map_of tys ty)")
  case None
  with assms show ?thesis by (simp add: typed_targets_def)
next
  case (Some bs)
  with assms show ?thesis
    by (auto simp: typed_targets_def in_set_enumerate_eq bind_eq_Some_conv split: option.splits)
qed

lemma typed_targets_hops: "(\<lambda>(_, c). conn_node c) ` set (typed_targets cs ty x) = hops cs (OneType ty) x"
proof (cases "Option.bind (map_of cs x) (\<lambda>tys. map_of tys ty)")
  case None
  then show ?thesis
    by (auto simp: typed_targets_def hops_def followed_def filter_types_def type_targets_def split: bind_splits)
next
  case (Some bs)
  have "(\<lambda>(_, c). conn_node c) ` set (typed_targets cs ty x) = conn_node ` snd ` set (typed_targets cs ty x)"
    by (simp add: image_image case_prod_beta)
  also have "snd ` set (typed_targets cs ty x) = set (bucket_targets bs)"
  proof -
    have "snd ` set (concat (map (\<lambda>b. case b of None \<Rightarrow> [] | Some cs \<Rightarrow> enumerate 0 cs) bs)) = set (bucket_targets bs)"
    proof (induction bs)
      case (Cons b bs)
      have "snd ` set (case b of None \<Rightarrow> [] | Some cs \<Rightarrow> enumerate 0 cs) = set (case b of None \<Rightarrow> [] | Some cs \<Rightarrow> cs)"
        by (cases b) (simp_all flip: set_map)
      with Cons show ?case by (simp add: bucket_targets_def image_Un)
    qed (simp add: bucket_targets_def)
    with Some show ?thesis by (simp add: typed_targets_def)
  qed
  finally show ?thesis
    using Some by (auto simp: hops_def followed_def filter_types_def type_targets_def split: bind_splits)
qed

lemma find_connection_Some:
  assumes "find_connection cs ty p queue visited = Some r"
  shows "\<exists>q cur c. q \<in> set queue \<and> (q, cur) \<in> (hop_rel cs (OneType ty))\<^sup>*
    \<and> (nc_destinationIndex r, c) \<in> set (typed_targets cs ty cur) \<and> conn_node c = p \<and> conn_index c = nc_sourceIndex r"
  using assms
proof (induction cs ty p queue visited rule: find_connection.induct)
  case (1 cs ty p visited)
  then show ?case by simp
next
  case (2 cs ty p cur queue visited)
  show ?case
  proof (cases "cur \<in> set visited")
    case True
    with 2 show ?thesis by fastforce
  next
    case False
    show ?thesis
    proof (cases "find (\<lambda>(_, c). conn_node c = p) (typed_targets cs ty cur)")
      case (Some kc)
      moreover obtain k c where kc: "kc = (k, c)" by (cases kc)
      ultimately have "(k, c) \<in> set (typed_targets cs ty cur) \<and> conn_node c = p"
        by (auto simp: find_Some_iff) (metis nth_mem)
      with 2(3) False Some kc show ?thesis by fastforce
    next
      case None
      let ?q = "queue @ filter (\<lambda>n. n \<notin> set (visited @ [cur])) (map (\<lambda>(_, c). conn_node c) (typed_targets cs ty cur))"
      have "find_connection cs ty p ?q (visited @ [cur]) = Some r" using 2(3) False None by simp
      from 2(2) [OF False None this] obtain q stop c where q: "q \<in> set ?q"
        "(q, stop) \<in> (hop_rel cs (OneType ty))\<^sup>*"
        "(nc_destinationIndex r, c) \<in> set (typed_targets cs ty stop)" "conn_node c = p" "conn_index c = nc_sourceIndex r"
        by blast
      show ?thesis
      proof (cases "q \<in> set queue")
        case True
        with q show ?thesis by (metis list.set_intros(2))
      next
        case False
        with q(1) have "q \<in> (\<lambda>(_, c). conn_node c) ` set (typed_targets cs ty cur)" by auto
        then have "(cur, q) \<in> hop_rel cs (OneType ty)" by (simp add: typed_targets_hops hop_rel_def)
        then have "(cur, stop) \<in> (hop_rel cs (OneType ty))\<^sup>*" using q(2) by (rule converse_rtrancl_into_rtrancl)
        with q(3-) show ?thesis by (metis list.set_intros(1))
      qed
    qed
  qed
qed

lemma find_connection_None:
  assumes "find_connection cs ty p queue visited = None"
    and "\<forall>v \<in> set visited. p \<notin> hops cs (OneType ty) v \<and> hops cs (OneType ty) v \<subseteq> set visited \<union> set queue"
  shows "\<exists>V. set visited \<union> set queue \<subseteq> V \<and> (\<forall>v \<in> V. p \<notin> hops cs (OneType ty) v \<and> hops cs (OneType ty) v \<subseteq> V)"
  using assms
proof (induction cs ty p queue visited rule: find_connection.induct)
  case (1 cs ty p visited)
  then show ?case by auto
next
  case (2 cs ty p cur queue visited)
  show ?case
  proof (cases "cur \<in> set visited")
    case True
    then have "set visited \<union> set (cur # queue) = set visited \<union> set queue" by auto
    with 2(1) [OF True] 2(3,4) True show ?thesis by simp
  next
    case False
    have None: "find (\<lambda>(_, c). conn_node c = p) (typed_targets cs ty cur) = None"
      using 2(3) False by (auto split: option.splits)
    then have "p \<notin> (\<lambda>(_, c). conn_node c) ` set (typed_targets cs ty cur)"
      by (auto simp: find_None_iff)
    then have p: "p \<notin> hops cs (OneType ty) cur" by (simp add: typed_targets_hops)
    let ?q = "queue @ filter (\<lambda>n. n \<notin> set (visited @ [cur])) (map (\<lambda>(_, c). conn_node c) (typed_targets cs ty cur))"
    have Q: "set (visited @ [cur]) \<union> set ?q = insert cur (set visited \<union> set queue) \<union> hops cs (OneType ty) cur"
      by (auto simp: typed_targets_hops [symmetric])
    have rec: "find_connection cs ty p ?q (visited @ [cur]) = None" using 2(3) False None by simp
    have "\<forall>v \<in> set (visited @ [cur]). p \<notin> hops cs (OneType ty) v
        \<and> hops cs (OneType ty) v \<subseteq> set (visited @ [cur]) \<union> set ?q"
      unfolding Q using 2(4) p by auto
    from 2(2) [OF False None rec this] obtain V where V: "set (visited @ [cur]) \<union> set ?q \<subseteq> V"
      and closed: "\<forall>v \<in> V. p \<notin> hops cs (OneType ty) v \<and> hops cs (OneType ty) v \<subseteq> V" by blast
    from V have "set visited \<union> set (cur # queue) \<subseteq> V" unfolding Q by simp
    with closed show ?thesis by blast
  qed
qed

lemma trancl_last_hop: "(a, b) \<in> R\<^sup>+ \<longleftrightarrow> (\<exists>c. (a, c) \<in> R\<^sup>* \<and> (c, b) \<in> R)"
  by (meson rtrancl_into_trancl1 tranclD2)

lemma getNodeConnectionIndexes_Some:
  assumes "getNodeConnectionIndexes w nm p ty = Some r"
  shows "\<exists>cur tys bs l. (nm, cur) \<in> (hop_rel (wf_connectionsByDestinationNode w) (OneType ty))\<^sup>*
    \<and> map_of (wf_connectionsByDestinationNode w) cur = Some tys \<and> map_of tys ty = Some bs \<and> Some l \<in> set bs
    \<and> nc_destinationIndex r < length l \<and> conn_node (l ! nc_destinationIndex r) = p
    \<and> conn_index (l ! nc_destinationIndex r) = nc_sourceIndex r"
proof -
  let ?D = "wf_connectionsByDestinationNode w"
  from assms have "find_connection ?D ty p [nm] [] = Some r"
    by (auto simp: getNodeConnectionIndexes_def split: option.splits)
  from find_connection_Some [OF this] obtain cur c where
    c: "(nm, cur) \<in> (hop_rel ?D (OneType ty))\<^sup>*" "(nc_destinationIndex r, c) \<in> set (typed_targets ?D ty cur)"
      "conn_node c = p" "conn_index c = nc_sourceIndex r"
    by auto
  with in_typed_targets [OF c(2)] show ?thesis by blast
qed

lemma getNodeConnectionIndexes_iff:
  "(\<exists>r. getNodeConnectionIndexes w nm p ty = Some r) \<longleftrightarrow>
   getNode w p \<noteq> None \<and> (nm, p) \<in> (hop_rel (wf_connectionsByDestinationNode w) (OneType ty))\<^sup>+"
proof -
  let ?D = "wf_connectionsByDestinationNode w"
  let ?R = "hop_rel ?D (OneType ty)"
  have "(nm, p) \<in> ?R\<^sup>+" if "find_connection ?D ty p [nm] [] = Some r" for r
  proof -
    from find_connection_Some [OF that] obtain cur k c where "(nm, cur) \<in> ?R\<^sup>*"
      "(k, c) \<in> set (typed_targets ?D ty cur)" "conn_node c = p" by auto
    then have "(cur, p) \<in> ?R"
      using typed_targets_hops [of ?D ty cur] by (force simp: hop_rel_def)
    with \<open>(nm, cur) \<in> ?R\<^sup>*\<close> show ?thesis by (rule rtrancl_into_trancl1)
  qed
  moreover have "(nm, p) \<notin> ?R\<^sup>+" if None: "find_connection ?D ty p [nm] [] = None"
  proof
    assume "(nm, p) \<in> ?R\<^sup>+"
    then obtain cur where cur: "(nm, cur) \<in> ?R\<^sup>*" "(cur, p) \<in> ?R" unfolding trancl_last_hop by blast
    from find_connection_None [OF None] obtain V where V: "nm \<in> V"
      "\<forall>v \<in> V. p \<notin> hops ?D (OneType ty) v \<and> hops ?D (OneType ty) v \<subseteq> V" by auto
    have "cur \<in> V"
      using cur(1) V by (induction rule: rtrancl_induct) (auto simp: hop_rel_def)
    with V(2) cur(2) show False by (auto simp: hop_rel_def)
  qed
  ultimately show ?thesis
    by (cases "find_connection ?D ty p [nm] []") (auto simp: getNodeConnectionIndexes_def split: option.splits)
qed

section \<open>Lemmas on start nodes and connections between nodes\<close>

definition is_start_trigger :: "workflow \<Rightarrow> inode \<Rightarrow> bool" where
  "is_start_trigger w n \<longleftrightarrow> \<not> is_disabled n \<and>
     (case node_type_of w n of None \<Rightarrow> False
      | Some nt \<Rightarrow> nt_name nt \<noteq> MANUAL_CHAT_TRIGGER \<and> (nt_trigger nt \<or> nt_poll nt))"

definition is_starting :: "inode \<Rightarrow> bool" where
  "is_starting n \<longleftrightarrow> node_type n \<in> set STARTING_NODE_TYPES \<and> \<not> is_disabled n"

lemma first_trigger_correct:
  assumes "\<forall>nm \<in> set names. \<exists>n. map_of (wf_nodes w) nm = Some n \<and> node_type_of w n \<noteq> None"
  shows "first_trigger w names =
     Inr (find (is_start_trigger w) (List.map_filter (map_of (wf_nodes w)) names))"
  using assms
proof (induction names)
  case Nil
  then show ?case by (simp add: List.map_filter_simps)
next
  case (Cons nm names)
  then obtain n nt where "map_of (wf_nodes w) nm = Some n" "node_type_of w n = Some nt" by auto
  with Cons show ?case by (simp add: List.map_filter_simps is_start_trigger_def)
qed

lemma first_trigger_Some:
  "first_trigger w names = Inr (Some n) \<Longrightarrow>
   is_start_trigger w n \<and> (\<exists>nm \<in> set names. map_of (wf_nodes w) nm = Some n)"
  by (induction names) (auto simp: is_start_trigger_def split: option.splits if_splits)

lemma find_in_set: "find P xs = Some x \<Longrightarrow> x \<in> set xs \<and> P x"
  by (induction xs) (auto split: if_splits)

lemma find_sorted_min:
  assumes "find P (sort_key k xs) = Some x" and "y \<in> set xs" and "P y"
  shows "k x \<le> k y"
proof -
  have "k x \<le> k y" if "sorted (map k zs)" "find P zs = Some x" "y \<in> set zs" for zs
    using that assms(3) by (induction zs) (auto split: if_splits)
  with assms show ?thesis by (metis set_sort sorted_sort_key)
qed

lemma start_by_type_Some:
  assumes "start_by_type w names = Inr (Some n)"
  shows "n \<in> set (map_values (wf_nodes w))
    \<and> (is_start_trigger w n \<or> is_starting n \<and> (\<forall>m \<in> set (map_values (wf_nodes w)). is_starting m \<longrightarrow>
           index_of (node_type n) STARTING_NODE_TYPES \<le> index_of (node_type m) STARTING_NODE_TYPES))"
proof -
  from assms consider (trigger) "first_trigger w names = Inr (Some n)"
    | (type) "find is_starting (sorted_nodes w) = Some n"
    by (auto simp: start_by_type_def res_bind_eq_Inr is_starting_def [abs_def] split: option.splits)
  then show ?thesis
  proof cases
    case trigger
    from first_trigger_Some [OF this] show ?thesis by (force dest: map_of_SomeD)
  next
    case type
    from find_in_set [OF type] find_sorted_min [OF type [unfolded sorted_nodes_def]] show ?thesis
      by (auto simp: sorted_nodes_def)
  qed
qed

lemma get_start_node_cases:
  assumes "get_start_node w names = Inr (Some n)"
  shows "(\<exists>nm. names = [nm] \<and> map_of (wf_nodes w) nm = Some n \<and> \<not> is_disabled n) \<or> start_by_type w names = Inr (Some n)"
  using assms by (auto simp: get_start_node_def length_Suc_conv split: option.splits if_splits)

lemma get_start_node_Some:
  assumes "get_start_node w names = Inr (Some n)"
  shows "n \<in> set (map_values (wf_nodes w)) \<and> \<not> is_disabled n"
  using get_start_node_cases [OF assms] start_by_type_Some [of w names n]
  by (force simp: is_start_trigger_def is_starting_def dest: map_of_SomeD)

text \<open>With all node types known, the choice over a list of existing names never fails.\<close>

lemma get_start_node_None:
  assumes "\<forall>nm \<in> set names. \<exists>n. map_of (wf_nodes w) nm = Some n \<and> node_type_of w n \<noteq> None"
    and "get_start_node w names = r"
  shows "(\<exists>n. r = Inr (Some n)) \<or> r = Inr None
     \<and> (\<forall>nm \<in> set names. \<forall>n. map_of (wf_nodes w) nm = Some n \<longrightarrow> \<not> is_start_trigger w n)
     \<and> (\<forall>n \<in> set (map_values (wf_nodes w)). \<not> is_starting n)"
proof -
  have "start_by_type w names = Inr (case find (is_start_trigger w) (List.map_filter (map_of (wf_nodes w)) names) of
      Some n \<Rightarrow> Some n | None \<Rightarrow> find is_starting (sorted_nodes w))"
    using first_trigger_correct [OF assms(1)]
    by (simp add: start_by_type_def is_starting_def [abs_def] split: option.split)
  then have "(\<exists>n. start_by_type w names = Inr (Some n)) \<or> start_by_type w names = Inr None
     \<and> (\<forall>nm \<in> set names. \<forall>n. map_of (wf_nodes w) nm = Some n \<longrightarrow> \<not> is_start_trigger w n)
     \<and> (\<forall>n \<in> set (map_values (wf_nodes w)). \<not> is_starting n)"
    by (auto simp: find_None_iff List.map_filter_def sorted_nodes_def split: option.splits) force+
  with assms(2) show ?thesis by (auto simp: get_start_node_def split: option.splits if_splits)
qed

lemma in_getConnectionsBetweenNodes:
  assumes "conns_wf (wf_connectionsBySourceNode w)"
  shows "(a, c) \<in> set (getConnectionsBetweenNodes w sources targets) \<longleftrightarrow>
    conn_node a \<in> set sources \<and> conn_node c \<in> set targets
    \<and> (conn_node a, conn_type a, conn_index a, c) \<in> set (conn_entries (wf_connectionsBySourceNode w))"
proof -
  let ?C = "wf_connectionsBySourceNode w"
  have ent: "e \<in> set (case map_of ?C s of None \<Rightarrow> [] | Some tys \<Rightarrow> node_entries s tys) \<longleftrightarrow>
      (\<exists>t i d. e = (s, t, i, d) \<and> (s, t, i, d) \<in> set (conn_entries ?C))" for s e
  proof -
    obtain s' t i d where e: "e = (s', t, i, d)" by (cases e)
    show ?thesis
    proof (cases "map_of ?C s")
      case None
      then have "s \<notin> fst ` set ?C" by (simp add: map_of_eq_None_iff)
      with None show ?thesis by (force simp: e in_conn_entries)
    next
      case (Some tys)
      moreover have "(s, tys') \<in> set ?C \<longleftrightarrow> tys' = tys" for tys'
        using assms Some by (metis conns_wf_def map_of_eq_Some_iff option.inject)
      ultimately show ?thesis by (auto simp: e in_conn_entries in_node_entries)
    qed
  qed
  let ?F = "\<lambda>s (_, ty, i, c). if conn_node c \<in> set targets
      then Some (\<lparr>conn_node = s, conn_type = ty, conn_index = i\<rparr>, c) else None"
  have one: "(a, c) \<in> set (List.map_filter (?F s) es) \<longleftrightarrow>
      conn_node a = s \<and> conn_node c \<in> set targets \<and> (s, conn_type a, conn_index a, c) \<in> set es"
    if "\<forall>e \<in> set es. fst e = s" for s es
  proof -
    have "(a, c) \<in> set (List.map_filter (?F s) es) \<longleftrightarrow> (\<exists>e \<in> set es. ?F s e = Some (a, c))"
      by (force simp: List.map_filter_def)
    also have "\<dots> \<longleftrightarrow> conn_node a = s \<and> conn_node c \<in> set targets \<and> (s, conn_type a, conn_index a, c) \<in> set es"
    proof -
      have elem: "?F s e = Some (a, c) \<longleftrightarrow>
          conn_node a = s \<and> conn_node c \<in> set targets \<and> snd e = (conn_type a, conn_index a, c)" for e
        by (cases e; cases a) auto
      show ?thesis using that unfolding elem by (metis prod.collapse snd_conv)
    qed
    finally show ?thesis .
  qed
  have fst_s: "\<forall>e \<in> set (case map_of ?C s of None \<Rightarrow> [] | Some tys \<Rightarrow> node_entries s tys). fst e = s" for s
    using ent by auto
  show ?thesis
    unfolding getConnectionsBetweenNodes_def set_concat set_map
    using one [OF fst_s] ent by auto
qed

end
