(* ===== verification/Search.thy ===== *)
theory Search
  imports Prelude
begin

text \<open>
  The contract of the graph searches of the program: a recursive function that expands a node
  into keys (child nodes, or connections), skips the keys collected before, adds the others to
  the collected ones and continues from each. Under a finite universe of keys such a search
  ends, and it collects exactly the keys reachable from its start. Every search of the program
  with this shape is an interpretation of this locale.
\<close>

locale visited_search =
  fixes ok :: "'g \<Rightarrow> bool"
    and expand :: "'g \<Rightarrow> 'a \<Rightarrow> 'k list result"
    and target :: "'k \<Rightarrow> 'a"
    and valid :: "'g \<Rightarrow> 'a set"
    and keys :: "'g \<Rightarrow> 'k set"
    and search :: "nat \<Rightarrow> 'g \<Rightarrow> 'a \<Rightarrow> 'k list \<Rightarrow> 'k list result"
  assumes search_0: "search 0 g a S = Inl OutOfFuel"
    and search_Suc: "search (Suc f) g a S =
        res_bind (expand g a)
          (\<lambda>ks. for_each (\<lambda>k S. if k \<in> set S then Inr S else search f g (target k) (S @ [k])) ks S)"
    and expand_ok: "ok g \<Longrightarrow> a \<in> valid g \<Longrightarrow> \<exists>ks. expand g a = Inr ks \<and> set ks \<subseteq> keys g"
    and target_ok: "ok g \<Longrightarrow> k \<in> keys g \<Longrightarrow> target k \<in> valid g"
    and finite_keys: "finite (keys g)"
begin

definition succs :: "'g \<Rightarrow> 'a \<Rightarrow> 'k set" where
  "succs g a = (case expand g a of Inl _ \<Rightarrow> {} | Inr ks \<Rightarrow> set ks)"

definition key_rel :: "'g \<Rightarrow> ('k \<times> 'k) set" where
  "key_rel g = {(k, k'). k' \<in> succs g (target k)}"

definition reach :: "'g \<Rightarrow> 'a \<Rightarrow> 'k set" where
  "reach g a = {k'. \<exists>k \<in> succs g a. (k, k') \<in> (key_rel g)\<^sup>*}"

lemma succs_subset_reach: "succs g a \<subseteq> reach g a"
  by (auto simp: reach_def)

lemma reach_step: "k \<in> succs g a \<Longrightarrow> reach g (target k) \<subseteq> reach g a"
proof
  fix x
  assume k: "k \<in> succs g a" and "x \<in> reach g (target k)"
  then obtain k' where "k' \<in> succs g (target k)" and r: "(k', x) \<in> (key_rel g)\<^sup>*"
    by (auto simp: reach_def)
  then have "(k, x) \<in> (key_rel g)\<^sup>*"
    by (auto simp: key_rel_def intro: converse_rtrancl_into_rtrancl)
  with k show "x \<in> reach g a" by (auto simp: reach_def)
qed

lemma search_correct:
  assumes "ok g" and "a \<in> valid g" and "set S \<subseteq> keys g" and "distinct S"
    and "card (keys g) - length S < f"
  shows "\<exists>U. search f g a S = Inr (S @ U) \<and> distinct (S @ U) \<and> set U \<subseteq> keys g \<inter> reach g a
      \<and> succs g a \<subseteq> set (S @ U) \<and> (\<forall>k \<in> set U. succs g (target k) \<subseteq> set (S @ U))"
  using assms
proof (induction f arbitrary: a S)
  case 0
  then show ?case by simp
next
  case (Suc f)
  from expand_ok [OF Suc.prems(1,2)] obtain ks where ks: "expand g a = Inr ks" "set ks \<subseteq> keys g"
    by blast
  then have succs: "succs g a = set ks" by (simp add: succs_def)
  let ?P = "\<lambda>us T. \<exists>U. T = S @ U \<and> distinct T \<and> set U \<subseteq> keys g \<inter> reach g a \<and> set us \<subseteq> set T
      \<and> (\<forall>k \<in> set U. succs g (target k) \<subseteq> set T)"
  have "\<exists>t. for_each (\<lambda>k S. if k \<in> set S then Inr S else search f g (target k) (S @ [k])) ks S = Inr t
      \<and> ?P ks t"
  proof (rule for_each_total)
    show "?P [] S" using Suc.prems by simp
  next
    fix ys k zs T
    assume split: "ks = ys @ k # zs" and P: "?P ys T"
    then obtain U where U: "T = S @ U" "distinct T" "set U \<subseteq> keys g \<inter> reach g a" "set ys \<subseteq> set T"
      "\<forall>k \<in> set U. succs g (target k) \<subseteq> set T" by blast
    show "\<exists>s'. (if k \<in> set T then Inr T else search f g (target k) (T @ [k])) = Inr s' \<and> ?P (ys @ [k]) s'"
    proof (cases "k \<in> set T")
      case True
      with U show ?thesis by auto
    next
      case False
      have k: "k \<in> keys g" "k \<in> succs g a" using split ks(2) succs by auto
      have sub: "set T \<subset> keys g" using False U(1,3) k(1) Suc.prems(3) by auto
      then have "length T < card (keys g)"
        using psubset_card_mono [OF finite_keys sub] distinct_card [OF U(2)] by simp
      moreover have "length S \<le> length T" using U(1) by simp
      ultimately have "card (keys g) - length (T @ [k]) < f"
        using Suc.prems(5) by simp
      moreover have "distinct (T @ [k])" "set (T @ [k]) \<subseteq> keys g"
        using False U(2) sub k(1) by auto
      ultimately obtain V where V: "search f g (target k) (T @ [k]) = Inr ((T @ [k]) @ V)"
        "distinct ((T @ [k]) @ V)" "set V \<subseteq> keys g \<inter> reach g (target k)"
        "succs g (target k) \<subseteq> set ((T @ [k]) @ V)"
        "\<forall>j \<in> set V. succs g (target j) \<subseteq> set ((T @ [k]) @ V)"
        using Suc.IH [OF Suc.prems(1) target_ok [OF Suc.prems(1) k(1)]] by blast
      have "?P (ys @ [k]) ((T @ [k]) @ V)"
      proof (intro exI [of _ "U @ [k] @ V"] conjI)
        show "(T @ [k]) @ V = S @ U @ [k] @ V" using U(1) by simp
        show "distinct ((T @ [k]) @ V)" by (rule V(2))
        show "set (U @ [k] @ V) \<subseteq> keys g \<inter> reach g a"
          using U(3) V(3) k succs_subset_reach reach_step [OF k(2)] by auto
        show "set (ys @ [k]) \<subseteq> set ((T @ [k]) @ V)" using U(4) by auto
        show "\<forall>j \<in> set (U @ [k] @ V). succs g (target j) \<subseteq> set ((T @ [k]) @ V)"
          using U(5) V(4,5) by auto
      qed
      with V(1) False show ?thesis by auto
    qed
  qed
  then obtain T where T: "for_each (\<lambda>k S. if k \<in> set S then Inr S else search f g (target k) (S @ [k])) ks S = Inr T"
    and "?P ks T" by blast
  then obtain U where "T = S @ U" "distinct T" "set U \<subseteq> keys g \<inter> reach g a" "set ks \<subseteq> set T"
      "\<forall>k \<in> set U. succs g (target k) \<subseteq> set T" by blast
  with T show ?case using ks(1) succs by (auto simp: search_Suc)
qed

text \<open>A search from nothing collects, once each, exactly the reachable keys.\<close>

theorem search_reach:
  assumes "ok g" and "a \<in> valid g" and "card (keys g) < f"
  shows "\<exists>S. search f g a [] = Inr S \<and> distinct S \<and> set S = reach g a"
proof -
  from search_correct [OF assms(1,2), of "[]" f] assms(3) obtain S where
    S: "search f g a [] = Inr S" "distinct S" "set S \<subseteq> reach g a" "succs g a \<subseteq> set S"
    "\<forall>k \<in> set S. succs g (target k) \<subseteq> set S" by auto
  have "reach g a \<subseteq> set S"
  proof
    fix k'
    assume "k' \<in> reach g a"
    then obtain k where "k \<in> succs g a" and r: "(k, k') \<in> (key_rel g)\<^sup>*"
      by (auto simp: reach_def)
    from r show "k' \<in> set S"
      by (rule closed_contains_rtrancl)
        (use S(4,5) \<open>k \<in> succs g a\<close> in \<open>auto simp: key_rel_def\<close>)
  qed
  with S show ?thesis by blast
qed

end

end
