(* ===== verification/Directed_Graph.thy ===== *)
theory Directed_Graph
  imports Workflow_Graph Search
begin

text \<open>
  The class \<^verbatim>\<open>DirectedGraph\<close> of partial executions
  (\<^verbatim>\<open>packages/core/src/execution-engine/partial-execution-utils/directed-graph.ts\<close>): two maps, the
  nodes by name and the connections by a key built from both ends. Nodes are compared by
  reference, which the field \<open>node_ref\<close> of a node makes explicit. A method that asserts that a
  node belongs to the graph returns an \<open>AssertionError\<close> when it does not.
\<close>

section \<open>State\<close>

record gconn =
  gc_from :: inode
  gc_to :: inode
  gc_type :: string
  gc_outputIndex :: nat
  gc_inputIndex :: nat

record directed_graph =
  g_nodes :: "(string, inode) jsmap"
  g_conns :: "(string, gconn) jsmap"

definition empty_graph :: directed_graph where
  "empty_graph = \<lparr>g_nodes = [], g_conns = []\<rparr>"

definition make_key :: "gconn \<Rightarrow> string" where
  "make_key c =
     node_name (gc_from c) @ CHR ''-'' # gc_type c @ CHR ''-'' # show_nat (gc_outputIndex c)
       @ CHR ''-'' # show_nat (gc_inputIndex c) @ CHR ''-'' # node_name (gc_to c)"

abbreviation graph_nodes :: "directed_graph \<Rightarrow> inode set" where
  "graph_nodes g \<equiv> set (map_values (g_nodes g))"

abbreviation graph_conns :: "directed_graph \<Rightarrow> gconn set" where
  "graph_conns g \<equiv> set (map_values (g_conns g))"

section \<open>Reading and editing\<close>

definition hasNode :: "directed_graph \<Rightarrow> string \<Rightarrow> bool" where
  "hasNode g nodeName = (nodeName \<in> set (map_keys (g_nodes g)))"

definition dg_getNodes :: "directed_graph \<Rightarrow> (string, inode) jsmap" where
  "dg_getNodes g = g_nodes g"

definition getNodesByNames :: "directed_graph \<Rightarrow> string list \<Rightarrow> inode list" where
  "getNodesByNames g names =
     fold (\<lambda>nm S. case map_of (g_nodes g) nm of None \<Rightarrow> S | Some n \<Rightarrow> set_add n S) names []"

definition getConnections :: "directed_graph \<Rightarrow> inode option \<Rightarrow> gconn list" where
  "getConnections g to =
     filter (\<lambda>c. case to of None \<Rightarrow> True | Some n \<Rightarrow> gc_to c = n) (map_values (g_conns g))"

definition addNode :: "inode \<Rightarrow> directed_graph \<Rightarrow> directed_graph" where
  "addNode n g = g\<lparr>g_nodes := map_set (node_name n) n (g_nodes g)\<rparr>"

definition addNodes :: "inode list \<Rightarrow> directed_graph \<Rightarrow> directed_graph" where
  "addNodes ns g = fold addNode ns g"

definition in_graph :: "directed_graph \<Rightarrow> inode \<Rightarrow> bool" where
  "in_graph g n \<longleftrightarrow> map_of (g_nodes g) (node_name n) = Some n"

definition getDirectChildConnections :: "directed_graph \<Rightarrow> inode \<Rightarrow> gconn list result" where
  "getDirectChildConnections g n =
     res_bind (assert_ok (in_graph g n) ''is not part of this graph'')
       (\<lambda>_. Inr (filter (\<lambda>c. gc_from c = n) (map_values (g_conns g))))"

definition getDirectParentConnections :: "directed_graph \<Rightarrow> inode \<Rightarrow> gconn list result" where
  "getDirectParentConnections g n =
     res_bind (assert_ok (in_graph g n) ''is not part of this graph'')
       (\<lambda>_. Inr (filter (\<lambda>c. gc_to c = n) (map_values (g_conns g))))"

record conn_input =
  ci_from :: inode
  ci_to :: inode
  ci_type :: "string option"
  ci_outputIndex :: "nat option"
  ci_inputIndex :: "nat option"

definition default_to :: "'a \<Rightarrow> 'a option \<Rightarrow> 'a" where
  "default_to d x = (case x of None \<Rightarrow> d | Some y \<Rightarrow> y)"

definition addConnection :: "conn_input \<Rightarrow> directed_graph \<Rightarrow> directed_graph result" where
  "addConnection inp g =
     res_bind (assert_ok (in_graph g (ci_from inp)) ''Cannot add connection: source node is not part of this graph.'')
       (\<lambda>_. res_bind (assert_ok (in_graph g (ci_to inp)) ''Cannot add connection: target node is not part of this graph.'')
         (\<lambda>_. let c = \<lparr>gc_from = ci_from inp, gc_to = ci_to inp,
                        gc_type = default_to Main_type (ci_type inp),
                        gc_outputIndex = default_to 0 (ci_outputIndex inp),
                        gc_inputIndex = default_to 0 (ci_inputIndex inp)\<rparr>
               in Inr (g\<lparr>g_conns := map_set (make_key c) c (g_conns g)\<rparr>)))"

definition addConnections :: "conn_input list \<Rightarrow> directed_graph \<Rightarrow> directed_graph result" where
  "addConnections inps g = for_each addConnection inps g"

text \<open>A connection given back to \<open>addConnection\<close> has all its fields.\<close>

definition conn_as_input :: "gconn \<Rightarrow> conn_input" where
  "conn_as_input c = \<lparr>ci_from = gc_from c, ci_to = gc_to c, ci_type = Some (gc_type c),
     ci_outputIndex = Some (gc_outputIndex c), ci_inputIndex = Some (gc_inputIndex c)\<rparr>"

definition getConnection :: "directed_graph \<Rightarrow> inode \<Rightarrow> nat \<Rightarrow> string \<Rightarrow> nat \<Rightarrow> inode \<Rightarrow> gconn option" where
  "getConnection g from out ty inp to =
     map_of (g_conns g)
       (make_key \<lparr>gc_from = from, gc_to = to, gc_type = ty, gc_outputIndex = out, gc_inputIndex = inp\<rparr>)"

record remove_options =
  reconnectConnections :: bool
  skipConnectionFn :: "(gconn \<Rightarrow> bool) option"

definition skips :: "remove_options \<Rightarrow> gconn \<Rightarrow> bool" where
  "skips opts c = (case skipConnectionFn opts of None \<Rightarrow> False | Some f \<Rightarrow> f c)"

definition joined :: "gconn \<Rightarrow> gconn \<Rightarrow> gconn" where
  "joined i out = i\<lparr>gc_to := gc_to out, gc_inputIndex := gc_inputIndex out\<rparr>"

definition drop_conns :: "inode \<Rightarrow> (string, gconn) jsmap \<Rightarrow> (string, gconn) jsmap" where
  "drop_conns n conns =
     fold (\<lambda>(k, c) m. if gc_to c = n \<or> gc_from c = n then map_delete k m else m) conns conns"

definition removeNode :: "inode \<Rightarrow> remove_options \<Rightarrow> directed_graph \<Rightarrow> (gconn list option \<times> directed_graph) result" where
  "removeNode n opts g =
     (if reconnectConnections opts then
        res_bind (getDirectParentConnections g n) (\<lambda>incoming.
        res_bind (getDirectChildConnections g n) (\<lambda>outgoing.
          let new = concat (map (\<lambda>i. if skips opts i then []
                      else map (joined i) (filter (\<lambda>out. \<not> skips opts out) outgoing)) incoming);
              conns = fold (\<lambda>c. map_set (make_key c) c) new (drop_conns n (g_conns g))
          in Inr (Some new, \<lparr>g_nodes = map_delete (node_name n) (g_nodes g), g_conns = conns\<rparr>)))
      else Inr (None, \<lparr>g_nodes = map_delete (node_name n) (g_nodes g), g_conns = drop_conns n (g_conns g)\<rparr>))"

section \<open>Searches\<close>

text \<open>
  The collected nodes (or connections) are the mutable set that the recursive calls share. A
  call is made for a newly collected element only, which bounds the fuel by their number.
\<close>

primrec getChildrenRecursive :: "nat \<Rightarrow> directed_graph \<Rightarrow> inode \<Rightarrow> inode list \<Rightarrow> inode list result" where
  "getChildrenRecursive 0 g n children = Inl OutOfFuel"
| "getChildrenRecursive (Suc fuel) g n children =
     res_bind (getDirectChildConnections g n) (\<lambda>directChildren.
       for_each (\<lambda>c children.
           if gc_to c \<in> set children then Inr children
           else getChildrenRecursive fuel g (gc_to c) (children @ [gc_to c]))
         directChildren children)"

definition getChildren :: "directed_graph \<Rightarrow> inode \<Rightarrow> inode list result" where
  "getChildren g n = getChildrenRecursive (Suc (length (g_nodes g))) g n []"

primrec getParentConnectionsRecursive :: "nat \<Rightarrow> directed_graph \<Rightarrow> inode \<Rightarrow> gconn list \<Rightarrow> gconn list result" where
  "getParentConnectionsRecursive 0 g n connections = Inl OutOfFuel"
| "getParentConnectionsRecursive (Suc fuel) g n connections =
     res_bind (getDirectParentConnections g n) (\<lambda>parentConnections.
       for_each (\<lambda>c connections.
           if c \<in> set connections then Inr connections
           else getParentConnectionsRecursive fuel g (gc_from c) (connections @ [c]))
         parentConnections connections)"

definition getParentConnections :: "directed_graph \<Rightarrow> inode \<Rightarrow> gconn list result" where
  "getParentConnections g n = getParentConnectionsRecursive (Suc (length (g_conns g))) g n []"

primrec depthFirstSearchRecursive ::
    "nat \<Rightarrow> directed_graph \<Rightarrow> (inode \<Rightarrow> bool) \<Rightarrow> inode \<Rightarrow> inode list \<Rightarrow> (inode option \<times> inode list) result" where
  "depthFirstSearchRecursive 0 g fn from seen = Inl OutOfFuel"
| "depthFirstSearchRecursive (Suc fuel) g fn from seen =
     (if from \<in> set seen then Inr (None, seen)
      else if fn from then Inr (Some from, seen @ [from])
      else res_bind (getDirectChildConnections g from) (\<lambda>conns.
        for_each (\<lambda>c (found, seen). case found of
             Some f \<Rightarrow> Inr (Some f, seen)
           | None \<Rightarrow> depthFirstSearchRecursive fuel g fn (gc_to c) seen)
         conns (None, seen @ [from])))"

definition depthFirstSearch :: "directed_graph \<Rightarrow> inode \<Rightarrow> (inode \<Rightarrow> bool) \<Rightarrow> inode option result" where
  "depthFirstSearch g from fn =
     res_bind (depthFirstSearchRecursive (Suc (Suc (length (g_nodes g)))) g fn from []) (\<lambda>(found, _). Inr found)"

section \<open>Conversions\<close>

definition add_entry :: "(string \<Rightarrow> inode option) \<Rightarrow> inode \<Rightarrow> conn_entry \<Rightarrow> directed_graph \<Rightarrow> directed_graph result" where
  "add_entry lookup from = (\<lambda>(_, outputType, outputIndex, conn) g.
     case lookup (conn_node conn) of
       None \<Rightarrow> Inl (AssertionError ''to'')
     | Some to \<Rightarrow> addConnection \<lparr>ci_from = from, ci_to = to, ci_type = Some outputType,
                     ci_outputIndex = Some outputIndex, ci_inputIndex = Some (conn_index conn)\<rparr> g)"

definition add_iconnections :: "(string \<Rightarrow> inode option) \<Rightarrow> iconnections \<Rightarrow> directed_graph \<Rightarrow> directed_graph result" where
  "add_iconnections lookup connections =
     for_each (\<lambda>(fromName, tys) g.
        case lookup fromName of
          None \<Rightarrow> Inl (AssertionError ''from'')
        | Some from \<Rightarrow> for_each (add_entry lookup from) (node_entries fromName tys) g) connections"

definition fromWorkflow :: "workflow \<Rightarrow> directed_graph result" where
  "fromWorkflow w =
     add_iconnections (getNode w) (wf_connectionsBySourceNode w)
       (addNodes (map_values (wf_nodes w)) empty_graph)"

definition fromNodesAndConnections :: "inode list \<Rightarrow> iconnections \<Rightarrow> directed_graph result" where
  "fromNodesAndConnections nodes connections =
     (let nodeMap = fold (\<lambda>n. map_set (node_name n) n) nodes []
      in add_iconnections (map_of nodeMap) connections (addNodes nodes empty_graph))"

definition clone_graph :: "directed_graph \<Rightarrow> directed_graph result" where
  "clone_graph g =
     addConnections (map conn_as_input (getConnections g None)) (addNodes (map_values (dg_getNodes g)) empty_graph)"

text \<open>
  The object of a source node is created with the type of its first connection only; for a
  connection of another type the array of that type is undefined and indexing it raises.
\<close>

definition grow_push :: "nat \<Rightarrow> iconnection \<Rightarrow> conn_bucket list \<Rightarrow> conn_bucket list" where
  "grow_push i c bs =
     (let group = (case arr_get bs i of Some (Some cs) \<Rightarrow> cs | _ \<Rightarrow> [])
      in arr_put None i (Some (group @ [c])) bs)"

definition put_connection :: "gconn \<Rightarrow> iconnections \<Rightarrow> iconnections result" where
  "put_connection c res =
     (let tys = (case map_of res (node_name (gc_from c)) of None \<Rightarrow> [(gc_type c, [])] | Some tys \<Rightarrow> tys)
      in case map_of tys (gc_type c) of
           None \<Rightarrow> Inl (TypeError ''Cannot read properties of undefined'')
         | Some bs \<Rightarrow>
             Inr (obj_put (node_name (gc_from c))
               (obj_put (gc_type c)
                  (grow_push (gc_outputIndex c)
                     \<lparr>conn_node = node_name (gc_to c), conn_type = gc_type c, conn_index = gc_inputIndex c\<rparr> bs) tys) res))"

definition toIConnections :: "directed_graph \<Rightarrow> iconnections result" where
  "toIConnections g = for_each put_connection (map_values (g_conns g)) []"

section \<open>Well-formed graphs\<close>

text \<open>
  One node per name and one connection per key, every node stored under its name, every
  connection under its key, and no connection to or from a node outside the graph.
\<close>

definition graph_wf :: "directed_graph \<Rightarrow> bool" where
  "graph_wf g \<longleftrightarrow>
     distinct (map fst (g_nodes g)) \<and> (\<forall>(k, n) \<in> set (g_nodes g). node_name n = k)
     \<and> distinct (map fst (g_conns g))
     \<and> (\<forall>(k, c) \<in> set (g_conns g). k = make_key c \<and> in_graph g (gc_from c) \<and> in_graph g (gc_to c))"

definition edge_rel :: "directed_graph \<Rightarrow> (inode \<times> inode) set" where
  "edge_rel g = (\<lambda>c. (gc_from c, gc_to c)) ` graph_conns g"

lemma edge_rel_iff: "(a, b) \<in> edge_rel g \<longleftrightarrow> (\<exists>c \<in> graph_conns g. gc_from c = a \<and> gc_to c = b)"
  unfolding edge_rel_def by blast

lemma edge_relI: "c \<in> graph_conns g \<Longrightarrow> (gc_from c, gc_to c) \<in> edge_rel g"
  unfolding edge_rel_def by blast

lemma graph_wf_distinct:
  assumes "graph_wf g"
  shows "distinct (map fst (g_nodes g))" and "distinct (map fst (g_conns g))"
  using assms by (auto simp: graph_wf_def)

lemma in_graph_iff: "graph_wf g \<Longrightarrow> in_graph g n \<longleftrightarrow> n \<in> graph_nodes g"
  by (force simp: graph_wf_def in_graph_def map_of_eq_Some_iff)

lemma graph_wf_ends:
  assumes "graph_wf g" and "c \<in> graph_conns g"
  shows "gc_from c \<in> graph_nodes g" and "gc_to c \<in> graph_nodes g"
  using assms in_graph_iff [OF assms(1)] by (auto simp: graph_wf_def)

lemma graph_wf_key: "graph_wf g \<Longrightarrow> c \<in> graph_conns g \<Longrightarrow> map_of (g_conns g) (make_key c) = Some c"
  by (force simp: graph_wf_def map_of_eq_Some_iff)

lemma graph_wf_empty: "graph_wf empty_graph"
  by (simp add: graph_wf_def empty_graph_def)

lemma graph_wf_addNode:
  assumes "graph_wf g" and "node_name n \<in> fst ` set (g_nodes g) \<Longrightarrow> in_graph g n"
  shows "graph_wf (addNode n g)"
proof -
  have "in_graph (addNode n g) m" if "in_graph g m" for m
  proof (cases "node_name m = node_name n")
    case True
    with that have "node_name n \<in> fst ` set (g_nodes g)"
      by (force simp: in_graph_def dest: map_of_SomeD)
    with assms(2) that True show ?thesis by (auto simp: in_graph_def addNode_def js_map.lookup_put)
  next
    case False
    with that show ?thesis by (auto simp: in_graph_def addNode_def js_map.lookup_put)
  qed
  then show ?thesis
    using assms(1) js_map.entries_put [of "g_nodes g" "node_name n" n] js_map.distinct_put [of "g_nodes g"]
    by (auto simp: graph_wf_def addNode_def)
qed

lemma addConnection_Inr:
  "addConnection inp g = Inr g' \<longleftrightarrow>
   in_graph g (ci_from inp) \<and> in_graph g (ci_to inp)
   \<and> (let c = \<lparr>gc_from = ci_from inp, gc_to = ci_to inp, gc_type = default_to Main_type (ci_type inp),
              gc_outputIndex = default_to 0 (ci_outputIndex inp), gc_inputIndex = default_to 0 (ci_inputIndex inp)\<rparr>
      in g' = g\<lparr>g_conns := map_set (make_key c) c (g_conns g)\<rparr>)"
  by (auto simp: addConnection_def js_simps Let_def)

lemma graph_wf_put:
  assumes "graph_wf g" and "in_graph g (gc_from c)" and "in_graph g (gc_to c)"
  shows "graph_wf (g\<lparr>g_conns := map_set (make_key c) c (g_conns g)\<rparr>)"
  using assms js_map.entries_put [of "g_conns g" "make_key c" c] js_map.distinct_put [of "g_conns g"]
  by (auto simp: graph_wf_def in_graph_def)

lemma graph_wf_addConnection:
  "graph_wf g \<Longrightarrow> addConnection inp g = Inr g' \<Longrightarrow> graph_wf g'"
  unfolding addConnection_Inr Let_def by (auto intro: graph_wf_put)

lemma drop_conns_filter:
  assumes "distinct (map fst m)"
  shows "drop_conns n m = filter (\<lambda>(k, c). gc_to c \<noteq> n \<and> gc_from c \<noteq> n) m"
proof -
  let ?bad = "\<lambda>c. gc_to c = n \<or> gc_from c = n"
  have "fold (\<lambda>(k, c) m. if ?bad c then map_delete k m else m) xs m
      = filter (\<lambda>e. \<forall>(k, c) \<in> set xs. ?bad c \<longrightarrow> fst e \<noteq> k) m" for xs m
    by (induction xs arbitrary: m) (auto simp: AList.delete_eq intro!: filter_cong [OF refl])
  then have "drop_conns n m = filter (\<lambda>e. \<forall>(k, c) \<in> set m. ?bad c \<longrightarrow> fst e \<noteq> k) m"
    by (simp add: drop_conns_def)
  also have "\<dots> = filter (\<lambda>(k, c). gc_to c \<noteq> n \<and> gc_from c \<noteq> n) m"
    using assms by (intro filter_cong) (auto dest: eq_key_imp_eq_value)
  finally show ?thesis .
qed

text \<open>Keys are injective when neither names nor types hold the separator.\<close>

definition no_hyphens :: "string \<Rightarrow> bool" where
  "no_hyphens s \<longleftrightarrow> CHR ''-'' \<notin> set s"

lemma split_at_first:
  "x \<notin> set as \<Longrightarrow> x \<notin> set bs \<Longrightarrow> as @ x # ys = bs @ x # zs \<longleftrightarrow> as = bs \<and> ys = zs"
proof (induction as arbitrary: bs)
  case Nil
  then show ?case by (cases bs) auto
next
  case (Cons a as)
  then show ?case by (cases bs) auto
qed

lemma make_key_parts:
  assumes "make_key c = make_key d"
    and "no_hyphens (node_name (gc_from c))" "no_hyphens (node_name (gc_from d))"
    and "no_hyphens (gc_type c)" "no_hyphens (gc_type d)"
  shows "node_name (gc_from c) = node_name (gc_from d) \<and> gc_type c = gc_type d
    \<and> gc_outputIndex c = gc_outputIndex d \<and> gc_inputIndex c = gc_inputIndex d
    \<and> node_name (gc_to c) = node_name (gc_to d)"
  using assms unfolding make_key_def no_hyphens_def
  by (simp add: split_at_first hyphen_not_in_show_nat)

section \<open>Descendants and ancestors\<close>

lemma for_each_map: "for_each f (map h xs) s = for_each (\<lambda>x. f (h x)) xs s"
  by (induction xs arbitrary: s) (auto simp: res_bind_def split: sum.splits)

lemma getDirectChildConnections_wf:
  "graph_wf g \<Longrightarrow> n \<in> graph_nodes g \<Longrightarrow>
   getDirectChildConnections g n = Inr (filter (\<lambda>c. gc_from c = n) (map_values (g_conns g)))"
  by (simp add: getDirectChildConnections_def in_graph_iff)

lemma getDirectParentConnections_wf:
  "graph_wf g \<Longrightarrow> n \<in> graph_nodes g \<Longrightarrow>
   getDirectParentConnections g n = Inr (filter (\<lambda>c. gc_to c = n) (map_values (g_conns g)))"
  by (simp add: getDirectParentConnections_def in_graph_iff)

interpretation children: visited_search graph_wf
  "\<lambda>g n. res_bind (getDirectChildConnections g n) (\<lambda>cs. Inr (map gc_to cs))" "\<lambda>n. n"
  graph_nodes graph_nodes getChildrenRecursive
proof
  fix f g n S
  show "getChildrenRecursive (Suc f) g n S =
      res_bind (res_bind (getDirectChildConnections g n) (\<lambda>cs. Inr (map gc_to cs)))
        (\<lambda>ks. for_each (\<lambda>k S. if k \<in> set S then Inr S else getChildrenRecursive f g k (S @ [k])) ks S)"
    by (simp add: res_bind_assoc for_each_map)
  assume "graph_wf g" "n \<in> graph_nodes g"
  then show "\<exists>ks. res_bind (getDirectChildConnections g n) (\<lambda>cs. Inr (map gc_to cs)) = Inr ks \<and> set ks \<subseteq> graph_nodes g"
    using graph_wf_ends(2) by (auto simp: getDirectChildConnections_wf)
qed auto

interpretation parents: visited_search graph_wf getDirectParentConnections gc_from
  graph_nodes graph_conns getParentConnectionsRecursive
proof
  fix g n
  assume "graph_wf g" "n \<in> graph_nodes g"
  then show "\<exists>ks. getDirectParentConnections g n = Inr ks \<and> set ks \<subseteq> graph_conns g"
    by (auto simp: getDirectParentConnections_wf)
next
  show "gc_from k \<in> graph_nodes g" if "graph_wf g" "k \<in> graph_conns g" for g k
    using that by (rule graph_wf_ends)
qed simp_all

lemma children_succs:
  "graph_wf g \<Longrightarrow> n \<in> graph_nodes g \<Longrightarrow> children.succs g n = {m. (n, m) \<in> edge_rel g}"
  by (auto simp: children.succs_def getDirectChildConnections_wf edge_rel_def image_iff) (metis snd_conv)

lemma parents_succs:
  "graph_wf g \<Longrightarrow> n \<in> graph_nodes g \<Longrightarrow> parents.succs g n = {c \<in> graph_conns g. gc_to c = n}"
  by (auto simp: parents.succs_def getDirectParentConnections_wf)

lemma edge_rel_nodes: "graph_wf g \<Longrightarrow> (n, m) \<in> edge_rel g \<Longrightarrow> n \<in> graph_nodes g \<and> m \<in> graph_nodes g"
  unfolding edge_rel_def using graph_wf_ends by blast

lemma reachable_nodes: "graph_wf g \<Longrightarrow> (n, m) \<in> (edge_rel g)\<^sup>+ \<Longrightarrow> n \<in> graph_nodes g \<and> m \<in> graph_nodes g"
  by (meson edge_rel_nodes tranclD tranclD2)

lemma children_reach:
  assumes "graph_wf g" and "n \<in> graph_nodes g"
  shows "children.reach g n = {m. (n, m) \<in> (edge_rel g)\<^sup>+}"
proof -
  have "(k, m) \<in> (children.key_rel g)\<^sup>* \<longleftrightarrow> (k, m) \<in> (edge_rel g)\<^sup>*" if "k \<in> graph_nodes g" for k m
  proof
    assume "(k, m) \<in> (children.key_rel g)\<^sup>*"
    then have "(k, m) \<in> (edge_rel g)\<^sup>* \<and> m \<in> graph_nodes g"
      by (induction rule: rtrancl_induct)
        (use that assms(1) in \<open>auto simp: children.key_rel_def children_succs dest: edge_rel_nodes
          intro: rtrancl_into_rtrancl\<close>)
    then show "(k, m) \<in> (edge_rel g)\<^sup>*" ..
  next
    assume "(k, m) \<in> (edge_rel g)\<^sup>*"
    then have "(k, m) \<in> (children.key_rel g)\<^sup>* \<and> m \<in> graph_nodes g"
    proof (induction rule: rtrancl_induct)
      case base
      with that show ?case by simp
    next
      case (step y z)
      then have "z \<in> children.succs g y" using assms(1) by (simp add: children_succs)
      with step show ?case
        using edge_rel_nodes [OF assms(1)]
        by (auto simp: children.key_rel_def intro: rtrancl_into_rtrancl)
    qed
    then show "(k, m) \<in> (children.key_rel g)\<^sup>*" ..
  qed
  then have "children.reach g n = {m. \<exists>k. (n, k) \<in> edge_rel g \<and> (k, m) \<in> (edge_rel g)\<^sup>*}"
    using edge_rel_nodes [OF assms(1)] by (auto simp: children.reach_def children_succs [OF assms])
  also have "\<dots> = {m. (n, m) \<in> (edge_rel g)\<^sup>+}"
    by (meson rtrancl_into_trancl2 tranclD)
  finally show ?thesis .
qed

lemma getChildren_set:
  assumes "graph_wf g" and "n \<in> graph_nodes g"
  shows "\<exists>ns. getChildren g n = Inr ns \<and> distinct ns \<and> set ns = {m. (n, m) \<in> (edge_rel g)\<^sup>+}"
proof -
  have "card (graph_nodes g) < Suc (length (g_nodes g))"
    using card_length [of "map_values (g_nodes g)"] by simp
  from children.search_reach [OF assms this] show ?thesis
    by (simp add: getChildren_def children_reach [OF assms] del: getChildrenRecursive.simps)
qed

lemma parents_reach:
  assumes "graph_wf g" and "n \<in> graph_nodes g"
  shows "parents.reach g n = {c \<in> graph_conns g. (gc_to c, n) \<in> (edge_rel g)\<^sup>*}"
proof -
  have key: "(c, d) \<in> parents.key_rel g \<longleftrightarrow> d \<in> graph_conns g \<and> gc_to d = gc_from c" if "c \<in> graph_conns g" for c d
    using parents_succs [OF assms(1) graph_wf_ends(1) [OF assms(1) that]] by (simp add: parents.key_rel_def)
  have backward: "d \<in> graph_conns g \<and> (gc_to d, gc_to c) \<in> (edge_rel g)\<^sup>*"
    if "(c, d) \<in> (parents.key_rel g)\<^sup>*" "c \<in> graph_conns g" for c d
    using that(1)
  proof (induction rule: rtrancl_induct)
    case base
    with that(2) show ?case by simp
  next
    case (step d e)
    then have "e \<in> graph_conns g" "gc_to e = gc_from d" using key by auto
    moreover have "(gc_from d, gc_to d) \<in> edge_rel g" using step by (auto simp: edge_rel_def)
    ultimately show ?case using step by (auto intro: converse_rtrancl_into_rtrancl)
  qed
  have forth: "\<exists>e \<in> graph_conns g. gc_to e = n \<and> (e, d) \<in> (parents.key_rel g)\<^sup>*"
    if "(m, n) \<in> (edge_rel g)\<^sup>*" "d \<in> graph_conns g" "gc_to d = m" for m d
    using that
  proof (induction arbitrary: d rule: converse_rtrancl_induct)
    case base
    then show ?case by blast
  next
    case (step m m')
    then obtain c where c: "c \<in> graph_conns g" "gc_from c = m" "gc_to c = m'" unfolding edge_rel_def by blast
    from step.IH [OF c(1,3)] obtain e where e: "e \<in> graph_conns g" "gc_to e = n" "(e, c) \<in> (parents.key_rel g)\<^sup>*"
      by blast
    moreover have "(c, d) \<in> parents.key_rel g" using key [OF c(1)] step c by simp
    ultimately show ?case by (blast intro: rtrancl_into_rtrancl)
  qed
  show ?thesis
  proof (intro equalityI subsetI)
    fix d
    assume "d \<in> parents.reach g n"
    then obtain c where "c \<in> graph_conns g" "gc_to c = n" "(c, d) \<in> (parents.key_rel g)\<^sup>*"
      unfolding parents.reach_def parents_succs [OF assms] by blast
    with backward [of c d] show "d \<in> {c \<in> graph_conns g. (gc_to c, n) \<in> (edge_rel g)\<^sup>*}" by blast
  next
    fix d
    assume "d \<in> {c \<in> graph_conns g. (gc_to c, n) \<in> (edge_rel g)\<^sup>*}"
    with forth [of "gc_to d" d] show "d \<in> parents.reach g n"
      unfolding parents.reach_def parents_succs [OF assms] by blast
  qed
qed

lemma getParentConnections_set:
  assumes "graph_wf g" and "n \<in> graph_nodes g"
  shows "\<exists>cs. getParentConnections g n = Inr cs \<and> distinct cs
    \<and> set cs = {c \<in> graph_conns g. (gc_to c, n) \<in> (edge_rel g)\<^sup>*}"
proof -
  have "card (graph_conns g) < Suc (length (g_conns g))"
    using card_length [of "map_values (g_conns g)"] by simp
  from parents.search_reach [OF assms this] show ?thesis
    by (simp add: getParentConnections_def parents_reach [OF assms] del: getParentConnectionsRecursive.simps)
qed

section \<open>Depth-first search\<close>

definition dfs_post ::
    "directed_graph \<Rightarrow> (inode \<Rightarrow> bool) \<Rightarrow> inode \<Rightarrow> inode list \<Rightarrow> inode option \<Rightarrow> inode list \<Rightarrow> bool" where
  "dfs_post g fn start seen found seen' \<longleftrightarrow>
     distinct seen' \<and> set seen \<subseteq> set seen' \<and> set seen' \<subseteq> graph_nodes g
     \<and> (case found of
          Some x \<Rightarrow> fn x \<and> (start, x) \<in> (edge_rel g)\<^sup>*
        | None \<Rightarrow> start \<in> set seen'
            \<and> (\<forall>x \<in> set seen' - set seen. \<not> fn x \<and> (\<forall>y. (x, y) \<in> edge_rel g \<longrightarrow> y \<in> set seen')))"

lemma depthFirstSearchRecursive_correct:
  assumes "graph_wf g" and "start \<in> graph_nodes g" and "distinct seen" and "set seen \<subseteq> graph_nodes g"
    and "Suc (card (graph_nodes g)) - length seen < f"
  shows "\<exists>found seen'. depthFirstSearchRecursive f g fn start seen = Inr (found, seen')
    \<and> dfs_post g fn start seen found seen'"
  using assms(2-)
proof (induction f arbitrary: start seen)
  case 0
  then show ?case by simp
next
  case (Suc f)
  consider (seen) "start \<in> set seen" | (hit) "start \<notin> set seen" "fn start" | (go) "start \<notin> set seen" "\<not> fn start"
    by blast
  then show ?case
  proof cases
    case seen
    with Suc.prems show ?thesis by (auto simp: dfs_post_def)
  next
    case hit
    with Suc.prems show ?thesis by (auto simp: dfs_post_def)
  next
    case go
    let ?conns = "filter (\<lambda>c. gc_from c = start) (map_values (g_conns g))"
    have conns: "getDirectChildConnections g start = Inr ?conns"
      using assms(1) Suc.prems(1) by (rule getDirectChildConnections_wf)
    let ?P = "\<lambda>us (found, T). distinct T \<and> set (seen @ [start]) \<subseteq> set T \<and> set T \<subseteq> graph_nodes g
      \<and> (case found of
          Some x \<Rightarrow> fn x \<and> (start, x) \<in> (edge_rel g)\<^sup>*
        | None \<Rightarrow> gc_to ` set us \<subseteq> set T
            \<and> (\<forall>x \<in> set T - set (seen @ [start]). \<not> fn x \<and> (\<forall>y. (x, y) \<in> edge_rel g \<longrightarrow> y \<in> set T)))"
    let ?step = "\<lambda>c (found, seen). case found of Some x \<Rightarrow> Inr (Some x, seen)
        | None \<Rightarrow> depthFirstSearchRecursive f g fn (gc_to c) seen"
    have "\<exists>t. for_each ?step ?conns (None, seen @ [start]) = Inr t \<and> ?P ?conns t"
    proof (rule for_each_total)
      show "?P [] (None, seen @ [start])" using Suc.prems go by auto
    next
      fix ys c zs s
      assume split: "?conns = ys @ c # zs" and P: "?P ys s"
      obtain found T where s: "s = (found, T)" by (cases s)
      have "c \<in> set ?conns" unfolding split by simp
      then have c: "c \<in> graph_conns g" "gc_from c = start" by auto
      then have edge: "(start, gc_to c) \<in> edge_rel g" unfolding edge_rel_def by blast
      show "\<exists>s'. ?step c s = Inr s' \<and> ?P (ys @ [c]) s'"
      proof (cases found)
        case (Some x)
        with P s show ?thesis by simp
      next
        case None
        have T: "distinct T" "set T \<subseteq> graph_nodes g" "set (seen @ [start]) \<subseteq> set T" using P s by auto
        have "length (seen @ [start]) \<le> length T"
          using card_mono [OF _ T(3)] distinct_card [OF T(1)] distinct_card [of "seen @ [start]"] Suc.prems(2) go
          by simp
        with Suc.prems(4) have "Suc (card (graph_nodes g)) - length T < f"
          using card_mono [OF _ T(2)] distinct_card [OF T(1)] by simp
        from Suc.IH [OF graph_wf_ends(2) [OF assms(1) c(1)] T(1,2) this] obtain found' T' where
          rec: "depthFirstSearchRecursive f g fn (gc_to c) T = Inr (found', T')"
          and post: "dfs_post g fn (gc_to c) T found' T'" by blast
        have "?P (ys @ [c]) (found', T')"
        proof (cases found')
          case None
          note D = post [unfolded dfs_post_def None option.case]
          have Q: "gc_to ` set ys \<subseteq> set T"
            "\<forall>x \<in> set T - set (seen @ [start]). \<not> fn x \<and> (\<forall>y. (x, y) \<in> edge_rel g \<longrightarrow> y \<in> set T)"
            using P s \<open>found = None\<close> by simp_all
          from D have D': "distinct T'" "set T \<subseteq> set T'" "set T' \<subseteq> graph_nodes g" "gc_to c \<in> set T'"
            "\<forall>x \<in> set T' - set T. \<not> fn x \<and> (\<forall>y. (x, y) \<in> edge_rel g \<longrightarrow> y \<in> set T')"
            by simp_all
          have "gc_to ` set (ys @ [c]) \<subseteq> set T'" using Q(1) D'(2,4) by simp
          moreover have "\<not> fn x \<and> (\<forall>y. (x, y) \<in> edge_rel g \<longrightarrow> y \<in> set T')"
            if "x \<in> set T' - set (seen @ [start])" for x
          proof (cases "x \<in> set T")
            case True
            then have "x \<in> set T - set (seen @ [start])" using that by blast
            with Q(2) have "\<not> fn x \<and> (\<forall>y. (x, y) \<in> edge_rel g \<longrightarrow> y \<in> set T)" by (rule bspec)
            with D'(2) show ?thesis by blast
          next
            case False
            then have "x \<in> set T' - set T" using that by blast
            with D'(5) show ?thesis by (rule bspec)
          qed
          moreover have "set (seen @ [start]) \<subseteq> set T'" using T(3) D'(2) by (rule subset_trans)
          ultimately show ?thesis using D'(1,3) unfolding None split_conv option.case by blast
        next
          case (Some x)
          have "(start, x) \<in> (edge_rel g)\<^sup>*" if "(gc_to c, x) \<in> (edge_rel g)\<^sup>*"
            using edge that by (rule converse_rtrancl_into_rtrancl)
          with Some P s post T(3) show ?thesis by (simp add: dfs_post_def) blast
        qed
        with rec None s show ?thesis by simp
      qed
    qed
    then obtain found T where loop: "for_each ?step ?conns (None, seen @ [start]) = Inr (found, T)"
      and P: "?P ?conns (found, T)" by auto
    have first: "{y. (start, y) \<in> edge_rel g} \<subseteq> gc_to ` set ?conns"
      unfolding edge_rel_def by auto
    have "dfs_post g fn start seen found T"
    proof (cases found)
      case None
      note Q = P [unfolded None split_conv option.case]
      then have Q': "distinct T" "set (seen @ [start]) \<subseteq> set T" "set T \<subseteq> graph_nodes g"
        "gc_to ` set ?conns \<subseteq> set T"
        "\<And>x. x \<in> set T - set (seen @ [start]) \<Longrightarrow> \<not> fn x \<and> (\<forall>y. (x, y) \<in> edge_rel g \<longrightarrow> y \<in> set T)"
        by blast+
      have *: "\<forall>x \<in> set T - set seen. \<not> fn x \<and> (\<forall>y. (x, y) \<in> edge_rel g \<longrightarrow> y \<in> set T)"
      proof
        fix x
        assume x: "x \<in> set T - set seen"
        show "\<not> fn x \<and> (\<forall>y. (x, y) \<in> edge_rel g \<longrightarrow> y \<in> set T)"
        proof (cases "x = start")
          case True
          with first Q'(4) go(2) show ?thesis by blast
        next
          case False
          show ?thesis by (rule Q'(5)) (use x False in simp)
        qed
      qed
      from Q'(2) have "start \<in> set T" "set seen \<subseteq> set T" by simp_all
      with * Q'(1,3) show ?thesis unfolding dfs_post_def None option.case by blast
    next
      case (Some x)
      with P show ?thesis by (simp add: dfs_post_def)
    qed
    with loop conns go show ?thesis by simp
  qed
qed

lemma depthFirstSearch_correct:
  assumes "graph_wf g" and "start \<in> graph_nodes g"
  shows "\<exists>r. depthFirstSearch g start fn = Inr r
    \<and> (case r of Some x \<Rightarrow> fn x \<and> (start, x) \<in> (edge_rel g)\<^sup>*
        | None \<Rightarrow> \<forall>x. (start, x) \<in> (edge_rel g)\<^sup>* \<longrightarrow> \<not> fn x)"
proof -
  have "Suc (card (graph_nodes g)) - length [] < Suc (Suc (length (g_nodes g)))"
    using card_length [of "map_values (g_nodes g)"] by simp
  from depthFirstSearchRecursive_correct [OF assms _ _ this, of fn] obtain found seen where
    run: "depthFirstSearchRecursive (Suc (Suc (length (g_nodes g)))) g fn start [] = Inr (found, seen)"
    and post: "dfs_post g fn start [] found seen" by (auto simp del: depthFirstSearchRecursive.simps)
  have "\<not> fn x" if "found = None" "(start, x) \<in> (edge_rel g)\<^sup>*" for x
  proof -
    have "x \<in> set seen"
      using that(2) by (rule closed_contains_rtrancl) (use post that(1) in \<open>auto simp: dfs_post_def\<close>)
    with post that(1) show ?thesis by (auto simp: dfs_post_def)
  qed
  with run post show ?thesis
    by (auto simp: depthFirstSearch_def dfs_post_def simp del: depthFirstSearchRecursive.simps split: option.splits)
qed

section \<open>Removing a node\<close>

text \<open>Taking a node out of a relation and joining its predecessors with its successors.\<close>

definition bypass :: "('a \<times> 'a) set \<Rightarrow> 'a \<Rightarrow> ('a \<times> 'a) set" where
  "bypass R n = {(a, b). a \<noteq> n \<and> b \<noteq> n \<and> ((a, b) \<in> R \<or> (a, n) \<in> R \<and> (n, b) \<in> R)}"

lemma bypass_trancl:
  assumes "a \<noteq> n" and "b \<noteq> n"
  shows "(a, b) \<in> (bypass R n)\<^sup>+ \<longleftrightarrow> (a, b) \<in> R\<^sup>+"
proof
  assume "(a, b) \<in> (bypass R n)\<^sup>+"
  moreover have "bypass R n \<subseteq> R\<^sup>+"
    by (auto simp: bypass_def intro: trancl_into_trancl2)
  ultimately have "(a, b) \<in> (R\<^sup>+)\<^sup>+" by (meson trancl_mono)
  then show "(a, b) \<in> R\<^sup>+" by simp
next
  assume "(a, b) \<in> R\<^sup>+"
  then have "if b = n then \<exists>c. (a, c) \<in> (bypass R n)\<^sup>* \<and> c \<noteq> n \<and> (c, n) \<in> R else (a, b) \<in> (bypass R n)\<^sup>+"
  proof (induction rule: trancl_induct)
    case (base b)
    with assms(1) show ?case by (auto simp: bypass_def)
  next
    case (step b d)
    show ?case
    proof (cases "b = n")
      case True
      then obtain c where c: "(a, c) \<in> (bypass R n)\<^sup>*" "c \<noteq> n" "(c, n) \<in> R" using step.IH by auto
      show ?thesis
      proof (cases "d = n")
        case False
        with c True step.hyps(2) have "(c, d) \<in> bypass R n" by (auto simp: bypass_def)
        with c(1) False show ?thesis by (auto intro: rtrancl_into_trancl1)
      qed (use c in auto)
    next
      case b: False
      with step.IH have ab: "(a, b) \<in> (bypass R n)\<^sup>+" by simp
      show ?thesis
      proof (cases "d = n")
        case True
        with ab b step.hyps(2) show ?thesis by (auto intro: trancl_into_rtrancl)
      next
        case False
        with b step.hyps(2) have "(b, d) \<in> bypass R n" by (simp add: bypass_def)
        with ab False show ?thesis by (auto intro: trancl_into_trancl)
      qed
    qed
  qed
  with assms(2) show "(a, b) \<in> (bypass R n)\<^sup>+" by simp
qed

definition kept_conns :: "directed_graph \<Rightarrow> inode \<Rightarrow> gconn set" where
  "kept_conns g n = {c \<in> graph_conns g. gc_from c \<noteq> n \<and> gc_to c \<noteq> n}"

definition joined_conns :: "directed_graph \<Rightarrow> inode \<Rightarrow> remove_options \<Rightarrow> gconn set" where
  "joined_conns g n opts = {joined i out | i out. i \<in> graph_conns g \<and> out \<in> graph_conns g
     \<and> gc_to i = n \<and> gc_from out = n \<and> \<not> skips opts i \<and> \<not> skips opts out}"

text \<open>Names and types without the separator of the keys.\<close>

definition plain_names :: "directed_graph \<Rightarrow> bool" where
  "plain_names g \<longleftrightarrow> (\<forall>n \<in> graph_nodes g. no_hyphens (node_name n)) \<and> (\<forall>c \<in> graph_conns g. no_hyphens (gc_type c))"

lemma graph_wf_indexed:
  "graph_wf g \<longleftrightarrow> indexed_by node_name (g_nodes g) \<and> indexed_by make_key (g_conns g)
     \<and> (\<forall>c \<in> graph_conns g. in_graph g (gc_from c) \<and> in_graph g (gc_to c))"
  by (auto simp: graph_wf_def indexed_by_def)

lemma same_name_same_node:
  "graph_wf g \<Longrightarrow> n \<in> graph_nodes g \<Longrightarrow> m \<in> graph_nodes g \<Longrightarrow> node_name n = node_name m \<Longrightarrow> n = m"
  using in_graph_iff [of g n] in_graph_iff [of g m] by (simp add: in_graph_def)

lemma make_key_inj:
  assumes "graph_wf g" and "\<forall>n \<in> graph_nodes g. no_hyphens (node_name n)"
    and "\<forall>c \<in> C. gc_from c \<in> graph_nodes g \<and> gc_to c \<in> graph_nodes g \<and> no_hyphens (gc_type c)"
  shows "inj_on make_key C"
proof (rule inj_onI)
  fix c d
  assume "c \<in> C" "d \<in> C" "make_key c = make_key d"
  with assms(2,3) have "node_name (gc_from c) = node_name (gc_from d) \<and> gc_type c = gc_type d
    \<and> gc_outputIndex c = gc_outputIndex d \<and> gc_inputIndex c = gc_inputIndex d
    \<and> node_name (gc_to c) = node_name (gc_to d)"
    by (intro make_key_parts) blast+
  moreover from this have "gc_from c = gc_from d" "gc_to c = gc_to d"
    using same_name_same_node [OF assms(1)] assms(3) \<open>c \<in> C\<close> \<open>d \<in> C\<close> by blast+
  ultimately show "c = d" by (cases c; cases d) simp
qed

lemma removed_nodes:
  assumes "graph_wf g" and "n \<in> graph_nodes g"
  shows "snd ` set (map_delete (node_name n) (g_nodes g)) = graph_nodes g - {n}"
    and "indexed_by node_name (map_delete (node_name n) (g_nodes g))"
proof -
  have "k = node_name m \<and> m \<in> graph_nodes g" if "(k, m) \<in> set (g_nodes g)" for k m
    using that assms(1) by (force simp: graph_wf_def)
  with same_name_same_node [OF assms(1) assms(2)]
  show "snd ` set (map_delete (node_name n) (g_nodes g)) = graph_nodes g - {n}"
    by (auto simp: entries_map_delete image_iff) (metis fst_conv snd_conv)+
  show "indexed_by node_name (map_delete (node_name n) (g_nodes g))"
    using assms(1) by (auto simp: graph_wf_def indexed_by_def entries_map_delete intro: distinct_map_delete)
qed

lemma drop_conns_wf:
  assumes "graph_wf g"
  shows "indexed_by make_key (drop_conns n (g_conns g))" and "snd ` set (drop_conns n (g_conns g)) = kept_conns g n"
proof -
  note f = drop_conns_filter [OF graph_wf_distinct(2) [OF assms], of n]
  show "indexed_by make_key (drop_conns n (g_conns g))"
    using assms by (auto simp: f graph_wf_indexed indexed_by_def distinct_map_filter)
  show "snd ` set (drop_conns n (g_conns g)) = kept_conns g n"
    by (force simp: f kept_conns_def)
qed

lemma removeNode_drop:
  assumes "graph_wf g" and "n \<in> graph_nodes g" and "\<not> reconnectConnections opts"
  shows "\<exists>g'. removeNode n opts g = Inr (None, g') \<and> graph_wf g' \<and> graph_nodes g' = graph_nodes g - {n}
    \<and> graph_conns g' = kept_conns g n"
proof -
  let ?g = "\<lparr>g_nodes = map_delete (node_name n) (g_nodes g), g_conns = drop_conns n (g_conns g)\<rparr>"
  have nodes: "graph_nodes ?g = graph_nodes g - {n}" and ix: "indexed_by node_name (g_nodes ?g)"
    using removed_nodes [OF assms(1,2)] by simp_all
  have conns: "graph_conns ?g = kept_conns g n" and ic: "indexed_by make_key (g_conns ?g)"
    using drop_conns_wf [OF assms(1)] by simp_all
  have inn: "in_graph ?g m" if "m \<in> graph_nodes ?g" for m
    using that ix by (force simp: in_graph_def indexed_by_def map_of_eq_Some_iff)
  have "gc_from c \<in> graph_nodes ?g \<and> gc_to c \<in> graph_nodes ?g" if "c \<in> graph_conns ?g" for c
    using that graph_wf_ends [OF assms(1)] unfolding conns nodes kept_conns_def by blast
  with ix ic inn have "graph_wf ?g" unfolding graph_wf_indexed by blast
  with nodes conns assms(3) show ?thesis by (simp add: removeNode_def)
qed

lemma joined_sel [simp]: "gc_from (joined i out) = gc_from i" "gc_to (joined i out) = gc_to out"
  "gc_type (joined i out) = gc_type i"
  by (simp_all add: joined_def)

lemma removeNode_join:
  assumes "graph_wf g" and "n \<in> graph_nodes g" and "reconnectConnections opts" and "(n, n) \<notin> edge_rel g"
  shows "\<exists>new g'. removeNode n opts g = Inr (Some new, g') \<and> set new = joined_conns g n opts
    \<and> graph_wf g' \<and> graph_nodes g' = graph_nodes g - {n}
    \<and> graph_conns g' \<subseteq> kept_conns g n \<union> joined_conns g n opts
    \<and> (plain_names g \<longrightarrow> graph_conns g' = kept_conns g n \<union> joined_conns g n opts)"
proof -
  let ?inc = "filter (\<lambda>c. gc_to c = n) (map_values (g_conns g))"
  let ?out = "filter (\<lambda>c. gc_from c = n) (map_values (g_conns g))"
  define new where "new = concat (map (\<lambda>i. if skips opts i then []
      else map (joined i) (filter (\<lambda>out. \<not> skips opts out) ?out)) ?inc)"
  define g' where "g' = \<lparr>g_nodes = map_delete (node_name n) (g_nodes g),
      g_conns = fold (\<lambda>c. map_set (make_key c) c) new (drop_conns n (g_conns g))\<rparr>"
  have run: "removeNode n opts g = Inr (Some new, g')"
    using assms by (simp add: removeNode_def getDirectParentConnections_wf getDirectChildConnections_wf
        Let_def new_def g'_def)
  have new: "set new = joined_conns g n opts"
    unfolding new_def joined_conns_def by auto
  have nodes: "graph_nodes g' = graph_nodes g - {n}" and ix: "indexed_by node_name (g_nodes g')"
    using removed_nodes [OF assms(1,2)] by (simp_all add: g'_def)
  note put = js_map.indexed_puts [OF drop_conns_wf(1) [OF assms(1), of n], of new, unfolded drop_conns_wf(2) [OF assms(1)] new]
  have ic: "indexed_by make_key (g_conns g')" using put(1) by (simp add: g'_def)
  have conns: "graph_conns g' \<subseteq> kept_conns g n \<union> joined_conns g n opts"
    using put(2) by (auto simp: g'_def)
  have ends: "gc_from c \<in> graph_nodes g' \<and> gc_to c \<in> graph_nodes g'"
    if "c \<in> kept_conns g n \<union> joined_conns g n opts" for c
  proof -
    from that show ?thesis
    proof
      assume "c \<in> kept_conns g n"
      then show ?thesis unfolding nodes kept_conns_def using graph_wf_ends [OF assms(1), of c] by blast
    next
      assume "c \<in> joined_conns g n opts"
      then obtain i out where io: "c = joined i out" "i \<in> graph_conns g" "out \<in> graph_conns g"
        "gc_to i = n" "gc_from out = n" unfolding joined_conns_def by blast
      with edge_relI [of i g] edge_relI [of out g]
      have "(gc_from i, n) \<in> edge_rel g" "(n, gc_to out) \<in> edge_rel g" by simp_all
      with assms(4) have "gc_from i \<noteq> n" "gc_to out \<noteq> n" by auto
      with io(2,3) graph_wf_ends [OF assms(1)] show ?thesis unfolding nodes io(1) joined_sel by blast
    qed
  qed
  have inn: "in_graph g' m" if "m \<in> graph_nodes g'" for m
    using that ix by (force simp: in_graph_def indexed_by_def map_of_eq_Some_iff)
  have wf': "graph_wf g'" unfolding graph_wf_indexed using ix ic conns ends inn by blast
  have "graph_conns g' = kept_conns g n \<union> joined_conns g n opts" if "plain_names g"
  proof -
    have "inj_on make_key (joined_conns g n opts \<union> kept_conns g n)"
    proof (rule make_key_inj [OF assms(1)])
      have "no_hyphens (gc_type c)" if "c \<in> joined_conns g n opts \<union> kept_conns g n" for c
        using that
      proof
        assume "c \<in> joined_conns g n opts"
        then obtain i out where "c = joined i out" "i \<in> graph_conns g" unfolding joined_conns_def by blast
        moreover from this(2) \<open>plain_names g\<close> have "no_hyphens (gc_type i)" unfolding plain_names_def by blast
        ultimately show ?thesis by simp
      next
        assume "c \<in> kept_conns g n"
        with \<open>plain_names g\<close> show ?thesis unfolding plain_names_def kept_conns_def by blast
      qed
      with ends show "\<forall>c \<in> joined_conns g n opts \<union> kept_conns g n.
          gc_from c \<in> graph_nodes g \<and> gc_to c \<in> graph_nodes g \<and> no_hyphens (gc_type c)"
        unfolding nodes by blast
    qed (use that in \<open>simp add: plain_names_def\<close>)
    from put(3) [OF this] show ?thesis by (auto simp: g'_def)
  qed
  with run new wf' nodes conns show ?thesis by blast
qed

text \<open>Reconnecting removal keeps the reachability between the other nodes.\<close>

lemma removeNode_edges:
  assumes "graph_wf g" and "n \<in> graph_nodes g" and "reconnectConnections opts" and "(n, n) \<notin> edge_rel g"
    and "skipConnectionFn opts = None" and "plain_names g"
    and "removeNode n opts g = Inr (r, g')"
  shows "edge_rel g' = bypass (edge_rel g) n"
proof -
  have conns: "graph_conns g' = kept_conns g n \<union> joined_conns g n opts"
    using removeNode_join [OF assms(1-4)] assms(6,7) by auto
  have noskip: "\<not> skips opts c" for c using assms(5) by (simp add: skips_def)
  show ?thesis
  proof (intro equalityI subsetI; clarify)
    fix a b
    assume "(a, b) \<in> edge_rel g'"
    then obtain c where c: "c \<in> kept_conns g n \<union> joined_conns g n opts" "a = gc_from c" "b = gc_to c"
      unfolding edge_rel_def conns by blast
    have edge: "(gc_from c, gc_to c) \<in> edge_rel g" if "c \<in> graph_conns g" for c
      using that unfolding edge_rel_def by blast
    from c(1) show "(a, b) \<in> bypass (edge_rel g) n"
    proof
      assume "c \<in> kept_conns g n"
      with edge [of c] show ?thesis by (simp add: kept_conns_def bypass_def c(2,3))
    next
      assume "c \<in> joined_conns g n opts"
      then obtain i out where io: "c = joined i out" "i \<in> graph_conns g" "out \<in> graph_conns g"
        "gc_to i = n" "gc_from out = n" unfolding joined_conns_def by blast
      with edge [of i] edge [of out] have "(gc_from i, n) \<in> edge_rel g" "(n, gc_to out) \<in> edge_rel g" by simp_all
      moreover from this assms(4) have "gc_from i \<noteq> n" "gc_to out \<noteq> n" by auto
      ultimately show ?thesis using io(1) by (simp add: bypass_def c(2,3))
    qed
  next
    fix a b
    assume "(a, b) \<in> bypass (edge_rel g) n"
    then have ne: "a \<noteq> n" "b \<noteq> n" and "(a, b) \<in> edge_rel g \<or> (a, n) \<in> edge_rel g \<and> (n, b) \<in> edge_rel g"
      by (auto simp: bypass_def)
    then consider (old) c where "c \<in> graph_conns g" "gc_from c = a" "gc_to c = b"
      | (new) i out where "i \<in> graph_conns g" "gc_from i = a" "gc_to i = n"
          "out \<in> graph_conns g" "gc_from out = n" "gc_to out = b"
      unfolding edge_rel_iff by metis
    then show "(a, b) \<in> edge_rel g'"
    proof cases
      case old
      with ne have "c \<in> kept_conns g n" by (simp add: kept_conns_def)
      with old conns show ?thesis unfolding edge_rel_iff by blast
    next
      case new
      with noskip have "joined i out \<in> joined_conns g n opts" unfolding joined_conns_def by blast
      with conns have "joined i out \<in> graph_conns g'" by blast
      from edge_relI [OF this] new(2,6) show ?thesis by simp
    qed
  qed
qed

end
