(* ===== verification/Graph_Conversion.thy ===== *)
theory Graph_Conversion
  imports Directed_Graph
begin

text \<open>
  The conversions of \<^verbatim>\<open>DirectedGraph\<close>: building a graph from a workflow or from nodes and
  connections, cloning, and the connection object of a graph. The main facts are that a clone is
  the graph itself, that a graph built from a workflow has its connections, and the multiset of
  entries of the connection object of a graph.
\<close>

section \<open>Building a graph\<close>

definition put_conns :: "gconn list \<Rightarrow> (string, gconn) jsmap \<Rightarrow> (string, gconn) jsmap" where
  "put_conns cs m = fold (\<lambda>c. map_set (make_key c) c) cs m"

lemma addNodes_eq: "addNodes ns g = g\<lparr>g_nodes := fold (\<lambda>n. map_set (node_name n) n) ns (g_nodes g)\<rparr>"
  by (induction ns arbitrary: g) (simp_all add: addNodes_def addNode_def)

lemma addConnection_gconn:
  assumes "in_graph g (gc_from c)" and "in_graph g (gc_to c)"
  shows "addConnection (conn_as_input c) g = Inr (g\<lparr>g_conns := put_conns [c] (g_conns g)\<rparr>)"
  using assms by (cases c) (simp add: addConnection_def conn_as_input_def default_to_def Let_def put_conns_def)

lemma addConnections_gconns:
  assumes "\<forall>c \<in> set cs. in_graph g (gc_from c) \<and> in_graph g (gc_to c)"
  shows "addConnections (map conn_as_input cs) g = Inr (g\<lparr>g_conns := put_conns cs (g_conns g)\<rparr>)"
  using assms
proof (induction cs arbitrary: g)
  case Nil
  then show ?case by (simp add: addConnections_def put_conns_def)
next
  case (Cons c cs)
  let ?g = "g\<lparr>g_conns := put_conns [c] (g_conns g)\<rparr>"
  have "\<forall>c \<in> set cs. in_graph ?g (gc_from c) \<and> in_graph ?g (gc_to c)"
    using Cons.prems by (simp add: in_graph_def)
  from Cons.IH [OF this] addConnection_gconn [of g c] Cons.prems show ?case
    by (simp add: addConnections_def put_conns_def)
qed

lemma clone_graph_id:
  assumes "graph_wf g"
  shows "clone_graph g = Inr g"
proof -
  have ix: "indexed_by node_name (g_nodes g)" "indexed_by make_key (g_conns g)"
    using assms by (simp_all add: graph_wf_indexed)
  have nodes: "addNodes (map_values (dg_getNodes g)) empty_graph = \<lparr>g_nodes = g_nodes g, g_conns = []\<rparr>"
    by (simp add: addNodes_eq dg_getNodes_def empty_graph_def fold_rebuild [OF ix(1)])
  have conns: "getConnections g None = map_values (g_conns g)"
    by (simp add: getConnections_def)
  have "\<forall>c \<in> graph_conns g. in_graph \<lparr>g_nodes = g_nodes g, g_conns = []\<rparr> (gc_from c)
      \<and> in_graph \<lparr>g_nodes = g_nodes g, g_conns = []\<rparr> (gc_to c)"
    using assms by (auto simp: graph_wf_indexed in_graph_def)
  from addConnections_gconns [OF this] show ?thesis
    by (simp add: clone_graph_def nodes conns put_conns_def fold_rebuild [OF ix(2)])
qed

text \<open>The connection an entry stands for, its ends looked up.\<close>

definition entry_conn :: "(string \<Rightarrow> inode option) \<Rightarrow> conn_entry \<Rightarrow> gconn" where
  "entry_conn lookup = (\<lambda>(s, t, i, c).
     \<lparr>gc_from = the (lookup s), gc_to = the (lookup (conn_node c)), gc_type = t,
      gc_outputIndex = i, gc_inputIndex = conn_index c\<rparr>)"

definition resolvable :: "(string \<Rightarrow> inode option) \<Rightarrow> iconnections \<Rightarrow> bool" where
  "resolvable lookup cs \<longleftrightarrow>
     (\<forall>nm \<in> fst ` set cs. lookup nm \<noteq> None) \<and> (\<forall>(s, t, i, c) \<in> set (conn_entries cs). lookup (conn_node c) \<noteq> None)"

lemma add_entries:
  assumes "lookup nm = Some n" and "\<forall>(s, t, i, c) \<in> set es. s = nm \<and> lookup (conn_node c) \<noteq> None"
    and "\<And>x y. lookup x = Some y \<Longrightarrow> in_graph g y"
  shows "for_each (add_entry lookup n) es g = Inr (g\<lparr>g_conns := put_conns (map (entry_conn lookup) es) (g_conns g)\<rparr>)"
  using assms(2,3)
proof (induction es arbitrary: g)
  case Nil
  then show ?case by (simp add: put_conns_def)
next
  case (Cons e es)
  obtain t i c where e: "e = (nm, t, i, c)" using Cons.prems(1) by (cases e) auto
  with Cons.prems(1) obtain m where m: "lookup (conn_node c) = Some m" by auto
  let ?g = "g\<lparr>g_conns := put_conns [entry_conn lookup e] (g_conns g)\<rparr>"
  have "add_entry lookup n e g = Inr ?g"
    using m assms(1) Cons.prems(2)
    by (simp add: add_entry_def e addConnection_def entry_conn_def Let_def default_to_def put_conns_def)
  moreover have "in_graph ?g y" if "lookup x = Some y" for x y
    using Cons.prems(2) [OF that] by (simp add: in_graph_def)
  ultimately show ?case using Cons.IH [of ?g] Cons.prems(1) by (simp add: put_conns_def)
qed

lemma add_iconnections_eq:
  assumes "resolvable lookup cs" and "\<And>x y. lookup x = Some y \<Longrightarrow> in_graph g y"
  shows "add_iconnections lookup cs g =
    Inr (g\<lparr>g_conns := put_conns (map (entry_conn lookup) (conn_entries cs)) (g_conns g)\<rparr>)"
  using assms
proof (induction cs arbitrary: g)
  case Nil
  then show ?case by (simp add: add_iconnections_def conn_entries_def put_conns_def)
next
  case (Cons e cs)
  obtain nm tys where e: "e = (nm, tys)" by (cases e)
  with Cons.prems(1) obtain n where n: "lookup nm = Some n" by (auto simp: resolvable_def)
  have entries: "conn_entries ((nm, tys) # cs) = node_entries nm tys @ conn_entries cs"
    by (simp add: conn_entries_def)
  let ?g = "g\<lparr>g_conns := put_conns (map (entry_conn lookup) (node_entries nm tys)) (g_conns g)\<rparr>"
  have "\<forall>(s, t, i, c) \<in> set (node_entries nm tys). lookup (conn_node c) \<noteq> None"
    using Cons.prems(1) by (auto simp: resolvable_def entries e)
  moreover have "\<forall>(s, t, i, c) \<in> set (node_entries nm tys). s = nm"
    by (auto simp: in_node_entries)
  ultimately have "\<forall>(s, t, i, c) \<in> set (node_entries nm tys). s = nm \<and> lookup (conn_node c) \<noteq> None" by auto
  from add_entries [OF n this Cons.prems(2)]
  have "for_each (add_entry lookup n) (node_entries nm tys) g = Inr ?g" .
  moreover have "in_graph ?g y" if "lookup x = Some y" for x y
    using Cons.prems(2) [OF that] by (simp add: in_graph_def)
  moreover have "resolvable lookup cs" using Cons.prems(1) by (auto simp: resolvable_def entries e)
  ultimately show ?case using Cons.IH [of ?g] n
    by (simp add: add_iconnections_def e entries put_conns_def)
qed

text \<open>An unknown source (even one without connections) or an unknown target is refused.\<close>

lemma add_entries_fail:
  assumes "(s, t, i, c) \<in> set es" and "lookup (conn_node c) = None"
  shows "\<exists>msg. for_each (add_entry lookup n) es g = Inl (AssertionError msg)"
  using assms(1)
proof (induction es arbitrary: g)
  case (Cons e es)
  obtain s' t' i' c' where e: "e = (s', t', i', c')" by (cases e)
  show ?case
  proof (cases "add_entry lookup n e g")
    case (Inl x)
    then have "\<exists>msg. x = AssertionError msg"
      by (auto simp: add_entry_def e addConnection_def assert_ok_def Let_def split: option.splits if_splits)
    with Inl show ?thesis by auto
  next
    case (Inr g')
    then have "lookup (conn_node c') \<noteq> None" by (auto simp: add_entry_def e split: option.splits)
    with Cons.prems assms(2) have "(s, t, i, c) \<in> set es" by (auto simp: e)
    with Cons.IH Inr show ?thesis by simp
  qed
qed simp

lemma for_each_assertion:
  assumes "\<And>x s e. x \<in> set xs \<Longrightarrow> f x s = Inl e \<Longrightarrow> \<exists>msg. e = AssertionError msg"
    and "x \<in> set xs" and "\<And>s. \<exists>e. f x s = Inl e"
  shows "\<exists>msg. for_each f xs s = Inl (AssertionError msg)"
  using assms(1,2)
proof (induction xs arbitrary: s)
  case (Cons y ys)
  show ?case
  proof (cases "f y s")
    case (Inl e)
    with Cons.prems(1) [of y s e] show ?thesis by auto
  next
    case (Inr s')
    with assms(3) [of s] Cons.prems(2) have "x \<in> set ys" by auto
    then have "\<exists>msg. for_each f ys s' = Inl (AssertionError msg)"
      by (rule Cons.IH [rotated]) (use Cons.prems(1) in \<open>meson list.set_intros(2)\<close>)
    with Inr show ?thesis by simp
  qed
qed simp

lemma add_entry_assertion: "add_entry lookup n e g = Inl x \<Longrightarrow> \<exists>msg. x = AssertionError msg"
  by (cases e) (auto simp: add_entry_def addConnection_def assert_ok_def Let_def split: option.splits if_splits)

lemma for_each_errors:
  assumes "for_each f xs s = Inl e"
  shows "\<exists>x \<in> set xs. \<exists>s. f x s = Inl e"
  using assms by (induction xs arbitrary: s) (auto simp: res_bind_eq_Inl)

lemma add_iconnections_refused:
  assumes "\<not> resolvable lookup cs"
  shows "\<exists>msg. add_iconnections lookup cs g = Inl (AssertionError msg)"
proof -
  let ?f = "\<lambda>(fromName, tys) g. case lookup fromName of None \<Rightarrow> Inl (AssertionError ''from'')
      | Some n \<Rightarrow> for_each (add_entry lookup n) (node_entries fromName tys) g"
  have err: "\<exists>msg. e = AssertionError msg" if "?f x g = Inl e" for x g e
    using that add_entry_assertion for_each_errors by (fastforce split: prod.splits option.splits)
  have "\<exists>x \<in> set cs. \<forall>g. \<exists>e. ?f x g = Inl e"
  proof (cases "\<forall>nm \<in> fst ` set cs. lookup nm \<noteq> None")
    case False
    then obtain x where "x \<in> set cs" "lookup (fst x) = None" by auto
    then show ?thesis by (intro bexI [of _ x]) (simp_all add: case_prod_beta)
  next
    case True
    with assms obtain s t i c where "(s, t, i, c) \<in> set (conn_entries cs)" and none: "lookup (conn_node c) = None"
      by (auto simp: resolvable_def)
    then obtain x where x: "x \<in> set cs" and e: "(s, t, i, c) \<in> set (node_entries (fst x) (snd x))"
      by (auto simp: conn_entries_def)
    have "\<exists>e. ?f x g = Inl e" for g
      using add_entries_fail [where lookup = lookup, OF e none] by (cases x) (auto split: option.split)
    with x show ?thesis by blast
  qed
  then obtain x where "x \<in> set cs" "\<And>g. \<exists>e. ?f x g = Inl e" by blast
  then show ?thesis
    unfolding add_iconnections_def by (intro for_each_assertion [where f = ?f and x = x]) (blast intro: err)+
qed

section \<open>The graph of a workflow\<close>

definition workflow_lookup_ok :: "workflow \<Rightarrow> bool" where
  "workflow_lookup_ok w \<longleftrightarrow> resolvable (getNode w) (wf_connectionsBySourceNode w)"

lemma fromWorkflow_eq:
  assumes "workflow_wf w" and "workflow_lookup_ok w"
  shows "fromWorkflow w = Inr \<lparr>g_nodes = wf_nodes w,
    g_conns = put_conns (map (entry_conn (getNode w)) (conn_entries (wf_connectionsBySourceNode w))) []\<rparr>"
proof -
  have "indexed_by node_name (wf_nodes w)"
    using assms(1) by (auto simp: workflow_wf_def indexed_by_def)
  then have nodes: "addNodes (map_values (wf_nodes w)) empty_graph = \<lparr>g_nodes = wf_nodes w, g_conns = []\<rparr>"
    by (simp add: addNodes_eq empty_graph_def fold_rebuild)
  have "in_graph \<lparr>g_nodes = wf_nodes w, g_conns = []\<rparr> y" if "getNode w x = Some y" for x y
    using that assms(1) by (auto simp: in_graph_def getNode_def workflow_wf_def dest: map_of_SomeD)
  from add_iconnections_eq [OF assms(2) [unfolded workflow_lookup_ok_def] this] show ?thesis
    by (simp add: fromWorkflow_def nodes)
qed

text \<open>Names and types of a workflow without the separator of the keys.\<close>

definition plain_workflow :: "workflow \<Rightarrow> bool" where
  "plain_workflow w \<longleftrightarrow> (\<forall>n \<in> set (map_values (wf_nodes w)). no_hyphens (node_name n))
     \<and> (\<forall>(s, t, i, c) \<in> set (conn_entries (wf_connectionsBySourceNode w)). no_hyphens t)"

lemma entry_ends:
  assumes "workflow_wf w" and "workflow_lookup_ok w"
    and "(s, t, i, c) \<in> set (conn_entries (wf_connectionsBySourceNode w))"
  shows "\<exists>a b. getNode w s = Some a \<and> getNode w (conn_node c) = Some b
    \<and> (s, a) \<in> set (wf_nodes w) \<and> (conn_node c, b) \<in> set (wf_nodes w) \<and> node_name a = s \<and> node_name b = conn_node c"
proof -
  from assms(3) have "s \<in> fst ` set (wf_connectionsBySourceNode w)" by (force simp: in_conn_entries)
  with assms(2,3) obtain a b where ab: "getNode w s = Some a" "getNode w (conn_node c) = Some b"
    unfolding workflow_lookup_ok_def resolvable_def by fastforce
  then have "(s, a) \<in> set (wf_nodes w)" "(conn_node c, b) \<in> set (wf_nodes w)"
    by (auto simp: getNode_def dest: map_of_SomeD)
  moreover from this assms(1) have "node_name a = s" "node_name b = conn_node c"
    unfolding workflow_wf_def by auto
  ultimately show ?thesis using ab by blast
qed

lemma fromWorkflow_wf:
  assumes "workflow_wf w" and "workflow_lookup_ok w"
  shows "\<exists>g. fromWorkflow w = Inr g \<and> graph_wf g \<and> g_nodes g = wf_nodes w
    \<and> graph_conns g \<subseteq> entry_conn (getNode w) ` set (conn_entries (wf_connectionsBySourceNode w))
    \<and> (plain_workflow w \<longrightarrow>
         graph_conns g = entry_conn (getNode w) ` set (conn_entries (wf_connectionsBySourceNode w)))"
proof -
  let ?es = "map (entry_conn (getNode w)) (conn_entries (wf_connectionsBySourceNode w))"
  let ?g = "\<lparr>g_nodes = wf_nodes w, g_conns = put_conns ?es []\<rparr>"
  let ?base = "\<lparr>g_nodes = wf_nodes w, g_conns = []\<rparr>"
  have ix: "indexed_by node_name (wf_nodes w)"
    using assms(1) by (auto simp: workflow_wf_def indexed_by_def)
  have wf0: "graph_wf ?base" using ix by (simp add: graph_wf_indexed) (simp add: indexed_by_def)
  have ends: "gc_from c \<in> graph_nodes ?base \<and> gc_to c \<in> graph_nodes ?base" if "c \<in> set ?es" for c
  proof -
    from that obtain s t i k where k: "(s, t, i, k) \<in> set (conn_entries (wf_connectionsBySourceNode w))"
      and c: "c = entry_conn (getNode w) (s, t, i, k)" by auto
    from entry_ends [OF assms k] show ?thesis unfolding c entry_conn_def by force
  qed
  have e: "indexed_by make_key ([] :: (string, gconn) jsmap)" by (simp add: indexed_by_def)
  note put = js_map.indexed_puts [OF e, of ?es, folded put_conns_def]
  have sub: "graph_conns ?g \<subseteq> set ?es" using put(2) by simp
  have "in_graph ?g n" if "n \<in> graph_nodes ?base" for n
    using that in_graph_iff [OF wf0, of n] by (simp add: in_graph_def)
  with ends sub have "\<forall>c \<in> graph_conns ?g. in_graph ?g (gc_from c) \<and> in_graph ?g (gc_to c)" by blast
  moreover have "indexed_by make_key (g_conns ?g)" using put(1) by simp
  moreover have "indexed_by node_name (g_nodes ?g)" using ix by simp
  ultimately have wf: "graph_wf ?g" unfolding graph_wf_indexed by blast
  have "graph_conns ?g = set ?es" if p: "plain_workflow w"
  proof -
    have "no_hyphens (gc_type c)" if "c \<in> set ?es" for c
      using that p unfolding plain_workflow_def by (auto simp: entry_conn_def)
    with ends have "inj_on make_key (set ?es \<union> snd ` set [])"
      by (intro make_key_inj [OF wf0]) (use p in \<open>auto simp: plain_workflow_def\<close>)
    from put(3) [OF this] show ?thesis by simp
  qed
  with fromWorkflow_eq [OF assms] wf sub show ?thesis by auto
qed

section \<open>The connection object of a graph\<close>

definition conn_entry_of :: "gconn \<Rightarrow> conn_entry" where
  "conn_entry_of c = (node_name (gc_from c), gc_type c, gc_outputIndex c,
     \<lparr>conn_node = node_name (gc_to c), conn_type = gc_type c, conn_index = gc_inputIndex c\<rparr>)"

text \<open>All connections that leave one node have the same type.\<close>

definition one_type_per_source :: "gconn list \<Rightarrow> bool" where
  "one_type_per_source cs \<longleftrightarrow>
     (\<forall>c \<in> set cs. \<forall>d \<in> set cs. node_name (gc_from c) = node_name (gc_from d) \<longrightarrow> gc_type c = gc_type d)"

lemma one_typeD:
  "one_type_per_source cs \<Longrightarrow> c \<in> set cs \<Longrightarrow> d \<in> set cs
    \<Longrightarrow> node_name (gc_from c) = node_name (gc_from d) \<Longrightarrow> gc_type c = gc_type d"
  unfolding one_type_per_source_def by blast

lemma bucket_entries_append_null:
  "bucket_entries nm ty (bs @ replicate n None) = bucket_entries nm ty bs"
proof -
  have "concat (map (\<lambda>(i, b). map (\<lambda>c. (nm, ty, i, c)) (case b of None \<Rightarrow> [] | Some cs \<Rightarrow> cs))
      (enumerate k (replicate n None))) = []" for k
    by (induction n arbitrary: k) auto
  then show ?thesis by (simp add: bucket_entries_def enumerate_append_eq)
qed

lemma bucket_entries_null_empty:
  assumes "j < length bs" and "bs ! j = None"
  shows "bucket_entries nm ty (bs[j := Some []]) = bucket_entries nm ty bs"
proof -
  let ?f = "\<lambda>(i, b). map (\<lambda>c. (nm, ty, i, c)) (case b of None \<Rightarrow> [] | Some cs \<Rightarrow> cs)"
  have "map ?f (enumerate 0 (bs[j := Some []])) = map ?f (enumerate 0 bs)"
  proof (rule nth_equalityI)
    fix i
    assume "i < length (map ?f (enumerate 0 (bs[j := Some []])))"
    then show "map ?f (enumerate 0 (bs[j := Some []])) ! i = map ?f (enumerate 0 bs) ! i"
      using assms by (cases "i = j") (simp_all add: nth_enumerate_eq)
  qed simp
  then show ?thesis by (simp add: bucket_entries_def)
qed

lemma mset_grow_push:
  "mset (bucket_entries nm ty (grow_push j c bs)) = add_mset (nm, ty, j, c) (mset (bucket_entries nm ty bs))"
proof -
  let ?bs = "bs @ replicate (Suc j - length bs) None"
  let ?bs' = "case ?bs ! j of None \<Rightarrow> ?bs[j := Some []] | Some _ \<Rightarrow> ?bs"
  have j: "j < length ?bs" by simp
  obtain cs where cs: "?bs' ! j = Some cs" and eq: "grow_push j c bs = ?bs'[j := Some (cs @ [c])]"
  proof (cases "j < length bs")
    case True
    then show ?thesis
      by (cases "bs ! j") (auto intro!: that simp: grow_push_def arr_get_def arr_put_def nth_append)
  next
    case False
    then show ?thesis
      by (auto intro!: that simp: grow_push_def arr_get_def arr_put_def nth_append)
  qed
  have len: "j < length ?bs'" using j by (auto split: option.split)
  have "bucket_entries nm ty ?bs' = bucket_entries nm ty ?bs"
    using bucket_entries_null_empty [OF j] by (auto split: option.split)
  with mset_bucket_entries_update [OF len cs, of nm ty c] show ?thesis
    unfolding eq by (simp add: bucket_entries_append_null)
qed

text \<open>What the object holds after the connections \<open>us\<close>.\<close>

definition iconns_of :: "gconn list \<Rightarrow> iconnections \<Rightarrow> bool" where
  "iconns_of us res \<longleftrightarrow> distinct (map fst res)
     \<and> mset (conn_entries res) = mset (map conn_entry_of us)
     \<and> (\<forall>(nm, tys) \<in> set res. \<exists>c bs. c \<in> set us \<and> nm = node_name (gc_from c) \<and> tys = [(gc_type c, bs)])
     \<and> (\<forall>c \<in> set us. node_name (gc_from c) \<in> fst ` set res)"

lemma iconns_of_entry:
  assumes "iconns_of us res" and "map_of res nm = Some tys"
  shows "\<exists>c bs. c \<in> set us \<and> nm = node_name (gc_from c) \<and> tys = [(gc_type c, bs)]"
  using assms map_of_SomeD unfolding iconns_of_def by fastforce

lemma put_connection_ok:
  assumes "iconns_of us res" and "one_type_per_source (us @ [c])"
  shows "\<exists>res'. put_connection c res = Inr res' \<and> iconns_of (us @ [c]) res'"
proof -
  let ?nm = "node_name (gc_from c)" and ?ty = "gc_type c"
  let ?k = "\<lparr>conn_node = node_name (gc_to c), conn_type = gc_type c, conn_index = gc_inputIndex c\<rparr>"
  obtain bs where bs: "(case map_of res ?nm of None \<Rightarrow> [(?ty, [])] | Some tys \<Rightarrow> tys) = [(?ty, bs)]"
      "map_of res ?nm = None \<Longrightarrow> bs = []"
  proof (cases "map_of res ?nm")
    case (Some tys)
    from iconns_of_entry [OF assms(1) this] obtain d bs where d: "d \<in> set us"
      "?nm = node_name (gc_from d)" "tys = [(gc_type d, bs)]" by blast
    have "gc_type d = ?ty" by (rule one_typeD [OF assms(2)]) (use d(1,2) in simp_all)
    with d(3) Some show ?thesis by (intro that [of bs]) simp_all
  qed (use that in auto)
  let ?new = "[(?ty, grow_push (gc_outputIndex c) ?k bs)]"
  let ?res = "obj_put ?nm ?new res"
  have run: "put_connection c res = Inr ?res"
    using bs(1) by (simp add: put_connection_def obj_put_def Let_def)
  have d: "distinct (map fst res)" using assms(1) by (simp add: iconns_of_def)
  have "mset (conn_entries ?res) + mset (node_entries ?nm [(?ty, bs)])
      = mset (node_entries ?nm ?new) + mset (conn_entries res)"
    using js_obj.sum_put [OF d, of "\<lambda>e. mset (node_entries (fst e) (snd e))" ?nm ?new] bs
    by (cases "map_of res ?nm") (auto simp: mset_conn_entries node_entries_def bucket_entries_def)
  moreover have "mset (node_entries ?nm ?new) = add_mset (conn_entry_of c) (mset (node_entries ?nm [(?ty, bs)]))"
    by (simp add: node_entries_def mset_grow_push conn_entry_of_def)
  ultimately have "mset (conn_entries ?res) = add_mset (conn_entry_of c) (mset (conn_entries res))" by simp
  moreover note ent = js_obj.entries_put [OF d, of ?nm ?new]
  have "\<exists>d bs. d \<in> set (us @ [c]) \<and> nm = node_name (gc_from d) \<and> tys = [(gc_type d, bs)]"
    if "(nm, tys) \<in> set ?res" for nm tys
  proof (cases "(nm, tys) = (?nm, ?new)")
    case False
    with that have "(nm, tys) \<in> set res" unfolding ent by blast
    with assms(1) have "\<exists>d bs. d \<in> set us \<and> nm = node_name (gc_from d) \<and> tys = [(gc_type d, bs)]"
      unfolding iconns_of_def by blast
    then show ?thesis by auto
  qed auto
  moreover have "\<forall>d \<in> set (us @ [c]). node_name (gc_from d) \<in> fst ` set ?res"
    using assms(1) unfolding iconns_of_def js_obj.keys_put by auto
  ultimately have "iconns_of (us @ [c]) ?res"
    using assms(1) js_obj.distinct_put [OF d, of ?nm ?new] unfolding iconns_of_def by auto
  with run show ?thesis by blast
qed

lemma one_type_prefix: "one_type_per_source (us @ vs) \<Longrightarrow> one_type_per_source us"
  by (auto simp: one_type_per_source_def)

lemma put_connections_ok:
  assumes "one_type_per_source cs"
  shows "\<exists>res. for_each put_connection cs [] = Inr res \<and> iconns_of cs res"
proof (rule for_each_total)
  show "iconns_of [] []" by (simp add: iconns_of_def conn_entries_def)
  fix ys c zs s
  assume "cs = ys @ c # zs" "iconns_of ys s"
  moreover from this assms have "one_type_per_source (ys @ [c])"
    using one_type_prefix [of "ys @ [c]" zs] by simp
  ultimately show "\<exists>s'. put_connection c s = Inr s' \<and> iconns_of (ys @ [c]) s'"
    by (blast intro: put_connection_ok)
qed

lemma put_connection_clash:
  assumes "iconns_of us res" and "d \<in> set us" and "one_type_per_source us"
    and "node_name (gc_from c) = node_name (gc_from d)" and "gc_type c \<noteq> gc_type d"
  shows "\<exists>msg. put_connection c res = Inl (TypeError msg)"
proof -
  from assms(1,2,4) obtain tys where tys: "map_of res (node_name (gc_from c)) = Some tys"
    unfolding iconns_of_def by (metis map_of_eq_None_iff not_Some_eq)
  from iconns_of_entry [OF assms(1) this] obtain e bs where
    "e \<in> set us" "node_name (gc_from c) = node_name (gc_from e)" "tys = [(gc_type e, bs)]" by blast
  moreover have "gc_type e = gc_type d"
    by (rule one_typeD [OF assms(3)]) (use calculation(1,2) assms(2,4) in simp_all)
  ultimately show ?thesis using tys assms(5) by (simp add: put_connection_def)
qed

lemma first_clash:
  assumes "\<not> one_type_per_source cs"
  shows "\<exists>us c vs. cs = us @ c # vs \<and> one_type_per_source us \<and> \<not> one_type_per_source (us @ [c])"
  using assms
proof (induction cs rule: rev_induct)
  case Nil
  then show ?case by (simp add: one_type_per_source_def)
next
  case (snoc c cs)
  show ?case
  proof (cases "one_type_per_source cs")
    case True
    with snoc.prems show ?thesis by blast
  next
    case False
    with snoc.IH obtain us d vs where "cs = us @ d # vs" "one_type_per_source us" "\<not> one_type_per_source (us @ [d])"
      by blast
    then show ?thesis by (intro exI [of _ us] exI [of _ d] exI [of _ "vs @ [c]"]) simp
  qed
qed

lemma toIConnections_iff:
  "(case toIConnections g of
      Inr cs \<Rightarrow> one_type_per_source (map_values (g_conns g))
        \<and> mset (conn_entries cs) = mset (map conn_entry_of (map_values (g_conns g)))
    | Inl e \<Rightarrow> \<not> one_type_per_source (map_values (g_conns g)) \<and> (\<exists>msg. e = TypeError msg))"
proof (cases "one_type_per_source (map_values (g_conns g))")
  case True
  from put_connections_ok [OF this] True show ?thesis
    by (auto simp: toIConnections_def iconns_of_def)
next
  case False
  from first_clash [OF this] obtain us c vs where split: "map_values (g_conns g) = us @ c # vs"
    and ok: "one_type_per_source us" and clash: "\<not> one_type_per_source (us @ [c])" by blast
  from clash obtain x y where xy: "x \<in> set (us @ [c])" "y \<in> set (us @ [c])"
    "node_name (gc_from x) = node_name (gc_from y)" "gc_type x \<noteq> gc_type y"
    unfolding one_type_per_source_def by blast
  obtain d where "d \<in> set us" "node_name (gc_from c) = node_name (gc_from d)" "gc_type c \<noteq> gc_type d"
  proof (cases "x \<in> set us")
    case True
    then have "y \<notin> set us" using one_typeD [OF ok True, of y] xy(3,4) by blast
    with xy(2) have "y = c" by simp
    with xy(3,4) True show ?thesis by (intro that [of x]) simp_all
  next
    case False
    with xy(1) have "x = c" by simp
    with xy(2,4) have "y \<in> set us" by auto
    with xy(3,4) \<open>x = c\<close> show ?thesis by (intro that [of y]) simp_all
  qed
  moreover from put_connections_ok [OF ok] obtain res where "for_each put_connection us [] = Inr res" "iconns_of us res"
    by blast
  ultimately obtain res msg where "for_each put_connection us [] = Inr res" "put_connection c res = Inl (TypeError msg)"
    using put_connection_clash [OF _ _ ok] by blast
  then have "\<exists>msg. toIConnections g = Inl (TypeError msg)"
    by (simp add: toIConnections_def split for_each_append)
  with False show ?thesis by auto
qed

end
