(* ===== verification/Subgraph.thy ===== *)
theory Subgraph
  imports Graph_Conversion
begin

text \<open>
  The part of a graph that a partial execution runs (\<^verbatim>\<open>partial-execution-utils/find-subgraph.ts\<close>)
  and the removal of its disabled nodes (\<^verbatim>\<open>filter-disabled-nodes.ts\<close>). The subgraph is a
  well-formed part of the graph in which every node leads to the destination and which holds every
  simple path from the trigger to the destination. Filtering leaves exactly the enabled nodes and
  keeps which of them reach which.
\<close>

section \<open>The subgraph between a trigger and a destination\<close>

definition add_branch :: "gconn list \<Rightarrow> directed_graph \<Rightarrow> directed_graph result" where
  "add_branch branch newGraph =
     for_each (\<lambda>c ng. addConnection (conn_as_input c) (addNodes [gc_from c, gc_to c] ng)) branch newGraph"

primrec findSubgraphRecursive ::
    "nat \<Rightarrow> directed_graph \<Rightarrow> inode \<Rightarrow> inode \<Rightarrow> inode \<Rightarrow> gconn list \<Rightarrow> directed_graph \<Rightarrow> directed_graph result" where
  "findSubgraphRecursive 0 graph destinationNode current trigger currentBranch newGraph = Inl OutOfFuel"
| "findSubgraphRecursive (Suc fuel) graph destinationNode current trigger currentBranch newGraph =
     (if current = trigger then add_branch currentBranch (addNode trigger newGraph)
      else res_bind (getDirectParentConnections graph current) (\<lambda>parentConnections.
        if parentConnections = [] then Inr newGraph
        else if current = destinationNode \<and> (\<exists>c \<in> set currentBranch. gc_to c = destinationNode) then Inr newGraph
        else if \<exists>c \<in> set currentBranch. gc_to c = current then add_branch currentBranch newGraph
        else for_each (\<lambda>c ng. if gc_type c \<noteq> Main_type then Inr ng
               else findSubgraphRecursive fuel graph destinationNode (gc_from c) trigger (currentBranch @ [c]) ng)
             parentConnections newGraph))"

definition findSubgraph :: "directed_graph \<Rightarrow> inode \<Rightarrow> inode \<Rightarrow> directed_graph result" where
  "findSubgraph graph destination trigger =
     res_bind (findSubgraphRecursive (Suc (Suc (length (g_nodes graph)))) graph destination destination trigger [] empty_graph)
       (\<lambda>subgraph.
         for_each (\<lambda>node sg.
             res_bind (getParentConnections graph node) (\<lambda>parentConnections.
               for_each (\<lambda>c sg. if gc_type c = Main_type then Inr sg
                   else addConnection (conn_as_input c) (addNodes [gc_from c, gc_to c] sg))
                 parentConnections sg))
           (map_values (dg_getNodes subgraph)) subgraph)"

text \<open>A well-formed part of a graph.\<close>

definition part_of :: "directed_graph \<Rightarrow> directed_graph \<Rightarrow> bool" where
  "part_of g sg \<longleftrightarrow> graph_wf sg \<and> graph_nodes sg \<subseteq> graph_nodes g \<and> graph_conns sg \<subseteq> graph_conns g"

lemma graph_conns_inj: "graph_wf g \<Longrightarrow> inj_on make_key (graph_conns g)"
  using graph_wf_key by (intro inj_onI) (metis option.inject)

lemma graph_conns_put:
  assumes "graph_wf g" and "part_of g sg" and "c \<in> graph_conns g"
  shows "snd ` set (map_set (make_key c) c (g_conns sg)) = insert c (graph_conns sg)"
proof -
  have "indexed_by make_key (g_conns sg)" using assms(2) by (simp add: part_of_def graph_wf_indexed)
  note put = js_map.indexed_put(2) [OF this, of c]
  have "d = c" if "d \<in> graph_conns sg" "make_key d = make_key c" for d
    using that assms graph_conns_inj [OF assms(1)] unfolding part_of_def inj_on_def by blast
  then have "insert c {d \<in> graph_conns sg. make_key d \<noteq> make_key c} = insert c (graph_conns sg)" by auto
  with put show ?thesis by simp
qed

lemma part_of_addNode:
  assumes "graph_wf g" and "part_of g sg" and "n \<in> graph_nodes g"
  shows "part_of g (addNode n sg) \<and> graph_nodes (addNode n sg) = insert n (graph_nodes sg)
    \<and> graph_conns (addNode n sg) = graph_conns sg"
proof -
  have wf: "graph_wf sg" and sub: "graph_nodes sg \<subseteq> graph_nodes g" using assms(2) by (auto simp: part_of_def)
  have same: "m = n" if "m \<in> graph_nodes sg" "node_name m = node_name n" for m
    using that sub assms(3) same_name_same_node [OF assms(1)] by blast
  have "in_graph sg n" if "node_name n \<in> fst ` set (g_nodes sg)"
  proof -
    from that obtain e where e: "e \<in> set (g_nodes sg)" "fst e = node_name n" by fastforce
    then have m: "snd e \<in> graph_nodes sg" "node_name (snd e) = node_name n"
      using wf by (auto simp: graph_wf_def)
    with same [OF m] in_graph_iff [OF wf] show ?thesis by simp
  qed
  then have wf': "graph_wf (addNode n sg)" by (rule graph_wf_addNode [OF wf])
  have nodes': "graph_nodes (addNode n sg) = insert n (graph_nodes sg)"
  proof -
    have "indexed_by node_name (g_nodes sg)" using wf by (simp add: graph_wf_indexed)
    from js_map.indexed_put(2) [OF this, of n]
    have eq: "graph_nodes (addNode n sg) = insert n {m \<in> graph_nodes sg. node_name m \<noteq> node_name n}"
      by (simp add: addNode_def)
    have "m = n \<or> node_name m \<noteq> node_name n" if "m \<in> graph_nodes sg" for m using same [OF that] by blast
    then show ?thesis unfolding eq by blast
  qed
  have conns': "graph_conns (addNode n sg) = graph_conns sg" by (simp add: addNode_def)
  have "part_of g (addNode n sg)"
    unfolding part_of_def nodes' conns' using wf' assms(2,3) by (simp add: part_of_def)
  with nodes' conns' show ?thesis by blast
qed

lemma part_of_addConnection:
  assumes "graph_wf g" and "part_of g sg" and "c \<in> graph_conns g"
  shows "\<exists>sg'. addConnection (conn_as_input c) (addNodes [gc_from c, gc_to c] sg) = Inr sg' \<and> part_of g sg'
    \<and> graph_nodes sg' = {gc_from c, gc_to c} \<union> graph_nodes sg \<and> graph_conns sg' = insert c (graph_conns sg)"
proof -
  note ends = graph_wf_ends [OF assms(1,3)]
  let ?sg = "addNodes [gc_from c, gc_to c] sg"
  note one = part_of_addNode [OF assms(1,2) ends(1)]
  note two = part_of_addNode [OF assms(1) conjunct1 [OF one] ends(2)]
  have sg: "part_of g ?sg" "graph_nodes ?sg = {gc_from c, gc_to c} \<union> graph_nodes sg" "graph_conns ?sg = graph_conns sg"
    using one two unfolding addNodes_def by auto
  then have wf: "graph_wf ?sg" by (simp add: part_of_def)
  have inn: "in_graph ?sg (gc_from c)" "in_graph ?sg (gc_to c)"
    using in_graph_iff [OF wf] sg(2) by auto
  let ?r = "?sg\<lparr>g_conns := put_conns [c] (g_conns ?sg)\<rparr>"
  have run: "addConnection (conn_as_input c) ?sg = Inr ?r" by (rule addConnection_gconn [OF inn])
  have nodes: "graph_nodes ?r = {gc_from c, gc_to c} \<union> graph_nodes sg" using sg(2) by simp
  have conns: "graph_conns ?r = insert c (graph_conns sg)"
    using graph_conns_put [OF assms(1) sg(1) assms(3)] sg(3) by (simp add: put_conns_def)
  have "graph_wf ?r" using graph_wf_put [OF wf inn] by (simp add: put_conns_def)
  then have "part_of g ?r" using assms(2,3) ends unfolding part_of_def nodes conns by simp
  with run nodes conns show ?thesis by blast
qed

lemma part_of_add_branch:
  assumes "graph_wf g" and "part_of g sg" and "set branch \<subseteq> graph_conns g"
  shows "\<exists>sg'. add_branch branch sg = Inr sg' \<and> part_of g sg'
    \<and> graph_nodes sg' = gc_from ` set branch \<union> gc_to ` set branch \<union> graph_nodes sg
    \<and> graph_conns sg' = set branch \<union> graph_conns sg"
  using assms(2,3)
proof (induction branch arbitrary: sg)
  case Nil
  then show ?case by (simp add: add_branch_def)
next
  case (Cons c branch)
  from part_of_addConnection [OF assms(1) Cons.prems(1), of c] Cons.prems(2) obtain sg1 where
    sg1: "addConnection (conn_as_input c) (addNodes [gc_from c, gc_to c] sg) = Inr sg1" "part_of g sg1"
      "graph_nodes sg1 = {gc_from c, gc_to c} \<union> graph_nodes sg" "graph_conns sg1 = insert c (graph_conns sg)" by auto
  from Cons.IH [OF sg1(2)] Cons.prems(2) obtain sg2 where
    "add_branch branch sg1 = Inr sg2" "part_of g sg2"
    "graph_nodes sg2 = gc_from ` set branch \<union> gc_to ` set branch \<union> graph_nodes sg1"
    "graph_conns sg2 = set branch \<union> graph_conns sg1" by auto
  with sg1 show ?case by (simp add: add_branch_def) blast
qed

text \<open>Paths of main connections, followed backwards.\<close>

definition main_edges :: "directed_graph \<Rightarrow> (inode \<times> inode) set" where
  "main_edges g = {(a, b). \<exists>c \<in> graph_conns g. gc_type c = Main_type \<and> gc_from c = a \<and> gc_to c = b}"

fun back_path :: "directed_graph \<Rightarrow> inode \<Rightarrow> gconn list \<Rightarrow> inode \<Rightarrow> bool" where
  "back_path g a [] b = (a = b)"
| "back_path g a (c # p) b = (c \<in> graph_conns g \<and> gc_type c = Main_type \<and> gc_to c = a \<and> back_path g (gc_from c) p b)"

definition simple_path :: "directed_graph \<Rightarrow> inode \<Rightarrow> gconn list \<Rightarrow> inode \<Rightarrow> bool" where
  "simple_path g dest p trigger \<longleftrightarrow> back_path g dest p trigger \<and> distinct (map gc_to p) \<and> trigger \<notin> gc_to ` set p"

lemma back_path_append: "back_path g a (p @ q) b \<Longrightarrow> \<exists>m. back_path g a p m \<and> back_path g m q b"
  by (induction p arbitrary: a) auto

lemma simple_path_exists:
  assumes "(trigger, x) \<in> (main_edges g)\<^sup>*"
  shows "\<exists>p. simple_path g x p trigger"
  using assms
proof (induction rule: rtrancl_induct)
  case base
  have "simple_path g trigger [] trigger" by (simp add: simple_path_def)
  then show ?case ..
next
  case (step y x)
  then obtain p c where p: "simple_path g y p trigger"
    and c: "c \<in> graph_conns g" "gc_type c = Main_type" "gc_from c = y" "gc_to c = x"
    unfolding main_edges_def by blast
  consider (trigger) "x = trigger" | (cut) "x \<noteq> trigger" "x \<in> gc_to ` set p" | (new) "x \<noteq> trigger" "x \<notin> gc_to ` set p"
    by blast
  then show ?case
  proof cases
    case trigger
    then have "simple_path g x [] trigger" by (simp add: simple_path_def)
    then show ?thesis ..
  next
    case cut
    then obtain d where "d \<in> set p" "gc_to d = x" by blast
    then obtain us vs where split: "p = us @ d # vs" by (meson split_list)
    with p have "back_path g x (d # vs) trigger"
      using back_path_append [of g y us "d # vs" trigger] \<open>gc_to d = x\<close> by (auto simp: simple_path_def)
    with p split have "simple_path g x (d # vs) trigger" by (auto simp: simple_path_def)
    then show ?thesis ..
  next
    case new
    with p c have "simple_path g x (c # p) trigger" by (auto simp: simple_path_def)
    then show ?thesis ..
  qed
qed

text \<open>What the branch of a call is: main connections that lead to the destination, none entering a node twice.\<close>

definition branch_ok :: "directed_graph \<Rightarrow> inode \<Rightarrow> inode \<Rightarrow> gconn list \<Rightarrow> bool" where
  "branch_ok g dest cur branch \<longleftrightarrow> set branch \<subseteq> graph_conns g \<and> distinct (map gc_to branch)
     \<and> (cur, dest) \<in> (main_edges g)\<^sup>*
     \<and> (\<forall>c \<in> set branch. gc_type c = Main_type \<and> (gc_to c, dest) \<in> (main_edges g)\<^sup>*)"

definition leads_to :: "directed_graph \<Rightarrow> inode \<Rightarrow> directed_graph \<Rightarrow> bool" where
  "leads_to g dest sg \<longleftrightarrow> (\<forall>n \<in> graph_nodes sg. (n, dest) \<in> (main_edges g)\<^sup>*) \<and> (\<forall>c \<in> graph_conns sg. gc_type c = Main_type)"

lemma main_edge_from: "c \<in> graph_conns g \<Longrightarrow> gc_type c = Main_type \<Longrightarrow> (gc_from c, gc_to c) \<in> main_edges g"
  unfolding main_edges_def by blast

lemma branch_ok_from:
  assumes "branch_ok g dest cur branch" and "c \<in> set branch"
  shows "(gc_from c, dest) \<in> (main_edges g)\<^sup>*"
  using assms main_edge_from [of c g] unfolding branch_ok_def by (meson converse_rtrancl_into_rtrancl subsetD)

lemma leads_to_branch:
  assumes "branch_ok g dest cur branch" and "leads_to g dest sg"
    and "graph_nodes sg' = gc_from ` set branch \<union> gc_to ` set branch \<union> graph_nodes sg"
    and "graph_conns sg' = set branch \<union> graph_conns sg"
  shows "leads_to g dest sg'"
  unfolding leads_to_def assms(3,4)
  using assms(1,2) branch_ok_from [OF assms(1)] unfolding leads_to_def branch_ok_def by blast

definition extends :: "directed_graph \<Rightarrow> directed_graph \<Rightarrow> bool" where
  "extends sg sg' \<longleftrightarrow> graph_nodes sg \<subseteq> graph_nodes sg' \<and> graph_conns sg \<subseteq> graph_conns sg'"

lemma extends_trans: "extends a b \<Longrightarrow> extends b c \<Longrightarrow> extends a c"
  unfolding extends_def by blast

lemma branch_length:
  assumes "graph_wf g" and "branch_ok g dest cur branch" and "cur \<in> graph_nodes g" and "cur \<notin> gc_to ` set branch"
  shows "length branch < card (graph_nodes g)"
proof -
  have "gc_to ` set branch \<subseteq> graph_nodes g"
    using assms(1,2) graph_wf_ends unfolding branch_ok_def by blast
  with assms(3,4) have "gc_to ` set branch \<subset> graph_nodes g" by blast
  then have "card (gc_to ` set branch) < card (graph_nodes g)" by (intro psubset_card_mono) auto
  moreover have "card (gc_to ` set branch) = length branch"
    using assms(2) distinct_card [of "map gc_to branch"] by (simp add: branch_ok_def)
  ultimately show ?thesis by simp
qed

lemma findSubgraphRecursive_correct:
  assumes wf: "graph_wf g"
    and "part_of g sg" and "cur \<in> graph_nodes g" and "branch_ok g dest cur branch" and "leads_to g dest sg"
    and "Suc (card (graph_nodes g)) - length branch < f"
  shows "\<exists>sg'. findSubgraphRecursive f g dest cur trigger branch sg = Inr sg'
    \<and> part_of g sg' \<and> leads_to g dest sg' \<and> extends sg sg'
    \<and> (\<forall>p. simple_path g cur p trigger \<and> gc_to ` set p \<inter> gc_to ` set branch = {}
          \<longrightarrow> set branch \<union> set p \<subseteq> graph_conns sg' \<and> trigger \<in> graph_nodes sg')"
  using assms(2-)
proof (induction f arbitrary: cur branch sg)
  case 0
  then show ?case by simp
next
  case (Suc f)
  have bsub: "set branch \<subseteq> graph_conns g" using Suc.prems(3) by (simp add: branch_ok_def)
  show ?case
  proof (cases "cur = trigger")
    case True
    note n = part_of_addNode [OF wf Suc.prems(1,2)]
    note n2 = conjunct1 [OF conjunct2 [OF n]] and n3 = conjunct2 [OF conjunct2 [OF n]]
    from part_of_add_branch [OF wf conjunct1 [OF n] bsub] obtain sg' where
      sg': "add_branch branch (addNode cur sg) = Inr sg'" "part_of g sg'"
      "graph_nodes sg' = gc_from ` set branch \<union> gc_to ` set branch \<union> graph_nodes (addNode cur sg)"
      "graph_conns sg' = set branch \<union> graph_conns (addNode cur sg)" by blast
    have "leads_to g dest (addNode cur sg)"
      unfolding leads_to_def n2 n3 using Suc.prems(3,4) unfolding leads_to_def branch_ok_def by blast
    from leads_to_branch [OF Suc.prems(3) this sg'(3,4)] have "leads_to g dest sg'" .
    moreover have "p = []" if "simple_path g cur p trigger" for p
      using that True by (cases p) (auto simp: simple_path_def)
    moreover have "extends sg sg'" unfolding extends_def sg'(3,4) n2 n3 by blast
    moreover have "trigger \<in> graph_nodes sg'" unfolding sg'(3) n2 using True by blast
    moreover have "set branch \<union> set [] \<subseteq> graph_conns sg'" unfolding sg'(4) by simp
    moreover have "findSubgraphRecursive (Suc f) g dest cur trigger branch sg = Inr sg'"
      using sg'(1) True by simp
    ultimately show ?thesis using sg'(2) by blast
  next
    case notrigger: False
    let ?par = "filter (\<lambda>c. gc_to c = cur) (map_values (g_conns g))"
    have par: "getDirectParentConnections g cur = Inr ?par"
      using wf Suc.prems(2) by (rule getDirectParentConnections_wf)
    have nonempty: "\<exists>c p'. p = c # p' \<and> c \<in> set ?par \<and> gc_type c = Main_type \<and> gc_to c = cur
        \<and> simple_path g (gc_from c) p' trigger" if "simple_path g cur p trigger" for p
      using that notrigger by (cases p) (auto simp: simple_path_def)
    consider (none) "?par = []" | (dest) "?par \<noteq> []" "cur = dest" "\<exists>c \<in> set branch. gc_to c = dest"
      | (cycle) "?par \<noteq> []" "\<not> (cur = dest \<and> (\<exists>c \<in> set branch. gc_to c = dest))" "\<exists>c \<in> set branch. gc_to c = cur"
      | (go) "?par \<noteq> []" "\<not> (\<exists>c \<in> set branch. gc_to c = cur)" by blast
    then show ?thesis
    proof cases
      case none
      with nonempty have "\<not> simple_path g cur p trigger" for p by fastforce
      with none notrigger par Suc.prems(1,4) show ?thesis by (auto simp: extends_def)
    next
      case dest
      have "\<not> (simple_path g cur p trigger \<and> gc_to ` set p \<inter> gc_to ` set branch = {})" for p
        using nonempty [of p] dest(2,3) by fastforce
      with dest notrigger par Suc.prems(1,4) show ?thesis by (auto simp: extends_def)
    next
      case cycle
      have np: "\<not> (simple_path g cur p trigger \<and> gc_to ` set p \<inter> gc_to ` set branch = {})" for p
        using nonempty [of p] cycle(3) by fastforce
      from part_of_add_branch [OF wf Suc.prems(1) bsub] obtain sg' where
        sg': "add_branch branch sg = Inr sg'" "part_of g sg'"
        "graph_nodes sg' = gc_from ` set branch \<union> gc_to ` set branch \<union> graph_nodes sg"
        "graph_conns sg' = set branch \<union> graph_conns sg" by blast
      have "extends sg sg'" unfolding extends_def sg'(3,4) by blast
      moreover have "leads_to g dest sg'" by (rule leads_to_branch [OF Suc.prems(3,4) sg'(3,4)])
      moreover have "findSubgraphRecursive (Suc f) g dest cur trigger branch sg = Inr sg'"
        unfolding findSubgraphRecursive.simps par res_bind_Inr if_not_P [OF notrigger] if_not_P [OF cycle(1)]
          if_not_P [OF cycle(2)] if_P [OF cycle(3)] by (rule sg'(1))
      ultimately show ?thesis using sg'(2) np by blast
    next
      case go
      let ?step = "\<lambda>c ng. if gc_type c \<noteq> Main_type then Inr ng
               else findSubgraphRecursive f g dest (gc_from c) trigger (branch @ [c]) ng"
      let ?good = "\<lambda>c ng. \<forall>p. simple_path g cur (c # p) trigger \<and> gc_to ` set (c # p) \<inter> gc_to ` set branch = {}
          \<longrightarrow> set branch \<union> set (c # p) \<subseteq> graph_conns ng \<and> trigger \<in> graph_nodes ng"
      have "\<exists>t. for_each ?step ?par sg = Inr t
          \<and> (part_of g t \<and> leads_to g dest t \<and> extends sg t \<and> (\<forall>c \<in> set ?par. ?good c t))"
      proof (rule for_each_total [where P = "\<lambda>us t. part_of g t \<and> leads_to g dest t \<and> extends sg t \<and> (\<forall>c \<in> set us. ?good c t)"])
        show "part_of g sg \<and> leads_to g dest sg \<and> extends sg sg \<and> (\<forall>c \<in> set []. ?good c sg)"
          using Suc.prems by (simp add: extends_def)
      next
        fix ys c zs t
        assume split: "?par = ys @ c # zs"
          and P: "part_of g t \<and> leads_to g dest t \<and> extends sg t \<and> (\<forall>c \<in> set ys. ?good c t)"
        have "c \<in> set ?par" unfolding split by simp
        then have c: "c \<in> graph_conns g" "gc_to c = cur" by auto
        show "\<exists>t'. ?step c t = Inr t' \<and> part_of g t' \<and> leads_to g dest t' \<and> extends sg t' \<and> (\<forall>c \<in> set (ys @ [c]). ?good c t')"
        proof (cases "gc_type c = Main_type")
          case False
          then have c_good: "?good c t" by (simp add: simple_path_def)
          have "?good d t" if "d \<in> set (ys @ [c])" for d
          proof (cases "d = c")
            case True
            with c_good show ?thesis by blast
          next
            case False
            with that have "d \<in> set ys" by simp
            with P show ?thesis by blast
          qed
          moreover have "?step c t = Inr t" using False by simp
          ultimately show ?thesis using P by blast
        next
          case True
          have b: "branch_ok g dest (gc_from c) (branch @ [c])"
            using Suc.prems(3) go(2) c True main_edge_from [OF c(1) True]
            by (auto simp: branch_ok_def intro: converse_rtrancl_into_rtrancl)
          have "Suc (card (graph_nodes g)) - length (branch @ [c]) < f"
            using Suc.prems(5) branch_length [OF wf Suc.prems(3,2)] go(2) by fastforce
          from Suc.IH [OF conjunct1 [OF P] graph_wf_ends(1) [OF wf c(1)] b _ this] P obtain t' where
            t': "findSubgraphRecursive f g dest (gc_from c) trigger (branch @ [c]) t = Inr t'" "part_of g t'"
              "leads_to g dest t'" "extends t t'"
              and paths: "\<And>p. simple_path g (gc_from c) p trigger \<Longrightarrow> gc_to ` set p \<inter> gc_to ` set (branch @ [c]) = {}
                 \<Longrightarrow> set (branch @ [c]) \<union> set p \<subseteq> graph_conns t' \<and> trigger \<in> graph_nodes t'" by blast
          have "?good c t'"
          proof (intro allI impI)
            fix p
            assume p: "simple_path g cur (c # p) trigger \<and> gc_to ` set (c # p) \<inter> gc_to ` set branch = {}"
            then have "simple_path g (gc_from c) p trigger" "gc_to ` set p \<inter> gc_to ` set (branch @ [c]) = {}"
              by (auto simp: simple_path_def)
            from paths [OF this] show "set branch \<union> set (c # p) \<subseteq> graph_conns t' \<and> trigger \<in> graph_nodes t'" by simp
          qed
          moreover have "?good d t'" if "d \<in> set ys" for d
            using P that t'(4) unfolding extends_def by blast
          moreover have "d = c \<or> d \<in> set ys" if "d \<in> set (ys @ [c])" for d using that by auto
          ultimately have "?good d t'" if "d \<in> set (ys @ [c])" for d
            using that by blast
          then have "\<forall>d \<in> set (ys @ [c]). ?good d t'" by blast
          moreover have "extends sg t'" using P t'(4) by (blast intro: extends_trans)
          moreover have "?step c t = Inr t'" using True t'(1) by simp
          ultimately show ?thesis using t'(2,3) by blast
        qed
      qed
      then obtain t where t: "for_each ?step ?par sg = Inr t" "part_of g t" "leads_to g dest t" "extends sg t"
        and good: "\<forall>c \<in> set ?par. ?good c t" by blast
      have "findSubgraphRecursive (Suc f) g dest cur trigger branch sg = Inr t"
        using t(1) par notrigger go by (auto simp: if_not_P)
      moreover have "set branch \<union> set p \<subseteq> graph_conns t \<and> trigger \<in> graph_nodes t"
        if p: "simple_path g cur p trigger" "gc_to ` set p \<inter> gc_to ` set branch = {}" for p
      proof -
        from nonempty [OF p(1)] obtain c p' where "p = c # p'" "c \<in> set ?par" by blast
        with good p show ?thesis by blast
      qed
      ultimately show ?thesis using t(2-4) by blast
    qed
  qed
qed

text \<open>The utility connections added for the nodes kept so far.\<close>

definition utility_conns :: "directed_graph \<Rightarrow> inode set \<Rightarrow> gconn set" where
  "utility_conns g N = {c \<in> graph_conns g. gc_type c \<noteq> Main_type \<and> (\<exists>n \<in> N. (gc_to c, n) \<in> (edge_rel g)\<^sup>*)}"

definition grown :: "directed_graph \<Rightarrow> gconn set \<Rightarrow> directed_graph \<Rightarrow> directed_graph \<Rightarrow> bool" where
  "grown g C sg sg' \<longleftrightarrow> part_of g sg' \<and> graph_nodes sg' = gc_from ` C \<union> gc_to ` C \<union> graph_nodes sg
     \<and> graph_conns sg' = C \<union> graph_conns sg"

lemma grown_refl: "part_of g sg \<Longrightarrow> grown g {} sg sg"
  by (simp add: grown_def)

lemma grown_trans: "grown g C a b \<Longrightarrow> grown g D b c \<Longrightarrow> grown g (C \<union> D) a c"
  unfolding grown_def by (simp add: image_Un Un_assoc Un_left_commute Un_commute)

lemma add_utilities:
  assumes "graph_wf g" and "part_of g sg" and "set cs \<subseteq> graph_conns g"
  shows "\<exists>sg'. for_each (\<lambda>c sg. if gc_type c = Main_type then Inr sg
            else addConnection (conn_as_input c) (addNodes [gc_from c, gc_to c] sg)) cs sg = Inr sg'
    \<and> grown g {c \<in> set cs. gc_type c \<noteq> Main_type} sg sg'"
  using assms(2,3)
proof (induction cs arbitrary: sg)
  case Nil
  then show ?case by (simp add: grown_refl)
next
  case (Cons c cs)
  show ?case
  proof (cases "gc_type c = Main_type")
    case True
    then have "{d \<in> set (c # cs). gc_type d \<noteq> Main_type} = {d \<in> set cs. gc_type d \<noteq> Main_type}" by auto
    with Cons True show ?thesis by simp
  next
    case False
    then have D: "{d \<in> set (c # cs). gc_type d \<noteq> Main_type} = {c} \<union> {d \<in> set cs. gc_type d \<noteq> Main_type}" by auto
    from part_of_addConnection [OF assms(1) Cons.prems(1), of c] Cons.prems(2) obtain sg1 where
      sg1: "addConnection (conn_as_input c) (addNodes [gc_from c, gc_to c] sg) = Inr sg1"
        "part_of g sg1" "grown g {c} sg sg1" by (auto simp: grown_def insert_commute)
    from Cons.IH [OF sg1(2)] Cons.prems(2) obtain sg2 where
      sg2: "for_each (\<lambda>c sg. if gc_type c = Main_type then Inr sg
            else addConnection (conn_as_input c) (addNodes [gc_from c, gc_to c] sg)) cs sg1 = Inr sg2"
        "grown g {d \<in> set cs. gc_type d \<noteq> Main_type} sg1 sg2" by auto
    show ?thesis unfolding D using grown_trans [OF sg1(3) sg2(2)] sg1(1) sg2(1) False by auto
  qed
qed

lemma utility_conns_insert: "utility_conns g (insert n N) = utility_conns g {n} \<union> utility_conns g N"
  by (auto simp: utility_conns_def)

lemma findSubgraph_correct:
  assumes wf: "graph_wf g" and dest: "dest \<in> graph_nodes g"
  shows "\<exists>sg mg. findSubgraph g dest trigger = Inr sg \<and> part_of g sg
    \<and> part_of g mg \<and> leads_to g dest mg
    \<and> (\<forall>p. simple_path g dest p trigger \<longrightarrow> set p \<subseteq> graph_conns mg \<and> trigger \<in> graph_nodes mg)
    \<and> grown g (utility_conns g (graph_nodes mg)) mg sg"
proof -
  have e: "part_of g empty_graph" using graph_wf_empty by (simp add: part_of_def empty_graph_def)
  have b: "branch_ok g dest dest []" by (simp add: branch_ok_def)
  have l: "leads_to g dest empty_graph" by (simp add: leads_to_def empty_graph_def)
  have f: "Suc (card (graph_nodes g)) - length [] < Suc (Suc (length (g_nodes g)))"
    using card_length [of "map_values (g_nodes g)"] by simp
  from findSubgraphRecursive_correct [OF wf e dest b l f, of trigger] obtain mg where
    mg: "findSubgraphRecursive (Suc (Suc (length (g_nodes g)))) g dest dest trigger [] empty_graph = Inr mg"
      "part_of g mg" "leads_to g dest mg"
    and paths: "\<forall>p. simple_path g dest p trigger \<longrightarrow> set p \<subseteq> graph_conns mg \<and> trigger \<in> graph_nodes mg"
    by (auto simp del: findSubgraphRecursive.simps)
  let ?f = "\<lambda>node sg. res_bind (getParentConnections g node) (\<lambda>cs.
      for_each (\<lambda>c sg. if gc_type c = Main_type then Inr sg
          else addConnection (conn_as_input c) (addNodes [gc_from c, gc_to c] sg)) cs sg)"
  have "\<exists>t. for_each ?f (map_values (g_nodes mg)) mg = Inr t
      \<and> grown g (utility_conns g (set (map_values (g_nodes mg)))) mg t"
  proof (rule for_each_total [where P = "\<lambda>us t. grown g (utility_conns g (set us)) mg t"])
    show "grown g (utility_conns g (set [])) mg mg"
      using grown_refl [OF mg(2)] by (simp add: utility_conns_def)
  next
    fix ys n zs t
    assume split: "map_values (g_nodes mg) = ys @ n # zs" and P: "grown g (utility_conns g (set ys)) mg t"
    have "n \<in> graph_nodes mg" unfolding split by simp
    then have n: "n \<in> graph_nodes g" using mg(2) unfolding part_of_def by blast
    from getParentConnections_set [OF wf n] obtain cs where cs: "getParentConnections g n = Inr cs"
      "set cs = {c \<in> graph_conns g. (gc_to c, n) \<in> (edge_rel g)\<^sup>*}" by blast
    have "{c \<in> set cs. gc_type c \<noteq> Main_type} = utility_conns g {n}"
      unfolding cs(2) utility_conns_def by auto
    moreover have "set cs \<subseteq> graph_conns g" unfolding cs(2) by blast
    moreover have "part_of g t" using P by (simp add: grown_def)
    ultimately obtain t' where t': "?f n t = Inr t'" "grown g (utility_conns g {n}) t t'"
      using add_utilities [OF wf, of t cs] cs(1) by auto
    have "utility_conns g (set (ys @ [n])) = utility_conns g (set ys) \<union> utility_conns g {n}"
      by (auto simp: utility_conns_def)
    with grown_trans [OF P t'(2)] t'(1) show "\<exists>t'. ?f n t = Inr t' \<and> grown g (utility_conns g (set (ys @ [n]))) mg t'"
      by metis
  qed
  then obtain t where t: "for_each ?f (map_values (g_nodes mg)) mg = Inr t"
    "grown g (utility_conns g (graph_nodes mg)) mg t" by blast
  have "findSubgraph g dest trigger = Inr t"
    unfolding findSubgraph_def mg(1) res_bind_Inr dg_getNodes_def by (rule t(1))
  moreover have "part_of g t" using t(2) by (simp add: grown_def)
  ultimately show ?thesis using mg(2,3) paths t(2) by blast
qed

text \<open>Every node of the subgraph leads to the destination.\<close>

lemma main_edges_subset: "main_edges g \<subseteq> edge_rel g"
  unfolding main_edges_def using edge_relI by blast

lemma findSubgraph_leads:
  assumes "leads_to g dest mg" and "grown g (utility_conns g (graph_nodes mg)) mg sg" and "n \<in> graph_nodes sg"
  shows "(n, dest) \<in> (edge_rel g)\<^sup>*"
proof -
  have old: "(m, dest) \<in> (edge_rel g)\<^sup>*" if "m \<in> graph_nodes mg" for m
    using that assms(1) rtrancl_mono [OF main_edges_subset] unfolding leads_to_def by blast
  from assms(2,3) have "n \<in> graph_nodes mg \<or> (\<exists>c \<in> utility_conns g (graph_nodes mg). n = gc_from c \<or> n = gc_to c)"
    unfolding grown_def by blast
  then show ?thesis
  proof
    assume "n \<in> graph_nodes mg"
    then show ?thesis by (rule old)
  next
    assume "\<exists>c \<in> utility_conns g (graph_nodes mg). n = gc_from c \<or> n = gc_to c"
    then obtain c m where c: "c \<in> graph_conns g" "m \<in> graph_nodes mg" "(gc_to c, m) \<in> (edge_rel g)\<^sup>*"
      "n = gc_from c \<or> n = gc_to c" unfolding utility_conns_def by blast
    have to: "(gc_to c, dest) \<in> (edge_rel g)\<^sup>*" using c(3) old [OF c(2)] by (rule rtrancl_trans)
    moreover from edge_relI [OF c(1)] this have "(gc_from c, dest) \<in> (edge_rel g)\<^sup>*"
      by (rule converse_rtrancl_into_rtrancl)
    ultimately show ?thesis using c(4) by blast
  qed
qed

end
