(* ===== verification/Disabled_Nodes.thy ===== *)
theory Disabled_Nodes
  imports Subgraph
begin

text \<open>
  The removal of the disabled nodes of a graph before a partial execution
  (\<^verbatim>\<open>partial-execution-utils/filter-disabled-nodes.ts\<close>). Each disabled node is removed with
  reconnection of its main connections. As long as no cycle runs through disabled nodes only, the
  result holds exactly the enabled nodes and the same reachability between them.
\<close>

definition main_only :: remove_options where
  "main_only = \<lparr>reconnectConnections = True, skipConnectionFn = Some (\<lambda>c. gc_type c \<noteq> Main_type)\<rparr>"

definition filterDisabledNodes :: "directed_graph \<Rightarrow> directed_graph result" where
  "filterDisabledNodes graph =
     res_bind (clone_graph graph) (\<lambda>filteredGraph.
       for_each (\<lambda>n fg. if is_disabled n then res_bind (removeNode n main_only fg) (\<lambda>(_, fg). Inr fg) else Inr fg)
         (map_values (dg_getNodes filteredGraph)) filteredGraph)"

definition disabled_rel :: "directed_graph \<Rightarrow> (inode \<times> inode) set" where
  "disabled_rel g = {(a, b) \<in> edge_rel g. is_disabled a \<and> is_disabled b}"

lemma main_edges_iff:
  "(a, b) \<in> main_edges g \<longleftrightarrow> (\<exists>c \<in> graph_conns g. gc_type c = Main_type \<and> gc_from c = a \<and> gc_to c = b)"
  by (simp add: main_edges_def)

lemma removeNode_main_edges:
  assumes conns: "graph_conns g' = kept_conns g n \<union> joined_conns g n main_only" and noloop: "(n, n) \<notin> edge_rel g"
  shows "main_edges g' = bypass (main_edges g) n"
proof (intro equalityI subrelI)
  fix a b
  assume "(a, b) \<in> main_edges g'"
  then obtain c where c: "c \<in> kept_conns g n \<union> joined_conns g n main_only" "gc_type c = Main_type"
    "gc_from c = a" "gc_to c = b" unfolding main_edges_iff conns by blast
  from c(1) show "(a, b) \<in> bypass (main_edges g) n"
  proof
    assume "c \<in> kept_conns g n"
    then have "(a, b) \<in> main_edges g" "a \<noteq> n" "b \<noteq> n"
      using c(2-) unfolding kept_conns_def main_edges_iff by blast+
    then show ?thesis by (simp add: bypass_def)
  next
    assume "c \<in> joined_conns g n main_only"
    then obtain i out where io: "c = joined i out" "i \<in> graph_conns g" "out \<in> graph_conns g"
      "gc_to i = n" "gc_from out = n" "\<not> skips main_only i" "\<not> skips main_only out"
      unfolding joined_conns_def by blast
    then have "(a, n) \<in> main_edges g" "(n, b) \<in> main_edges g"
      using c(3,4) unfolding main_edges_iff by (auto simp: skips_def main_only_def)
    moreover from this noloop main_edges_subset have "a \<noteq> n" "b \<noteq> n" by blast+
    ultimately show ?thesis by (simp add: bypass_def)
  qed
next
  fix a b
  assume "(a, b) \<in> bypass (main_edges g) n"
  then have ne: "a \<noteq> n" "b \<noteq> n" and "(a, b) \<in> main_edges g \<or> (a, n) \<in> main_edges g \<and> (n, b) \<in> main_edges g"
    by (auto simp: bypass_def)
  then consider (old) c where "c \<in> graph_conns g" "gc_type c = Main_type" "gc_from c = a" "gc_to c = b"
    | (new) i out where "i \<in> graph_conns g" "gc_type i = Main_type" "gc_from i = a" "gc_to i = n"
        "out \<in> graph_conns g" "gc_type out = Main_type" "gc_from out = n" "gc_to out = b"
    unfolding main_edges_iff by metis
  then show "(a, b) \<in> main_edges g'"
  proof cases
    case old
    with ne have "c \<in> kept_conns g n" by (simp add: kept_conns_def)
    with old show ?thesis unfolding main_edges_iff conns by blast
  next
    case new
    then have "\<not> skips main_only i" "\<not> skips main_only out" by (simp_all add: skips_def main_only_def)
    with new have "joined i out \<in> joined_conns g n main_only" unfolding joined_conns_def by blast
    moreover have "gc_type (joined i out) = Main_type" "gc_from (joined i out) = a" "gc_to (joined i out) = b"
      using new by simp_all
    ultimately show ?thesis unfolding main_edges_iff conns by blast
  qed
qed

lemma removeNode_edge_cases:
  assumes "graph_conns g' \<subseteq> kept_conns g n \<union> joined_conns g n opts" and "(a, b) \<in> edge_rel g'"
  shows "(a, b) \<in> edge_rel g \<or> (a, n) \<in> edge_rel g \<and> (n, b) \<in> edge_rel g"
proof -
  from assms obtain c where c: "c \<in> kept_conns g n \<union> joined_conns g n opts" "gc_from c = a" "gc_to c = b"
    unfolding edge_rel_iff by blast
  from c(1) show ?thesis
  proof
    assume "c \<in> kept_conns g n"
    with c(2,3) show ?thesis unfolding kept_conns_def edge_rel_iff by blast
  next
    assume "c \<in> joined_conns g n opts"
    then obtain i out where "c = joined i out" "i \<in> graph_conns g" "out \<in> graph_conns g" "gc_to i = n" "gc_from out = n"
      unfolding joined_conns_def by blast
    with c(2,3) edge_relI [of i g] edge_relI [of out g] show ?thesis by simp
  qed
qed

text \<open>What holds after the nodes \<open>us\<close>.\<close>

text \<open>
  Every connection left has the source and the type of a connection of the graph and connects
  nodes that the graph connects.
\<close>

definition traced :: "directed_graph \<Rightarrow> directed_graph \<Rightarrow> bool" where
  "traced g fg \<longleftrightarrow> (\<forall>c \<in> graph_conns fg. (\<exists>d \<in> graph_conns g. gc_from d = gc_from c \<and> gc_type d = gc_type c)
     \<and> (gc_from c, gc_to c) \<in> (edge_rel g)\<^sup>+)"

lemma traced_refl: "traced g g"
  unfolding traced_def by (blast intro: edge_relI)

lemma traced_edges: "traced g fg \<Longrightarrow> (edge_rel fg)\<^sup>* \<subseteq> (edge_rel g)\<^sup>*"
proof -
  assume "traced g fg"
  then have "edge_rel fg \<subseteq> (edge_rel g)\<^sup>+" unfolding traced_def edge_rel_def by blast
  then show "(edge_rel fg)\<^sup>* \<subseteq> (edge_rel g)\<^sup>*" by (metis rtrancl_mono trancl_rtrancl_absorb)
qed

lemma traced_remove:
  assumes "traced g fg" and "graph_conns fg' \<subseteq> kept_conns fg n \<union> joined_conns fg n opts"
  shows "traced g fg'"
  unfolding traced_def
proof
  fix c
  assume "c \<in> graph_conns fg'"
  with assms(2) consider "c \<in> graph_conns fg"
    | i out where "c = joined i out" "i \<in> graph_conns fg" "out \<in> graph_conns fg" "gc_to i = n" "gc_from out = n"
    unfolding kept_conns_def joined_conns_def by blast
  then show "(\<exists>d \<in> graph_conns g. gc_from d = gc_from c \<and> gc_type d = gc_type c) \<and> (gc_from c, gc_to c) \<in> (edge_rel g)\<^sup>+"
  proof cases
    case 2
    with assms(1) have "(gc_from i, n) \<in> (edge_rel g)\<^sup>+" "(n, gc_to out) \<in> (edge_rel g)\<^sup>+"
      "\<exists>d \<in> graph_conns g. gc_from d = gc_from i \<and> gc_type d = gc_type i" unfolding traced_def by metis+
    with 2(1) show ?thesis by (auto simp: joined_sel intro: trancl_trans)
  qed (use assms(1) in \<open>auto simp: traced_def\<close>)
qed

definition filtered :: "directed_graph \<Rightarrow> inode set \<Rightarrow> directed_graph \<Rightarrow> bool" where
  "filtered g U fg \<longleftrightarrow> graph_wf fg \<and> graph_nodes fg = {n \<in> graph_nodes g. \<not> (n \<in> U \<and> is_disabled n)}
     \<and> acyclic (disabled_rel fg) \<and> traced g fg
     \<and> (plain_names g \<longrightarrow> plain_names fg
          \<and> (\<forall>a \<in> graph_nodes fg. \<forall>b \<in> graph_nodes fg. (a, b) \<in> (main_edges fg)\<^sup>+ \<longleftrightarrow> (a, b) \<in> (main_edges g)\<^sup>+))"

lemma filtered_remove:
  assumes "filtered g U fg" and "n \<in> graph_nodes fg" and "is_disabled n"
  shows "\<exists>r fg'. removeNode n main_only fg = Inr (r, fg') \<and> filtered g (insert n U) fg'"
proof -
  note F = assms(1) [unfolded filtered_def]
  have wf: "graph_wf fg" and acyc: "acyclic (disabled_rel fg)" using F by blast+
  have noloop: "(n, n) \<notin> edge_rel fg"
  proof
    assume "(n, n) \<in> edge_rel fg"
    then have "(n, n) \<in> (disabled_rel fg)\<^sup>+" using assms(3) by (auto simp: disabled_rel_def)
    with acyc show False by (simp add: acyclic_def)
  qed
  have rc: "reconnectConnections main_only" by (simp add: main_only_def)
  from removeNode_join [OF wf assms(2) rc noloop] obtain new fg' where
    run: "removeNode n main_only fg = Inr (Some new, fg')" and wf': "graph_wf fg'"
    and nodes: "graph_nodes fg' = graph_nodes fg - {n}"
    and conns: "graph_conns fg' \<subseteq> kept_conns fg n \<union> joined_conns fg n main_only"
    and plain: "plain_names fg \<Longrightarrow> graph_conns fg' = kept_conns fg n \<union> joined_conns fg n main_only" by blast
  have "disabled_rel fg' \<subseteq> (disabled_rel fg)\<^sup>+"
  proof (rule subrelI)
    fix a b
    assume "(a, b) \<in> disabled_rel fg'"
    then have ab: "(a, b) \<in> edge_rel fg'" "is_disabled a" "is_disabled b" by (auto simp: disabled_rel_def)
    from removeNode_edge_cases [OF conns ab(1)] show "(a, b) \<in> (disabled_rel fg)\<^sup>+"
    proof
      assume "(a, b) \<in> edge_rel fg"
      with ab show ?thesis by (auto simp: disabled_rel_def)
    next
      assume "(a, n) \<in> edge_rel fg \<and> (n, b) \<in> edge_rel fg"
      with ab(2,3) assms(3) have "(a, n) \<in> disabled_rel fg" "(n, b) \<in> disabled_rel fg" by (auto simp: disabled_rel_def)
      then show ?thesis by (rule trancl.trancl_into_trancl [OF trancl.r_into_trancl])
    qed
  qed
  moreover have "acyclic ((disabled_rel fg)\<^sup>+)" using acyc by (simp add: acyclic_def)
  ultimately have acyc': "acyclic (disabled_rel fg')" by (rule acyclic_subset [rotated])
  have nodes': "graph_nodes fg' = {m \<in> graph_nodes g. \<not> (m \<in> insert n U \<and> is_disabled m)}"
    unfolding nodes using F assms(2,3) by blast
  have "plain_names fg' \<and> (\<forall>a \<in> graph_nodes fg'. \<forall>b \<in> graph_nodes fg'. (a, b) \<in> (main_edges fg')\<^sup>+ \<longleftrightarrow> (a, b) \<in> (main_edges g)\<^sup>+)"
    if "plain_names g"
  proof
    have pl: "plain_names fg" and old: "\<forall>a \<in> graph_nodes fg. \<forall>b \<in> graph_nodes fg. (a, b) \<in> (main_edges fg)\<^sup>+ \<longleftrightarrow> (a, b) \<in> (main_edges g)\<^sup>+"
      using F that by blast+
    note eq = plain [OF pl]
    have "no_hyphens (gc_type c)" if "c \<in> graph_conns fg'" for c
    proof -
      from that eq consider "c \<in> graph_conns fg" | i out where "c = joined i out" "i \<in> graph_conns fg"
        unfolding kept_conns_def joined_conns_def by blast
      then show ?thesis using pl unfolding plain_names_def by cases (blast, metis joined_sel(3))
    qed
    moreover have "no_hyphens (node_name m)" if "m \<in> graph_nodes fg'" for m
      using that nodes pl unfolding plain_names_def by blast
    ultimately show "plain_names fg'" unfolding plain_names_def by blast
    show "\<forall>a \<in> graph_nodes fg'. \<forall>b \<in> graph_nodes fg'. (a, b) \<in> (main_edges fg')\<^sup>+ \<longleftrightarrow> (a, b) \<in> (main_edges g)\<^sup>+"
    proof (intro ballI)
      fix a b
      assume "a \<in> graph_nodes fg'" "b \<in> graph_nodes fg'"
      then have ab: "a \<noteq> n" "b \<noteq> n" "a \<in> graph_nodes fg" "b \<in> graph_nodes fg" unfolding nodes by blast+
      show "(a, b) \<in> (main_edges fg')\<^sup>+ \<longleftrightarrow> (a, b) \<in> (main_edges g)\<^sup>+"
        using bypass_trancl [OF ab(1,2), of "main_edges fg"] old ab(3,4)
        unfolding removeNode_main_edges [OF eq noloop] by blast
    qed
  qed
  moreover have "traced g fg'" using traced_remove [OF _ conns] F by blast
  ultimately show ?thesis using run wf' acyc' nodes' unfolding filtered_def by blast
qed

lemma filterDisabledNodes_correct:
  assumes "graph_wf g" and "acyclic (disabled_rel g)"
  shows "\<exists>fg. filterDisabledNodes g = Inr fg \<and> filtered g (graph_nodes g) fg"
proof -
  let ?f = "\<lambda>n fg. if is_disabled n then res_bind (removeNode n main_only fg) (\<lambda>(_, fg). Inr fg) else Inr fg"
  have d: "distinct (map_values (g_nodes g))"
  proof -
    have "map node_name (map_values (g_nodes g)) = map fst (g_nodes g)"
      using assms(1) by (auto simp: graph_wf_def)
    with graph_wf_distinct(1) [OF assms(1)] show ?thesis by (metis distinct_map)
  qed
  have "\<exists>t. for_each ?f (map_values (g_nodes g)) g = Inr t \<and> filtered g (set (map_values (g_nodes g))) t"
  proof (rule for_each_total [where P = "\<lambda>us t. filtered g (set us) t"])
    show "filtered g (set []) g" using assms traced_refl [of g] by (simp add: filtered_def)
  next
    fix ys n zs t
    assume split: "map_values (g_nodes g) = ys @ n # zs" and P: "filtered g (set ys) t"
    have n: "n \<in> graph_nodes g" unfolding split by simp
    have "n \<notin> set ys" using d unfolding split by simp
    show "\<exists>t'. ?f n t = Inr t' \<and> filtered g (set (ys @ [n])) t'"
    proof (cases "is_disabled n")
      case True
      have "n \<in> graph_nodes t" using P n \<open>n \<notin> set ys\<close> unfolding filtered_def by blast
      from filtered_remove [OF P this True] True show ?thesis by auto
    next
      case False
      then have same: "(m \<in> set (ys @ [n]) \<and> is_disabled m) = (m \<in> set ys \<and> is_disabled m)" for m by auto
      have "filtered g (set (ys @ [n])) t" unfolding filtered_def same using P unfolding filtered_def .
      with False show ?thesis by simp
    qed
  qed
  then show ?thesis
    unfolding filterDisabledNodes_def clone_graph_id [OF assms(1)] res_bind_Inr dg_getNodes_def .
qed

end
