(* ===== verification/Graph_Scc.thy ===== *)
theory Graph_Scc
  imports Directed_Graph
begin

text \<open>
  Strongly connected components (\<^verbatim>\<open>getStronglyConnectedComponents\<close> of \<^verbatim>\<open>directed-graph.ts\<close>) and the
  replacement of start nodes inside cycles (\<^verbatim>\<open>handle-cycles.ts\<close>). What the algorithm reports is
  sound: the reported sets are disjoint and the nodes of one set reach each other. It is not
  complete, because a component is popped only as long as the low-link value on top of the stack
  equals the identifier of its root.
\<close>

section \<open>The algorithm\<close>

text \<open>The closure variables; the stack has its top first.\<close>

record scc_state =
  sc_id :: nat
  sc_visited :: "inode list"
  sc_ids :: "(inode, nat) jsmap"
  sc_low :: "(inode, nat) jsmap"
  sc_stack :: "inode list"
  sc_sccs :: "inode list list"

definition scc_enter :: "inode \<Rightarrow> scc_state \<Rightarrow> scc_state" where
  "scc_enter n s = s\<lparr>sc_visited := set_add n (sc_visited s), sc_low := map_set n (sc_id s) (sc_low s),
     sc_ids := map_set n (sc_id s) (sc_ids s), sc_id := sc_id s + 1, sc_stack := n # sc_stack s\<rparr>"

definition scc_child :: "inode \<Rightarrow> inode \<Rightarrow> scc_state \<Rightarrow> scc_state result" where
  "scc_child n child s =
     (if child \<in> set (sc_stack s) then
        (case map_of (sc_low s) child of
           None \<Rightarrow> Inl (AssertionError ''childLowLinkValue'')
         | Some cl \<Rightarrow> (case map_of (sc_low s) n of
               None \<Rightarrow> Inl (AssertionError ''ownLowLinkValue'')
             | Some ol \<Rightarrow> Inr (s\<lparr>sc_low := map_set n (min cl ol) (sc_low s)\<rparr>)))
      else Inr s)"

definition scc_close :: "inode \<Rightarrow> scc_state \<Rightarrow> scc_state result" where
  "scc_close n s =
     (case map_of (sc_ids s) n of
        None \<Rightarrow> Inl (AssertionError ''ownId'')
      | Some ownId \<Rightarrow> (case map_of (sc_low s) n of
            None \<Rightarrow> Inl (AssertionError ''ownLowLinkValue'')
          | Some ownLow \<Rightarrow>
              if ownId = ownLow then
                (let scc = takeWhile (\<lambda>x. map_of (sc_low s) x = Some ownId) (sc_stack s);
                     rest = dropWhile (\<lambda>x. map_of (sc_low s) x = Some ownId) (sc_stack s)
                 in Inr (s\<lparr>sc_stack := rest, sc_sccs := (if scc = [] then sc_sccs s else sc_sccs s @ [scc])\<rparr>))
              else Inr s))"

primrec followNode :: "nat \<Rightarrow> directed_graph \<Rightarrow> inode \<Rightarrow> scc_state \<Rightarrow> scc_state result" where
  "followNode 0 g n s = Inl OutOfFuel"
| "followNode (Suc fuel) g n s =
     (if n \<in> set (sc_visited s) then Inr s
      else res_bind (getDirectChildConnections g n) (\<lambda>conns.
           res_bind (for_each (\<lambda>child s. res_bind (followNode fuel g child s) (scc_child n child))
                      (map gc_to conns) (scc_enter n s))
             (scc_close n)))"

definition getStronglyConnectedComponents :: "directed_graph \<Rightarrow> inode list list result" where
  "getStronglyConnectedComponents g =
     res_bind (for_each (followNode (Suc (Suc (length (g_nodes g)))) g) (map_values (g_nodes g))
                \<lparr>sc_id = 0, sc_visited = [], sc_ids = [], sc_low = [], sc_stack = [], sc_sccs = []\<rparr>)
       (\<lambda>s. Inr (sc_sccs s))"

text \<open>The filter keeps every component: none is empty, so its size is always at least one.\<close>

definition handleCycles :: "directed_graph \<Rightarrow> inode list \<Rightarrow> inode \<Rightarrow> inode list result" where
  "handleCycles graph startNodes trigger =
     res_bind (getStronglyConnectedComponents graph) (\<lambda>sccs.
       let cycles = filter (\<lambda>cycle. 1 \<le> length cycle) sccs
       in if cycles = [] then Inr startNodes
          else for_each (\<lambda>startNode newStartNodes.
                 for_each (\<lambda>cycle newStartNodes.
                     if startNode \<in> set cycle then
                       res_bind (depthFirstSearch graph trigger (\<lambda>n. n \<in> set cycle)) (\<lambda>firstNode.
                         case firstNode of
                           None \<Rightarrow> Inl (AssertionError ''the trigger must be connected to the cycle'')
                         | Some f \<Rightarrow> Inr (set_add f (set_remove startNode newStartNodes)))
                     else Inr newStartNodes)
                   cycles newStartNodes) startNodes startNodes)"

section \<open>Soundness of the components\<close>

text \<open>Identifiers, low-link values, the stack and the components reported so far.\<close>

definition scc_keys :: "directed_graph \<Rightarrow> scc_state \<Rightarrow> bool" where
  "scc_keys g s \<longleftrightarrow> set (sc_visited s) \<subseteq> graph_nodes g \<and> distinct (sc_visited s)
     \<and> dom (map_of (sc_ids s)) = set (sc_visited s) \<and> dom (map_of (sc_low s)) = set (sc_visited s)
     \<and> inj_on (map_of (sc_ids s)) (set (sc_visited s))
     \<and> (\<forall>x i. map_of (sc_ids s) x = Some i \<longrightarrow> i < sc_id s)"

definition low_ok :: "directed_graph \<Rightarrow> scc_state \<Rightarrow> bool" where
  "low_ok g s \<longleftrightarrow> (\<forall>x l. map_of (sc_low s) x = Some l \<longrightarrow>
     (\<exists>i. map_of (sc_ids s) x = Some i \<and> l \<le> i) \<and> (\<exists>y. map_of (sc_ids s) y = Some l \<and> (x, y) \<in> (edge_rel g)\<^sup>*))"

definition stack_ok :: "scc_state \<Rightarrow> bool" where
  "stack_ok s \<longleftrightarrow> set (sc_stack s) \<subseteq> set (sc_visited s)
     \<and> distinct (sc_stack s @ concat (sc_sccs s)) \<and> set (concat (sc_sccs s)) \<subseteq> set (sc_visited s)"

definition sccs_ok :: "directed_graph \<Rightarrow> scc_state \<Rightarrow> bool" where
  "sccs_ok g s \<longleftrightarrow> (\<forall>C \<in> set (sc_sccs s). C \<noteq> [] \<and> (\<forall>x \<in> set C. \<forall>y \<in> set C. (x, y) \<in> (edge_rel g)\<^sup>*))"

definition scc_inv :: "directed_graph \<Rightarrow> scc_state \<Rightarrow> bool" where
  "scc_inv g s \<longleftrightarrow> scc_keys g s \<and> low_ok g s \<and> stack_ok s \<and> sccs_ok g s"

text \<open>What a call adds: nodes reachable from its node, on top of the old stack, with fresh identifiers.\<close>

definition scc_grows :: "directed_graph \<Rightarrow> inode \<Rightarrow> scc_state \<Rightarrow> scc_state \<Rightarrow> bool" where
  "scc_grows g n s s' \<longleftrightarrow> set (sc_visited s) \<subseteq> set (sc_visited s')
     \<and> (\<forall>x \<in> set (sc_visited s). map_of (sc_ids s') x = map_of (sc_ids s) x \<and> (x \<noteq> n \<longrightarrow> map_of (sc_low s') x = map_of (sc_low s) x))
     \<and> sc_id s \<le> sc_id s' \<and> (\<forall>x \<in> set (sc_visited s') - set (sc_visited s). (n, x) \<in> (edge_rel g)\<^sup>*)
     \<and> (\<exists>U. sc_stack s' = U @ sc_stack s \<and> (\<forall>x \<in> set U. x \<in> set (sc_visited s') - set (sc_visited s)))"

lemma low_ok_id: "low_ok g s \<Longrightarrow> map_of (sc_low s) x = Some l \<Longrightarrow> map_of (sc_ids s) x = Some i \<Longrightarrow> l \<le> i"
  unfolding low_ok_def by (metis option.inject)

lemma scc_grows_refl: "scc_grows g n s s"
  by (simp add: scc_grows_def)

lemma scc_enter_inv:
  assumes "scc_inv g s" and "n \<in> graph_nodes g" and "n \<notin> set (sc_visited s)"
  shows "scc_inv g (scc_enter n s)"
proof -
  note K = assms(1) [unfolded scc_inv_def]
  have ids: "map_of (sc_ids (scc_enter n s)) = (map_of (sc_ids s))(n \<mapsto> sc_id s)"
    and low: "map_of (sc_low (scc_enter n s)) = (map_of (sc_low s))(n \<mapsto> sc_id s)"
    by (simp_all add: scc_enter_def js_map.lookup_put)
  have dom: "dom (map_of (sc_ids s)) = set (sc_visited s)" "dom (map_of (sc_low s)) = set (sc_visited s)"
    and inj: "inj_on (map_of (sc_ids s)) (set (sc_visited s))"
    and less: "\<And>x i. map_of (sc_ids s) x = Some i \<Longrightarrow> i < sc_id s"
    using K unfolding scc_keys_def by blast+
  have fresh: "map_of (sc_ids s) x \<noteq> Some (sc_id s)" for x using less [of x "sc_id s"] by auto
  have "inj_on ((map_of (sc_ids s))(n \<mapsto> sc_id s)) (insert n (set (sc_visited s)))"
    using inj assms(3) fresh fresh [symmetric] by (auto simp: inj_on_def)
  moreover have "\<forall>x i. ((map_of (sc_ids s))(n \<mapsto> sc_id s)) x = Some i \<longrightarrow> i < Suc (sc_id s)"
    using less by (auto simp: less_Suc_eq)
  ultimately have "scc_keys g (scc_enter n s)"
    using K assms(2,3) unfolding scc_keys_def ids low by (auto simp: scc_enter_def set_add_def)
  moreover have "low_ok g (scc_enter n s)"
    unfolding low_ok_def ids low
  proof (intro allI impI)
    fix x l
    assume "((map_of (sc_low s))(n \<mapsto> sc_id s)) x = Some l"
    then consider "x = n" "l = sc_id s" | "x \<noteq> n" "map_of (sc_low s) x = Some l" by (auto split: if_splits)
    then show "(\<exists>i. ((map_of (sc_ids s))(n \<mapsto> sc_id s)) x = Some i \<and> l \<le> i)
        \<and> (\<exists>y. ((map_of (sc_ids s))(n \<mapsto> sc_id s)) y = Some l \<and> (x, y) \<in> (edge_rel g)\<^sup>*)"
    proof cases
      case 1
      then show ?thesis by auto
    next
      case 2
      with K obtain i y where "map_of (sc_ids s) x = Some i" "l \<le> i" "map_of (sc_ids s) y = Some l" "(x, y) \<in> (edge_rel g)\<^sup>*"
        unfolding low_ok_def by blast
      moreover from this dom(1) assms(3) have "y \<noteq> n" by auto
      ultimately show ?thesis using 2 by auto
    qed
  qed
  moreover have "stack_ok (scc_enter n s)"
    using K assms(3) unfolding stack_ok_def by (auto simp: scc_enter_def)
  moreover have "sccs_ok g (scc_enter n s)" using K by (simp add: sccs_ok_def scc_enter_def)
  ultimately show ?thesis by (simp add: scc_inv_def)
qed

lemma scc_enter_grows: "n \<notin> set (sc_visited s) \<Longrightarrow> scc_grows g n s (scc_enter n s)"
  by (auto simp: scc_grows_def scc_enter_def js_map.lookup_put)

lemma scc_child_ok:
  assumes inv: "scc_inv g s" and "n \<in> set (sc_visited s)" and "(n, child) \<in> edge_rel g"
  shows "\<exists>s'. scc_child n child s = Inr s' \<and> scc_inv g s'
    \<and> sc_visited s' = sc_visited s \<and> sc_ids s' = sc_ids s \<and> sc_stack s' = sc_stack s \<and> sc_id s' = sc_id s
    \<and> (\<forall>x. x \<noteq> n \<longrightarrow> map_of (sc_low s') x = map_of (sc_low s) x)"
proof (cases "child \<in> set (sc_stack s)")
  case False
  with inv show ?thesis by (simp add: scc_child_def)
next
  case True
  note K = inv [unfolded scc_inv_def]
  have "child \<in> set (sc_visited s)" using K True unfolding stack_ok_def by blast
  with K assms(2) have "child \<in> dom (map_of (sc_low s))" "n \<in> dom (map_of (sc_low s))"
    unfolding scc_keys_def by simp_all
  then obtain cl ol where low: "map_of (sc_low s) child = Some cl" "map_of (sc_low s) n = Some ol" by blast
  let ?s = "s\<lparr>sc_low := map_set n (min cl ol) (sc_low s)\<rparr>"
  have run: "scc_child n child s = Inr ?s" using True low by (simp add: scc_child_def)
  have low': "map_of (sc_low ?s) = (map_of (sc_low s))(n \<mapsto> min cl ol)" by (simp add: js_map.lookup_put)
  have "\<exists>y. map_of (sc_ids s) y = Some (min cl ol) \<and> (n, y) \<in> (edge_rel g)\<^sup>*"
  proof (cases "cl \<le> ol")
    case True
    from K low(1) obtain y where "map_of (sc_ids s) y = Some cl" "(child, y) \<in> (edge_rel g)\<^sup>*"
      unfolding low_ok_def by blast
    with True assms(3) show ?thesis by (auto simp: min_def intro: converse_rtrancl_into_rtrancl)
  next
    case False
    with K low(2) show ?thesis unfolding low_ok_def by (auto simp: min_def)
  qed
  moreover obtain i where "map_of (sc_ids s) n = Some i" "ol \<le> i" using K low(2) unfolding low_ok_def by blast
  ultimately have "low_ok g ?s"
    using K unfolding low_ok_def low' by (auto simp: min_def)
  moreover have "scc_keys g ?s"
    using K low(2) unfolding scc_keys_def low' by auto
  moreover have "stack_ok ?s" "sccs_ok g ?s" using K by (simp_all add: stack_ok_def sccs_ok_def)
  ultimately have "scc_inv g ?s" by (simp add: scc_inv_def)
  with run low' show ?thesis by simp
qed

text \<open>
  The state inside the loop over the children of \<open>n\<close>: the stack is what the children left on top
  of \<open>n\<close> on top of the old stack, and everything above \<open>n\<close> is reachable from it.
\<close>

definition scc_frame :: "directed_graph \<Rightarrow> inode \<Rightarrow> scc_state \<Rightarrow> scc_state \<Rightarrow> bool" where
  "scc_frame g n s t \<longleftrightarrow> scc_inv g t \<and> insert n (set (sc_visited s)) \<subseteq> set (sc_visited t)
     \<and> map_of (sc_ids t) n = Some (sc_id s) \<and> sc_id s \<le> sc_id t
     \<and> (\<forall>x \<in> set (sc_visited s). map_of (sc_ids t) x = map_of (sc_ids s) x \<and> map_of (sc_low t) x = map_of (sc_low s) x)
     \<and> (\<forall>x \<in> set (sc_visited t) - set (sc_visited s). (n, x) \<in> (edge_rel g)\<^sup>*)
     \<and> (\<exists>U. sc_stack t = U @ n # sc_stack s \<and> (\<forall>x \<in> set U. x \<in> set (sc_visited t) - set (sc_visited s)))"

lemma scc_frame_enter:
  assumes "scc_inv g s" and "n \<in> graph_nodes g" and "n \<notin> set (sc_visited s)"
  shows "scc_frame g n s (scc_enter n s)"
  using scc_enter_inv [OF assms] assms(3)
  by (auto simp: scc_frame_def scc_enter_def js_map.lookup_put)

lemma scc_frame_child:
  assumes frame: "scc_frame g n s t" and fresh: "n \<notin> set (sc_visited s)" and edge: "(n, child) \<in> edge_rel g"
    and call: "scc_inv g t1" "scc_grows g child t t1" "child \<in> set (sc_visited t) \<Longrightarrow> t1 = t"
  shows "\<exists>t'. scc_child n child t1 = Inr t' \<and> scc_frame g n s t' \<and> set (sc_visited t) \<subseteq> set (sc_visited t')"
proof -
  note F = frame [unfolded scc_frame_def] and G = call(2) [unfolded scc_grows_def]
  have n: "n \<in> set (sc_visited t)" using F by blast
  have "n \<in> set (sc_visited t1)" using n G by blast
  from scc_child_ok [OF call(1) this edge] obtain t' where
    t': "scc_child n child t1 = Inr t'" "scc_inv g t'" "sc_visited t' = sc_visited t1" "sc_ids t' = sc_ids t1"
      "sc_stack t' = sc_stack t1" "sc_id t' = sc_id t1"
    and low: "\<And>x. x \<noteq> n \<Longrightarrow> map_of (sc_low t') x = map_of (sc_low t1) x" by blast
  obtain U where U: "sc_stack t = U @ n # sc_stack s" "\<forall>x \<in> set U. x \<in> set (sc_visited t) - set (sc_visited s)"
    using F by blast
  obtain V where V: "sc_stack t1 = V @ sc_stack t" "\<forall>x \<in> set V. x \<in> set (sc_visited t1) - set (sc_visited t)"
    using G by blast
  have sub: "set (sc_visited s) \<subseteq> set (sc_visited t)" "set (sc_visited t) \<subseteq> set (sc_visited t1)" using F G by blast+
  have "(n, x) \<in> (edge_rel g)\<^sup>*" if "x \<in> set (sc_visited t1) - set (sc_visited s)" for x
  proof (cases "x \<in> set (sc_visited t)")
    case True
    with that F show ?thesis by blast
  next
    case False
    with that G have "(child, x) \<in> (edge_rel g)\<^sup>*" by blast
    with edge show ?thesis by (rule converse_rtrancl_into_rtrancl)
  qed
  moreover have "map_of (sc_ids t1) x = map_of (sc_ids s) x \<and> map_of (sc_low t') x = map_of (sc_low s) x"
    if "x \<in> set (sc_visited s)" for x
  proof -
    have "x \<noteq> n" using that fresh by blast
    have xt: "x \<in> set (sc_visited t)" using that sub by blast
    have "map_of (sc_low t1) x = map_of (sc_low t) x"
    proof (cases "x = child")
      case True
      with xt call(3) show ?thesis by simp
    next
      case False
      with G xt show ?thesis by blast
    qed
    with low [OF \<open>x \<noteq> n\<close>] F G that xt show ?thesis by metis
  qed
  moreover have "map_of (sc_ids t1) n = Some (sc_id s)" using F G n by metis
  moreover have "sc_id s \<le> sc_id t1" using F G by linarith
  moreover have "sc_stack t1 = (V @ U) @ n # sc_stack s" using U(1) V(1) by simp
  moreover have "\<forall>x \<in> set (V @ U). x \<in> set (sc_visited t1) - set (sc_visited s)" using U(2) V(2) sub by auto
  moreover have "insert n (set (sc_visited s)) \<subseteq> set (sc_visited t1)" using n sub by blast
  ultimately have "scc_frame g n s t'" unfolding scc_frame_def t'(3-6) using t'(2) by blast
  with t'(1,3) sub show ?thesis by auto
qed

lemma takeWhile_stops:
  assumes "x \<in> set (takeWhile P (U @ n # S))" and "\<And>y. y \<in> set S \<Longrightarrow> \<not> P y"
  shows "x \<in> set U \<or> x = n"
proof -
  have "P x" using assms(1) by (rule set_takeWhileD [THEN conjunct2])
  moreover have "x \<in> set (U @ n # S)" using assms(1) by (rule set_takeWhileD [THEN conjunct1])
  ultimately show ?thesis using assms(2) by auto
qed

lemma dropWhile_keeps:
  assumes "\<And>y. y \<in> set S \<Longrightarrow> \<not> P y"
  shows "\<exists>W. dropWhile P (U @ n # S) = W @ S \<and> set W \<subseteq> insert n (set U)"
proof -
  have "dropWhile P S = S" using assms by (cases S) auto
  then have "\<exists>W. dropWhile P (U @ n # S) = W @ S \<and> set W \<subseteq> insert n (set U)"
    by (induction U) (auto intro: exI [of _ "[]"] exI [of _ "[n]"])
  then show ?thesis .
qed

lemma scc_close_ok:
  assumes frame: "scc_frame g n s t" and inv: "scc_inv g s" and fresh: "n \<notin> set (sc_visited s)"
  shows "\<exists>t'. scc_close n t = Inr t' \<and> scc_inv g t' \<and> scc_grows g n s t' \<and> sc_visited t' = sc_visited t"
proof -
  note F = frame [unfolded scc_frame_def] and K = inv [unfolded scc_inv_def]
  have Kt: "scc_keys g t" "low_ok g t" "stack_ok t" "sccs_ok g t" using F unfolding scc_inv_def by blast+
  have n: "n \<in> set (sc_visited t)" and id: "map_of (sc_ids t) n = Some (sc_id s)" using F by blast+
  from n Kt(1) obtain ol where ol: "map_of (sc_low t) n = Some ol" unfolding scc_keys_def by blast
  obtain U where U: "sc_stack t = U @ n # sc_stack s" "\<forall>x \<in> set U. x \<in> set (sc_visited t) - set (sc_visited s)"
    using F by blast
  have base: "set (sc_visited s) \<subseteq> set (sc_visited t)" "sc_id s \<le> sc_id t"
    "\<And>x. x \<in> set (sc_visited s) \<Longrightarrow> map_of (sc_ids t) x = map_of (sc_ids s) x \<and> map_of (sc_low t) x = map_of (sc_low s) x"
    "\<And>x. x \<in> set (sc_visited t) - set (sc_visited s) \<Longrightarrow> (n, x) \<in> (edge_rel g)\<^sup>*"
    using F by blast+
  show ?thesis
  proof (cases "sc_id s = ol")
    case False
    have "scc_grows g n s t"
      unfolding scc_grows_def using base U n fresh by (auto intro!: exI [of _ "U @ [n]"])
    moreover have "scc_close n t = Inr t" using False id ol by (simp add: scc_close_def)
    ultimately show ?thesis using F by blast
  next
    case True
    let ?P = "\<lambda>x. map_of (sc_low t) x = Some (sc_id s)"
    define C where "C = takeWhile ?P (sc_stack t)"
    define R where "R = dropWhile ?P (sc_stack t)"
    let ?t = "t\<lparr>sc_stack := R, sc_sccs := (if C = [] then sc_sccs t else sc_sccs t @ [C])\<rparr>"
    have run: "scc_close n t = Inr ?t"
      using True id ol by (simp add: scc_close_def Let_def C_def R_def)
    have old: "\<not> ?P y" if "y \<in> set (sc_stack s)" for y
    proof
      assume P: "?P y"
      have y: "y \<in> set (sc_visited s)" using that K unfolding stack_ok_def by blast
      with base(3) P have "map_of (sc_low s) y = Some (sc_id s)" by metis
      moreover obtain i where "map_of (sc_ids s) y = Some i" using y K unfolding scc_keys_def by blast
      ultimately have "sc_id s \<le> i" "i < sc_id s"
        using K low_ok_id [of g s y] unfolding scc_keys_def by blast+
      then show False by simp
    qed
    have CR: "sc_stack t = C @ R" by (simp add: C_def R_def)
    have mem: "x \<in> set U \<or> x = n" if "x \<in> set C" for x
      using takeWhile_stops [of x ?P U n "sc_stack s", OF _ old] that U(1) by (simp add: C_def)
    have down: "(n, x) \<in> (edge_rel g)\<^sup>*" if "x \<in> set C" for x
      using mem [OF that] U(2) base(4) by blast
    have up: "(x, n) \<in> (edge_rel g)\<^sup>*" if "x \<in> set C" for x
    proof -
      have "?P x" using that unfolding C_def by (rule set_takeWhileD [THEN conjunct2])
      with Kt(2) obtain y where y: "map_of (sc_ids t) y = Some (sc_id s)" "(x, y) \<in> (edge_rel g)\<^sup>*"
        unfolding low_ok_def by blast
      with Kt(1) have "y \<in> set (sc_visited t)" unfolding scc_keys_def by blast
      with y(1) id n Kt(1) have "y = n" unfolding scc_keys_def inj_on_def by metis
      with y(2) show ?thesis by simp
    qed
    have "sccs_ok g ?t"
      using Kt(4) up down unfolding sccs_ok_def by (auto intro: rtrancl_trans)
    moreover have "stack_ok ?t"
      using Kt(3) CR unfolding stack_ok_def by auto
    moreover have "scc_keys g ?t" "low_ok g ?t" using Kt(1,2) by (simp_all add: scc_keys_def low_ok_def)
    ultimately have "scc_inv g ?t" by (simp add: scc_inv_def)
    moreover obtain W where W: "R = W @ sc_stack s" "set W \<subseteq> insert n (set U)"
      using dropWhile_keeps [where P = ?P and S = "sc_stack s", OF old, of U n] U(1) unfolding R_def by auto
    have "scc_grows g n s ?t"
      unfolding scc_grows_def using base W U(2) n fresh by (auto intro!: exI [of _ W])
    ultimately show ?thesis using run by auto
  qed
qed

lemma followNode_ok:
  assumes "graph_wf g" and "scc_inv g s" and "n \<in> graph_nodes g"
    and "Suc (card (graph_nodes g)) - length (sc_visited s) < f"
  shows "\<exists>s'. followNode f g n s = Inr s' \<and> scc_inv g s' \<and> scc_grows g n s s' \<and> n \<in> set (sc_visited s')
    \<and> (n \<in> set (sc_visited s) \<longrightarrow> s' = s)"
  using assms(2-)
proof (induction f arbitrary: n s)
  case 0
  then show ?case by simp
next
  case (Suc f)
  show ?case
  proof (cases "n \<in> set (sc_visited s)")
    case True
    with Suc.prems(1) show ?thesis by (simp add: scc_grows_refl)
  next
    case False
    let ?conns = "filter (\<lambda>c. gc_from c = n) (map_values (g_conns g))"
    let ?step = "\<lambda>child s. res_bind (followNode f g child s) (scc_child n child)"
    have conns: "getDirectChildConnections g n = Inr ?conns"
      using assms(1) Suc.prems(2) by (rule getDirectChildConnections_wf)
    have "length (sc_visited s) < card (graph_nodes g)"
    proof -
      have "set (sc_visited s) \<subset> graph_nodes g" "distinct (sc_visited s)"
        using Suc.prems(1,2) False unfolding scc_inv_def scc_keys_def by blast+
      then show ?thesis by (metis distinct_card finite_set psubset_card_mono)
    qed
    then have fuel: "Suc (card (graph_nodes g)) - Suc (length (sc_visited s)) < f" using Suc.prems(3) by simp
    have "\<exists>t. for_each ?step (map gc_to ?conns) (scc_enter n s) = Inr t \<and> scc_frame g n s t"
    proof (rule for_each_total [where P = "\<lambda>us t. scc_frame g n s t"])
      show "scc_frame g n s (scc_enter n s)" using Suc.prems(1,2) False by (rule scc_frame_enter)
    next
      fix ys child zs t
      assume split: "map gc_to ?conns = ys @ child # zs" and frame: "scc_frame g n s t"
      have "child \<in> set (map gc_to ?conns)" unfolding split by simp
      then obtain c where c: "c \<in> graph_conns g" "gc_from c = n" "gc_to c = child" by auto
      then have edge: "(n, child) \<in> edge_rel g" using edge_relI [of c g] by simp
      have child: "child \<in> graph_nodes g" using edge_rel_nodes [OF assms(1) edge] by blast
      have inv: "scc_inv g t" using frame by (simp add: scc_frame_def)
      have "Suc (length (sc_visited s)) \<le> length (sc_visited t)"
      proof -
        have "card (insert n (set (sc_visited s))) \<le> card (set (sc_visited t))"
          using frame by (intro card_mono) (auto simp: scc_frame_def)
        moreover have "distinct (sc_visited s)" "distinct (sc_visited t)"
          using Suc.prems(1) inv by (auto simp: scc_inv_def scc_keys_def)
        ultimately show ?thesis using False by (simp add: distinct_card)
      qed
      with fuel have "Suc (card (graph_nodes g)) - length (sc_visited t) < f" by simp
      from Suc.IH [OF inv child this] obtain t1 where
        t1: "followNode f g child t = Inr t1" "scc_inv g t1" "scc_grows g child t t1"
          "child \<in> set (sc_visited t) \<longrightarrow> t1 = t" by blast
      from scc_frame_child [OF frame False edge t1(2,3)] t1(4) obtain t' where
        "scc_child n child t1 = Inr t'" "scc_frame g n s t'" by blast
      with t1(1) show "\<exists>t'. ?step child t = Inr t' \<and> scc_frame g n s t'" by simp
    qed
    then obtain t where t: "for_each ?step (map gc_to ?conns) (scc_enter n s) = Inr t" "scc_frame g n s t" by blast
    from scc_close_ok [OF t(2) Suc.prems(1) False] obtain t' where
      t': "scc_close n t = Inr t'" "scc_inv g t'" "scc_grows g n s t'" "sc_visited t' = sc_visited t" by blast
    have "n \<in> set (sc_visited t')" using t(2) t'(4) by (simp add: scc_frame_def)
    moreover have "followNode (Suc f) g n s = Inr t'"
      using False conns t(1) t'(1) by simp
    ultimately show ?thesis using t'(2,3) False by blast
  qed
qed

lemma scc_initial: "scc_inv g \<lparr>sc_id = 0, sc_visited = [], sc_ids = [], sc_low = [], sc_stack = [], sc_sccs = []\<rparr>"
  by (simp add: scc_inv_def scc_keys_def low_ok_def stack_ok_def sccs_ok_def)

lemma getStronglyConnectedComponents_sound:
  assumes "graph_wf g"
  shows "\<exists>sccs. getStronglyConnectedComponents g = Inr sccs \<and> distinct (concat sccs)
    \<and> set (concat sccs) \<subseteq> graph_nodes g
    \<and> (\<forall>C \<in> set sccs. C \<noteq> [] \<and> (\<forall>x \<in> set C. \<forall>y \<in> set C. (x, y) \<in> (edge_rel g)\<^sup>*))"
proof -
  let ?init = "\<lparr>sc_id = 0, sc_visited = [], sc_ids = [], sc_low = [], sc_stack = [], sc_sccs = []\<rparr>"
  let ?f = "followNode (Suc (Suc (length (g_nodes g)))) g"
  have "\<exists>s. for_each ?f (map_values (g_nodes g)) ?init = Inr s \<and> scc_inv g s"
  proof (rule for_each_total [where P = "\<lambda>us s. scc_inv g s"])
    show "scc_inv g ?init" by (rule scc_initial)
  next
    fix ys n zs s
    assume split: "map_values (g_nodes g) = ys @ n # zs" and inv: "scc_inv g s"
    have n: "n \<in> graph_nodes g" unfolding split by simp
    have "Suc (card (graph_nodes g)) - length (sc_visited s) < Suc (Suc (length (g_nodes g)))"
      using card_length [of "map_values (g_nodes g)"] by simp
    from followNode_ok [OF assms inv n this] show "\<exists>s'. ?f n s = Inr s' \<and> scc_inv g s'" by blast
  qed
  then obtain s where s: "for_each ?f (map_values (g_nodes g)) ?init = Inr s" "scc_inv g s" by blast
  then have "getStronglyConnectedComponents g = Inr (sc_sccs s)"
    unfolding getStronglyConnectedComponents_def by simp
  with s(2) show ?thesis unfolding scc_inv_def stack_ok_def sccs_ok_def scc_keys_def by auto
qed

section \<open>Start nodes inside cycles\<close>

text \<open>The node of a component that a depth-first search from the trigger meets first.\<close>

definition cycle_start :: "directed_graph \<Rightarrow> inode \<Rightarrow> inode list \<Rightarrow> inode option" where
  "cycle_start g trigger C = (case depthFirstSearch g trigger (\<lambda>n. n \<in> set C) of Inl _ \<Rightarrow> None | Inr r \<Rightarrow> r)"

definition replaced :: "directed_graph \<Rightarrow> inode \<Rightarrow> inode list list \<Rightarrow> inode set \<Rightarrow> inode set" where
  "replaced g trigger sccs S = {s \<in> S. \<forall>C \<in> set sccs. s \<notin> set C}
     \<union> {f. \<exists>C \<in> set sccs. S \<inter> set C \<noteq> {} \<and> cycle_start g trigger C = Some f}"

lemma cycle_start_in:
  assumes "graph_wf g" and "trigger \<in> graph_nodes g"
    and "x \<in> set C" and "(trigger, x) \<in> (edge_rel g)\<^sup>*"
  shows "\<exists>f. depthFirstSearch g trigger (\<lambda>n. n \<in> set C) = Inr (Some f) \<and> cycle_start g trigger C = Some f \<and> f \<in> set C"
proof -
  from depthFirstSearch_correct [OF assms(1,2), of "\<lambda>n. n \<in> set C"] obtain r where
    r: "depthFirstSearch g trigger (\<lambda>n. n \<in> set C) = Inr r"
      "case r of Some x \<Rightarrow> x \<in> set C \<and> (trigger, x) \<in> (edge_rel g)\<^sup>*
        | None \<Rightarrow> \<forall>x. (trigger, x) \<in> (edge_rel g)\<^sup>* \<longrightarrow> x \<notin> set C" by blast
  with assms(3,4) show ?thesis by (cases r) (auto simp: cycle_start_def)
qed

lemma distinct_concat_eq:
  "distinct (concat Cs) \<Longrightarrow> C \<in> set Cs \<Longrightarrow> D \<in> set Cs \<Longrightarrow> x \<in> set C \<Longrightarrow> x \<in> set D \<Longrightarrow> C = D"
  by (induction Cs) auto

lemma handle_one:
  fixes g trigger s Cs
  defines "F \<equiv> \<lambda>cycle ns. if s \<in> set cycle then
      res_bind (depthFirstSearch g trigger (\<lambda>n. n \<in> set cycle)) (\<lambda>firstNode. case firstNode of
          None \<Rightarrow> Inl (AssertionError ''the trigger must be connected to the cycle'')
        | Some f \<Rightarrow> Inr (set_add f (set_remove s ns))) else Inr ns"
  assumes "distinct (concat Cs)" and "\<forall>C \<in> set Cs. s \<in> set C \<longrightarrow>
      depthFirstSearch g trigger (\<lambda>n. n \<in> set C) = Inr (cycle_start g trigger C) \<and> cycle_start g trigger C \<noteq> None"
  shows "\<exists>ns'. for_each F Cs ns = Inr ns'
    \<and> set ns' = (if \<forall>C \<in> set Cs. s \<notin> set C then set ns
        else (set ns - {s}) \<union> {f. \<exists>C \<in> set Cs. s \<in> set C \<and> cycle_start g trigger C = Some f})
    \<and> (distinct ns \<longrightarrow> distinct ns')"
  using assms(2,3)
proof (induction Cs arbitrary: ns)
  case Nil
  then show ?case by simp
next
  case (Cons C Cs)
  have ih: "\<exists>ns'. for_each F Cs ms = Inr ns'
    \<and> set ns' = (if \<forall>C \<in> set Cs. s \<notin> set C then set ms
        else (set ms - {s}) \<union> {f. \<exists>C \<in> set Cs. s \<in> set C \<and> cycle_start g trigger C = Some f})
    \<and> (distinct ms \<longrightarrow> distinct ns')" for ms using Cons by simp
  show ?case
  proof (cases "s \<in> set C")
    case False
    then have "F C ns = Inr ns" by (simp add: F_def)
    moreover have eqs: "(\<forall>D \<in> set (C # Cs). s \<notin> set D) \<longleftrightarrow> (\<forall>D \<in> set Cs. s \<notin> set D)"
      "{f. \<exists>D \<in> set (C # Cs). s \<in> set D \<and> cycle_start g trigger D = Some f}
        = {f. \<exists>D \<in> set Cs. s \<in> set D \<and> cycle_start g trigger D = Some f}" using False by auto
    ultimately show ?thesis unfolding eqs for_each.simps using ih [of ns] by (simp only: res_bind_Inr)
  next
    case True
    with Cons.prems(2) obtain f where f: "depthFirstSearch g trigger (\<lambda>n. n \<in> set C) = Inr (Some f)"
      "cycle_start g trigger C = Some f" by force
    have none: "\<forall>D \<in> set Cs. s \<notin> set D" using Cons.prems(1) True by auto
    have "F C ns = Inr (set_add f (set_remove s ns))" using True f by (simp add: F_def)
    moreover from ih [of "set_add f (set_remove s ns)"] none obtain ns' where
      "for_each F Cs (set_add f (set_remove s ns)) = Inr ns'" "set ns' = insert f (set ns - {s})"
      "distinct (set_remove s ns) \<longrightarrow> distinct ns'" by auto
    moreover from this(3) have "distinct ns \<longrightarrow> distinct ns'" by (meson distinct_set_remove)
    moreover have "{f. \<exists>D \<in> set (C # Cs). s \<in> set D \<and> cycle_start g trigger D = Some f} = {f}"
      using True f none by auto
    ultimately show ?thesis using True by auto
  qed
qed

lemma handleCycles_correct:
  assumes "graph_wf g" and "trigger \<in> graph_nodes g" and "set starts \<subseteq> graph_nodes g" and "distinct starts"
    and "\<forall>s \<in> set starts. (trigger, s) \<in> (edge_rel g)\<^sup>*"
    and "getStronglyConnectedComponents g = Inr sccs"
  shows "\<exists>ns. handleCycles g starts trigger = Inr ns \<and> distinct ns \<and> set ns = replaced g trigger sccs (set starts)"
proof -
  from getStronglyConnectedComponents_sound [OF assms(1)] assms(6) have d: "distinct (concat sccs)"
    and ne: "\<forall>C \<in> set sccs. C \<noteq> []" by auto
  have filt: "filter (\<lambda>cycle. 1 \<le> length cycle) sccs = sccs"
    using ne by (auto simp: filter_id_conv Suc_le_eq)
  show ?thesis
  proof (cases "sccs = []")
    case True
    with assms(4,6) show ?thesis by (simp add: handleCycles_def replaced_def)
  next
    case False
    let ?F = "\<lambda>s cycle ns. if s \<in> set cycle then
      res_bind (depthFirstSearch g trigger (\<lambda>n. n \<in> set cycle)) (\<lambda>firstNode. case firstNode of
          None \<Rightarrow> Inl (AssertionError ''the trigger must be connected to the cycle'')
        | Some f \<Rightarrow> Inr (set_add f (set_remove s ns))) else Inr ns"
    let ?R = "replaced g trigger sccs"
    have start: "\<exists>f. depthFirstSearch g trigger (\<lambda>n. n \<in> set C) = Inr (Some f) \<and> cycle_start g trigger C = Some f \<and> f \<in> set C"
      if "s \<in> set starts" "s \<in> set C" for s C
      using that assms(5) by (intro cycle_start_in [OF assms(1,2)]) auto
    have "\<exists>t. for_each (\<lambda>s. for_each (?F s) sccs) starts starts = Inr t
        \<and> (distinct t \<and> set t = (set starts - set starts) \<union> ?R (set starts))"
    proof (rule for_each_total [where P = "\<lambda>us t. distinct t \<and> set t = (set starts - set us) \<union> ?R (set us)"])
      show "distinct starts \<and> set starts = (set starts - set []) \<union> ?R (set [])"
        using assms(4) by (simp add: replaced_def)
    next
      fix ys s zs t
      assume split: "starts = ys @ s # zs" and P: "distinct t \<and> set t = (set starts - set ys) \<union> ?R (set ys)"
      have s: "s \<in> set starts" "s \<notin> set ys" using split assms(4) by auto
      have "\<forall>C \<in> set sccs. s \<in> set C \<longrightarrow>
          depthFirstSearch g trigger (\<lambda>n. n \<in> set C) = Inr (cycle_start g trigger C) \<and> cycle_start g trigger C \<noteq> None"
        using start [OF s(1)] by fastforce
      from handle_one [OF d this, of t] obtain t' where t': "for_each (?F s) sccs t = Inr t'" "distinct t'"
        and set_t': "set t' = (if \<forall>C \<in> set sccs. s \<notin> set C then set t
            else (set t - {s}) \<union> {f. \<exists>C \<in> set sccs. s \<in> set C \<and> cycle_start g trigger C = Some f})"
        using P by blast
      have "set t' = (set starts - set (ys @ [s])) \<union> ?R (set (ys @ [s]))"
      proof (cases "\<forall>C \<in> set sccs. s \<notin> set C")
        case True
        then have "?R (set (ys @ [s])) = insert s (?R (set ys))" by (auto simp: replaced_def)
        with set_t' True P s show ?thesis by auto
      next
        case False
        let ?N = "{f. \<exists>C \<in> set sccs. s \<in> set C \<and> cycle_start g trigger C = Some f}"
        have R: "?R (set (ys @ [s])) = ?R (set ys) \<union> ?N"
          using False unfolding replaced_def by auto
        have "s \<in> ?N" if sR: "s \<in> ?R (set ys)"
        proof -
          from sR s(2) obtain C where C: "C \<in> set sccs" "set ys \<inter> set C \<noteq> {}" "cycle_start g trigger C = Some s"
            by (auto simp: replaced_def)
          from C(2) obtain y where y: "y \<in> set ys" "y \<in> set C" by blast
          with split start [of y C] C(3) have "s \<in> set C" by auto
          with C show ?thesis by blast
        qed
        then have "(set t - {s}) \<union> ?N = (set starts - insert s (set ys)) \<union> (?R (set ys) \<union> ?N)"
          using P s(2) by auto
        with set_t' False show ?thesis unfolding R by simp
      qed
      with t' show "\<exists>t'. for_each (?F s) sccs t = Inr t' \<and> distinct t' \<and> set t' = (set starts - set (ys @ [s])) \<union> ?R (set (ys @ [s]))"
        by blast
    qed
    with False filt show ?thesis unfolding handleCycles_def assms(6) by (simp add: Let_def)
  qed
qed

end
