(* ===== verification/Start_Nodes.thy ===== *)
theory Start_Nodes
  imports Directed_Graph
begin

text \<open>
  Where a partial execution starts and what it forgets
  (\<^verbatim>\<open>partial-execution-utils/get-incoming-data.ts\<close>, \<^verbatim>\<open>find-start-nodes.ts\<close>, \<^verbatim>\<open>clean-run-data.ts\<close>,
  \<^verbatim>\<open>run-data-utils.ts\<close>): the data of an output of an earlier run, the dirty nodes, the walk from the
  trigger to the first nodes that have to run again, and the removal of stale run data. The main
  results characterise the start nodes and the cleaned run data exactly.
\<close>

section \<open>Incoming data\<close>

text \<open>
  The type is looked up without \<^verbatim>\<open>?.\<close>, so run data that has task data but not this connection
  type raises a TypeError.
\<close>

definition getIncomingData :: "run_data \<Rightarrow> string \<Rightarrow> int \<Rightarrow> string \<Rightarrow> nat \<Rightarrow> exec_item list option result" where
  "getIncomingData runData nodeName runIndex connectionType outputIndex =
     (case Option.bind (Option.bind (map_of runData nodeName) (\<lambda>runs. arr_at runs runIndex)) td_data of
        None \<Rightarrow> Inr None
      | Some d \<Rightarrow> (case map_of d connectionType of
            None \<Rightarrow> Inl (TypeError ''Cannot read properties of undefined (reading at)'')
          | Some outs \<Rightarrow> Inr (Option.bind (arr_get outs outputIndex) (\<lambda>x. x))))"

definition getRunIndexLength :: "run_data \<Rightarrow> string \<Rightarrow> nat" where
  "getRunIndexLength runData nodeName = (case map_of runData nodeName of None \<Rightarrow> 0 | Some runs \<Rightarrow> length runs)"

definition getIncomingDataFromAnyRun ::
    "run_data \<Rightarrow> string \<Rightarrow> string \<Rightarrow> nat \<Rightarrow> (exec_item list \<times> nat) option result" where
  "getIncomingDataFromAnyRun runData nodeName connectionType outputIndex =
     for_each (\<lambda>i found. case found of
           Some r \<Rightarrow> Inr (Some r)
         | None \<Rightarrow> res_bind (getIncomingData runData nodeName (int i) connectionType outputIndex)
             (\<lambda>data. Inr (case data of None \<Rightarrow> None | Some d \<Rightarrow> if d = [] then None else Some (d, i))))
       [0..<getRunIndexLength runData nodeName] None"

text \<open>The items a task delivers at one output, if it has that output.\<close>

definition output_items :: "task_data \<Rightarrow> string \<Rightarrow> nat \<Rightarrow> exec_item list option" where
  "output_items td ty out = Option.bind (td_data td) (\<lambda>d. Option.bind (map_of d ty)
     (\<lambda>outs. Option.bind (arr_get outs out) (\<lambda>x. x)))"

definition runs_of :: "run_data \<Rightarrow> string \<Rightarrow> task_data list" where
  "runs_of runData nm = (case map_of runData nm of None \<Rightarrow> [] | Some runs \<Rightarrow> runs)"

text \<open>No run of the node has data without the given connection type.\<close>

definition typed_runs :: "run_data \<Rightarrow> string \<Rightarrow> string \<Rightarrow> bool" where
  "typed_runs runData nm ty \<longleftrightarrow>
     (\<forall>td \<in> set (runs_of runData nm). case td_data td of None \<Rightarrow> True | Some d \<Rightarrow> map_of d ty \<noteq> None)"

lemma getIncomingData_run:
  assumes "typed_runs runData nm ty" and "i < length (runs_of runData nm)"
  shows "getIncomingData runData nm (int i) ty out = Inr (output_items (runs_of runData nm ! i) ty out)"
proof -
  obtain runs where runs: "map_of runData nm = Some runs" "runs_of runData nm = runs"
    using assms(2) by (cases "map_of runData nm") (auto simp: runs_of_def)
  have at: "arr_at runs (int i) = Some (runs ! i)"
    using assms(2) runs by (simp add: arr_at_nat arr_get_def)
  show ?thesis
  proof (cases "td_data (runs ! i)")
    case None
    with runs at show ?thesis by (simp add: getIncomingData_def output_items_def)
  next
    case (Some d)
    have "runs ! i \<in> set (runs_of runData nm)" using assms(2) runs by simp
    with assms(1) Some have "map_of d ty \<noteq> None" by (fastforce simp: typed_runs_def)
    with runs at Some show ?thesis by (auto simp: getIncomingData_def output_items_def)
  qed
qed

text \<open>The first run that delivers items.\<close>

definition has_items :: "string \<Rightarrow> nat \<Rightarrow> task_data \<Rightarrow> bool" where
  "has_items ty out td \<longleftrightarrow> (\<exists>x xs. output_items td ty out = Some (x # xs))"

lemma getIncomingDataFromAnyRun_eq:
  assumes "typed_runs runData nm ty"
  shows "getIncomingDataFromAnyRun runData nm ty out = Inr
    (map_option (\<lambda>i. (the (output_items (runs_of runData nm ! i) ty out), i))
       (find (\<lambda>i. has_items ty out (runs_of runData nm ! i)) [0..<length (runs_of runData nm)]))"
proof -
  let ?runs = "runs_of runData nm"
  let ?f = "\<lambda>i found. case found of Some r \<Rightarrow> Inr (Some r)
         | None \<Rightarrow> res_bind (getIncomingData runData nm (int i) ty out)
             (\<lambda>data. Inr (case data of None \<Rightarrow> None | Some d \<Rightarrow> if d = [] then None else Some (d, i)))"
  let ?r = "\<lambda>i. (the (output_items (?runs ! i) ty out), i)"
  have stop: "for_each ?f is (Some r) = Inr (Some r)" for "is" r
    by (induction "is") auto
  have "for_each ?f is None = Inr (map_option ?r (find (\<lambda>i. has_items ty out (?runs ! i)) is))"
    if "\<forall>i \<in> set is. i < length ?runs" for "is"
    using that
  proof (induction "is")
    case (Cons i "is")
    then have run: "getIncomingData runData nm (int i) ty out = Inr (output_items (?runs ! i) ty out)"
      by (intro getIncomingData_run [OF assms]) simp
    show ?case
    proof (cases "has_items ty out (?runs ! i)")
      case True
      then show ?thesis using run stop by (auto simp: has_items_def)
    next
      case False
      then have "output_items (?runs ! i) ty out = None \<or> output_items (?runs ! i) ty out = Some []"
        unfolding has_items_def by (metis list.exhaust option.exhaust)
      with run Cons False show ?thesis by auto
    qed
  qed simp
  from this [of "[0..<length ?runs]"] show ?thesis
    by (simp add: getIncomingDataFromAnyRun_def getRunIndexLength_def runs_of_def split: option.splits)
qed

section \<open>Start nodes\<close>

definition isDirty :: "inode \<Rightarrow> run_data \<Rightarrow> pin_data \<Rightarrow> bool" where
  "isDirty node runData pinData =
     (if (case map_of runData (node_name node) of None \<Rightarrow> False | Some runs \<Rightarrow> list_ex (\<lambda>td. td_error td \<noteq> None) runs)
      then True
      else if map_of pinData (node_name node) \<noteq> None then False
      else if map_of runData (node_name node) \<noteq> None then False
      else True)"

definition isALoop :: "directed_graph \<Rightarrow> inode \<Rightarrow> bool result" where
  "isALoop graph node = res_bind (getChildren graph node) (\<lambda>ns. Inr (node \<in> set ns))"

definition split_in_batches :: string where
  "split_in_batches = ''n8n-nodes-base.splitInBatches''"

text \<open>The loop-node test: the run data of the last run at the output that ends the loop.\<close>

definition unfinished_loop :: "directed_graph \<Rightarrow> inode \<Rightarrow> run_data \<Rightarrow> bool result" where
  "unfinished_loop graph current runData =
     (if node_type current = split_in_batches then
        res_bind (isALoop graph current) (\<lambda>loop.
        res_bind (getIncomingData runData (node_name current) (-1) Main_type (if loop then 0 else 1))
          (\<lambda>nodeRunData. Inr (nodeRunData = None \<or> nodeRunData = Some [])))
      else Inr False)"

primrec findStartNodesRecursive ::
    "nat \<Rightarrow> directed_graph \<Rightarrow> inode \<Rightarrow> inode \<Rightarrow> run_data \<Rightarrow> pin_data \<Rightarrow> inode list \<Rightarrow> inode list
      \<Rightarrow> inode list result" where
  "findStartNodesRecursive 0 graph current destination runData pinData startNodes seen = Inl OutOfFuel"
| "findStartNodesRecursive (Suc fuel) graph current destination runData pinData startNodes seen =
     (if isDirty current runData pinData then Inr (set_add current startNodes)
      else if current = destination then Inr (set_add current startNodes)
      else res_bind (unfinished_loop graph current runData) (\<lambda>unfinished.
        if unfinished then Inr (set_add current startNodes)
        else if current \<in> set seen then Inr startNodes
        else res_bind (getDirectChildConnections graph current) (\<lambda>outgoing.
          for_each (\<lambda>c startNodes.
              res_bind (getIncomingDataFromAnyRun runData (node_name (gc_from c)) (gc_type c) (gc_outputIndex c))
                (\<lambda>nodeRunData.
                  if nodeRunData = None \<and> map_of pinData (node_name (gc_from c)) = None then Inr startNodes
                  else findStartNodesRecursive fuel graph (gc_to c) destination runData pinData startNodes
                         (set_add current seen)))
            outgoing startNodes)))"

definition findStartNodes ::
    "directed_graph \<Rightarrow> inode \<Rightarrow> inode \<Rightarrow> pin_data \<Rightarrow> run_data \<Rightarrow> inode list result" where
  "findStartNodes graph trigger destination pinData runData =
     findStartNodesRecursive (Suc (Suc (length (g_nodes graph)))) graph trigger destination runData pinData [] []"

text \<open>The contract: where a branch stops, and which connections are followed.\<close>

definition loop_pending :: "directed_graph \<Rightarrow> inode \<Rightarrow> run_data \<Rightarrow> bool" where
  "loop_pending g n runData \<longleftrightarrow> node_type n = split_in_batches
     \<and> (runs_of runData (node_name n) = []
        \<or> \<not> has_items Main_type (if (n, n) \<in> (edge_rel g)\<^sup>+ then 0 else 1) (last (runs_of runData (node_name n))))"

definition branch_stops :: "directed_graph \<Rightarrow> inode \<Rightarrow> run_data \<Rightarrow> pin_data \<Rightarrow> inode \<Rightarrow> bool" where
  "branch_stops g dest runData pinData n \<longleftrightarrow> isDirty n runData pinData \<or> n = dest \<or> loop_pending g n runData"

definition delivers :: "run_data \<Rightarrow> pin_data \<Rightarrow> gconn \<Rightarrow> bool" where
  "delivers runData pinData c \<longleftrightarrow> map_of pinData (node_name (gc_from c)) \<noteq> None
     \<or> (\<exists>td \<in> set (runs_of runData (node_name (gc_from c))). has_items (gc_type c) (gc_outputIndex c) td)"

definition walk_rel :: "directed_graph \<Rightarrow> inode \<Rightarrow> run_data \<Rightarrow> pin_data \<Rightarrow> (inode \<times> inode) set" where
  "walk_rel g dest runData pinData =
     {(a, b). \<not> branch_stops g dest runData pinData a
        \<and> (\<exists>c \<in> graph_conns g. gc_from c = a \<and> gc_to c = b \<and> delivers runData pinData c)}"

text \<open>Run data with every connection type the graph asks for.\<close>

definition run_data_ok :: "directed_graph \<Rightarrow> run_data \<Rightarrow> bool" where
  "run_data_ok g runData \<longleftrightarrow>
     (\<forall>c \<in> graph_conns g. typed_runs runData (node_name (gc_from c)) (gc_type c))
     \<and> (\<forall>n \<in> graph_nodes g. node_type n = split_in_batches \<longrightarrow> typed_runs runData (node_name n) Main_type)"

lemma unfinished_loop_eq:
  assumes "graph_wf g" and "n \<in> graph_nodes g" and "run_data_ok g runData"
  shows "unfinished_loop g n runData = Inr (loop_pending g n runData)"
proof (cases "node_type n = split_in_batches")
  case False
  then show ?thesis by (simp add: unfinished_loop_def loop_pending_def)
next
  case True
  from getChildren_set [OF assms(1,2)] obtain ns where ns: "getChildren g n = Inr ns"
    "set ns = {m. (n, m) \<in> (edge_rel g)\<^sup>+}" by blast
  let ?loop = "(n, n) \<in> (edge_rel g)\<^sup>+" and ?runs = "runs_of runData (node_name n)"
  have loop: "isALoop g n = Inr ?loop" using ns by (simp add: isALoop_def)
  have typed: "typed_runs runData (node_name n) Main_type"
    using assms(2,3) True unfolding run_data_ok_def by blast
  show ?thesis
  proof (cases "?runs = []")
    case empty: True
    then have "Option.bind (map_of runData (node_name n)) (\<lambda>runs. arr_at runs (-1)) = None"
      by (auto simp: runs_of_def arr_at_def split: option.splits bind_splits)
    then have "getIncomingData runData (node_name n) (-1) Main_type out = Inr None" for out
      by (simp add: getIncomingData_def)
    with True loop empty show ?thesis by (simp add: unfinished_loop_def loop_pending_def)
  next
    case False
    then obtain runs where runs: "map_of runData (node_name n) = Some runs" "runs \<noteq> []" "?runs = runs"
      by (auto simp: runs_of_def split: option.splits)
    have "arr_at runs (-1) = arr_at runs (int (length runs - 1))"
      using runs(2) arr_at_last [of runs] by (simp add: arr_at_nat arr_get_def last_conv_nth)
    then have "getIncomingData runData (node_name n) (-1) Main_type out
        = getIncomingData runData (node_name n) (int (length runs - 1)) Main_type out" for out
      using runs(1) by (simp add: getIncomingData_def)
    moreover have "length runs - 1 < length (runs_of runData (node_name n))" using runs by simp
    ultimately have get: "getIncomingData runData (node_name n) (-1) Main_type out
        = Inr (output_items (last runs) Main_type out)" for out
      using getIncomingData_run [OF typed] runs by (simp add: last_conv_nth)
    have "(x = None \<or> x = Some []) \<longleftrightarrow> \<not> (\<exists>y ys. x = Some (y # ys))" for x :: "exec_item list option"
      by (metis list.exhaust option.exhaust option.inject list.distinct(1) option.distinct(1))
    with True loop get runs show ?thesis
      by (simp add: unfinished_loop_def loop_pending_def has_items_def)
  qed
qed

lemma delivers_eq:
  assumes "run_data_ok g runData" and "c \<in> graph_conns g"
  shows "\<exists>r. getIncomingDataFromAnyRun runData (node_name (gc_from c)) (gc_type c) (gc_outputIndex c) = Inr r
    \<and> (r = None \<and> map_of pinData (node_name (gc_from c)) = None \<longleftrightarrow> \<not> delivers runData pinData c)"
proof -
  let ?runs = "runs_of runData (node_name (gc_from c))"
  let ?P = "has_items (gc_type c) (gc_outputIndex c)"
  have "typed_runs runData (node_name (gc_from c)) (gc_type c)"
    using assms unfolding run_data_ok_def by blast
  note eq = getIncomingDataFromAnyRun_eq [OF this, of "gc_outputIndex c"]
  have "find (\<lambda>i. ?P (?runs ! i)) [0..<length ?runs] = None \<longleftrightarrow> \<not> (\<exists>td \<in> set ?runs. ?P td)"
    by (simp add: find_None_iff Bex_def) (metis in_set_conv_nth)
  with eq show ?thesis by (simp add: delivers_def) blast
qed

text \<open>Walks that avoid a set of nodes as sources; a walk can be cut to leave a node only once.\<close>

definition avoiding :: "('a \<times> 'a) set \<Rightarrow> 'a set \<Rightarrow> ('a \<times> 'a) set" where
  "avoiding R X = {(a, b) \<in> R. a \<notin> X}"

lemma avoiding_first_step:
  assumes "(a, n) \<in> (avoiding R X)\<^sup>*"
  shows "n = a \<or> (\<exists>c. (a, c) \<in> avoiding R X \<and> (c, n) \<in> (avoiding R (insert a X))\<^sup>*)"
  using assms
proof (induction rule: rtrancl_induct)
  case base
  then show ?case by simp
next
  case (step n m)
  show ?case
  proof (cases "n = a")
    case True
    with step.hyps(2) show ?thesis by blast
  next
    case False
    with step.IH obtain c where c: "(a, c) \<in> avoiding R X" "(c, n) \<in> (avoiding R (insert a X))\<^sup>*" by blast
    from False step.hyps(2) have "(n, m) \<in> avoiding R (insert a X)" by (simp add: avoiding_def)
    with c show ?thesis by (meson rtrancl_into_rtrancl)
  qed
qed

lemma avoiding_mono: "avoiding R (insert a X) \<subseteq> avoiding R X"
  by (auto simp: avoiding_def)

lemma walk_targets:
  assumes "\<not> S a" and "a \<notin> X"
  shows "{n. S n \<and> (a, n) \<in> (avoiding R X)\<^sup>*} = (\<Union>c \<in> {c. (a, c) \<in> R}. {n. S n \<and> (c, n) \<in> (avoiding R (insert a X))\<^sup>*})"
proof (intro equalityI subsetI)
  fix n
  assume "n \<in> {n. S n \<and> (a, n) \<in> (avoiding R X)\<^sup>*}"
  then have n: "S n" "(a, n) \<in> (avoiding R X)\<^sup>*" by simp_all
  with assms(1) have "n \<noteq> a" by auto
  with avoiding_first_step [OF n(2)] obtain c where "(a, c) \<in> avoiding R X" "(c, n) \<in> (avoiding R (insert a X))\<^sup>*"
    by blast
  moreover from this(1) have "(a, c) \<in> R" by (simp add: avoiding_def)
  ultimately show "n \<in> (\<Union>c \<in> {c. (a, c) \<in> R}. {n. S n \<and> (c, n) \<in> (avoiding R (insert a X))\<^sup>*})"
    using n(1) by (intro UN_I [of c]) simp_all
next
  fix n
  assume "n \<in> (\<Union>c \<in> {c. (a, c) \<in> R}. {n. S n \<and> (c, n) \<in> (avoiding R (insert a X))\<^sup>*})"
  then obtain c where c: "(a, c) \<in> R" "S n" "(c, n) \<in> (avoiding R (insert a X))\<^sup>*" by blast
  have "(c, n) \<in> (avoiding R X)\<^sup>*" by (rule subsetD [OF rtrancl_mono [OF avoiding_mono] c(3)])
  moreover have "(a, c) \<in> avoiding R X" using c(1) assms(2) by (simp add: avoiding_def)
  ultimately show "n \<in> {n. S n \<and> (a, n) \<in> (avoiding R X)\<^sup>*}"
    using c(2) by (auto intro: converse_rtrancl_into_rtrancl)
qed

lemma findStartNodesRecursive_correct:
  fixes g dest runData pinData
  defines "S \<equiv> branch_stops g dest runData pinData" and "R \<equiv> walk_rel g dest runData pinData"
  assumes wf: "graph_wf g" and ok: "run_data_ok g runData"
    and "cur \<in> graph_nodes g" and "distinct seen" and "set seen \<subseteq> graph_nodes g" and "distinct acc"
    and "Suc (card (graph_nodes g)) - length seen < f"
  shows "\<exists>ns. findStartNodesRecursive f g cur dest runData pinData acc seen = Inr ns \<and> distinct ns
    \<and> set ns = set acc \<union> {n. S n \<and> (cur, n) \<in> (avoiding R (set seen))\<^sup>*}"
  using assms(5-)
proof (induction f arbitrary: cur seen acc)
  case 0
  then show ?case by simp
next
  case (Suc f)
  have un: "unfinished_loop g cur runData = Inr (loop_pending g cur runData)"
    using wf Suc.prems(1) ok by (rule unfinished_loop_eq)
  show ?case
  proof (cases "S cur")
    case True
    have "n = cur" if "(cur, n) \<in> (avoiding R (set seen))\<^sup>*" for n
      using that by (cases rule: converse_rtranclE) (use True in \<open>auto simp: avoiding_def R_def S_def walk_rel_def\<close>)
    with True have "{n. S n \<and> (cur, n) \<in> (avoiding R (set seen))\<^sup>*} = {cur}" by auto
    moreover have "findStartNodesRecursive (Suc f) g cur dest runData pinData acc seen = Inr (set_add cur acc)"
      using True un by (auto simp: S_def branch_stops_def)
    ultimately show ?thesis using Suc.prems(4) by simp
  next
    case False
    then have go: "\<not> isDirty cur runData pinData" "cur \<noteq> dest" "\<not> loop_pending g cur runData"
      by (auto simp: S_def branch_stops_def)
    show ?thesis
    proof (cases "cur \<in> set seen")
      case True
      have "n = cur" if "(cur, n) \<in> (avoiding R (set seen))\<^sup>*" for n
        using that by (cases rule: converse_rtranclE) (use True in \<open>auto simp: avoiding_def\<close>)
      with False have none: "{n. S n \<and> (cur, n) \<in> (avoiding R (set seen))\<^sup>*} = {}" by auto
      show ?thesis unfolding none using True go un Suc.prems(4) by simp
    next
      case unseen: False
      let ?out = "filter (\<lambda>c. gc_from c = cur) (map_values (g_conns g))"
      let ?seen = "set_add cur seen"
      let ?T = "\<lambda>c. {n. S n \<and> (gc_to c, n) \<in> (avoiding R (set ?seen))\<^sup>*}"
      let ?step = "\<lambda>c startNodes.
          res_bind (getIncomingDataFromAnyRun runData (node_name (gc_from c)) (gc_type c) (gc_outputIndex c))
            (\<lambda>nodeRunData.
              if nodeRunData = None \<and> map_of pinData (node_name (gc_from c)) = None then Inr startNodes
              else findStartNodesRecursive f g (gc_to c) dest runData pinData startNodes ?seen)"
      have out: "getDirectChildConnections g cur = Inr ?out"
        using wf Suc.prems(1) by (rule getDirectChildConnections_wf)
      have "\<exists>t. for_each ?step ?out acc = Inr t \<and> distinct t
          \<and> set t = set acc \<union> (\<Union>c \<in> {c \<in> set ?out. delivers runData pinData c}. ?T c)"
      proof (rule for_each_total [where P = "\<lambda>us t. distinct t
          \<and> set t = set acc \<union> (\<Union>c \<in> {c \<in> set us. delivers runData pinData c}. ?T c)"])
        show "distinct acc \<and> set acc = set acc \<union> (\<Union>c \<in> {c \<in> set []. delivers runData pinData c}. ?T c)"
          using Suc.prems(4) by simp
      next
        fix ys c zs t
        assume split: "?out = ys @ c # zs"
          and P: "distinct t \<and> set t = set acc \<union> (\<Union>c \<in> {c \<in> set ys. delivers runData pinData c}. ?T c)"
        have "c \<in> set ?out" unfolding split by simp
        then have c: "c \<in> graph_conns g" "gc_from c = cur" by auto
        from delivers_eq [OF ok c(1), of pinData] obtain r where
          r: "getIncomingDataFromAnyRun runData (node_name (gc_from c)) (gc_type c) (gc_outputIndex c) = Inr r"
            "(r = None \<and> map_of pinData (node_name (gc_from c)) = None) = (\<not> delivers runData pinData c)" by blast
        show "\<exists>t'. ?step c t = Inr t' \<and> distinct t'
            \<and> set t' = set acc \<union> (\<Union>d \<in> {d \<in> set (ys @ [c]). delivers runData pinData d}. ?T d)"
        proof (cases "delivers runData pinData c")
          case False
          then have same: "{d \<in> set (ys @ [c]). delivers runData pinData d} = {d \<in> set ys. delivers runData pinData d}" by auto
          show ?thesis unfolding same using r False P by simp
        next
          case True
          then have D: "{d \<in> set (ys @ [c]). delivers runData pinData d} = insert c {d \<in> set ys. delivers runData pinData d}"
            by auto
          have seen': "distinct ?seen" "set ?seen \<subseteq> graph_nodes g" using Suc.prems(1-3) by auto
          have "length ?seen = Suc (length seen)" using unseen by (simp add: set_add_def)
          moreover have "length seen \<le> card (graph_nodes g)"
            using card_mono [OF _ Suc.prems(3)] distinct_card [OF Suc.prems(2)] by simp
          ultimately have "Suc (card (graph_nodes g)) - length ?seen < f" using Suc.prems(5) by simp
          from Suc.IH [OF graph_wf_ends(2) [OF wf c(1)] seen' conjunct1 [OF P] this] obtain t' where
            t': "findStartNodesRecursive f g (gc_to c) dest runData pinData t ?seen = Inr t'" "distinct t'"
              "set t' = set t \<union> ?T c" by blast
          have "set t' = set acc \<union> (\<Union>c \<in> {d \<in> set (ys @ [c]). delivers runData pinData d}. ?T c)"
            unfolding D t'(3) using P by blast
          with r True t' show ?thesis by auto
        qed
      qed
      then obtain t where t: "for_each ?step ?out acc = Inr t" "distinct t"
        "set t = set acc \<union> (\<Union>c \<in> {c \<in> set ?out. delivers runData pinData c}. ?T c)" by blast
      have succ: "{b. (cur, b) \<in> R} = gc_to ` {c \<in> set ?out. delivers runData pinData c}"
        using False unfolding R_def S_def walk_rel_def by auto
      have "(\<Union>c \<in> {c \<in> set ?out. delivers runData pinData c}. ?T c) = {n. S n \<and> (cur, n) \<in> (avoiding R (set seen))\<^sup>*}"
        unfolding walk_targets [where S = S, OF False unseen] succ by auto
      with t show ?thesis using go un unseen out by simp
    qed
  qed
qed

lemma findStartNodes_set:
  assumes "graph_wf g" and "run_data_ok g runData" and "trigger \<in> graph_nodes g"
  shows "\<exists>ns. findStartNodes g trigger dest pinData runData = Inr ns \<and> distinct ns
    \<and> set ns = {n. branch_stops g dest runData pinData n \<and> (trigger, n) \<in> (walk_rel g dest runData pinData)\<^sup>*}"
proof -
  have "Suc (card (graph_nodes g)) - length [] < Suc (Suc (length (g_nodes g)))"
    using card_length [of "map_values (g_nodes g)"] by simp
  from findStartNodesRecursive_correct [OF assms(1,2,3) _ _ _ this, of "[]" dest pinData] show ?thesis
    by (simp add: findStartNodes_def avoiding_def del: findStartNodesRecursive.simps)
qed

section \<open>Cleaning run data\<close>

definition delete_names :: "string list \<Rightarrow> (string \<times> 'v) list \<Rightarrow> (string \<times> 'v) list" where
  "delete_names nms m = fold map_delete nms m"

definition subnode_names :: "gconn list \<Rightarrow> string list" where
  "subnode_names cs = map (\<lambda>c. node_name (gc_from c)) (filter (\<lambda>c. gc_type c \<noteq> Main_type) cs)"

definition cleanRunData :: "run_data \<Rightarrow> directed_graph \<Rightarrow> inode list \<Rightarrow> run_data result" where
  "cleanRunData runData graph nodesToClean =
     res_bind
       (for_each (\<lambda>nodeToClean newRunData.
           let newRunData = map_delete (node_name nodeToClean) newRunData
           in res_bind (getChildren graph nodeToClean) (\<lambda>children.
                for_each (\<lambda>node newRunData.
                    let newRunData = map_delete (node_name node) newRunData
                    in res_bind (getParentConnections graph node)
                         (\<lambda>subNodeConnections. Inr (delete_names (subnode_names subNodeConnections) newRunData)))
                  (nodeToClean # children) newRunData))
         nodesToClean runData)
       (\<lambda>newRunData. Inr (delete_names (filter (\<lambda>nm. \<not> hasNode graph nm) (map_keys newRunData)) newRunData))"

text \<open>The nodes whose data is stale: those to clean, their descendants, and the sub-nodes above these.\<close>

definition stale :: "directed_graph \<Rightarrow> inode set \<Rightarrow> inode set" where
  "stale g N = {n. \<exists>m \<in> N. (m, n) \<in> (edge_rel g)\<^sup>*}"

definition stale_names :: "directed_graph \<Rightarrow> inode set \<Rightarrow> string set" where
  "stale_names g N = node_name ` stale g N
     \<union> {node_name (gc_from c) | c. c \<in> graph_conns g \<and> gc_type c \<noteq> Main_type
          \<and> (\<exists>n \<in> stale g N. (gc_to c, n) \<in> (edge_rel g)\<^sup>*)}"

lemma map_of_delete_names: "map_of (delete_names nms m) k = (if k \<in> set nms then None else map_of m k)"
  by (induction nms arbitrary: m) (auto simp: delete_names_def map_of_map_delete)

text \<open>A run data object with the entries of some names removed.\<close>

definition without :: "string set \<Rightarrow> (string \<times> 'v) list \<Rightarrow> (string \<times> 'v) list \<Rightarrow> bool" where
  "without A m m' \<longleftrightarrow> (\<forall>k. map_of m' k = (if k \<in> A then None else map_of m k))"

lemma without_refl: "without {} m m"
  by (simp add: without_def)

lemma without_trans: "without A m m' \<Longrightarrow> without B m' m'' \<Longrightarrow> without (A \<union> B) m m''"
  by (auto simp: without_def)

lemma without_delete: "without {k} m (map_delete k m)"
  by (simp add: without_def map_of_map_delete)

lemma without_delete_names: "without (set nms) m (delete_names nms m)"
  by (simp add: without_def map_of_delete_names)

definition subnodes_above :: "directed_graph \<Rightarrow> inode \<Rightarrow> string set" where
  "subnodes_above g n = {node_name (gc_from c) | c. c \<in> graph_conns g \<and> gc_type c \<noteq> Main_type
     \<and> (gc_to c, n) \<in> (edge_rel g)\<^sup>*}"

lemma clean_node:
  assumes "graph_wf g" and "n \<in> graph_nodes g"
  shows "\<exists>m'. (let m = map_delete (node_name n) m
      in res_bind (getParentConnections g n) (\<lambda>cs. Inr (delete_names (subnode_names cs) m))) = Inr m'
    \<and> without (insert (node_name n) (subnodes_above g n)) m m'"
proof -
  from getParentConnections_set [OF assms] obtain cs where cs: "getParentConnections g n = Inr cs"
    "set cs = {c \<in> graph_conns g. (gc_to c, n) \<in> (edge_rel g)\<^sup>*}" by blast
  have "set (subnode_names cs) = subnodes_above g n"
    by (auto simp: subnode_names_def subnodes_above_def cs(2))
  with without_trans [OF without_delete without_delete_names, of "node_name n" "subnode_names cs" m] cs(1)
  show ?thesis by (simp add: Let_def)
qed

lemma clean_one:
  assumes "graph_wf g" and "N \<in> graph_nodes g"
  shows "\<exists>m'. (let m = map_delete (node_name N) m
      in res_bind (getChildren g N) (\<lambda>children.
           for_each (\<lambda>n m. let m = map_delete (node_name n) m
               in res_bind (getParentConnections g n) (\<lambda>cs. Inr (delete_names (subnode_names cs) m)))
             (N # children) m)) = Inr m'
    \<and> without (stale_names g {N}) m m'"
proof -
  from getChildren_set [OF assms] obtain ns where ns: "getChildren g N = Inr ns"
    "set ns = {m. (N, m) \<in> (edge_rel g)\<^sup>+}" by blast
  let ?f = "\<lambda>n m. let m = map_delete (node_name n) m
               in res_bind (getParentConnections g n) (\<lambda>cs. Inr (delete_names (subnode_names cs) m))"
  let ?A = "\<lambda>us. \<Union>n \<in> set us. insert (node_name n) (subnodes_above g n)"
  have stale: "set (N # ns) = stale g {N}"
    using ns(2) by (auto simp: stale_def rtrancl_eq_or_trancl)
  have nodes: "set (N # ns) \<subseteq> graph_nodes g"
    using ns(2) assms(2) reachable_nodes [OF assms(1)] by auto
  have "\<exists>t. for_each ?f (N # ns) (map_delete (node_name N) m) = Inr t
      \<and> without (?A (N # ns)) (map_delete (node_name N) m) t"
  proof (rule for_each_total [where P = "\<lambda>us t. without (?A us) (map_delete (node_name N) m) t"])
    show "without (?A []) (map_delete (node_name N) m) (map_delete (node_name N) m)"
      by (simp add: without_refl)
  next
    fix ys n zs t
    assume split: "N # ns = ys @ n # zs" and P: "without (?A ys) (map_delete (node_name N) m) t"
    have "n \<in> set (N # ns)" unfolding split by simp
    with nodes have "n \<in> graph_nodes g" by blast
    from clean_node [OF assms(1) this, of t] obtain t' where
      "?f n t = Inr t'" "without (insert (node_name n) (subnodes_above g n)) t t'" by blast
    with without_trans [OF P this(2)] show "\<exists>t'. ?f n t = Inr t' \<and> without (?A (ys @ [n])) (map_delete (node_name N) m) t'"
      by (simp add: Un_commute)
  qed
  then obtain t where t: "for_each ?f (N # ns) (map_delete (node_name N) m) = Inr t"
    "without (?A (N # ns)) (map_delete (node_name N) m) t" by blast
  have "?A (N # ns) = stale_names g {N}"
    unfolding stale_names_def stale [symmetric] subnodes_above_def by auto
  moreover have "node_name N \<in> ?A (N # ns)" by simp
  ultimately have "without (stale_names g {N}) m t"
    using without_trans [OF without_delete t(2)] by (metis insert_absorb insert_is_Un)
  with t(1) ns(1) show ?thesis by (metis (no_types, lifting) res_bind_Inr)
qed

lemma stale_names_Un: "stale_names g (N \<union> M) = stale_names g N \<union> stale_names g M"
  unfolding stale_names_def stale_def by blast

lemma cleanRunData_correct:
  assumes "graph_wf g" and "set nodes \<subseteq> graph_nodes g"
  shows "\<exists>r. cleanRunData runData g nodes = Inr r
    \<and> (\<forall>nm. map_of r nm =
          (if hasNode g nm \<and> nm \<notin> stale_names g (set nodes) then map_of runData nm else None))"
proof -
  let ?f = "\<lambda>N m. let m = map_delete (node_name N) m
      in res_bind (getChildren g N) (\<lambda>children.
           for_each (\<lambda>n m. let m = map_delete (node_name n) m
               in res_bind (getParentConnections g n) (\<lambda>cs. Inr (delete_names (subnode_names cs) m)))
             (N # children) m)"
  have "\<exists>t. for_each ?f nodes runData = Inr t \<and> without (stale_names g (set nodes)) runData t"
  proof (rule for_each_total [where P = "\<lambda>us t. without (stale_names g (set us)) runData t"])
    show "without (stale_names g (set [])) runData runData"
      by (simp add: stale_names_def stale_def without_refl)
  next
    fix ys N zs t
    assume split: "nodes = ys @ N # zs" and P: "without (stale_names g (set ys)) runData t"
    have "N \<in> graph_nodes g" using assms(2) split by auto
    from clean_one [OF assms(1) this, of t] obtain t' where t': "?f N t = Inr t'" "without (stale_names g {N}) t t'"
      by blast
    have "stale_names g (set (ys @ [N])) = stale_names g (set ys) \<union> stale_names g {N}"
      unfolding stale_names_Un [symmetric] by simp
    with without_trans [OF P t'(2)] t'(1)
    show "\<exists>t'. ?f N t = Inr t' \<and> without (stale_names g (set (ys @ [N]))) runData t'" by metis
  qed
  then obtain t where t: "for_each ?f nodes runData = Inr t" "without (stale_names g (set nodes)) runData t" by blast
  let ?r = "delete_names (filter (\<lambda>nm. \<not> hasNode g nm) (map_keys t)) t"
  have "map_of ?r nm = (if hasNode g nm \<and> nm \<notin> stale_names g (set nodes) then map_of runData nm else None)" for nm
  proof (cases "nm \<in> set (map_keys t)")
    case True
    with t(2) show ?thesis by (auto simp: map_of_delete_names without_def)
  next
    case False
    then have "map_of t nm = None" by (simp add: map_of_eq_None_iff)
    with t(2) show ?thesis by (auto simp: map_of_delete_names without_def split: if_splits)
  qed
  moreover have "cleanRunData runData g nodes = Inr ?r"
    unfolding cleanRunData_def t(1) by simp
  ultimately show ?thesis by blast
qed

section \<open>Execution index\<close>

definition getNextExecutionIndex :: "run_data \<Rightarrow> int" where
  "getNextExecutionIndex runData =
     (if runData = [] then 0
      else let previousIndices = List.map_filter td_executionIndex (concat (map_values runData))
           in if previousIndices = [] then 0 else fold max (tl previousIndices) (hd previousIndices) + 1)"

lemma getNextExecutionIndex_fresh:
  assumes "(nm, tds) \<in> set runData" and "td \<in> set tds" and "td_executionIndex td = Some i"
  shows "i < getNextExecutionIndex runData"
proof -
  let ?l = "List.map_filter td_executionIndex (concat (map_values runData))"
  have "i \<in> set ?l" using assms by (force simp: List.map_filter_def)
  then have "i \<le> Max (set ?l)" "?l \<noteq> []" by auto
  moreover from this(2) have "fold max (tl ?l) (hd ?l) = Max (set ?l)"
    by (metis Max.set_eq_fold list.collapse)
  ultimately show ?thesis using assms(1) by (auto simp: getNextExecutionIndex_def Let_def)
qed

end
