(* ===== verification/Execution_Stack.thy ===== *)
theory Execution_Stack
  imports Start_Nodes
begin

text \<open>
  Rebuilding the execution stack of a partial execution
  (\<^verbatim>\<open>partial-execution-utils/get-source-data-groups.ts\<close>, \<^verbatim>\<open>recreate-node-execution-stack.ts\<close>): the
  incoming connections of a node are grouped into sets of inputs that can run together, complete
  groups become stack entries and incomplete ones waiting entries. \<open>compare\<close> is
  \<^verbatim>\<open>String.prototype.localeCompare\<close>, which depends on the locale of the host; the results hold
  for any comparison.
\<close>

section \<open>Source data groups\<close>

record source_group =
  sg_complete :: bool
  sg_connections :: "gconn list"

definition newGroup :: source_group where
  "newGroup = \<lparr>sg_complete = True, sg_connections = []\<rparr>"

definition sortByInputIndexThenByName :: "(string \<Rightarrow> string \<Rightarrow> int) \<Rightarrow> gconn \<Rightarrow> gconn \<Rightarrow> int" where
  "sortByInputIndexThenByName compare c1 c2 =
     (if gc_inputIndex c1 = gc_inputIndex c2 then compare (node_name (gc_from c1)) (node_name (gc_from c2))
      else int (gc_inputIndex c1) - int (gc_inputIndex c2))"

definition at_input :: "int \<Rightarrow> gconn \<Rightarrow> bool" where
  "at_input i c = (int (gc_inputIndex c) = i)"

definition lowest_input :: "gconn list \<Rightarrow> int" where
  "lowest_input cs = (case map (\<lambda>c. int (gc_inputIndex c)) cs of [] \<Rightarrow> 0 | i # is \<Rightarrow> fold min is i)"

lemma lowest_input_Min: "cs \<noteq> [] \<Longrightarrow> lowest_input cs = Min ((\<lambda>c. int (gc_inputIndex c)) ` set cs)"
  by (cases cs) (auto simp: lowest_input_def Min.set_eq_fold [symmetric] image_image)

lemma lowest_input_exists: "cs \<noteq> [] \<Longrightarrow> \<exists>c \<in> set cs. at_input (lowest_input cs) c"
proof -
  assume "cs \<noteq> []"
  then have "lowest_input cs \<in> (\<lambda>c. int (gc_inputIndex c)) ` set cs"
    unfolding lowest_input_Min [OF \<open>cs \<noteq> []\<close>] by (intro Min_in) auto
  then show ?thesis by (auto simp: at_input_def)
qed

lemma find_Some_in: "find P xs = Some x \<Longrightarrow> x \<in> set xs \<and> P x"
  by (induction xs) (auto split: if_splits)

lemma find_None_all: "find P xs = None \<Longrightarrow> \<forall>x \<in> set xs. \<not> P x"
  by (auto simp: find_None_iff)

text \<open>
  The loop over the two sorted lists: connections with data are preferred; a missing input ends
  the current group, and the next one restarts at the lowest input that is left.
\<close>

function group_loop ::
    "gconn list \<Rightarrow> gconn list \<Rightarrow> source_group \<Rightarrow> int \<Rightarrow> source_group list \<Rightarrow> source_group list" where
  "group_loop withData withoutData cur index groups =
     (if withData = [] \<and> withoutData = [] then groups @ [cur]
      else case find (at_input (index + 1)) withData of
          Some c \<Rightarrow> group_loop (remove1 c withData) withoutData
                      (cur\<lparr>sg_connections := sg_connections cur @ [c]\<rparr>) (index + 1) groups
        | None \<Rightarrow> (case find (at_input (index + 1)) withoutData of
              Some c \<Rightarrow> group_loop withData (remove1 c withoutData)
                          (cur\<lparr>sg_connections := sg_connections cur @ [c], sg_complete := False\<rparr>) (index + 1) groups
            | None \<Rightarrow> group_loop withData withoutData newGroup (lowest_input (withData @ withoutData) - 1) (groups @ [cur])))"
  by pat_completeness auto
termination
proof (relation "measure (\<lambda>(wd, wo, cur, i, gs). 2 * (length wd + length wo)
    + (if \<exists>c \<in> set (wd @ wo). at_input (i + 1) c then 0 else 1))")
  fix wd wo :: "gconn list" and cur :: source_group and i :: int and gs c
  assume "find (at_input (i + 1)) wd = Some c"
  then have "c \<in> set wd" "at_input (i + 1) c" using find_Some_in by fast+
  moreover from this have "Suc (length (remove1 c wd)) = length wd"
    using length_pos_if_in_set [of c wd] by (simp add: length_remove1)
  ultimately show "((remove1 c wd, wo, cur\<lparr>sg_connections := sg_connections cur @ [c]\<rparr>, i + 1, gs), wd, wo, cur, i, gs)
    \<in> measure (\<lambda>(wd, wo, cur, i, gs). 2 * (length wd + length wo)
    + (if \<exists>c \<in> set (wd @ wo). at_input (i + 1) c then 0 else 1))" by auto
next
  fix wd wo :: "gconn list" and cur :: source_group and i :: int and gs c
  assume "find (at_input (i + 1)) wo = Some c"
  then have "c \<in> set wo" "at_input (i + 1) c" using find_Some_in by fast+
  moreover from this have "Suc (length (remove1 c wo)) = length wo"
    using length_pos_if_in_set [of c wo] by (simp add: length_remove1)
  ultimately show "((wd, remove1 c wo, cur\<lparr>sg_connections := sg_connections cur @ [c], sg_complete := False\<rparr>, i + 1, gs), wd, wo, cur, i, gs)
    \<in> measure (\<lambda>(wd, wo, cur, i, gs). 2 * (length wd + length wo)
    + (if \<exists>c \<in> set (wd @ wo). at_input (i + 1) c then 0 else 1))" by auto
next
  fix wd wo :: "gconn list" and cur :: source_group and i :: int and gs :: "source_group list"
  assume "\<not> (wd = [] \<and> wo = [])" and none: "find (at_input (i + 1)) wd = None" "find (at_input (i + 1)) wo = None"
  have "\<not> (\<exists>c \<in> set (wd @ wo). at_input (i + 1) c)"
    using find_None_all [OF none(1)] find_None_all [OF none(2)] by auto
  moreover have "\<exists>c \<in> set (wd @ wo). at_input (lowest_input (wd @ wo)) c"
    using \<open>\<not> (wd = [] \<and> wo = [])\<close> by (intro lowest_input_exists) auto
  ultimately show "((wd, wo, newGroup, lowest_input (wd @ wo) - 1, gs @ [cur]), wd, wo, cur, i, gs)
    \<in> measure (\<lambda>(wd, wo, cur, i, gs). 2 * (length wd + length wo)
    + (if \<exists>c \<in> set (wd @ wo). at_input (i + 1) c then 0 else 1))" by auto
qed simp

declare group_loop.simps [simp del]

definition has_source_data :: "run_data \<Rightarrow> pin_data \<Rightarrow> gconn \<Rightarrow> bool" where
  "has_source_data runData pinnedData c \<longleftrightarrow>
     map_of runData (node_name (gc_from c)) \<noteq> None \<or> map_of pinnedData (node_name (gc_from c)) \<noteq> None"

definition getSourceDataGroups ::
    "(string \<Rightarrow> string \<Rightarrow> int) \<Rightarrow> directed_graph \<Rightarrow> inode \<Rightarrow> run_data \<Rightarrow> pin_data \<Rightarrow> source_group list" where
  "getSourceDataGroups compare graph node runData pinnedData =
     (let connections = getConnections graph (Some node);
          withData = filter (has_source_data runData pinnedData) connections;
          withoutData = filter (\<lambda>c. \<not> has_source_data runData pinnedData c \<and> gc_type c = Main_type) connections
      in if withData = [] \<and> withoutData = [] then []
         else let wd = js_sort (sortByInputIndexThenByName compare) withData;
                  wo = js_sort (sortByInputIndexThenByName compare) withoutData
              in group_loop wd wo newGroup (lowest_input (wd @ wo) - 1) [])"

text \<open>The inputs of a group are consecutive, and it is complete when all of them have data.\<close>

definition group_ok :: "(gconn \<Rightarrow> bool) \<Rightarrow> source_group \<Rightarrow> bool" where
  "group_ok D gr \<longleftrightarrow> (sg_complete gr \<longleftrightarrow> (\<forall>c \<in> set (sg_connections gr). D c))
     \<and> (\<exists>k. map gc_inputIndex (sg_connections gr) = [k..<k + length (sg_connections gr)])"

text \<open>The group under construction ends at \<open>index\<close>; when it is empty, input \<open>index + 1\<close> is there to fill it.\<close>

definition group_open :: "(gconn \<Rightarrow> bool) \<Rightarrow> gconn list \<Rightarrow> source_group \<Rightarrow> int \<Rightarrow> bool" where
  "group_open D left cur index \<longleftrightarrow> (sg_complete cur \<longleftrightarrow> (\<forall>c \<in> set (sg_connections cur). D c))
     \<and> (if sg_connections cur = [] then \<exists>c \<in> set left. at_input (index + 1) c
        else \<exists>k. map gc_inputIndex (sg_connections cur) = [k..<k + length (sg_connections cur)]
               \<and> index = int (k + length (sg_connections cur)) - 1)"

lemma group_open_push:
  assumes "group_open D left cur index" and "at_input (index + 1) c"
    and "b \<longleftrightarrow> sg_complete cur \<and> D c"
  shows "group_open D left' (cur\<lparr>sg_connections := sg_connections cur @ [c], sg_complete := b\<rparr>) (index + 1)"
proof (cases "sg_connections cur = []")
  case True
  with assms show ?thesis
    by (auto simp: group_open_def at_input_def intro!: exI [of _ "gc_inputIndex c"])
next
  case False
  then obtain k where k: "map gc_inputIndex (sg_connections cur) = [k..<k + length (sg_connections cur)]"
    "index = int (k + length (sg_connections cur)) - 1"
    using assms(1) by (auto simp: group_open_def)
  with assms(2) have "gc_inputIndex c = k + length (sg_connections cur)" by (simp add: at_input_def)
  with k assms(1,3) show ?thesis by (auto simp: group_open_def intro!: exI [of _ k])
qed

lemma group_loop_correct:
  assumes "\<forall>c \<in> set wd. D c" and "\<forall>c \<in> set wo. \<not> D c" and "group_open D (wd @ wo) cur index"
    and "\<forall>gr \<in> set gs. group_ok D gr \<and> sg_connections gr \<noteq> []"
  shows "(\<forall>gr \<in> set (group_loop wd wo cur index gs). group_ok D gr \<and> sg_connections gr \<noteq> [])
    \<and> mset (concat (map sg_connections (group_loop wd wo cur index gs)))
      = mset (concat (map sg_connections gs)) + mset (sg_connections cur) + mset wd + mset wo"
  using assms
proof (induction wd wo cur index gs rule: group_loop.induct)
  case (1 wd wo cur index gs)
  show ?case
  proof (cases "wd = [] \<and> wo = []")
    case True
    with "1.prems"(3) have "sg_connections cur \<noteq> []" "group_ok D cur"
      by (auto simp: group_open_def group_ok_def split: if_splits)
    moreover have "group_loop wd wo cur index gs = gs @ [cur]"
      using True by (subst group_loop.simps) auto
    ultimately show ?thesis using True "1.prems"(4) by simp
  next
    case False
    show ?thesis
    proof (cases "find (at_input (index + 1)) wd")
      case (Some c)
      then have c: "c \<in> set wd" "at_input (index + 1) c" using find_Some_in by fast+
      let ?cur = "cur\<lparr>sg_connections := sg_connections cur @ [c]\<rparr>"
      have "sg_complete cur = (sg_complete cur \<and> D c)" using c "1.prems"(1) by simp
      from group_open_push [OF "1.prems"(3) c(2) this]
      have "group_open D (remove1 c wd @ wo) ?cur (index + 1)" by simp
      moreover have "\<forall>a \<in> set (remove1 c wd). D a" using "1.prems"(1) set_remove1_subset by fast
      moreover have "group_loop wd wo cur index gs = group_loop (remove1 c wd) wo ?cur (index + 1) gs"
        using False Some by (subst group_loop.simps) auto
      moreover have "mset wd = add_mset c (mset (remove1 c wd))" using c(1) by simp
      ultimately show ?thesis using "1.IH"(3) [OF False Some _ "1.prems"(2) _ "1.prems"(4)] by simp
    next
      case wdNone: None
      show ?thesis
      proof (cases "find (at_input (index + 1)) wo")
        case (Some c)
        then have c: "c \<in> set wo" "at_input (index + 1) c" using find_Some_in by fast+
        let ?cur = "cur\<lparr>sg_connections := sg_connections cur @ [c], sg_complete := False\<rparr>"
        have "False = (sg_complete cur \<and> D c)" using c "1.prems"(2) by simp
        from group_open_push [OF "1.prems"(3) c(2) this]
        have "group_open D (wd @ remove1 c wo) ?cur (index + 1)" .
        moreover have "\<forall>a \<in> set (remove1 c wo). \<not> D a" using "1.prems"(2) set_remove1_subset by fast
        moreover have "group_loop wd wo cur index gs = group_loop wd (remove1 c wo) ?cur (index + 1) gs"
          using False wdNone Some by (subst group_loop.simps) auto
        moreover have "mset wo = add_mset c (mset (remove1 c wo))" using c(1) by simp
        ultimately show ?thesis using "1.IH"(2) [OF False wdNone Some "1.prems"(1) _ _ "1.prems"(4)] by simp
      next
        case None
        have gap: "\<not> (\<exists>c \<in> set (wd @ wo). at_input (index + 1) c)"
          using find_None_all [OF wdNone] find_None_all [OF None] by auto
        with "1.prems"(3) have "sg_connections cur \<noteq> []" "group_ok D cur"
          by (auto simp: group_open_def group_ok_def split: if_splits)
        then have gs: "\<forall>gr \<in> set (gs @ [cur]). group_ok D gr \<and> sg_connections gr \<noteq> []" using "1.prems"(4) by auto
        have "group_open D (wd @ wo) newGroup (lowest_input (wd @ wo) - 1)"
          using lowest_input_exists [of "wd @ wo"] False by (simp add: group_open_def newGroup_def)
        moreover have "group_loop wd wo cur index gs
            = group_loop wd wo newGroup (lowest_input (wd @ wo) - 1) (gs @ [cur])"
          using False wdNone None by (subst group_loop.simps) auto
        ultimately show ?thesis
          using "1.IH"(1) [OF False wdNone None "1.prems"(1,2) _ gs] by (simp add: newGroup_def)
      qed
    qed
  qed
qed

lemma group_loop_start:
  assumes "\<forall>c \<in> set wd. D c" and "\<forall>c \<in> set wo. \<not> D c" and "group_open D (wd @ wo) newGroup index"
  shows "(\<forall>gr \<in> set (group_loop wd wo newGroup index []). group_ok D gr \<and> sg_connections gr \<noteq> [])
    \<and> mset (concat (map sg_connections (group_loop wd wo newGroup index []))) = mset wd + mset wo"
  using group_loop_correct [OF assms, of "[]"] by (simp add: newGroup_def)

lemma getSourceDataGroups_correct:
  defines "conns \<equiv> \<lambda>g n. getConnections g (Some n)"
  shows "(\<forall>gr \<in> set (getSourceDataGroups compare g n runData pinData).
       group_ok (has_source_data runData pinData) gr \<and> sg_connections gr \<noteq> [])
    \<and> mset (concat (map sg_connections (getSourceDataGroups compare g n runData pinData)))
      = mset (filter (\<lambda>c. has_source_data runData pinData c \<or> gc_type c = Main_type) (conns g n))"
proof -
  let ?D = "has_source_data runData pinData"
  let ?wd = "filter ?D (conns g n)" and ?wo = "filter (\<lambda>c. \<not> ?D c \<and> gc_type c = Main_type) (conns g n)"
  let ?swd = "js_sort (sortByInputIndexThenByName compare) ?wd"
  let ?swo = "js_sort (sortByInputIndexThenByName compare) ?wo"
  have split: "mset (filter (\<lambda>c. ?D c \<or> gc_type c = Main_type) cs)
      = mset (filter ?D cs) + mset (filter (\<lambda>c. \<not> ?D c \<and> gc_type c = Main_type) cs)" for cs
    by (induction cs) auto
  show ?thesis
  proof (cases "?wd = [] \<and> ?wo = []")
    case True
    then have "getSourceDataGroups compare g n runData pinData = []"
      unfolding getSourceDataGroups_def Let_def conns_def by simp
    with True split [of "conns g n"] show ?thesis by simp
  next
    case False
    have "?swd @ ?swo \<noteq> []"
    proof
      assume "?swd @ ?swo = []"
      then have "set ?swd = {}" "set ?swo = {}" by simp_all
      then have "set ?wd = {}" "set ?wo = {}" unfolding set_js_sort .
      with False show False by simp
    qed
    from lowest_input_exists [OF this]
    have opn: "group_open ?D (?swd @ ?swo) newGroup (lowest_input (?swd @ ?swo) - 1)"
      by (simp add: group_open_def newGroup_def)
    have eq: "getSourceDataGroups compare g n runData pinData
        = group_loop ?swd ?swo newGroup (lowest_input (?swd @ ?swo) - 1) []"
      using False unfolding getSourceDataGroups_def Let_def conns_def by (simp only: if_False)
    have D: "\<forall>c \<in> set ?swd. ?D c" "\<forall>c \<in> set ?swo. \<not> ?D c" by simp_all
    from group_loop_start [OF D opn] show ?thesis unfolding eq split mset_js_sort .
  qed
qed

section \<open>The execution stack\<close>

text \<open>Objects indexed by run number: integer keys, in ascending order.\<close>

fun index_put :: "nat \<Rightarrow> 'v \<Rightarrow> (nat \<times> 'v) list \<Rightarrow> (nat \<times> 'v) list" where
  "index_put n v [] = [(n, v)]"
| "index_put n v ((m, w) # es) =
     (if n < m then (n, v) # (m, w) # es
      else if n = m then (m, v) # es else (m, w) # index_put n v es)"

definition get_or :: "'v \<Rightarrow> 'v option \<Rightarrow> 'v" where
  "get_or d x = (case x of None \<Rightarrow> d | Some v \<Rightarrow> v)"

definition addWaitingExecution ::
    "string \<Rightarrow> nat \<Rightarrow> string \<Rightarrow> nat \<Rightarrow> exec_item list option \<Rightarrow> waiting_execution \<Rightarrow> waiting_execution" where
  "addWaitingExecution nodeName runIndex inputType inputIndex executionData waiting =
     (let runs = get_or [] (map_of waiting nodeName);
          connections = get_or [] (map_of runs runIndex);
          dataList = get_or [] (map_of connections inputType)
      in obj_put nodeName
           (index_put runIndex (obj_put inputType (arr_put None inputIndex executionData dataList) connections) runs)
           waiting)"

definition addWaitingExecutionSource ::
    "string \<Rightarrow> nat \<Rightarrow> string \<Rightarrow> nat \<Rightarrow> source_data option \<Rightarrow> waiting_source \<Rightarrow> waiting_source" where
  "addWaitingExecutionSource nodeName runIndex inputType inputIndex sourceData waiting =
     (let runs = get_or [] (map_of waiting nodeName);
          connections = get_or [] (map_of runs runIndex);
          sourceList = get_or [] (map_of connections inputType)
      in obj_put nodeName
           (index_put runIndex (obj_put inputType (arr_put None inputIndex sourceData sourceList) connections) runs)
           waiting)"

record stack_state =
  st_stack :: "execute_data list"
  st_waiting :: waiting_execution
  st_waitingSource :: waiting_source

text \<open>One connection of a complete group: its data, if the source has some, and its source entry.\<close>

definition complete_connection ::
    "run_data \<Rightarrow> pin_data \<Rightarrow> gconn \<Rightarrow> exec_item list option list \<times> source_data option list
      \<Rightarrow> (exec_item list option list \<times> source_data option list) result" where
  "complete_connection runData pinData c = (\<lambda>(incomingData, sources).
     let sourceName = node_name (gc_from c);
         source = (\<lambda>runIndex. Some \<lparr>previousNode = sourceName, previousNodeOutput = Some (gc_outputIndex c),
                     previousNodeRun = Some runIndex\<rparr>)
     in case map_of pinData sourceName of
          Some items \<Rightarrow> Inr (incomingData @ [Some items], sources @ [source 0])
        | None \<Rightarrow>
            res_bind (assert_ok (map_of runData sourceName \<noteq> None) ''no run or pinned data'') (\<lambda>_.
            res_bind (getIncomingDataFromAnyRun runData sourceName (gc_type c) (gc_outputIndex c)) (\<lambda>r.
              case r of
                None \<Rightarrow> Inr (incomingData, sources @ [source 0])
              | Some (items, runIndex) \<Rightarrow> Inr (incomingData @ [Some items], sources @ [source runIndex]))))"

definition waiting_connection ::
    "run_data \<Rightarrow> inode \<Rightarrow> nat \<Rightarrow> gconn \<Rightarrow> stack_state \<Rightarrow> stack_state result" where
  "waiting_connection runData startNode nextRunIndex c st =
     res_bind (getIncomingDataFromAnyRun runData (node_name (gc_from c)) (gc_type c) (gc_outputIndex c)) (\<lambda>r.
       case r of
         None \<Rightarrow> Inr st
       | Some (items, _) \<Rightarrow> Inr (st\<lparr>
           st_waiting := addWaitingExecution (node_name startNode) nextRunIndex (gc_type c) (gc_inputIndex c)
             (Some items) (st_waiting st),
           st_waitingSource := addWaitingExecutionSource (node_name startNode) nextRunIndex (gc_type c) (gc_inputIndex c)
             (Some \<lparr>previousNode = node_name (gc_from c), previousNodeOutput = Some (gc_outputIndex c),
                previousNodeRun = Some nextRunIndex\<rparr>) (st_waitingSource st)\<rparr>))"

definition execute_entry :: "inode \<Rightarrow> exec_item list option list \<Rightarrow> task_sources option \<Rightarrow> execute_data" where
  "execute_entry n incoming source =
     \<lparr>ex_node = n, ex_data = [(Main_type, incoming)], ex_source = source, ex_metadata = None, ex_runIndex = None\<rparr>"

definition empty_item :: exec_item where
  "empty_item = \<lparr>item_json = [], item_pairedItem = None, item_error = None\<rparr>"

definition stack_group ::
    "run_data \<Rightarrow> pin_data \<Rightarrow> inode \<Rightarrow> source_group \<Rightarrow> stack_state \<Rightarrow> stack_state result" where
  "stack_group runData pinData startNode gr st =
     (if sg_complete gr then
        res_bind (for_each (complete_connection runData pinData) (sg_connections gr) ([], []))
          (\<lambda>(incomingData, sources).
             Inr (st\<lparr>st_stack := st_stack st @ [execute_entry startNode incomingData (Some [(Main_type, sources)])]\<rparr>))
      else
        let nextRunIndex = (case map_of (st_waiting st) (node_name startNode) of None \<Rightarrow> 0 | Some runs \<Rightarrow> length runs)
        in for_each (waiting_connection runData startNode nextRunIndex) (sg_connections gr) st)"

definition recreateNodeExecutionStack ::
    "(string \<Rightarrow> string \<Rightarrow> int) \<Rightarrow> directed_graph \<Rightarrow> inode list \<Rightarrow> run_data \<Rightarrow> pin_data \<Rightarrow> stack_state result" where
  "recreateNodeExecutionStack compare graph startNodes runData pinData =
     res_bind (for_each (\<lambda>n _. assert_ok (\<not> is_disabled n) ''Graph contains disabled nodes'')
                (map_values (dg_getNodes graph)) ()) (\<lambda>_.
       for_each (\<lambda>startNode st.
           res_bind (getDirectParentConnections graph startNode) (\<lambda>parents.
             if filter (\<lambda>c. gc_type c = Main_type) parents = []
             then Inr (st\<lparr>st_stack := st_stack st @ [execute_entry startNode [Some [empty_item]] None]\<rparr>)
             else for_each (stack_group runData pinData startNode)
                    (getSourceDataGroups compare graph startNode runData pinData) st))
         startNodes \<lparr>st_stack = [], st_waiting = [], st_waitingSource = []\<rparr>)"

text \<open>Reading back what was written, and nothing else changed.\<close>

definition waiting_at :: "(string \<times> (nat \<times> (string \<times> 'a option list) list) list) list \<Rightarrow> string \<Rightarrow> nat \<Rightarrow> string \<Rightarrow> nat \<Rightarrow> 'a option" where
  "waiting_at w nm run ty i =
     Option.bind (Option.bind (Option.bind (map_of w nm) (\<lambda>runs. map_of runs run)) (\<lambda>cs. map_of cs ty))
       (\<lambda>xs. Option.bind (arr_get xs i) (\<lambda>x. x))"

lemma map_of_index_put: "map_of (index_put n v m) = (map_of m)(n \<mapsto> v)"
  by (induction n v m rule: index_put.induct) (auto simp: fun_eq_iff)

lemma arr_get_put: "Option.bind (arr_get (arr_put None i d xs) j) (\<lambda>x. x)
    = (if j = i then d else Option.bind (arr_get xs j) (\<lambda>x. x))"
  by (auto simp: arr_get_def length_arr_put arr_put_same arr_put_other split: bind_splits)

lemma waiting_at_write:
  "waiting_at (obj_put nm (index_put run (obj_put ty (arr_put None i d
       (get_or [] (map_of (get_or [] (map_of (get_or [] (map_of w nm)) run)) ty)))
       (get_or [] (map_of (get_or [] (map_of w nm)) run))) (get_or [] (map_of w nm))) w) nm' run' ty' i'
   = (if nm' = nm \<and> run' = run \<and> ty' = ty \<and> i' = i then d else waiting_at w nm' run' ty' i')"
proof -
  have e: "Option.bind (arr_get [] i') (\<lambda>x. x) = None" by (simp add: arr_get_def)
  show ?thesis
    by (cases "map_of w nm"; cases "map_of (get_or [] (map_of w nm)) run";
        cases "map_of (get_or [] (map_of (get_or [] (map_of w nm)) run)) ty")
      (auto simp: waiting_at_def js_obj.lookup_put map_of_index_put get_or_def arr_get_put e)
qed

lemma waiting_at_addWaitingExecution:
  "waiting_at (addWaitingExecution nm run ty i d w) nm' run' ty' i'
   = (if nm' = nm \<and> run' = run \<and> ty' = ty \<and> i' = i then d else waiting_at w nm' run' ty' i')"
  unfolding addWaitingExecution_def Let_def by (rule waiting_at_write)

lemma waiting_at_addWaitingExecutionSource:
  "waiting_at (addWaitingExecutionSource nm run ty i d w) nm' run' ty' i'
   = (if nm' = nm \<and> run' = run \<and> ty' = ty \<and> i' = i then d else waiting_at w nm' run' ty' i')"
  unfolding addWaitingExecutionSource_def Let_def by (rule waiting_at_write)

text \<open>The items a connection brings: pinned ones first, then those of the first run that has some.\<close>

definition connection_items :: "run_data \<Rightarrow> pin_data \<Rightarrow> gconn \<Rightarrow> exec_item list option" where
  "connection_items runData pinData c =
     (case map_of pinData (node_name (gc_from c)) of
        Some items \<Rightarrow> Some items
      | None \<Rightarrow> (case find (has_items (gc_type c) (gc_outputIndex c)) (runs_of runData (node_name (gc_from c))) of
            None \<Rightarrow> None | Some td \<Rightarrow> output_items td (gc_type c) (gc_outputIndex c)))"

lemma find_nth: "find (\<lambda>i. P (xs ! i)) [0..<length xs] = None \<longleftrightarrow> find P xs = None"
  "find (\<lambda>i. P (xs ! i)) [0..<length xs] = Some i \<Longrightarrow> find P xs = Some (xs ! i)"
proof -
  show "find (\<lambda>i. P (xs ! i)) [0..<length xs] = None \<longleftrightarrow> find P xs = None"
    by (simp add: find_None_iff Bex_def) (metis in_set_conv_nth)
  assume "find (\<lambda>i. P (xs ! i)) [0..<length xs] = Some i"
  then show "find P xs = Some (xs ! i)" by (auto simp: find_Some_iff)
qed

lemma complete_connection_ok:
  assumes "has_source_data runData pinData c" and "typed_runs runData (node_name (gc_from c)) (gc_type c)"
  shows "\<exists>run. complete_connection runData pinData c (ins, srcs) =
    Inr (ins @ (case connection_items runData pinData c of None \<Rightarrow> [] | Some d \<Rightarrow> [Some d]),
         srcs @ [Some \<lparr>previousNode = node_name (gc_from c), previousNodeOutput = Some (gc_outputIndex c),
                   previousNodeRun = Some run\<rparr>])"
proof (cases "map_of pinData (node_name (gc_from c))")
  case (Some items)
  then show ?thesis by (simp add: complete_connection_def connection_items_def Let_def)
next
  case None
  let ?runs = "runs_of runData (node_name (gc_from c))"
  let ?P = "has_items (gc_type c) (gc_outputIndex c)"
  have some: "map_of runData (node_name (gc_from c)) \<noteq> None" using assms(1) None by (simp add: has_source_data_def)
  note get = getIncomingDataFromAnyRun_eq [OF assms(2), of "gc_outputIndex c"]
  show ?thesis
  proof (cases "find (\<lambda>i. ?P (?runs ! i)) [0..<length ?runs]")
    case n: None
    then have "find ?P ?runs = None" by (simp add: find_nth(1))
    with None some get n show ?thesis
      by (simp add: complete_connection_def connection_items_def Let_def)
  next
    case (Some i)
    from find_nth(2) [OF this] have f: "find ?P ?runs = Some (?runs ! i)" .
    with find_Some_in [OF this] obtain x xs where "output_items (?runs ! i) (gc_type c) (gc_outputIndex c) = Some (x # xs)"
      by (auto simp: has_items_def)
    with None some get Some f show ?thesis
      by (simp add: complete_connection_def connection_items_def Let_def)
  qed
qed

lemma complete_group_ok:
  assumes "\<forall>c \<in> set cs. has_source_data runData pinData c \<and> typed_runs runData (node_name (gc_from c)) (gc_type c)"
  shows "\<exists>srcs. for_each (complete_connection runData pinData) cs (ins, srcs0) =
      Inr (ins @ map Some (List.map_filter (connection_items runData pinData) cs), srcs0 @ srcs)
    \<and> map (map_option previousNode) srcs = map (\<lambda>c. Some (node_name (gc_from c))) cs"
  using assms
proof (induction cs arbitrary: ins srcs0)
  case Nil
  then show ?case by (simp add: List.map_filter_simps)
next
  case (Cons c cs)
  from complete_connection_ok [of runData pinData c ins srcs0] Cons.prems obtain run where
    one: "complete_connection runData pinData c (ins, srcs0) =
    Inr (ins @ (case connection_items runData pinData c of None \<Rightarrow> [] | Some d \<Rightarrow> [Some d]),
         srcs0 @ [Some \<lparr>previousNode = node_name (gc_from c), previousNodeOutput = Some (gc_outputIndex c),
                   previousNodeRun = Some run\<rparr>])" by auto
  from Cons.IH [of "ins @ (case connection_items runData pinData c of None \<Rightarrow> [] | Some d \<Rightarrow> [Some d])"
      "srcs0 @ [Some \<lparr>previousNode = node_name (gc_from c), previousNodeOutput = Some (gc_outputIndex c),
                   previousNodeRun = Some run\<rparr>]"] Cons.prems obtain srcs where
    "for_each (complete_connection runData pinData) cs
       (ins @ (case connection_items runData pinData c of None \<Rightarrow> [] | Some d \<Rightarrow> [Some d]),
        srcs0 @ [Some \<lparr>previousNode = node_name (gc_from c), previousNodeOutput = Some (gc_outputIndex c),
                   previousNodeRun = Some run\<rparr>]) =
      Inr ((ins @ (case connection_items runData pinData c of None \<Rightarrow> [] | Some d \<Rightarrow> [Some d]))
          @ map Some (List.map_filter (connection_items runData pinData) cs),
        (srcs0 @ [Some \<lparr>previousNode = node_name (gc_from c), previousNodeOutput = Some (gc_outputIndex c),
                   previousNodeRun = Some run\<rparr>]) @ srcs)"
    "map (map_option previousNode) srcs = map (\<lambda>c. Some (node_name (gc_from c))) cs" by auto
  with one show ?case
    by (intro exI [of _ "Some \<lparr>previousNode = node_name (gc_from c), previousNodeOutput = Some (gc_outputIndex c),
                   previousNodeRun = Some run\<rparr> # srcs"])
      (auto simp: List.map_filter_simps split: option.split)
qed

text \<open>An entry of the stack for a complete group, and one for a start node without main inputs.\<close>

definition group_entry :: "run_data \<Rightarrow> pin_data \<Rightarrow> inode \<Rightarrow> source_group \<Rightarrow> execute_data \<Rightarrow> bool" where
  "group_entry runData pinData n gr e \<longleftrightarrow> (\<exists>srcs. e = execute_entry n
       (map Some (List.map_filter (connection_items runData pinData) (sg_connections gr))) (Some [(Main_type, srcs)])
     \<and> map (map_option previousNode) srcs = map (\<lambda>c. Some (node_name (gc_from c))) (sg_connections gr))"

definition waiting_only :: "string set \<Rightarrow> stack_state \<Rightarrow> bool" where
  "waiting_only A st \<longleftrightarrow> fst ` set (st_waiting st) \<subseteq> A \<and> fst ` set (st_waitingSource st) = fst ` set (st_waiting st)"

lemma addWaiting_keys:
  "fst ` set (addWaitingExecution nm run ty i d w) = insert nm (fst ` set w)"
  "fst ` set (addWaitingExecutionSource nm run ty i e v) = insert nm (fst ` set v)"
  by (simp_all add: addWaitingExecution_def addWaitingExecutionSource_def Let_def js_obj.keys_put)

lemma waiting_group_ok:
  assumes "\<forall>c \<in> set cs. typed_runs runData (node_name (gc_from c)) (gc_type c)" and "waiting_only A st"
  shows "\<exists>st'. for_each (waiting_connection runData n run) cs st = Inr st' \<and> st_stack st' = st_stack st
    \<and> waiting_only (insert (node_name n) A) st'"
  using assms
proof (induction cs arbitrary: st A)
  case Nil
  then show ?case by (auto simp: waiting_only_def)
next
  case (Cons c cs)
  have "typed_runs runData (node_name (gc_from c)) (gc_type c)" using Cons.prems(1) by simp
  note get = getIncomingDataFromAnyRun_eq [OF this, of "gc_outputIndex c"]
  have "\<exists>st1. waiting_connection runData n run c st = Inr st1 \<and> st_stack st1 = st_stack st
      \<and> waiting_only (insert (node_name n) A) st1"
    using Cons.prems(2) unfolding waiting_connection_def get
    by (auto simp: waiting_only_def addWaiting_keys split: option.split)
  then obtain st1 where st1: "waiting_connection runData n run c st = Inr st1" "st_stack st1 = st_stack st"
    "waiting_only (insert (node_name n) A) st1" by blast
  from Cons.IH [OF _ st1(3)] Cons.prems(1) st1 show ?case by (auto simp: insert_absorb2)
qed

lemma stack_groups_ok:
  assumes "\<forall>gr \<in> set grs. group_ok (has_source_data runData pinData) gr
      \<and> (\<forall>c \<in> set (sg_connections gr). typed_runs runData (node_name (gc_from c)) (gc_type c))"
    and "waiting_only A st"
  shows "\<exists>st' es. for_each (stack_group runData pinData n) grs st = Inr st'
    \<and> st_stack st' = st_stack st @ es \<and> list_all2 (group_entry runData pinData n) (filter sg_complete grs) es
    \<and> waiting_only (if \<exists>gr \<in> set grs. \<not> sg_complete gr then insert (node_name n) A else A) st'"
  using assms
proof (induction grs arbitrary: st A)
  case Nil
  then show ?case by simp
next
  case (Cons gr grs)
  have typed: "\<forall>c \<in> set (sg_connections gr). typed_runs runData (node_name (gc_from c)) (gc_type c)"
    and okg: "group_ok (has_source_data runData pinData) gr" using Cons.prems(1) by simp_all
  show ?case
  proof (cases "sg_complete gr")
    case True
    then have "\<forall>c \<in> set (sg_connections gr). has_source_data runData pinData c
        \<and> typed_runs runData (node_name (gc_from c)) (gc_type c)" using okg typed by (simp add: group_ok_def)
    from complete_group_ok [OF this, of "[]" "[]"] obtain srcs where
      run: "for_each (complete_connection runData pinData) (sg_connections gr) ([], []) =
        Inr (map Some (List.map_filter (connection_items runData pinData) (sg_connections gr)), srcs)"
      and srcs: "map (map_option previousNode) srcs = map (\<lambda>c. Some (node_name (gc_from c))) (sg_connections gr)" by auto
    let ?e = "execute_entry n (map Some (List.map_filter (connection_items runData pinData) (sg_connections gr)))
        (Some [(Main_type, srcs)])"
    let ?st = "st\<lparr>st_stack := st_stack st @ [?e]\<rparr>"
    have one: "stack_group runData pinData n gr st = Inr ?st" using True run by (simp add: stack_group_def)
    have "waiting_only A ?st" using Cons.prems(2) by (simp add: waiting_only_def)
    from Cons.IH [OF _ this] Cons.prems(1) obtain st' es where
      "for_each (stack_group runData pinData n) grs ?st = Inr st'" "st_stack st' = st_stack ?st @ es"
      "list_all2 (group_entry runData pinData n) (filter sg_complete grs) es"
      "waiting_only (if \<exists>gr \<in> set grs. \<not> sg_complete gr then insert (node_name n) A else A) st'" by auto
    moreover have "group_entry runData pinData n gr ?e" using srcs by (auto simp: group_entry_def)
    ultimately show ?thesis using one True by (intro exI [of _ st'] exI [of _ "?e # es"]) simp
  next
    case False
    define run where "run = (case map_of (st_waiting st) (node_name n) of None \<Rightarrow> 0 | Some runs \<Rightarrow> length runs)"
    from waiting_group_ok [OF typed Cons.prems(2), of n run] obtain st1 where
      st1: "for_each (waiting_connection runData n run) (sg_connections gr) st = Inr st1" "st_stack st1 = st_stack st"
      "waiting_only (insert (node_name n) A) st1" by blast
    have one: "stack_group runData pinData n gr st = Inr st1"
      using False st1(1) by (simp add: stack_group_def run_def Let_def)
    from Cons.IH [OF _ st1(3)] Cons.prems(1) obtain st' es where
      "for_each (stack_group runData pinData n) grs st1 = Inr st'" "st_stack st' = st_stack st1 @ es"
      "list_all2 (group_entry runData pinData n) (filter sg_complete grs) es"
      "waiting_only (insert (node_name n) A) st'" by (auto split: if_splits)
    with one st1(2) False show ?thesis by (intro exI [of _ st'] exI [of _ es]) simp
  qed
qed

definition main_inputs :: "directed_graph \<Rightarrow> inode \<Rightarrow> gconn list" where
  "main_inputs g n = filter (\<lambda>c. gc_type c = Main_type) (getConnections g (Some n))"

definition incomplete_names :: "(inode \<Rightarrow> source_group list) \<Rightarrow> directed_graph \<Rightarrow> inode set \<Rightarrow> string set" where
  "incomplete_names G g N = {node_name n | n. n \<in> N \<and> main_inputs g n \<noteq> [] \<and> (\<exists>gr \<in> set (G n). \<not> sg_complete gr)}"

definition entries_for :: "(inode \<Rightarrow> source_group list) \<Rightarrow> directed_graph \<Rightarrow> run_data \<Rightarrow> pin_data \<Rightarrow> inode \<Rightarrow> execute_data list \<Rightarrow> bool" where
  "entries_for G g runData pinData n es \<longleftrightarrow>
     (if main_inputs g n = [] then es = [execute_entry n [Some [empty_item]] None]
      else list_all2 (group_entry runData pinData n) (filter sg_complete (G n)) es)"

lemma recreate_correct:
  defines "G \<equiv> \<lambda>compare g runData pinData n. getSourceDataGroups compare g n runData pinData"
  assumes wf: "graph_wf g" and "\<forall>n \<in> graph_nodes g. \<not> is_disabled n"
    and "set startNodes \<subseteq> graph_nodes g" and ok: "run_data_ok g runData"
  shows "\<exists>st ess. recreateNodeExecutionStack compare g startNodes runData pinData = Inr st
    \<and> st_stack st = concat ess \<and> list_all2 (entries_for (G compare g runData pinData) g runData pinData) startNodes ess
    \<and> waiting_only (incomplete_names (G compare g runData pinData) g (set startNodes)) st"
proof -
  let ?G = "G compare g runData pinData"
  let ?f = "\<lambda>n st. res_bind (getDirectParentConnections g n) (\<lambda>parents.
      if filter (\<lambda>c. gc_type c = Main_type) parents = []
      then Inr (st\<lparr>st_stack := st_stack st @ [execute_entry n [Some [empty_item]] None]\<rparr>)
      else for_each (stack_group runData pinData n) (?G n) st)"
  let ?init = "\<lparr>st_stack = [], st_waiting = [], st_waitingSource = []\<rparr>"
  have en: "for_each (\<lambda>n _. assert_ok (\<not> is_disabled n) ''Graph contains disabled nodes'') ns () = Inr ()"
    if "\<forall>n \<in> set ns. \<not> is_disabled n" for ns using that by (induction ns) auto
  have "\<exists>t. for_each ?f startNodes ?init = Inr t \<and> (\<exists>ess. st_stack t = concat ess
      \<and> list_all2 (entries_for ?G g runData pinData) startNodes ess \<and> waiting_only (incomplete_names ?G g (set startNodes)) t)"
  proof (rule for_each_total [where P = "\<lambda>us t. \<exists>ess. st_stack t = concat ess
      \<and> list_all2 (entries_for ?G g runData pinData) us ess \<and> waiting_only (incomplete_names ?G g (set us)) t"])
    show "\<exists>ess. st_stack ?init = concat ess \<and> list_all2 (entries_for ?G g runData pinData) [] ess
        \<and> waiting_only (incomplete_names ?G g (set [])) ?init"
      by (intro exI [of _ "[]"]) (simp add: waiting_only_def)
  next
    fix ys n zs t
    assume split: "startNodes = ys @ n # zs" and "\<exists>ess. st_stack t = concat ess
      \<and> list_all2 (entries_for ?G g runData pinData) ys ess \<and> waiting_only (incomplete_names ?G g (set ys)) t"
    then obtain ess where P: "st_stack t = concat ess" "list_all2 (entries_for ?G g runData pinData) ys ess"
      "waiting_only (incomplete_names ?G g (set ys)) t" by blast
    have "n \<in> graph_nodes g" using assms(4) split by auto
    note par = getDirectParentConnections_wf [OF wf this]
    have par': "filter (\<lambda>c. gc_to c = n) (map_values (g_conns g)) = getConnections g (Some n)"
      by (simp add: getConnections_def)
    have mono: "incomplete_names ?G g (set ys) \<subseteq> incomplete_names ?G g (set (ys @ [n]))"
      by (auto simp: incomplete_names_def)
    show "\<exists>t'. ?f n t = Inr t' \<and> (\<exists>ess. st_stack t' = concat ess
      \<and> list_all2 (entries_for ?G g runData pinData) (ys @ [n]) ess \<and> waiting_only (incomplete_names ?G g (set (ys @ [n]))) t')"
    proof (cases "main_inputs g n = []")
      case True
      let ?e = "[execute_entry n [Some [empty_item]] None]"
      have "?f n t = Inr (t\<lparr>st_stack := st_stack t @ ?e\<rparr>)"
        using True by (simp add: par par' main_inputs_def)
      moreover have "waiting_only (incomplete_names ?G g (set (ys @ [n]))) (t\<lparr>st_stack := st_stack t @ ?e\<rparr>)"
        using P(3) mono by (auto simp: waiting_only_def)
      moreover have "list_all2 (entries_for ?G g runData pinData) (ys @ [n]) (ess @ [?e])"
        using P(2) True by (intro list_all2_appendI) (simp_all add: entries_for_def)
      moreover have "st_stack (t\<lparr>st_stack := st_stack t @ ?e\<rparr>) = concat (ess @ [?e])" using P(1) by simp
      ultimately show ?thesis by blast
    next
      case False
      note groups = getSourceDataGroups_correct [of compare g n runData pinData]
      have typed: "typed_runs runData (node_name (gc_from c)) (gc_type c)"
        if "gr \<in> set (?G n)" "c \<in> set (sg_connections gr)" for gr c
      proof -
        have "c \<in># mset (concat (map sg_connections (?G n)))" using that by auto
        then have "c \<in># mset (filter (\<lambda>c. has_source_data runData pinData c \<or> gc_type c = Main_type) (getConnections g (Some n)))"
          using conjunct2 [OF groups] unfolding G_def by simp
        then have "c \<in> graph_conns g" by (auto simp: getConnections_def)
        with ok show ?thesis unfolding run_data_ok_def by blast
      qed
      have "\<forall>gr \<in> set (?G n). group_ok (has_source_data runData pinData) gr
          \<and> (\<forall>c \<in> set (sg_connections gr). typed_runs runData (node_name (gc_from c)) (gc_type c))"
        using typed conjunct1 [OF groups] unfolding G_def by blast
      from stack_groups_ok [OF this P(3), of n] obtain t' es where
        t': "for_each (stack_group runData pinData n) (?G n) t = Inr t'" "st_stack t' = st_stack t @ es"
        "list_all2 (group_entry runData pinData n) (filter sg_complete (?G n)) es"
        "waiting_only (if \<exists>gr \<in> set (?G n). \<not> sg_complete gr then insert (node_name n) (incomplete_names ?G g (set ys))
           else incomplete_names ?G g (set ys)) t'" by blast
      have "?f n t = Inr t'"
        using False t'(1) by (simp add: par par' main_inputs_def)
      moreover have "(if \<exists>gr \<in> set (?G n). \<not> sg_complete gr then insert (node_name n) (incomplete_names ?G g (set ys))
           else incomplete_names ?G g (set ys)) \<subseteq> incomplete_names ?G g (set (ys @ [n]))"
        using False mono by (auto simp: incomplete_names_def)
      with t'(4) have "waiting_only (incomplete_names ?G g (set (ys @ [n]))) t'"
        unfolding waiting_only_def by blast
      moreover have "list_all2 (entries_for ?G g runData pinData) (ys @ [n]) (ess @ [es])"
        using P(2) False t'(3) by (intro list_all2_appendI) (simp_all add: entries_for_def)
      moreover have "st_stack t' = concat (ess @ [es])" using P(1) t'(2) by simp
      ultimately show ?thesis by blast
    qed
  qed
  then obtain t ess where t: "for_each ?f startNodes ?init = Inr t" "st_stack t = concat ess"
    "list_all2 (entries_for ?G g runData pinData) startNodes ess" "waiting_only (incomplete_names ?G g (set startNodes)) t"
    by blast
  have "recreateNodeExecutionStack compare g startNodes runData pinData = Inr t"
    unfolding recreateNodeExecutionStack_def dg_getNodes_def en [OF assms(3)] res_bind_Inr
    using t(1) unfolding G_def .
  with t show ?thesis by blast
qed

end
