(* ===== verification/Find_Trigger.thy ===== *)
theory Find_Trigger
  imports Execution_Stack
begin

text \<open>
  The choice of the trigger of a partial execution
  (\<^verbatim>\<open>partial-execution-utils/find-trigger-for-partial-execution.ts\<close>). The destination itself is
  taken if it is an enabled trigger, else an enabled trigger above it: one with run data before
  one with pinned data, before a webhook, before any other.
\<close>

definition isTriggerNode :: "node_type option \<Rightarrow> bool result" where
  "isTriggerNode nt =
     (case nt of None \<Rightarrow> Inl (TypeError ''Cannot read properties of undefined (reading description)'')
      | Some t \<Rightarrow> Inr (''trigger'' \<in> set (nt_group t)))"

definition findAllParentTriggers :: "workflow \<Rightarrow> string \<Rightarrow> inode list result" where
  "findAllParentTriggers w destinationNodeName =
     res_bind (wf_getParentNodes w destinationNodeName (OneType Main_type) (-1)) (\<lambda>names.
     res_bind (for_each (\<lambda>name nodes. case getNode w name of
                  None \<Rightarrow> Inl (AssertionError ''node'') | Some n \<Rightarrow> Inr (nodes @ [n])) names []) (\<lambda>nodes.
       for_each (\<lambda>n triggers. res_bind (isTriggerNode (node_type_of w n))
                   (\<lambda>t. Inr (if t then triggers @ [n] else triggers))) nodes []))"

definition ends_with :: "string \<Rightarrow> string \<Rightarrow> bool" where
  "ends_with s suffix \<longleftrightarrow> length suffix \<le> length s \<and> drop (length s - length suffix) s = suffix"

definition is_webhook :: "inode \<Rightarrow> bool" where
  "is_webhook n = ends_with (node_type n) ''webhook''"

definition webhook_order :: "inode \<Rightarrow> inode \<Rightarrow> int" where
  "webhook_order a b = (if is_webhook a then -1 else if is_webhook b then 1 else 0)"

definition findTriggerForPartialExecution :: "workflow \<Rightarrow> string \<Rightarrow> run_data \<Rightarrow> inode option result" where
  "findTriggerForPartialExecution w destinationNodeName runData =
     (case getNode w destinationNodeName of
        None \<Rightarrow> Inr None
      | Some dest \<Rightarrow>
          res_bind (isTriggerNode (node_type_of w dest)) (\<lambda>t.
            if t \<and> \<not> is_disabled dest then Inr (Some dest)
            else res_bind (findAllParentTriggers w destinationNodeName) (\<lambda>all.
              let parentTriggers = filter (\<lambda>n. \<not> is_disabled n) all
              in case find (\<lambda>n. map_of runData (node_name n) \<noteq> None) parentTriggers of
                   Some n \<Rightarrow> Inr (Some n)
                 | None \<Rightarrow>
                     let pinned = js_sort webhook_order
                           (filter (\<lambda>n. getPinDataOfNode w (node_name n) \<noteq> None) parentTriggers)
                     in if pinned \<noteq> [] then Inr (arr_get pinned 0)
                        else let webhooks = filter is_webhook parentTriggers
                             in Inr (if webhooks \<noteq> [] then arr_get webhooks 0 else arr_get parentTriggers 0))))"

definition anyReachableRootHasRunData :: "directed_graph \<Rightarrow> string \<Rightarrow> run_data \<Rightarrow> bool result" where
  "anyReachableRootHasRunData g destinationNodeName runData =
     (case map_of (dg_getNodes g) destinationNodeName of
        None \<Rightarrow> Inr False
      | Some dest \<Rightarrow>
          res_bind (getParentConnections g dest) (\<lambda>parentConnections.
          res_bind (for_each (\<lambda>n roots. res_bind (getDirectParentConnections g n) (\<lambda>cs.
                        Inr (if \<exists>c \<in> set cs. gc_type c = Main_type then roots else set_add n roots)))
                      (set_of (map gc_from parentConnections)) [])
            (\<lambda>roots. Inr (\<exists>n \<in> set roots. map_of runData (node_name n) \<noteq> None))))"

section \<open>The chosen trigger\<close>

text \<open>The enabled triggers above a node, and the order of preference.\<close>

definition known_types :: "workflow \<Rightarrow> bool" where
  "known_types w \<longleftrightarrow> (\<forall>n \<in> set (map_values (wf_nodes w)). node_type_of w n \<noteq> None)"

definition is_trigger :: "workflow \<Rightarrow> inode \<Rightarrow> bool" where
  "is_trigger w n \<longleftrightarrow> (case node_type_of w n of None \<Rightarrow> False | Some t \<Rightarrow> ''trigger'' \<in> set (nt_group t))"

definition triggers_above :: "workflow \<Rightarrow> string \<Rightarrow> inode set" where
  "triggers_above w dest = {n. \<not> is_disabled n \<and> is_trigger w n \<and> getNode w (node_name n) = Some n
     \<and> node_name n \<noteq> dest
     \<and> (dest, node_name n) \<in> (hop_rel (wf_connectionsByDestinationNode w) (OneType Main_type))\<^sup>+}"

definition preference :: "workflow \<Rightarrow> run_data \<Rightarrow> inode \<Rightarrow> nat" where
  "preference w runData n =
     (if map_of runData (node_name n) \<noteq> None then 0
      else if getPinDataOfNode w (node_name n) \<noteq> None then (if is_webhook n then 1 else 2)
      else if is_webhook n then 3 else 4)"

text \<open>Every parent of a workflow whose connections refer to its own nodes is a node of it.\<close>

definition parents_known :: "workflow \<Rightarrow> bool" where
  "parents_known w \<longleftrightarrow> (\<forall>(s, t, i, c) \<in> set (conn_entries (wf_connectionsByDestinationNode w)). getNode w (conn_node c) \<noteq> None)"

lemma collect_nodes:
  assumes "\<forall>nm \<in> set names. getNode w nm \<noteq> None"
  shows "for_each (\<lambda>name nodes. case getNode w name of
      None \<Rightarrow> Inl (AssertionError ''node'') | Some n \<Rightarrow> Inr (nodes @ [n])) names acc
    = Inr (acc @ map (\<lambda>nm. the (getNode w nm)) names)"
  using assms by (induction names arbitrary: acc) auto

lemma collect_triggers:
  assumes "\<forall>n \<in> set ns. node_type_of w n \<noteq> None"
  shows "for_each (\<lambda>n triggers. res_bind (isTriggerNode (node_type_of w n))
      (\<lambda>t. Inr (if t then triggers @ [n] else triggers))) ns acc = Inr (acc @ filter (is_trigger w) ns)"
  using assms by (induction ns arbitrary: acc) (auto simp: isTriggerNode_def is_trigger_def)

lemma hop_target:
  assumes "(a, b) \<in> (hop_rel cs flt)\<^sup>+"
  shows "\<exists>s t i c. (s, t, i, c) \<in> set (conn_entries cs) \<and> conn_node c = b"
proof -
  from assms obtain m where "(m, b) \<in> hop_rel cs flt" by (meson tranclD2)
  then have "b \<in> hops cs flt m" by (simp add: hop_rel_def)
  with hops_entries [of cs flt m] show ?thesis by force
qed

lemma findAllParentTriggers_correct:
  assumes "workflow_wf w" and "known_types w" and "parents_known w"
  shows "\<exists>ts. findAllParentTriggers w dest = Inr ts
    \<and> {n \<in> set ts. \<not> is_disabled n} = triggers_above w dest"
proof -
  let ?R = "hop_rel (wf_connectionsByDestinationNode w) (OneType Main_type)"
  from getConnectedNodes_reachable [of "wf_connectionsByDestinationNode w" dest "OneType Main_type"] obtain names where
    names: "wf_getParentNodes w dest (OneType Main_type) (-1) = Inr names"
      "set names = {x. (dest, x) \<in> ?R\<^sup>+ \<and> x \<noteq> dest}"
    by (auto simp: wf_getParentNodes_def getParentNodes_def)
  have known: "getNode w nm \<noteq> None" if "nm \<in> set names" for nm
  proof -
    from that names(2) have "(dest, nm) \<in> ?R\<^sup>+" by simp
    from hop_target [OF this] assms(3) show ?thesis unfolding parents_known_def by fastforce
  qed
  have node: "node_name n = nm \<and> n \<in> set (map_values (wf_nodes w))" if "getNode w nm = Some n" for nm n
    using that assms(1) unfolding getNode_def workflow_wf_def by (force dest: map_of_SomeD)
  let ?ns = "map (\<lambda>nm. the (getNode w nm)) names"
  have typed: "\<forall>n \<in> set ?ns. node_type_of w n \<noteq> None"
    using known node assms(2) unfolding known_types_def by fastforce
  have "findAllParentTriggers w dest = Inr (filter (is_trigger w) ?ns)"
    using names(1) collect_nodes [of names w "[]"] known collect_triggers [OF typed, of "[]"]
    by (simp add: findAllParentTriggers_def)
  moreover have "n \<in> set ?ns \<longleftrightarrow> getNode w (node_name n) = Some n \<and> node_name n \<in> set names" for n
  proof
    assume "n \<in> set ?ns"
    then obtain nm where nm: "nm \<in> set names" "n = the (getNode w nm)" by auto
    with known [OF nm(1)] have "getNode w nm = Some n" by auto
    moreover from node [OF this] have "node_name n = nm" by blast
    ultimately show "getNode w (node_name n) = Some n \<and> node_name n \<in> set names" using nm(1) by metis
  next
    assume n: "getNode w (node_name n) = Some n \<and> node_name n \<in> set names"
    then have "the (getNode w (node_name n)) = n" by (metis option.sel)
    with n show "n \<in> set ?ns" unfolding set_map by (metis image_eqI)
  qed
  then have "{n \<in> set (filter (is_trigger w) ?ns). \<not> is_disabled n} = triggers_above w dest"
    unfolding triggers_above_def set_filter names(2) by blast
  ultimately show ?thesis by blast
qed

text \<open>The preferred trigger of a list.\<close>

lemma js_sort_webhook_head:
  assumes "xs \<noteq> []"
  shows "\<exists>n. arr_get (js_sort webhook_order xs) 0 = Some n \<and> n \<in> set xs \<and> (is_webhook n \<or> \<not> (\<exists>m \<in> set xs. is_webhook m))"
proof -
  have web: "insert_by webhook_order x ys = x # ys" if "is_webhook x" for x ys
    using that by (cases ys) (auto simp: webhook_order_def)
  have non: "insert_by webhook_order x ys = ys @ [x]" if "\<not> is_webhook x" for x ys
    using that by (induction ys) (auto simp: webhook_order_def)
  have "\<exists>n ys. fold (insert_by webhook_order) xs [] = n # ys \<and> n \<in> set xs \<and> (is_webhook n \<or> \<not> (\<exists>m \<in> set xs. is_webhook m))"
    using assms
  proof (induction xs rule: rev_induct)
    case (snoc x xs)
    show ?case
    proof (cases "xs = []")
      case False
      with snoc.IH obtain n ys where "fold (insert_by webhook_order) xs [] = n # ys" "n \<in> set xs"
        "is_webhook n \<or> \<not> (\<exists>m \<in> set xs. is_webhook m)" by blast
      with web [of x] non [of x] show ?thesis by (cases "is_webhook x") (auto simp del: insert_by.simps)
    qed simp
  qed simp
  then show ?thesis by (auto simp: js_sort_def arr_get_def)
qed

lemma findTrigger_correct:
  assumes "workflow_wf w" and "known_types w" and "parents_known w" and "getNode w dest = Some d"
  shows "\<exists>r. findTriggerForPartialExecution w dest runData = Inr r
    \<and> (case r of
         None \<Rightarrow> \<not> (is_trigger w d \<and> \<not> is_disabled d) \<and> triggers_above w dest = {}
       | Some n \<Rightarrow> if is_trigger w d \<and> \<not> is_disabled d then n = d
           else n \<in> triggers_above w dest \<and> (\<forall>m \<in> triggers_above w dest. preference w runData n \<le> preference w runData m))"
proof -
  have "d \<in> set (map_values (wf_nodes w))" using assms(4) by (force simp: getNode_def dest: map_of_SomeD)
  with assms(2) have dt: "isTriggerNode (node_type_of w d) = Inr (is_trigger w d)"
    by (auto simp: known_types_def isTriggerNode_def is_trigger_def)
  show ?thesis
  proof (cases "is_trigger w d \<and> \<not> is_disabled d")
    case True
    with assms(4) dt show ?thesis by (simp add: findTriggerForPartialExecution_def)
  next
    case False
    from findAllParentTriggers_correct [OF assms(1-3), of dest] obtain all where
      all: "findAllParentTriggers w dest = Inr all" "{n \<in> set all. \<not> is_disabled n} = triggers_above w dest" by blast
    let ?ts = "filter (\<lambda>n. \<not> is_disabled n) all"
    let ?pin = "filter (\<lambda>n. getPinDataOfNode w (node_name n) \<noteq> None) ?ts"
    have ts: "set ?ts = triggers_above w dest" using all(2) by simp
    have run: "findTriggerForPartialExecution w dest runData = (case find (\<lambda>n. map_of runData (node_name n) \<noteq> None) ?ts of
        Some n \<Rightarrow> Inr (Some n)
      | None \<Rightarrow> if js_sort webhook_order ?pin \<noteq> [] then Inr (arr_get (js_sort webhook_order ?pin) 0)
          else Inr (if filter is_webhook ?ts \<noteq> [] then arr_get (filter is_webhook ?ts) 0 else arr_get ?ts 0))"
      unfolding findTriggerForPartialExecution_def assms(4) option.case dt res_bind_Inr if_not_P [OF False] all(1) Let_def
      by (rule refl)
    have "\<exists>r. findTriggerForPartialExecution w dest runData = Inr r
      \<and> (case r of None \<Rightarrow> set ?ts = {}
         | Some n \<Rightarrow> n \<in> set ?ts \<and> (\<forall>m \<in> set ?ts. preference w runData n \<le> preference w runData m))"
    proof (cases "find (\<lambda>n. map_of runData (node_name n) \<noteq> None) ?ts")
      case (Some n)
      from find_Some_in [OF this] have "n \<in> set ?ts" "preference w runData n = 0" by (auto simp: preference_def)
      with run Some show ?thesis by auto
    next
      case None
      then have norun: "map_of runData (node_name m) = None" if "m \<in> set ?ts" for m
        using that by (auto simp: find_None_iff)
      show ?thesis
      proof (cases "?pin = []")
        case False
        from js_sort_webhook_head [OF this] obtain n where n: "arr_get (js_sort webhook_order ?pin) 0 = Some n"
          "n \<in> set ?pin" "is_webhook n \<or> \<not> (\<exists>m \<in> set ?pin. is_webhook m)" by blast
        have "js_sort webhook_order ?pin \<noteq> []" using n(1) by (auto simp: arr_get_def)
        with run None n(1) have "findTriggerForPartialExecution w dest runData = Inr (Some n)" by simp
        moreover have "preference w runData n \<le> preference w runData m" if "m \<in> set ?ts" for m
          using n(2,3) norun that by (auto simp: preference_def)
        moreover have "n \<in> set ?ts" using n(2) by simp
        ultimately show ?thesis by (intro exI [of _ "Some n"]) auto
      next
        case True
        then have nopin: "getPinDataOfNode w (node_name m) = None" if "m \<in> set ?ts" for m
          using that by (auto simp: filter_empty_conv)
        have "js_sort webhook_order ?pin = []" unfolding True by (simp add: js_sort_def)
        with run None have r: "findTriggerForPartialExecution w dest runData
            = Inr (if filter is_webhook ?ts \<noteq> [] then arr_get (filter is_webhook ?ts) 0 else arr_get ?ts 0)" by simp
        show ?thesis
        proof (cases "filter is_webhook ?ts")
          case (Cons n ns)
          then have "n \<in> set (filter is_webhook ?ts)" by simp
          then have n: "n \<in> set ?ts" "is_webhook n" by auto
          from r Cons have "findTriggerForPartialExecution w dest runData = Inr (Some n)" by (simp add: arr_get_def)
          moreover have "preference w runData n \<le> preference w runData m" if "m \<in> set ?ts" for m
            using n norun [OF that] norun [OF n(1)] nopin [OF that] nopin [OF n(1)] by (simp add: preference_def)
          ultimately show ?thesis using n(1) by (intro exI [of _ "Some n"]) auto
        next
          case noweb_list: Nil
          then have noweb: "\<not> is_webhook m" if "m \<in> set ?ts" for m using that by (auto simp: filter_empty_conv)
          show ?thesis
          proof (cases ?ts)
            case Nil
            with r noweb_list show ?thesis by (intro exI [of _ None]) (auto simp: arr_get_def)
          next
            case (Cons n ns)
            then have n: "n \<in> set ?ts" by simp
            have "findTriggerForPartialExecution w dest runData = Inr (Some n)"
              unfolding r noweb_list using Cons by (simp add: arr_get_def)
            moreover have "preference w runData n \<le> preference w runData m" if "m \<in> set ?ts" for m
              using norun [OF that] norun [OF n] nopin [OF that] nopin [OF n] noweb [OF that] noweb [OF n]
              by (simp add: preference_def)
            ultimately show ?thesis using n by (intro exI [of _ "Some n"]) auto
          qed
        qed
      qed
    qed
    then obtain r where "findTriggerForPartialExecution w dest runData = Inr r"
      "case r of None \<Rightarrow> set ?ts = {} | Some n \<Rightarrow> n \<in> set ?ts \<and> (\<forall>m \<in> set ?ts. preference w runData n \<le> preference w runData m)"
      by blast
    with False show ?thesis unfolding ts by (intro exI [of _ r]) (auto split: option.splits)
  qed
qed

section \<open>Roots with run data\<close>

definition root_above :: "directed_graph \<Rightarrow> inode \<Rightarrow> inode \<Rightarrow> bool" where
  "root_above g dest n \<longleftrightarrow> (n, dest) \<in> (edge_rel g)\<^sup>+ \<and> \<not> (\<exists>c \<in> graph_conns g. gc_to c = n \<and> gc_type c = Main_type)"

lemma anyReachableRoot_correct:
  assumes "graph_wf g" and "map_of (g_nodes g) nm = Some dest"
  shows "anyReachableRootHasRunData g nm runData
    = Inr (\<exists>n. root_above g dest n \<and> map_of runData (node_name n) \<noteq> None)"
proof -
  have dest: "dest \<in> graph_nodes g" using assms(2) by (force dest: map_of_SomeD)
  from getParentConnections_set [OF assms(1) dest] obtain cs where
    cs: "getParentConnections g dest = Inr cs" "set cs = {c \<in> graph_conns g. (gc_to c, dest) \<in> (edge_rel g)\<^sup>*}" by blast
  have "gc_from ` set cs = {n. (n, dest) \<in> (edge_rel g)\<^sup>+}"
  proof (intro equalityI subsetI)
    fix n
    assume "n \<in> gc_from ` set cs"
    then obtain c where "c \<in> graph_conns g" "(gc_to c, dest) \<in> (edge_rel g)\<^sup>*" "n = gc_from c" unfolding cs(2) by blast
    with edge_relI [of c g] show "n \<in> {n. (n, dest) \<in> (edge_rel g)\<^sup>+}" by (auto intro: rtrancl_into_trancl2)
  next
    fix n
    assume "n \<in> {n. (n, dest) \<in> (edge_rel g)\<^sup>+}"
    then obtain m where "(n, m) \<in> edge_rel g" "(m, dest) \<in> (edge_rel g)\<^sup>*" using tranclD by fast
    then show "n \<in> gc_from ` set cs" unfolding cs(2) edge_rel_iff by blast
  qed
  then have P: "set (set_of (map gc_from cs)) = {n. (n, dest) \<in> (edge_rel g)\<^sup>+}" by simp
  let ?f = "\<lambda>n roots. res_bind (getDirectParentConnections g n) (\<lambda>cs.
      Inr (if \<exists>c \<in> set cs. gc_type c = Main_type then roots else set_add n roots))"
  let ?root = "\<lambda>n. \<not> (\<exists>c \<in> graph_conns g. gc_to c = n \<and> gc_type c = Main_type)"
  have loop: "\<exists>R. for_each ?f ns acc = Inr R \<and> set R = set acc \<union> {n \<in> set ns. ?root n}"
    if "set ns \<subseteq> graph_nodes g" for ns acc
    using that
  proof (induction ns arbitrary: acc)
    case (Cons n ns)
    then have n: "getDirectParentConnections g n = Inr (filter (\<lambda>c. gc_to c = n) (map_values (g_conns g)))"
      by (intro getDirectParentConnections_wf [OF assms(1)]) simp
    have "(\<exists>c \<in> set (filter (\<lambda>c. gc_to c = n) (map_values (g_conns g))). gc_type c = Main_type) \<longleftrightarrow> \<not> ?root n" by auto
    then have one: "?f n acc = Inr (if ?root n then set_add n acc else acc)" unfolding n res_bind_Inr by presburger
    from Cons.IH [of "if ?root n then set_add n acc else acc"] Cons.prems obtain R where
      R: "for_each ?f ns (if ?root n then set_add n acc else acc) = Inr R"
        "set R = set (if ?root n then set_add n acc else acc) \<union> {n \<in> set ns. ?root n}" by auto
    have "set R = set acc \<union> {m \<in> set (n # ns). ?root m}" unfolding R(2) by auto
    with R(1) one show ?case by (metis (no_types, lifting) for_each.simps(2) res_bind_Inr)
  qed simp
  have "set (set_of (map gc_from cs)) \<subseteq> graph_nodes g"
    unfolding P using reachable_nodes [OF assms(1)] by blast
  from loop [OF this, of "[]"] obtain R where R: "for_each ?f (set_of (map gc_from cs)) [] = Inr R"
    "set R = {n \<in> set (set_of (map gc_from cs)). ?root n}" by auto
  have "set R = {n. root_above g dest n}" unfolding R(2) P root_above_def by blast
  then show ?thesis
    using assms(2) cs(1) R(1) by (simp add: anyReachableRootHasRunData_def dg_getNodes_def)
qed

end
