(* ===== verification/Workflow_Execute.thy ===== *)
theory Workflow_Execute
  imports Execution_Stack
begin

text \<open>
  The scheduling of nodes by the engine, from \<^verbatim>\<open>packages/core/src/execution-engine/workflow-execute.ts\<close>:
  which node goes onto the execution stack when another node has produced data
  (\<^verbatim>\<open>addNodeToBeExecuted\<close>) and how a node with several inputs waits until all of them have data. The
  state is the part of \<^verbatim>\<open>runExecutionData\<close> that these methods read and write. The code tells a
  missing element of an array from null, so a waiting input is \<open>None\<close> where the array has no element,
  \<open>Some None\<close> for null and \<open>Some (Some items)\<close> once its data is there; on the stack both read as no
  data. An absent \<^verbatim>\<open>waitingExecutionSource\<close> is read as an empty one. Reading a property of undefined
  or of null raises a TypeError; a stack entry without a node, which fails when its turn comes, is
  that error at once.
\<close>

section \<open>State and small steps\<close>

type_synonym 'a pending_runs = "(string \<times> (nat \<times> (string \<times> 'a option list) list) list) list"

record exec_state =
  xs_stack :: "execute_data list"
  xs_waiting :: "exec_item list option pending_runs"
  xs_waitingSource :: "source_data pending_runs"
  xs_runData :: run_data

definition isLegacyExecutionOrder :: "workflow \<Rightarrow> bool" where
  "isLegacyExecutionOrder w \<longleftrightarrow> wf_executionOrder w \<noteq> Some ''v1''"

definition enqueue_entry :: "workflow \<Rightarrow> execute_data \<Rightarrow> exec_state \<Rightarrow> exec_state" where
  "enqueue_entry w e s =
     (if isLegacyExecutionOrder w then s\<lparr>xs_stack := xs_stack s @ [e]\<rparr> else s\<lparr>xs_stack := e # xs_stack s\<rparr>)"

definition main_of :: "(string \<times> 'a list) list \<Rightarrow> 'a list result" where
  "main_of cs = (case map_of cs Main_type of None \<Rightarrow> Inl (TypeError ''main'') | Some xs \<Rightarrow> Inr xs)"

definition stack_slots :: "(string \<times> exec_item list option option list) list \<Rightarrow> task_connections" where
  "stack_slots cs = map (\<lambda>(ty, xs). (ty, map (\<lambda>x. Option.bind x (\<lambda>x. x)) xs)) cs"

text \<open>The value at the path \<^verbatim>\<open>[node, run, 'data', 'main', index]\<close>.\<close>

definition main_output :: "run_data \<Rightarrow> string \<Rightarrow> nat \<Rightarrow> nat \<Rightarrow> exec_item list option option" where
  "main_output runData nm runIndex i =
     Option.bind (Option.bind (Option.bind (Option.bind (map_of runData nm) (\<lambda>runs. arr_get runs runIndex)) td_data)
       (\<lambda>cs. map_of cs Main_type)) (\<lambda>outs. arr_get outs i)"

fun incomingConnectionIsEmpty :: "run_data \<Rightarrow> iconnection list \<Rightarrow> nat \<Rightarrow> bool result" where
  "incomingConnectionIsEmpty runData [] runIndex = Inr True"
| "incomingConnectionIsEmpty runData (c # cs) runIndex =
     (case main_output runData (conn_node c) runIndex (conn_index c) of
        None \<Rightarrow> incomingConnectionIsEmpty runData cs runIndex
      | Some None \<Rightarrow> Inl (TypeError ''length'')
      | Some (Some items) \<Rightarrow> if items \<noteq> [] then Inr False else incomingConnectionIsEmpty runData cs runIndex)"

definition prepareWaitingToExecution :: "string \<Rightarrow> nat \<Rightarrow> nat \<Rightarrow> exec_state \<Rightarrow> exec_state" where
  "prepareWaitingToExecution nodeName numberOfConnections runIndex s =
     s\<lparr>xs_waiting := obj_put nodeName
           (index_put runIndex [(Main_type, replicate numberOfConnections (Some None))]
             (get_or [] (map_of (xs_waiting s) nodeName))) (xs_waiting s),
       xs_waitingSource := obj_put nodeName
           (index_put runIndex [(Main_type, replicate numberOfConnections None)]
             (get_or [] (map_of (xs_waitingSource s) nodeName))) (xs_waitingSource s)\<rparr>"

text \<open>The inputs of a node by index, and their number.\<close>

definition main_inputs_of :: "workflow \<Rightarrow> string \<Rightarrow> conn_bucket list" where
  "main_inputs_of w nm =
     get_or [] (Option.bind (map_of (wf_connectionsByDestinationNode w) nm) (\<lambda>tys. map_of tys Main_type))"

definition input_bucket :: "workflow \<Rightarrow> string \<Rightarrow> nat \<Rightarrow> iconnection list result" where
  "input_bucket w nm i =
     (case map_of (wf_connectionsByDestinationNode w) nm of
        None \<Rightarrow> Inl (TypeError ''connectionsByDestinationNode'')
      | Some tys \<Rightarrow> (case map_of tys Main_type of
            None \<Rightarrow> Inl (TypeError ''main'')
          | Some buckets \<Rightarrow> Inr (get_or [] (Option.bind (arr_get buckets i) (\<lambda>x. x)))))"

definition source_entry :: "string \<Rightarrow> nat \<Rightarrow> nat \<Rightarrow> source_data" where
  "source_entry parentNodeName outputIndex runIndex =
     \<lparr>previousNode = parentNodeName, previousNodeOutput = Some outputIndex, previousNodeRun = Some runIndex\<rparr>"

section \<open>Nodes with several inputs\<close>

text \<open>
  The first waiting run that has no data for the input yet; otherwise the number of waiting runs
  is taken as the index of a new one.
\<close>

definition has_slot :: "exec_item list option option list \<Rightarrow> nat \<Rightarrow> bool" where
  "has_slot inputs i \<longleftrightarrow> Option.bind (Option.bind (arr_get inputs i) (\<lambda>x. x)) (\<lambda>x. x) \<noteq> None"

fun free_run :: "nat \<Rightarrow> (nat \<times> (string \<times> exec_item list option option list) list) list \<Rightarrow> nat option result" where
  "free_run i [] = Inr None"
| "free_run i ((run, cs) # runs) =
     res_bind (main_of cs) (\<lambda>inputs. if has_slot inputs i then free_run i runs else Inr (Some run))"

definition put_waiting :: "string \<Rightarrow> nat \<Rightarrow> nat \<Rightarrow> 'a option \<Rightarrow> 'a pending_runs \<Rightarrow> 'a pending_runs result" where
  "put_waiting nm run i v waiting =
     (case map_of waiting nm of
        None \<Rightarrow> Inl (TypeError ''waitingExecution'')
      | Some runs \<Rightarrow> (case map_of runs run of
            None \<Rightarrow> Inl (TypeError ''waitingExecution'')
          | Some cs \<Rightarrow> res_bind (main_of cs) (\<lambda>inputs.
              Inr (obj_put nm (index_put run (obj_put Main_type (arr_put None i v inputs) cs) runs) waiting))))"

definition waiting_inputs :: "string \<Rightarrow> nat \<Rightarrow> 'a pending_runs \<Rightarrow> 'a option list result" where
  "waiting_inputs nm run waiting =
     (case Option.bind (map_of waiting nm) (\<lambda>runs. map_of runs run) of
        None \<Rightarrow> Inl (TypeError ''waitingExecution'')
      | Some cs \<Rightarrow> main_of cs)"

text \<open>Choosing the run and storing the data and its source there.\<close>

definition store_input ::
    "workflow \<Rightarrow> iconnection \<Rightarrow> exec_item list option option \<Rightarrow> source_data option \<Rightarrow> exec_state \<Rightarrow> (nat \<times> exec_state) result" where
  "store_input w c items src s =
     (let nm = conn_node c;
          s = (if map_of (xs_waiting s) nm = None
               then s\<lparr>xs_waiting := obj_put nm [] (xs_waiting s), xs_waitingSource := obj_put nm [] (xs_waitingSource s)\<rparr> else s);
          runs = get_or [] (map_of (xs_waiting s) nm)
      in res_bind (free_run (conn_index c) runs) (\<lambda>found.
           let run = get_or (length runs) found;
               s = (if found = None then prepareWaitingToExecution nm (length (main_inputs_of w nm)) run s else s)
           in res_bind (put_waiting nm run (conn_index c) items (xs_waiting s)) (\<lambda>waiting.
              res_bind (put_waiting nm run (conn_index c) src (xs_waitingSource s)) (\<lambda>waitingSource.
                Inr (run, s\<lparr>xs_waiting := waiting, xs_waitingSource := waitingSource\<rparr>)))))"

definition forget_run :: "string \<Rightarrow> nat \<Rightarrow> (string \<times> (nat \<times> 'a) list) list \<Rightarrow> (string \<times> (nat \<times> 'a) list) list" where
  "forget_run nm run waiting = (case map_of waiting nm of None \<Rightarrow> waiting | Some runs \<Rightarrow> obj_put nm (map_delete run runs) waiting)"

text \<open>Removing a run from waiting, and the node with its last run.\<close>

definition remove_waiting :: "string \<Rightarrow> nat \<Rightarrow> exec_state \<Rightarrow> exec_state" where
  "remove_waiting nm run s =
     (let waiting = forget_run nm run (xs_waiting s); waitingSource = forget_run nm run (xs_waitingSource s)
      in if map_of waiting nm = Some []
         then s\<lparr>xs_waiting := map_delete nm waiting, xs_waitingSource := map_delete nm waitingSource\<rparr>
         else s\<lparr>xs_waiting := waiting, xs_waitingSource := waitingSource\<rparr>)"

definition run_entry :: "string \<Rightarrow> nat \<Rightarrow> (string \<times> (nat \<times> 'a) list) list \<Rightarrow> 'a option" where
  "run_entry nm run waiting = Option.bind (map_of waiting nm) (\<lambda>runs. map_of runs run)"

definition start_waiting_run :: "workflow \<Rightarrow> inode \<Rightarrow> nat \<Rightarrow> exec_state \<Rightarrow> exec_state" where
  "start_waiting_run w n run s =
     remove_waiting (node_name n) run (enqueue_entry w
       \<lparr>ex_node = n, ex_data = stack_slots (get_or [] (run_entry (node_name n) run (xs_waiting s))),
        ex_source = run_entry (node_name n) run (xs_waitingSource s), ex_metadata = None, ex_runIndex = None\<rparr> s)"

section \<open>The inputs that nothing will feed (legacy execution order)\<close>

definition targets_of_parent :: "workflow \<Rightarrow> string \<Rightarrow> string list result" where
  "targets_of_parent w parentNodeName =
     (case map_of (wf_connectionsBySourceNode w) parentNodeName of
        None \<Rightarrow> Inl (TypeError ''connectionsBySourceNode'')
      | Some tys \<Rightarrow> Inr (map conn_node (concat (map (get_or []) (get_or [] (map_of tys Main_type))))))"

text \<open>
  The walk over the parents of an input node: \<open>None\<close> if the parent or the stack will bring the
  data, otherwise the last parent on the way that has not run.
\<close>

fun node_to_add :: "string \<Rightarrow> string list \<Rightarrow> string list \<Rightarrow> run_data \<Rightarrow> string list \<Rightarrow> string option \<Rightarrow> string option" where
  "node_to_add inputNode checkOutputNodes stackNodes runData [] acc = acc"
| "node_to_add inputNode checkOutputNodes stackNodes runData (parentNode # ps) acc =
     (if inputNode \<noteq> parentNode \<and> parentNode \<in> set checkOutputNodes then None
      else if parentNode \<in> set stackNodes then None
      else if map_of runData parentNode \<noteq> None then acc
      else node_to_add inputNode checkOutputNodes stackNodes runData ps (Some parentNode))"

definition add_input_node ::
    "workflow \<Rightarrow> string list \<Rightarrow> string \<Rightarrow> nat \<Rightarrow> exec_item list option list option \<Rightarrow> nat \<Rightarrow> iconnection \<Rightarrow> exec_state
      \<Rightarrow> exec_state result" where
  "add_input_node w checkOutputNodes parentNodeName outputIndex nodeSuccessData runIndex inputData s =
     (let stackNodes = map (\<lambda>e. node_name (ex_node e)) (xs_stack s); inputNode = conn_node inputData
      in if inputNode = parentNodeName then Inr s
         else res_bind (if inputNode \<in> set checkOutputNodes
             then res_bind (input_bucket w inputNode 0) (\<lambda>cs. res_bind (incomingConnectionIsEmpty (xs_runData s) cs runIndex) (\<lambda>empty. Inr (\<not> empty)))
             else Inr False) (\<lambda>fed.
           if fed then Inr s
           else if inputNode \<in> set stackNodes then Inr s
           else if map_of (xs_runData s) inputNode \<noteq> None then Inr s
           else if \<not> isLegacyExecutionOrder w then Inr s
           else res_bind (wf_getParentNodes w inputNode (OneType Main_type) (-1)) (\<lambda>parentNodes.
             let nodeToAdd = node_to_add inputNode checkOutputNodes stackNodes (xs_runData s)
                   (rev (parentNodes @ [inputNode])) (Some inputNode)
             in res_bind (wf_getParentNodes w (get_or ''undefined'' nodeToAdd) (OneType Main_type) (-1)) (\<lambda>above.
                res_bind (if parentNodeName \<in> set above
                    then (case nodeSuccessData of
                        None \<Rightarrow> Inl (TypeError ''nodeSuccessData'')
                      | Some outs \<Rightarrow> (case arr_get outs outputIndex of
                            Some (Some items) \<Rightarrow> Inr (items = []) | _ \<Rightarrow> Inl (TypeError ''length'')))
                    else Inr False) (\<lambda>starved.
                  if starved then Inr s
                  else case nodeToAdd of
                      None \<Rightarrow> Inr s
                    | Some nm \<Rightarrow>
                        res_bind (if map_of (wf_connectionsByDestinationNode w) nm = None then Inr True
                          else res_bind (input_bucket w nm 0) (\<lambda>cs. incomingConnectionIsEmpty (xs_runData s) cs runIndex))
                          (\<lambda>addEmptyItem.
                            if \<not> addEmptyItem then Inr s
                            else case getNode w nm of
                                None \<Rightarrow> Inl (TypeError ''node'')
                              | Some n \<Rightarrow> Inr (enqueue_entry w (execute_entry n [Some [empty_item]]
                                  (Some [(Main_type, [Some (source_entry parentNodeName outputIndex runIndex)])])) s)))))))"

definition add_missing_inputs ::
    "workflow \<Rightarrow> string \<Rightarrow> string \<Rightarrow> nat \<Rightarrow> exec_item list option list option \<Rightarrow> nat \<Rightarrow> exec_state \<Rightarrow> exec_state result" where
  "add_missing_inputs w nm parentNodeName outputIndex nodeSuccessData runIndex s =
     res_bind (targets_of_parent w parentNodeName) (\<lambda>checkOutputNodes.
       for_each (add_input_node w checkOutputNodes parentNodeName outputIndex nodeSuccessData runIndex)
         (concat (map (get_or []) (main_inputs_of w nm))) s)"

section \<open>Adding a node\<close>

text \<open>
  A run that still waits gets its data written once more: its inputs with the new data, and the
  sources it had.
\<close>

definition keep_waiting :: "workflow \<Rightarrow> iconnection \<Rightarrow> exec_item list option option \<Rightarrow> nat \<Rightarrow> exec_state \<Rightarrow> exec_state result" where
  "keep_waiting w c items run s =
     (let nm = conn_node c
      in res_bind (waiting_inputs nm run (xs_waiting s)) (\<lambda>inputs.
         res_bind (waiting_inputs nm run (xs_waitingSource s)) (\<lambda>sources.
           let s = prepareWaitingToExecution nm (length (main_inputs_of w nm)) run s
           in Inr (s\<lparr>
             xs_waiting := obj_put nm (index_put run [(Main_type, arr_put None (conn_index c) items inputs)]
               (get_or [] (map_of (xs_waiting s) nm))) (xs_waiting s),
             xs_waitingSource := obj_put nm (index_put run [(Main_type, sources)]
               (get_or [] (map_of (xs_waitingSource s) nm))) (xs_waitingSource s)\<rparr>))))"

definition add_with_inputs ::
    "workflow \<Rightarrow> iconnection \<Rightarrow> nat \<Rightarrow> string \<Rightarrow> exec_item list option list option \<Rightarrow> nat \<Rightarrow> exec_state \<Rightarrow> exec_state result" where
  "add_with_inputs w c outputIndex parentNodeName nodeSuccessData runIndex s =
     (let nm = conn_node c;
          nodeWasWaiting = (map_of (xs_waiting s) nm \<noteq> None);
          items = (case nodeSuccessData of None \<Rightarrow> Some None | Some outs \<Rightarrow> arr_get outs outputIndex);
          src = (if nodeSuccessData = None then None else Some (source_entry parentNodeName outputIndex runIndex))
      in res_bind (store_input w c items src s) (\<lambda>(run, s).
         res_bind (waiting_inputs nm run (xs_waiting s)) (\<lambda>inputs.
           if Some None \<notin> set inputs
           then (case getNode w nm of
               None \<Rightarrow> Inl (TypeError ''node'')
             | Some n \<Rightarrow> Inr (start_waiting_run w n run s))
           else res_bind (if nodeWasWaiting then Inr s
               else add_missing_inputs w nm parentNodeName outputIndex nodeSuccessData runIndex s) (\<lambda>s.
             keep_waiting w c items run s))))"

definition addNodeToBeExecuted ::
    "workflow \<Rightarrow> iconnection \<Rightarrow> nat \<Rightarrow> string \<Rightarrow> exec_item list option list option \<Rightarrow> nat \<Rightarrow> nat option \<Rightarrow> data_object option
      \<Rightarrow> exec_state \<Rightarrow> exec_state result" where
  "addNodeToBeExecuted w c outputIndex parentNodeName nodeSuccessData runIndex newRunIndex metadata s =
     (if 1 < length (main_inputs_of w (conn_node c))
      then add_with_inputs w c outputIndex parentNodeName nodeSuccessData runIndex s
      else case getNode w (conn_node c) of
          None \<Rightarrow> Inr s
        | Some n \<Rightarrow>
            let items = Option.bind (Option.bind nodeSuccessData (\<lambda>outs. arr_get outs outputIndex)) (\<lambda>x. x)
            in Inr (enqueue_entry w
                 \<lparr>ex_node = n, ex_data = [(Main_type, replicate (conn_index c) None @ [items])],
                  ex_source = Some [(Main_type, [Some (source_entry parentNodeName outputIndex runIndex)])],
                  ex_metadata = metadata, ex_runIndex = newRunIndex\<rparr> s))"

end
