(* ===== verification/Node_Output.thy ===== *)
theory Node_Output
  imports Workflow_Execute
begin

text \<open>
  What the engine does with the data of one node before and after it runs
  (\<^verbatim>\<open>packages/core/src/execution-engine/workflow-execute.ts\<close>): tracking the origin of items, the
  input of disabled nodes and of nodes that run once, the retries, the error output, the items
  that get paired automatically. What a node returns is an argument: the results of the calls in
  the order the engine makes them.
\<close>

section \<open>Before the node runs\<close>

text \<open>A JSON value in a condition.\<close>

fun truthy :: "json \<Rightarrow> bool" where
  "truthy JNull = False"
| "truthy (JBool b) = b"
| "truthy (JNum i) = (i \<noteq> 0)"
| "truthy (JStr s) = (s \<noteq> [])"
| "truthy (JArr xs) = True"
| "truthy (JObj m) = True"

definition has_key :: "string \<Rightarrow> data_object option \<Rightarrow> bool" where
  "has_key k m \<longleftrightarrow> (case Option.bind m (\<lambda>m. map_of m k) of None \<Rightarrow> False | Some v \<Rightarrow> truthy v)"

fun json_nat :: "json \<Rightarrow> nat option" where
  "json_nat (JNum i) = (if 0 \<le> i then Some (nat i) else None)"
| "json_nat j = None"

fun json_source :: "json \<Rightarrow> source_data option" where
  "json_source (JObj m) = (case map_of m ''previousNode'' of
     Some (JStr nm) \<Rightarrow> Some \<lparr>previousNode = nm,
       previousNodeOutput = Option.bind (map_of m ''previousNodeOutput'') json_nat,
       previousNodeRun = Option.bind (map_of m ''previousNodeRun'') json_nat\<rparr>
   | _ \<Rightarrow> None)"
| "json_source j = None"

definition resolveSourceOverwrite :: "exec_item \<Rightarrow> execute_data \<Rightarrow> source_data option" where
  "resolveSourceOverwrite item e =
     (if \<not> has_key ''preserveSourceOverwrite'' (ex_metadata e) then None
      else if has_key ''preservedSourceOverwrite'' (ex_metadata e)
      then Option.bind (Option.bind (ex_metadata e) (\<lambda>m. map_of m ''preservedSourceOverwrite'')) json_source
      else (case item_pairedItem item of Some (PairedOne p) \<Rightarrow> paired_sourceOverwrite p | _ \<Rightarrow> None))"

text \<open>Every item of an input is marked with its position and its input (the first is left out).\<close>

definition track_input :: "execute_data \<Rightarrow> nat \<Rightarrow> exec_item list option \<Rightarrow> exec_item list option" where
  "track_input e inputIndex input =
     map_option (\<lambda>items. map (\<lambda>(itemIndex, item). item\<lparr>item_pairedItem := Some (PairedOne
         \<lparr>paired_item = itemIndex, paired_input = (if inputIndex = 0 then None else Some inputIndex),
          paired_sourceOverwrite = resolveSourceOverwrite item e\<rparr>)\<rparr>) (enumerate 0 items)) input"

definition track_items :: "execute_data \<Rightarrow> execute_data" where
  "track_items e = e\<lparr>ex_data := map (\<lambda>(ty, inputs). (ty, map (\<lambda>(i, input). track_input e i input) (enumerate 0 inputs)))
     (ex_data e)\<rparr>"

definition run_index_of :: "run_data \<Rightarrow> execute_data \<Rightarrow> nat" where
  "run_index_of runData e = (case ex_runIndex e of Some r \<Rightarrow> r
     | None \<Rightarrow> (case map_of runData (node_name (ex_node e)) of Some runs \<Rightarrow> length runs | None \<Rightarrow> 0))"

definition execution_try :: "string \<Rightarrow> nat \<Rightarrow> string" where
  "execution_try nm runIndex = nm @ '':'' @ show_nat runIndex"

definition max_tries :: "inode \<Rightarrow> data_object option \<Rightarrow> nat" where
  "max_tries n metadata =
     (if node_retryOnFail n = Some True \<and> Option.bind metadata (\<lambda>m. map_of m ''resumeError'') = None
      then min 5 (max 2 (case node_maxTries n of None \<Rightarrow> 3 | Some 0 \<Rightarrow> 3 | Some k \<Rightarrow> k)) else 1)"

definition continuesOnError :: "inode \<Rightarrow> bool" where
  "continuesOnError n \<longleftrightarrow> node_continueOnFail n = Some True
     \<or> get_or '''' (node_onError n) \<in> {''continueRegularOutput'', ''continueErrorOutput''}"

definition handleDisabledNode :: "task_connections \<Rightarrow> exec_item list option list option" where
  "handleDisabledNode inputData = (case map_of inputData Main_type of
     Some (Some items # _) \<Rightarrow> Some [Some items] | _ \<Rightarrow> None)"

definition handleExecuteOnce :: "inode \<Rightarrow> task_connections \<Rightarrow> task_connections" where
  "handleExecuteOnce n inputData =
     (if node_executeOnce n = Some True then map (\<lambda>(ty, inputs). (ty, map (map_option (take 1)) inputs)) inputData
      else inputData)"

text \<open>
  The items a node works on. \<open>executes\<close>: the node type has an execute method or a custom operation,
  or is none of poll, trigger and webhook.
\<close>

definition prepareConnectionInputData :: "workflow \<Rightarrow> bool \<Rightarrow> task_connections \<Rightarrow> exec_item list option" where
  "prepareConnectionInputData w executes inputData =
     (if \<not> executes then Some []
      else case map_of inputData Main_type of
          None \<Rightarrow> None
        | Some [] \<Rightarrow> None
        | Some (first # rest) \<Rightarrow>
            (let chosen = (if isLegacyExecutionOrder w then first
                 else case find (\<lambda>d. d \<noteq> None \<and> d \<noteq> Some []) (first # rest) of None \<Rightarrow> first | Some d \<Rightarrow> d)
             in if chosen = Some [] then None else chosen))"

text \<open>Whether the inputs are there; an entry that lacks them goes back to the end of the stack.\<close>

fun inputs_ready :: "workflow \<Rightarrow> execute_data \<Rightarrow> nat list \<Rightarrow> bool result" where
  "inputs_ready w e [] = Inr True"
| "inputs_ready w e (i # is) =
     res_bind (getHighestNode w (node_name (ex_node e)) (Some i)) (\<lambda>highestNodes.
       if highestNodes = [] then Inr True
       else case map_of (ex_data e) Main_type of
           None \<Rightarrow> Inr False
         | Some inputs \<Rightarrow>
             if isLegacyExecutionOrder w \<and> (length inputs < i \<or> arr_get inputs i = Some None) then Inr False
             else inputs_ready w e is)"

definition ensureInputData :: "workflow \<Rightarrow> execute_data \<Rightarrow> exec_state \<Rightarrow> (bool \<times> exec_state) result" where
  "ensureInputData w e s =
     res_bind (inputs_ready w e [0..<length (main_inputs_of w (node_name (ex_node e)))]) (\<lambda>ready.
       Inr (ready, if ready then s else s\<lparr>xs_stack := xs_stack s @ [e]\<rparr>))"

section \<open>The data a node returned\<close>

type_synonym node_data = "exec_item list option list"

text \<open>The error output: failed items leave their output for the last one of \<open>outputs\<close> main outputs.\<close>

definition failure_of :: "exec_item \<Rightarrow> json option" where
  "failure_of item =
     (let error = map_of (item_json item) ''error''; message = map_of (item_json item) ''message'';
          is_set = (\<lambda>v. case v of None \<Rightarrow> False | Some j \<Rightarrow> truthy j); keys = length (item_json item)
      in if is_set (item_error item) then item_error item
         else if is_set error \<and> keys = 1 then error
         else if is_set error \<and> is_set message \<and> keys = 2 then error else None)"

definition spread_onto :: "data_object \<Rightarrow> data_object \<Rightarrow> data_object" where
  "spread_onto a b = fold (\<lambda>(k, v). obj_put k v) b a"

definition pair_of :: "exec_item \<Rightarrow> paired_data option" where
  "pair_of item = (case item_pairedItem item of
     Some (PairedOne p) \<Rightarrow> Some p | Some (PairedMany (p # _)) \<Rightarrow> Some p | _ \<Rightarrow> None)"

text \<open>\<open>getPairedItem\<close> is the lookup of the workflow data proxy: the input item an item came from.\<close>

type_synonym pair_lookup = "string \<Rightarrow> source_data \<Rightarrow> paired_data \<Rightarrow> exec_item option result"

definition error_item :: "pair_lookup \<Rightarrow> execute_data \<Rightarrow> exec_item \<Rightarrow> exec_item result" where
  "error_item getPairedItem e item =
     (case (ex_source e, pair_of item) of
        (Some sources, Some p) \<Rightarrow>
          (case Option.bind (map_of sources Main_type) (\<lambda>xs. Option.bind (arr_get xs (get_or 0 (paired_input p))) (\<lambda>x. x)) of
             None \<Rightarrow> Inl (TypeError ''previousNode'')
           | Some src \<Rightarrow> res_bind (getPairedItem (previousNode src) src p) (\<lambda>found.
               Inr (case found of None \<Rightarrow> item
                 | Some origin \<Rightarrow> item\<lparr>item_json := spread_onto (item_json origin) (item_json item)\<rparr>)))
      | _ \<Rightarrow> Inr item)"

fun sort_items :: "pair_lookup \<Rightarrow> execute_data \<Rightarrow> exec_item list \<Rightarrow> (exec_item list \<times> exec_item list) result" where
  "sort_items getPairedItem e [] = Inr ([], [])"
| "sort_items getPairedItem e (item # items) =
     (case failure_of item of
        None \<Rightarrow> res_bind (sort_items getPairedItem e items) (\<lambda>(success, errors). Inr (item # success, errors))
      | Some _ \<Rightarrow> res_bind (error_item getPairedItem e item) (\<lambda>x.
          res_bind (sort_items getPairedItem e items) (\<lambda>(success, errors). Inr (success, x # errors))))"

definition sort_output :: "pair_lookup \<Rightarrow> execute_data \<Rightarrow> nat \<Rightarrow> node_data \<times> exec_item list \<Rightarrow> (node_data \<times> exec_item list) result" where
  "sort_output getPairedItem e outputIndex st =
     (let (data, errors) = st; items = get_or [] (Option.bind (arr_get data outputIndex) (\<lambda>x. x))
      in res_bind (sort_items getPairedItem e items) (\<lambda>(success, failed).
           Inr (arr_put None outputIndex (Some success) data, errors @ failed)))"

definition handleNodeErrorOutput :: "pair_lookup \<Rightarrow> nat \<Rightarrow> execute_data \<Rightarrow> node_data \<Rightarrow> node_data result" where
  "handleNodeErrorOutput getPairedItem outputs e data =
     res_bind (for_each (sort_output getPairedItem e) [0..<outputs - 1] (data, [])) (\<lambda>(data, errors).
       Inr (if outputs = 0 then data else arr_put None (outputs - 1) (Some errors) data))"

text \<open>Items without an origin get one where it can only be one input item.\<close>

definition pair_at :: "nat \<Rightarrow> exec_item \<Rightarrow> exec_item" where
  "pair_at i item = (if item_pairedItem item \<noteq> None then item
     else item\<lparr>item_pairedItem := Some (PairedOne \<lparr>paired_item = i, paired_input = None, paired_sourceOverwrite = None\<rparr>)\<rparr>)"

definition assignPairedItems :: "node_data option \<Rightarrow> execute_data \<Rightarrow> node_data option result" where
  "assignPairedItems nodeSuccessData e =
     (case nodeSuccessData of
        None \<Rightarrow> Inr None
      | Some [] \<Rightarrow> Inr (Some [])
      | Some (first # rest) \<Rightarrow> res_bind (main_of (ex_data e)) (\<lambda>inputs.
          let single = (length inputs = 1);
              input = Option.bind (arr_get inputs 0) (\<lambda>x. x);
              isSingleInputAndOutput = (single \<and> map_option length input = Some 1)
          in if rest = [] \<and> single \<and> first = None then Inl (TypeError ''length'')
             else let isSameNumberOfItems = (rest = [] \<and> single \<and> map_option length input = map_option length first);
                      isSingleOutput = (rest = [] \<and> map_option length first = Some 1 \<and> single \<and> 1 < length (get_or [] input))
                  in Inr (Some (map (map_option (\<lambda>items. map (\<lambda>(index, item).
                       if isSingleInputAndOutput then pair_at 0 item
                       else if isSameNumberOfItems then pair_at index item
                       else if isSingleOutput then pair_at 0 item else item) (enumerate 0 items))) (first # rest)))))"

definition first_item :: "node_data option \<Rightarrow> exec_item option" where
  "first_item data = (case data of Some (Some (item # _) # _) \<Rightarrow> Some item | _ \<Rightarrow> None)"

definition input_pairs :: "exec_item list option list \<Rightarrow> paired_data list" where
  "input_pairs inputs = concat (map (\<lambda>(inputIndex, input). map (\<lambda>itemIndex.
       \<lparr>paired_item = itemIndex, paired_input = Some inputIndex, paired_sourceOverwrite = None\<rparr>)
       [0..<length (get_or [] input)]) (enumerate 0 inputs))"

definition always_output :: "execute_data \<Rightarrow> node_data option \<Rightarrow> node_data option result" where
  "always_output e data =
     (if first_item data = None \<and> node_alwaysOutputData (ex_node e) = Some True
      then res_bind (main_of (ex_data e)) (\<lambda>inputs.
        Inr (Some (arr_put None 0 (Some [empty_item\<lparr>item_pairedItem := Some (PairedMany (input_pairs inputs))\<rparr>]) (get_or [] data))))
      else Inr data)"

text \<open>
  From the data a node returned to the data it passes on: first with the origins assigned (this is
  what decides whether the node counts as the last one executed), then with the item that is
  always output.
\<close>

definition finish_data :: "pair_lookup \<Rightarrow> nat \<Rightarrow> bool \<Rightarrow> execute_data \<Rightarrow> node_data option
    \<Rightarrow> (node_data option \<times> node_data option) result" where
  "finish_data getPairedItem outputs pinned e data =
     res_bind (case data of
         Some outs \<Rightarrow> if \<not> pinned \<and> node_onError (ex_node e) = Some ''continueErrorOutput''
           then res_bind (handleNodeErrorOutput getPairedItem outputs e outs) (\<lambda>d. Inr (Some d)) else Inr data
       | None \<Rightarrow> Inr None) (\<lambda>data.
     res_bind (assignPairedItems data e) (\<lambda>assigned.
     res_bind (always_output e assigned) (\<lambda>final. Inr (assigned, final))))"

section \<open>Retries\<close>

text \<open>
  The calls of a node are numbered through an execution; \<open>run k\<close> is what call \<open>k\<close> does: it returns
  data or throws, and may put the execution to wait (\<open>True\<close>).
\<close>

datatype run_outcome = Returned "node_data option" bool | Thrown json bool

definition failed_data :: "node_data option \<Rightarrow> bool" where
  "failed_data data = (case Option.bind (first_item data) (\<lambda>item. map_of (item_json item) ''error'') of
     None \<Rightarrow> False | Some v \<Rightarrow> v \<noteq> JNull \<and> v \<noteq> JBool False)"

definition error_object :: "js_error \<Rightarrow> json" where
  "error_object err = JObj [(''message'', JStr (case err of AssertionError m \<Rightarrow> m | TypeError m \<Rightarrow> m | UserError m \<Rightarrow> m
     | UnexpectedError m \<Rightarrow> m | OperationalError m \<Rightarrow> m | OutOfFuel \<Rightarrow> []))]"

text \<open>
  \<open>left\<close> tries remain after the current one. The outer loop (\<open>again = False\<close>) starts a try; data that
  reports an error is fetched again by the loop inside it (\<open>again = True\<close>), which moves to the next
  try only once its call has returned. The result is the number of the next call, whether the
  execution was put to wait, whether anything was thrown, and the error or the data.
\<close>

function try_node :: "(nat \<Rightarrow> run_outcome) \<Rightarrow> (node_data option \<Rightarrow> 'b result) \<Rightarrow> bool \<Rightarrow> nat \<Rightarrow> nat \<Rightarrow> bool \<Rightarrow> bool
    \<Rightarrow> nat \<times> bool \<times> bool \<times> (json + 'b)" where
  "try_node run finish again left k waits threw =
     (case run k of
        Thrown err w \<Rightarrow> if left = 0 then (k + 1, waits \<or> w, True, Inl err)
          else try_node run finish False (left - 1) (k + 1) (waits \<or> w) True
      | Returned data w \<Rightarrow>
          let left' = (if again then left - 1 else left)
          in if failed_data data \<and> left' \<noteq> 0 then try_node run finish True left' (k + 1) (waits \<or> w) threw
             else case finish data of
                 Inr x \<Rightarrow> (k + 1, waits \<or> w, threw, Inr x)
               | Inl err \<Rightarrow> if left' = 0 then (k + 1, waits \<or> w, True, Inl (error_object err))
                   else try_node run finish False (left' - 1) (k + 1) (waits \<or> w) True)"
  by pat_completeness auto
termination
  by (relation "measure (\<lambda>(run, finish, again, left, k, waits, threw). 2 * left + (if again then 0 else 1))")
    (auto split: if_splits)

declare try_node.simps [simp del]

text \<open>A pinned node is not called; its data is finished like any other.\<close>

definition run_tries :: "pair_lookup \<Rightarrow> nat \<Rightarrow> exec_item list option \<Rightarrow> (nat \<Rightarrow> run_outcome) \<Rightarrow> execute_data \<Rightarrow> nat
    \<Rightarrow> nat \<times> bool \<times> bool \<times> (json + node_data option \<times> node_data option)" where
  "run_tries getPairedItem outputs pinned run e k =
     (case pinned of
        Some items \<Rightarrow> (case finish_data getPairedItem outputs True e (Some [Some items]) of
            Inr x \<Rightarrow> (k, False, False, Inr x) | Inl err \<Rightarrow> (k, False, True, Inl (error_object err)))
      | None \<Rightarrow> try_node run (finish_data getPairedItem outputs False e) False
          (max_tries (ex_node e) (ex_metadata e) - 1) k False False)"

section \<open>Errors in the data\<close>

definition error_message :: "json \<Rightarrow> data_object result" where
  "error_message err = (case err of
     JNull \<Rightarrow> Inl (TypeError ''message'')
   | JObj m \<Rightarrow> Inr (case map_of m ''message'' of None \<Rightarrow> [] | Some msg \<Rightarrow> [(''error'', msg)])
   | _ \<Rightarrow> Inr [])"

text \<open>The error of an item replaces its data; a message that is undefined leaves no key.\<close>

definition report_error :: "exec_item \<Rightarrow> exec_item result" where
  "report_error item =
     (case (map_of (item_json item) ''$error'', map_of (item_json item) ''$json'', item_error item) of
        (Some err, Some _, _) \<Rightarrow> res_bind (error_message err) (\<lambda>json. Inr (item\<lparr>item_error := Some err, item_json := json\<rparr>))
      | (_, _, Some err) \<Rightarrow> res_bind (error_message err) (\<lambda>json. Inr (item\<lparr>item_json := json\<rparr>))
      | _ \<Rightarrow> Inr item)"

primrec map_result :: "('a \<Rightarrow> 'b result) \<Rightarrow> 'a list \<Rightarrow> 'b list result" where
  "map_result f [] = Inr []"
| "map_result f (x # xs) = res_bind (f x) (\<lambda>y. res_bind (map_result f xs) (\<lambda>ys. Inr (y # ys)))"

definition merge_errors :: "node_data \<Rightarrow> node_data result" where
  "merge_errors data = map_result (\<lambda>out. case out of
     None \<Rightarrow> Inl (TypeError ''not iterable'')
   | Some items \<Rightarrow> res_bind (map_result report_error items) (\<lambda>xs. Inr (Some xs))) data"

section \<open>Sorting items by failure\<close>

definition items_at :: "node_data \<Rightarrow> nat \<Rightarrow> exec_item list" where
  "items_at data i = get_or [] (Option.bind (arr_get data i) (\<lambda>x. x))"

abbreviation failed :: "exec_item \<Rightarrow> bool" where
  "failed item \<equiv> failure_of item \<noteq> None"

definition failed_items :: "node_data \<Rightarrow> nat \<Rightarrow> exec_item list" where
  "failed_items data n = concat (map (\<lambda>i. filter failed (items_at data i)) [0..<n])"

lemma map_result_append:
  "map_result f (xs @ ys) = res_bind (map_result f xs) (\<lambda>a. res_bind (map_result f ys) (\<lambda>b. Inr (a @ b)))"
  by (induction xs) (auto simp: res_bind_def split: sum.splits)

lemma sort_items_result:
  "sort_items lookup e items = Inr (success, errors) \<Longrightarrow>
   success = filter (\<lambda>x. \<not> failed x) items \<and> map_result (error_item lookup e) (filter failed items) = Inr errors"
  by (induction items arbitrary: success errors) (auto simp: res_bind_eq_Inr split: option.splits)

lemma arr_get_arr_put: "arr_get (arr_put h i v xs) j = (if j = i then Some v
    else if j < length xs then Some (xs ! j) else if j < i then Some h else None)"
  by (auto simp: arr_get_def length_arr_put arr_put_same arr_put_other)

lemma sort_output_step:
  assumes "sort_output lookup e i (d, errs) = Inr (d', errs')"
  shows "items_at d' j = (if j = i then filter (\<lambda>x. \<not> failed x) (items_at d i) else items_at d j)"
    and "arr_get d' i = Some (Some (filter (\<lambda>x. \<not> failed x) (items_at d i)))"
    and "\<exists>more. errs' = errs @ more \<and> map_result (error_item lookup e) (filter failed (items_at d i)) = Inr more"
    and "j \<noteq> i \<Longrightarrow> arr_get d j = Some x \<Longrightarrow> arr_get d' j = Some x"
proof -
  from assms obtain success more where "sort_items lookup e (items_at d i) = Inr (success, more)"
    and d': "d' = arr_put None i (Some success) d" "errs' = errs @ more"
    by (auto simp: sort_output_def items_at_def res_bind_eq_Inr)
  with sort_items_result have s: "success = filter (\<lambda>x. \<not> failed x) (items_at d i)"
    "map_result (error_item lookup e) (filter failed (items_at d i)) = Inr more" by fast+
  show "items_at d' j = (if j = i then filter (\<lambda>x. \<not> failed x) (items_at d i) else items_at d j)"
    by (auto simp: d' s(1) items_at_def arr_get_arr_put get_or_def) (auto simp: arr_get_def)
  show "arr_get d' i = Some (Some (filter (\<lambda>x. \<not> failed x) (items_at d i)))"
    by (simp add: d' s(1) arr_get_arr_put)
  show "\<exists>more. errs' = errs @ more \<and> map_result (error_item lookup e) (filter failed (items_at d i)) = Inr more"
    using d'(2) s(2) by blast
  show "arr_get d' j = Some x" if "j \<noteq> i" "arr_get d j = Some x"
    using that by (auto simp: d' arr_get_arr_put arr_get_Some)
qed

text \<open>After the outputs below \<open>n\<close> were sorted.\<close>

definition sorted_below :: "pair_lookup \<Rightarrow> execute_data \<Rightarrow> node_data \<Rightarrow> nat \<Rightarrow> node_data \<times> exec_item list \<Rightarrow> bool" where
  "sorted_below lookup e data n st \<longleftrightarrow>
     (\<forall>i. (i < n \<longrightarrow> arr_get (fst st) i = Some (Some (filter (\<lambda>x. \<not> failed x) (items_at data i))))
        \<and> (n \<le> i \<longrightarrow> items_at (fst st) i = items_at data i))
     \<and> map_result (error_item lookup e) (failed_items data n) = Inr (snd st)"

lemma sorted_below_Suc:
  assumes "sorted_below lookup e data n st" and "sort_output lookup e n st = Inr st'"
  shows "sorted_below lookup e data (Suc n) st'"
proof -
  obtain d errs d' errs' where st: "st = (d, errs)" "st' = (d', errs')" by (cases st; cases st')
  note step = sort_output_step [OF assms(2) [unfolded st]]
  have n: "items_at d n = items_at data n" using assms(1) by (simp add: sorted_below_def st)
  from step(3) obtain more where "errs' = errs @ more" "map_result (error_item lookup e) (filter failed (items_at data n)) = Inr more"
    unfolding n by blast
  then have "map_result (error_item lookup e) (failed_items data (Suc n)) = Inr errs'"
    using assms(1) by (simp add: sorted_below_def st failed_items_def map_result_append)
  then show ?thesis using assms(1) step(1,2,4) unfolding sorted_below_def st n by (auto simp: less_Suc_eq)
qed

lemma handleNodeErrorOutput_result:
  assumes "handleNodeErrorOutput lookup outputs e data = Inr data'" and "1 \<le> outputs"
  shows "(\<forall>i < outputs - 1. arr_get data' i = Some (Some (filter (\<lambda>x. \<not> failed x) (items_at data i))))
    \<and> (\<exists>errors. map_result (error_item lookup e) (failed_items data (outputs - 1)) = Inr errors
         \<and> arr_get data' (outputs - 1) = Some (Some errors))"
proof -
  from assms obtain d errs where loop: "for_each (sort_output lookup e) [0..<outputs - 1] (data, []) = Inr (d, errs)"
    and data': "data' = arr_put None (outputs - 1) (Some errs) d"
    by (auto simp: handleNodeErrorOutput_def res_bind_eq_Inr split: if_splits)
  have "sorted_below lookup e data (length [0..<outputs - 1]) (d, errs)"
    using loop
  proof (rule for_each_rule [where P = "\<lambda>xs. sorted_below lookup e data (length xs)"])
    show "sorted_below lookup e data (length []) (data, [])" by (simp add: sorted_below_def failed_items_def)
    fix ys x zs s s'
    assume eq: "[0..<outputs - 1] = ys @ x # zs" and st: "sorted_below lookup e data (length ys) s" "sort_output lookup e x s = Inr s'"
    have "length ys < outputs - 1" using arg_cong [OF eq, of length] by simp
    then have "[0..<outputs - 1] ! length ys = length ys" by simp
    then have "x = length ys" unfolding eq by simp
    with st show "sorted_below lookup e data (length (ys @ [x])) s'" by (simp add: sorted_below_Suc)
  qed
  then have "sorted_below lookup e data (outputs - 1) (d, errs)" by simp
  then show ?thesis unfolding sorted_below_def data' by (auto simp: arr_get_arr_put arr_get_Some)
qed

end
