(* ===== verification/Waiting_Inputs.thy ===== *)
theory Waiting_Inputs
  imports Workflow_Execute
begin

text \<open>
  The waiting nodes as a map from node and run to inputs, what the steps of \<^verbatim>\<open>addNodeToBeExecuted\<close>
  do to that map, and the invariant that makes a waiting run wait: it has one slot per input, none
  of them a hole, and at least one still empty.
\<close>

section \<open>Waiting runs as a map\<close>

definition node_runs :: "'a pending_runs \<Rightarrow> string \<Rightarrow> (nat \<times> (string \<times> 'a option list) list) list" where
  "node_runs waiting nm = get_or [] (map_of waiting nm)"

definition waiting_slots :: "'a pending_runs \<Rightarrow> string \<Rightarrow> nat \<Rightarrow> 'a option list option" where
  "waiting_slots waiting nm run = Option.bind (run_entry nm run waiting) (\<lambda>cs. map_of cs Main_type)"

abbreviation ascending :: "(nat \<times> 'b) list \<Rightarrow> bool" where
  "ascending runs \<equiv> sorted_wrt (<) (map fst runs)"

text \<open>\<open>stores nm run xs\<close>: the run is set to these inputs and the rest stays.\<close>

definition stores :: "string \<Rightarrow> nat \<Rightarrow> 'a option list \<Rightarrow> 'a pending_runs \<Rightarrow> 'a pending_runs \<Rightarrow> bool" where
  "stores nm run xs waiting waiting' \<longleftrightarrow>
     (\<exists>runs cs. map_of waiting' = (map_of waiting)(nm \<mapsto> runs)
        \<and> map_of runs = (map_of (node_runs waiting nm))(run \<mapsto> cs) \<and> map_of cs Main_type = Some xs
        \<and> (ascending (node_runs waiting nm) \<longrightarrow> ascending runs))"

lemma keys_index_put: "fst ` set (index_put n v m) = insert n (fst ` set m)"
  by (induction n v m rule: index_put.induct) auto

lemma ascending_index_put:
  "sorted_wrt (<) (map fst m) \<Longrightarrow> sorted_wrt (<) (map fst (index_put n v m))"
proof (induction n v m rule: index_put.induct)
  case (2 n v m w es)
  have "\<forall>k \<in> fst ` set (index_put n v es). m < k" if "\<not> n < m" "n \<noteq> m"
    using "2.prems" that unfolding keys_index_put by auto
  with 2 show ?case by force
qed simp

lemma run_entry_stores:
  assumes "stores nm run xs waiting waiting'"
  shows "waiting_slots waiting' nm' run' = (if nm' = nm \<and> run' = run then Some xs else waiting_slots waiting nm' run')"
    and "map_of waiting' nm' = None \<longleftrightarrow> nm' \<noteq> nm \<and> map_of waiting nm' = None"
proof -
  from assms obtain runs cs where *: "map_of waiting' = (map_of waiting)(nm \<mapsto> runs)"
    "map_of runs = (map_of (node_runs waiting nm))(run \<mapsto> cs)" "map_of cs Main_type = Some xs"
    unfolding stores_def by blast
  show "map_of waiting' nm' = None \<longleftrightarrow> nm' \<noteq> nm \<and> map_of waiting nm' = None" unfolding *(1) by simp
  show "waiting_slots waiting' nm' run' = (if nm' = nm \<and> run' = run then Some xs else waiting_slots waiting nm' run')"
    using *(2,3) unfolding waiting_slots_def run_entry_def *(1)
    by (auto simp: node_runs_def get_or_def split: option.splits)
qed

lemma stores_trans:
  assumes "stores nm run xs a b" and "stores nm run ys b c"
  shows "stores nm run ys a c"
proof -
  from assms(1) obtain runs cs where 1: "map_of b = (map_of a)(nm \<mapsto> runs)"
    "map_of runs = (map_of (node_runs a nm))(run \<mapsto> cs)"
    "ascending (node_runs a nm) \<longrightarrow> ascending runs" unfolding stores_def by blast
  have r: "node_runs b nm = runs" using 1 by (simp add: node_runs_def get_or_def)
  from assms(2) obtain runs' cs' where 2: "map_of c = (map_of b)(nm \<mapsto> runs')"
    "map_of runs' = (map_of runs)(run \<mapsto> cs')" "map_of cs' Main_type = Some ys"
    "ascending runs \<longrightarrow> ascending runs'" unfolding stores_def r by blast
  from 1 2 have "map_of c = (map_of a)(nm \<mapsto> runs')" "map_of runs' = (map_of (node_runs a nm))(run \<mapsto> cs')"
    by simp_all
  with 1(3) 2(3,4) show ?thesis unfolding stores_def by blast
qed

lemma stores_put:
  "map_of cs Main_type = Some xs \<Longrightarrow> runs = node_runs waiting nm \<Longrightarrow>
   stores nm run xs waiting (obj_put nm (index_put run cs runs) waiting)"
  unfolding stores_def
  by (intro exI [of _ "index_put run cs runs"] exI [of _ cs])
    (auto simp: js_obj.lookup_put map_of_index_put fun_eq_iff ascending_index_put)

lemma stores_fresh:
  assumes "stores nm run xs (obj_put nm [] waiting) waiting'" and "map_of waiting nm = None"
  shows "stores nm run xs waiting waiting'"
proof -
  have r: "node_runs waiting nm = []" "node_runs (obj_put nm [] waiting) nm = []"
    using assms(2) by (simp_all add: node_runs_def get_or_def js_obj.lookup_put)
  have "map_of (obj_put nm [] waiting) = (map_of waiting)(nm \<mapsto> [])" by (rule js_obj.lookup_put)
  with assms(1) show ?thesis unfolding stores_def r by auto
qed

lemma waiting_inputs_slots: "waiting_inputs nm run waiting
    = (case waiting_slots waiting nm run of None \<Rightarrow>
         Inl (TypeError (if run_entry nm run waiting = None then ''waitingExecution'' else ''main''))
       | Some xs \<Rightarrow> Inr xs)"
  by (auto simp: waiting_inputs_def waiting_slots_def run_entry_def main_of_def split: option.splits bind_splits)

lemma put_waiting_stores:
  assumes "waiting_slots waiting nm run = Some xs"
  shows "\<exists>waiting'. put_waiting nm run i v waiting = Inr waiting' \<and> stores nm run (arr_put None i v xs) waiting waiting'"
proof -
  from assms obtain runs cs where "map_of waiting nm = Some runs" "map_of runs run = Some cs" "map_of cs Main_type = Some xs"
    by (auto simp: waiting_slots_def run_entry_def split: bind_splits)
  then show ?thesis
    by (auto simp: put_waiting_def main_of_def node_runs_def get_or_def js_obj.lookup_put intro!: stores_put)
qed

lemma stores_prepare:
  "stores nm run (replicate k (Some None)) (xs_waiting s) (xs_waiting (prepareWaitingToExecution nm k run s))"
  "stores nm run (replicate k None) (xs_waitingSource s) (xs_waitingSource (prepareWaitingToExecution nm k run s))"
  unfolding prepareWaitingToExecution_def by (auto simp: node_runs_def intro!: stores_put)

section \<open>The invariant of waiting runs\<close>

definition run_waits :: "nat \<Rightarrow> (string \<times> exec_item list option option list) list \<Rightarrow> bool" where
  "run_waits k cs = (case map_of cs Main_type of
     None \<Rightarrow> False | Some xs \<Rightarrow> length xs = k \<and> None \<notin> set xs \<and> Some None \<in> set xs)"

definition node_waits :: "workflow \<Rightarrow> exec_state \<Rightarrow> string \<Rightarrow> bool" where
  "node_waits w s nm \<longleftrightarrow>
     (let runs = node_runs (xs_waiting s) nm
      in runs \<noteq> [] \<and> ascending runs
         \<and> (\<forall>(run, cs) \<in> set runs. run_waits (length (main_inputs_of w nm)) cs
              \<and> waiting_slots (xs_waitingSource s) nm run \<noteq> None))"

definition waiting_ok :: "workflow \<Rightarrow> exec_state \<Rightarrow> bool" where
  "waiting_ok w s \<longleftrightarrow> (\<forall>nm \<in> set (map fst (xs_waiting s)). node_waits w s nm)
     \<and> set (map fst (xs_waitingSource s)) \<subseteq> set (map fst (xs_waiting s))"

lemma ascending_map_of: "ascending runs \<Longrightarrow> map_of runs run = Some cs \<longleftrightarrow> (run, cs) \<in> set runs"
  by (simp add: strict_sorted_iff)

lemma waiting_okD: "waiting_ok w s \<Longrightarrow> map_of (xs_waiting s) nm = Some runs \<Longrightarrow> node_waits w s nm"
  by (auto simp: waiting_ok_def dest!: map_of_SomeD intro: rev_image_eqI)

lemma waiting_okI:
  assumes "\<And>nm runs. map_of (xs_waiting s) nm = Some runs \<Longrightarrow> node_waits w s nm"
    and "\<And>nm. map_of (xs_waiting s) nm = None \<Longrightarrow> map_of (xs_waitingSource s) nm = None"
  shows "waiting_ok w s"
  unfolding waiting_ok_def
proof (intro conjI ballI)
  show "set (map fst (xs_waitingSource s)) \<subseteq> set (map fst (xs_waiting s))"
    using assms(2) by (auto simp: map_of_eq_None_iff)
next
  fix nm
  assume "nm \<in> set (map fst (xs_waiting s))"
  then have "map_of (xs_waiting s) nm \<noteq> None" by (simp add: map_of_eq_None_iff)
  with assms(1) show "node_waits w s nm" by auto
qed

lemma waiting_ok_sources: "waiting_ok w s \<Longrightarrow> map_of (xs_waiting s) nm = None \<Longrightarrow> map_of (xs_waitingSource s) nm = None"
  by (auto simp: waiting_ok_def map_of_eq_None_iff)

lemma node_waitsD:
  assumes "node_waits w s nm"
  shows "node_runs (xs_waiting s) nm \<noteq> []" and "ascending (node_runs (xs_waiting s) nm)"
    and "map_of (node_runs (xs_waiting s) nm) run = Some cs \<Longrightarrow>
      run_waits (length (main_inputs_of w nm)) cs \<and> waiting_slots (xs_waitingSource s) nm run \<noteq> None"
  using assms ascending_map_of [of "node_runs (xs_waiting s) nm" run cs]
  by (auto simp: node_waits_def Let_def)

lemma node_waitsI:
  assumes "node_runs (xs_waiting s) nm \<noteq> []" and "ascending (node_runs (xs_waiting s) nm)"
    and "\<And>run cs. map_of (node_runs (xs_waiting s) nm) run = Some cs \<Longrightarrow>
      run_waits (length (main_inputs_of w nm)) cs \<and> waiting_slots (xs_waitingSource s) nm run \<noteq> None"
  shows "node_waits w s nm"
  using assms ascending_map_of [OF assms(2)] by (auto simp: node_waits_def Let_def)

lemma node_waits_cong:
  assumes "map_of (xs_waiting s') nm = map_of (xs_waiting s) nm"
    and "\<And>run. waiting_slots (xs_waitingSource s') nm run = waiting_slots (xs_waitingSource s) nm run"
  shows "node_waits w s' nm = node_waits w s nm"
  using assms by (simp add: node_waits_def node_runs_def)

lemma waiting_ok_only: "waiting_ok w s \<Longrightarrow> xs_waiting s' = xs_waiting s \<Longrightarrow> xs_waitingSource s' = xs_waitingSource s
    \<Longrightarrow> waiting_ok w s'"
  by (simp add: waiting_ok_def node_waits_def)

text \<open>The runs of a node, known or new, are in order.\<close>

lemma runs_ascending: "waiting_ok w s \<Longrightarrow> ascending (node_runs (xs_waiting s) nm)"
  using waiting_okD [of w s nm] node_waitsD(2) [of w s nm]
  by (cases "map_of (xs_waiting s) nm") (auto simp: node_runs_def get_or_def)

lemma runs_wait:
  "waiting_ok w s \<Longrightarrow> map_of (node_runs (xs_waiting s) nm) run = Some cs \<Longrightarrow>
   run_waits (length (main_inputs_of w nm)) cs \<and> waiting_slots (xs_waitingSource s) nm run \<noteq> None"
  using waiting_okD [of w s nm] node_waitsD(3) [of w s nm run cs]
  by (cases "map_of (xs_waiting s) nm") (auto simp: node_runs_def get_or_def)

lemma waiting_ok_stored:
  assumes ok: "waiting_ok w s"
    and st: "stores nm run xs (xs_waiting s) (xs_waiting s')" "stores nm run ys (xs_waitingSource s) (xs_waitingSource s')"
    and xs: "length xs = length (main_inputs_of w nm)" "None \<notin> set xs" "Some None \<in> set xs"
  shows "waiting_ok w s'"
proof (rule waiting_okI)
  show "map_of (xs_waitingSource s') nm' = None" if "map_of (xs_waiting s') nm' = None" for nm'
    using that waiting_ok_sources [OF ok] unfolding run_entry_stores(2) [OF st(1)] run_entry_stores(2) [OF st(2)] by simp
next
  fix nm' runs'
  assume w': "map_of (xs_waiting s') nm' = Some runs'"
  from st(1) obtain runs cs where 1: "map_of (xs_waiting s') = (map_of (xs_waiting s))(nm \<mapsto> runs)"
    "map_of runs = (map_of (node_runs (xs_waiting s) nm))(run \<mapsto> cs)" "map_of cs Main_type = Some xs"
    "ascending (node_runs (xs_waiting s) nm) \<longrightarrow> ascending runs" unfolding stores_def by blast
  note src = run_entry_stores(1) [OF st(2)]
  show "node_waits w s' nm'"
  proof (cases "nm' = nm")
    case False
    with w' 1(1) have "map_of (xs_waiting s) nm' = Some runs'" by simp
    from waiting_okD [OF ok this] show ?thesis using False 1(1) src by (subst node_waits_cong) auto
  next
    case True
    have r: "node_runs (xs_waiting s') nm = runs" using 1(1) by (simp add: node_runs_def get_or_def)
    have "run_waits (length (main_inputs_of w nm)) cs' \<and> waiting_slots (xs_waitingSource s') nm run' \<noteq> None"
      if "map_of runs run' = Some cs'" for run' cs'
    proof (cases "run' = run")
      case True
      with that 1(2) have "cs' = cs" by simp
      with 1(3) xs src True show ?thesis by (simp add: run_waits_def)
    next
      case False
      with that 1(2) have "map_of (node_runs (xs_waiting s) nm) run' = Some cs'" by simp
      from runs_wait [OF ok this] show ?thesis using src False by simp
    qed
    moreover have "runs \<noteq> []" using fun_cong [OF 1(2), of run] by auto
    ultimately show ?thesis unfolding True using 1(4) runs_ascending [OF ok] by (intro node_waitsI) (auto simp: r)
  qed
qed

section \<open>Removing a run\<close>

lemma map_of_forget_run:
  "map_of (forget_run nm run waiting) = (case map_of waiting nm of
     None \<Rightarrow> map_of waiting | Some runs \<Rightarrow> (map_of waiting)(nm \<mapsto> map_delete run runs))"
  by (simp add: forget_run_def js_obj.lookup_put split: option.split)

lemma slots_forget_run:
  "waiting_slots (forget_run nm run waiting) nm' run'
   = (if nm' = nm \<and> run' = run then None else waiting_slots waiting nm' run')"
  by (auto simp: waiting_slots_def run_entry_def map_of_forget_run map_of_map_delete split: option.splits)

lemma slots_deleted_node:
  "waiting_slots (map_delete nm waiting) nm' run' = (if nm' = nm then None else waiting_slots waiting nm' run')"
  by (simp add: waiting_slots_def run_entry_def map_of_map_delete)

lemma ascending_delete: "ascending runs \<Longrightarrow> ascending (map_delete run runs)"
proof -
  assume "ascending runs"
  then have "sorted_wrt (<) (filter (\<lambda>k. k \<noteq> run) (map fst runs))" by (rule sorted_wrt_filter)
  also have "filter (\<lambda>k. k \<noteq> run) (map fst runs) = map fst (map_delete run runs)"
    by (induction runs) auto
  finally show ?thesis .
qed

text \<open>What is left after a run is removed, and when the node itself goes.\<close>

lemma remove_waiting_views:
  assumes "map_of (xs_waiting s) nm = Some runs"
  shows "map_of (xs_waiting (remove_waiting nm run s)) =
      (if map_delete run runs = [] then (map_of (xs_waiting s))(nm := None)
       else (map_of (xs_waiting s))(nm \<mapsto> map_delete run runs))"
    and "nm' \<noteq> nm \<or> map_delete run runs \<noteq> [] \<and> run' \<noteq> run \<Longrightarrow>
      waiting_slots (xs_waitingSource (remove_waiting nm run s)) nm' run' = waiting_slots (xs_waitingSource s) nm' run'"
    and "xs_stack (remove_waiting nm run s) = xs_stack s" and "xs_runData (remove_waiting nm run s) = xs_runData s"
  using assms
  by (auto simp: remove_waiting_def Let_def map_of_forget_run map_of_map_delete fun_eq_iff slots_deleted_node
      slots_forget_run)

lemma slots_remove_waiting:
  assumes "map_of (xs_waiting s) nm = Some runs"
  shows "waiting_slots (xs_waiting (remove_waiting nm run s)) nm' run'
    = (if nm' = nm \<and> run' = run then None else waiting_slots (xs_waiting s) nm' run')"
proof (cases "nm' = nm")
  case True
  have "map_of runs run' = None" if "map_delete run runs = []" "run' \<noteq> run"
    using map_of_map_delete [of run runs] fun_cong [of _ _ run'] that by (metis fun_upd_other map_of.simps(1))
  then show ?thesis using True assms
    by (auto simp: waiting_slots_def run_entry_def remove_waiting_views(1) [OF assms] map_of_map_delete)
next
  case False
  then show ?thesis using assms
    by (simp add: waiting_slots_def run_entry_def remove_waiting_views(1) [OF assms])
qed

lemma waiting_ok_removed:
  assumes ok: "waiting_ok w s"
    and st: "stores nm run xs (xs_waiting s) (xs_waiting s')" "stores nm run ys (xs_waitingSource s) (xs_waitingSource s')"
  shows "waiting_ok w (remove_waiting nm run s')"
proof (rule waiting_okI)
  let ?s = "remove_waiting nm run s'"
  show "map_of (xs_waitingSource ?s) nm' = None" if none: "map_of (xs_waiting ?s) nm' = None" for nm'
  proof -
    from st(1) obtain runs where nm: "map_of (xs_waiting s') nm = Some runs" unfolding stores_def by auto
    show ?thesis
    proof (cases "nm' = nm")
      case True
      with none have "map_delete run runs = []" using remove_waiting_views(1) [OF nm, of run] by (auto split: if_splits)
      then show ?thesis using nm True by (simp add: remove_waiting_def Let_def map_of_forget_run map_of_map_delete)
    next
      case False
      then have "map_of (xs_waiting s') nm' = None"
        using none remove_waiting_views(1) [OF nm, of run] by (auto split: if_splits)
      then have "map_of (xs_waitingSource s') nm' = None"
        using waiting_ok_sources [OF ok] unfolding run_entry_stores(2) [OF st(1)] run_entry_stores(2) [OF st(2)] by simp
      then show ?thesis using False
        by (simp add: remove_waiting_def Let_def map_of_forget_run map_of_map_delete split: option.split)
    qed
  qed
next
  from st(1) obtain runs cs where 1: "map_of (xs_waiting s') = (map_of (xs_waiting s))(nm \<mapsto> runs)"
    "map_of runs = (map_of (node_runs (xs_waiting s) nm))(run \<mapsto> cs)"
    "ascending (node_runs (xs_waiting s) nm) \<longrightarrow> ascending runs" unfolding stores_def by blast
  then have nm: "map_of (xs_waiting s') nm = Some runs" by simp
  let ?s = "remove_waiting nm run s'"
  note views = remove_waiting_views [OF nm, where run = run]
  note src = run_entry_stores(1) [OF st(2)]
  fix nm' runs'
  assume w': "map_of (xs_waiting ?s) nm' = Some runs'"
  show "node_waits w ?s nm'"
  proof (cases "nm' = nm")
    case False
    then have "map_of (xs_waiting ?s) nm' = map_of (xs_waiting s) nm'" using views(1) 1(1) by simp
    moreover from this w' have "node_waits w s nm'" by (intro waiting_okD [OF ok, of _ runs']) simp
    ultimately show ?thesis using False views(2) src by (subst node_waits_cong) auto
  next
    case True
    with w' views(1) have d: "map_delete run runs \<noteq> []" "runs' = map_delete run runs"
      by (auto split: if_splits)
    then have r: "node_runs (xs_waiting ?s) nm = map_delete run runs"
      using w' True by (simp add: node_runs_def get_or_def)
    have "run_waits (length (main_inputs_of w nm)) cs' \<and> waiting_slots (xs_waitingSource ?s) nm run' \<noteq> None"
      if "map_of (map_delete run runs) run' = Some cs'" for run' cs'
    proof -
      from that have n: "run' \<noteq> run" "map_of runs run' = Some cs'" by (auto simp: map_of_map_delete split: if_splits)
      with 1(2) have "map_of (node_runs (xs_waiting s) nm) run' = Some cs'" by simp
      from runs_wait [OF ok this] show ?thesis using n(1) d(1) views(2) src by simp
    qed
    then show ?thesis unfolding True using 1(3) runs_ascending [OF ok] d(1)
      by (intro node_waitsI) (auto simp: r intro: ascending_delete)
  qed
qed

section \<open>Storing an input\<close>

text \<open>The first waiting run without data for the input, as the loop over the runs finds it.\<close>

definition open_run :: "exec_state \<Rightarrow> string \<Rightarrow> nat \<Rightarrow> (nat \<times> (string \<times> exec_item list option option list) list) option" where
  "open_run s nm i = find (\<lambda>(run, cs). \<not> has_slot (get_or [] (map_of cs Main_type)) i) (node_runs (xs_waiting s) nm)"

definition target_run :: "exec_state \<Rightarrow> string \<Rightarrow> nat \<Rightarrow> nat" where
  "target_run s nm i = (case open_run s nm i of Some (run, _) \<Rightarrow> run | None \<Rightarrow> length (node_runs (xs_waiting s) nm))"

definition target_slots :: "workflow \<Rightarrow> exec_state \<Rightarrow> string \<Rightarrow> nat \<Rightarrow> exec_item list option option list" where
  "target_slots w s nm i = (case open_run s nm i of
     Some (_, cs) \<Rightarrow> get_or [] (map_of cs Main_type) | None \<Rightarrow> replicate (length (main_inputs_of w nm)) (Some None))"

lemma free_run_find:
  assumes "\<forall>(run, cs) \<in> set runs. map_of cs Main_type \<noteq> None"
  shows "free_run i runs = Inr (map_option fst (find (\<lambda>(run, cs). \<not> has_slot (get_or [] (map_of cs Main_type)) i) runs))"
  using assms by (induction i runs rule: free_run.induct) (auto simp: main_of_def get_or_def)

lemma free_run_ok:
  assumes ok: "waiting_ok w s"
  shows "free_run i (node_runs (xs_waiting s) nm) = Inr (map_option fst (open_run s nm i))"
  unfolding open_run_def
proof (rule free_run_find)
  have "map_of cs Main_type \<noteq> None" if "(run, cs) \<in> set (node_runs (xs_waiting s) nm)" for run cs
    using that runs_wait [OF ok, of nm run cs] ascending_map_of [OF runs_ascending [OF ok]]
    by (auto simp: run_waits_def split: option.splits)
  then show "\<forall>(run, cs) \<in> set (node_runs (xs_waiting s) nm). map_of cs Main_type \<noteq> None" by blast
qed

lemma open_runD:
  assumes ok: "waiting_ok w s" and found: "open_run s nm i = Some (run, cs)"
  shows "map_of (xs_waiting s) nm \<noteq> None" and "waiting_slots (xs_waiting s) nm run = Some (target_slots w s nm i)"
    and "run = target_run s nm i" and "run_waits (length (main_inputs_of w nm)) cs"
    and "waiting_slots (xs_waitingSource s) nm run \<noteq> None"
proof -
  from found have "(run, cs) \<in> set (node_runs (xs_waiting s) nm)" unfolding open_run_def by (rule find_Some_in [THEN conjunct1])
  then have m: "map_of (node_runs (xs_waiting s) nm) run = Some cs"
    using ascending_map_of [OF runs_ascending [OF ok]] by blast
  from runs_wait [OF ok m] show "run_waits (length (main_inputs_of w nm)) cs"
    "waiting_slots (xs_waitingSource s) nm run \<noteq> None" by simp_all
  from m show "map_of (xs_waiting s) nm \<noteq> None" by (auto simp: node_runs_def get_or_def split: option.splits)
  with m \<open>run_waits _ cs\<close> show "waiting_slots (xs_waiting s) nm run = Some (target_slots w s nm i)"
    by (auto simp: waiting_slots_def run_entry_def node_runs_def get_or_def target_slots_def found run_waits_def
        split: option.splits)
  show "run = target_run s nm i" by (simp add: target_run_def found)
qed

lemma target_slots_ok:
  assumes "waiting_ok w s"
  shows "length (target_slots w s nm i) = length (main_inputs_of w nm)" and "None \<notin> set (target_slots w s nm i)"
proof -
  have "length (target_slots w s nm i) = length (main_inputs_of w nm) \<and> None \<notin> set (target_slots w s nm i)"
  proof (cases "open_run s nm i")
    case None
    then show ?thesis by (auto simp: target_slots_def)
  next
    case (Some r)
    obtain run cs where r: "r = (run, cs)" by (cases r)
    from open_runD(4) [OF assms Some [unfolded r]] show ?thesis
      by (auto simp: target_slots_def Some r run_waits_def get_or_def split: option.splits)
  qed
  then show "length (target_slots w s nm i) = length (main_inputs_of w nm)" "None \<notin> set (target_slots w s nm i)"
    by simp_all
qed

lemma arr_put_inside: "i < length xs \<Longrightarrow> arr_put h i v xs = xs[i := v]"
  by (simp add: arr_put_def)

text \<open>Writing one input of a run that is there, in both objects.\<close>

lemma put_both:
  assumes "waiting_slots (xs_waiting s) nm run = Some xs" and "waiting_slots (xs_waitingSource s) nm run = Some ys"
    and "i < length xs"
  shows "\<exists>s' ys'. res_bind (put_waiting nm run i items (xs_waiting s)) (\<lambda>waiting.
      res_bind (put_waiting nm run i src (xs_waitingSource s)) (\<lambda>waitingSource.
        Inr (run, s\<lparr>xs_waiting := waiting, xs_waitingSource := waitingSource\<rparr>))) = Inr (run, s')
    \<and> stores nm run (xs[i := items]) (xs_waiting s) (xs_waiting s')
    \<and> stores nm run ys' (xs_waitingSource s) (xs_waitingSource s')
    \<and> xs_stack s' = xs_stack s \<and> xs_runData s' = xs_runData s"
proof -
  from put_waiting_stores [OF assms(1), of i items] obtain w1 where 1: "put_waiting nm run i items (xs_waiting s) = Inr w1"
    "stores nm run (xs[i := items]) (xs_waiting s) w1" using assms(3) by (auto simp: arr_put_inside)
  from put_waiting_stores [OF assms(2), of i src] obtain w2 where 2: "put_waiting nm run i src (xs_waitingSource s) = Inr w2"
    "stores nm run (arr_put None i src ys) (xs_waitingSource s) w2" by auto
  show ?thesis unfolding 1(1) 2(1) res_bind_Inr
    by (rule exI [of _ "s\<lparr>xs_waiting := w1, xs_waitingSource := w2\<rparr>"], rule exI [of _ "arr_put None i src ys"])
      (simp add: 1(2) 2(2))
qed

definition with_node :: "string \<Rightarrow> exec_state \<Rightarrow> exec_state" where
  "with_node nm s = (if map_of (xs_waiting s) nm = None
     then s\<lparr>xs_waiting := obj_put nm [] (xs_waiting s), xs_waitingSource := obj_put nm [] (xs_waitingSource s)\<rparr> else s)"

lemma store_input_eq:
  "store_input w c items src s =
     (let nm = conn_node c; s = with_node nm s; runs = node_runs (xs_waiting s) nm
      in res_bind (free_run (conn_index c) runs) (\<lambda>found.
           let run = get_or (length runs) found;
               s = (if found = None then prepareWaitingToExecution nm (length (main_inputs_of w nm)) run s else s)
           in res_bind (put_waiting nm run (conn_index c) items (xs_waiting s)) (\<lambda>waiting.
              res_bind (put_waiting nm run (conn_index c) src (xs_waitingSource s)) (\<lambda>waitingSource.
                Inr (run, s\<lparr>xs_waiting := waiting, xs_waitingSource := waitingSource\<rparr>)))))"
  by (simp add: store_input_def with_node_def node_runs_def Let_def)

lemma with_node_stores:
  assumes "stores nm run xs (xs_waiting (with_node nm s)) wt"
  shows "stores nm run xs (xs_waiting s) wt"
  using assms by (auto simp: with_node_def intro: stores_fresh split: if_splits)

lemma store_input_ok:
  assumes ok: "waiting_ok w s" and i: "conn_index c < length (main_inputs_of w (conn_node c))"
  shows "\<exists>s' ys. store_input w c items src s = Inr (target_run s (conn_node c) (conn_index c), s')
    \<and> stores (conn_node c) (target_run s (conn_node c) (conn_index c))
        ((target_slots w s (conn_node c) (conn_index c))[conn_index c := items]) (xs_waiting s) (xs_waiting s')
    \<and> stores (conn_node c) (target_run s (conn_node c) (conn_index c)) ys (xs_waitingSource s) (xs_waitingSource s')
    \<and> xs_stack s' = xs_stack s \<and> xs_runData s' = xs_runData s"
proof -
  let ?nm = "conn_node c" and ?i = "conn_index c"
  let ?k = "length (main_inputs_of w ?nm)" and ?run = "target_run s ?nm ?i"
  have r0: "node_runs (xs_waiting (with_node ?nm s)) ?nm = node_runs (xs_waiting s) ?nm"
    by (simp add: with_node_def node_runs_def get_or_def js_obj.lookup_put)
  have run: "get_or (length (node_runs (xs_waiting s) ?nm)) (map_option fst (open_run s ?nm ?i)) = ?run"
    by (simp add: get_or_def target_run_def split: option.splits)
  have rest: "xs_stack (with_node ?nm s) = xs_stack s" "xs_runData (with_node ?nm s) = xs_runData s"
    by (simp_all add: with_node_def)
  show ?thesis
  proof (cases "open_run s ?nm ?i")
    case None
    let ?p = "prepareWaitingToExecution ?nm ?k ?run (with_node ?nm s)"
    have src0: "stores ?nm ?run ys (xs_waitingSource (with_node ?nm s)) wt \<Longrightarrow> stores ?nm ?run ys (xs_waitingSource s) wt" for ys wt
      using waiting_ok_sources [OF ok, of ?nm] by (auto simp: with_node_def intro: stores_fresh split: if_splits)
    have p: "stores ?nm ?run (replicate ?k (Some None)) (xs_waiting s) (xs_waiting ?p)"
      "stores ?nm ?run (replicate ?k None) (xs_waitingSource s) (xs_waitingSource ?p)"
      using stores_prepare with_node_stores src0 by fast+
    have t: "target_slots w s ?nm ?i = replicate ?k (Some None)" by (simp add: target_slots_def None)
    have "waiting_slots (xs_waiting ?p) ?nm ?run = Some (target_slots w s ?nm ?i)"
      "waiting_slots (xs_waitingSource ?p) ?nm ?run = Some (replicate ?k None)"
      using run_entry_stores(1) [OF p(1)] run_entry_stores(1) [OF p(2)] t by simp_all
    from put_both [OF this, of ?i items src] target_slots_ok(1) [OF ok] i
    show ?thesis unfolding store_input_eq Let_def r0 free_run_ok [OF ok] res_bind_Inr run
      using stores_trans [OF p(1)] stores_trans [OF p(2)] rest
      by (fastforce simp: None prepareWaitingToExecution_def)
  next
    case (Some e)
    obtain rn cs where e: "e = (rn, cs)" by (cases e)
    note D = open_runD [OF ok Some [unfolded e]]
    have wn: "with_node ?nm s = s" using D(1) by (auto simp: with_node_def)
    from D(3,5) obtain ys where "waiting_slots (xs_waitingSource s) ?nm ?run = Some ys" by blast
    with put_both [OF _ this, of "target_slots w s ?nm ?i" ?i items src] D(2,3) target_slots_ok(1) [OF ok] i
    show ?thesis unfolding store_input_eq Let_def wn free_run_ok [OF ok] res_bind_Inr run by (fastforce simp: Some)
  qed
qed

section \<open>Adding a node\<close>

definition collapse :: "exec_item list option option list \<Rightarrow> exec_item list option list" where
  "collapse xs = map (\<lambda>x. Option.bind x (\<lambda>x. x)) xs"

lemma map_of_stack_slots: "map_of (stack_slots cs) ty = map_option collapse (map_of cs ty)"
  by (induction cs) (auto simp: stack_slots_def collapse_def)

lemma waiting_enqueue [simp]:
  "xs_waiting (enqueue_entry w e s) = xs_waiting s" "xs_waitingSource (enqueue_entry w e s) = xs_waitingSource s"
  "xs_runData (enqueue_entry w e s) = xs_runData s"
  "xs_stack (enqueue_entry w e s) = (if isLegacyExecutionOrder w then xs_stack s @ [e] else e # xs_stack s)"
  by (simp_all add: enqueue_entry_def)

lemma start_waiting_run_ok:
  assumes ok: "waiting_ok w s" and st: "stores (node_name n) run xs (xs_waiting s) (xs_waiting s')"
    "stores (node_name n) run ys (xs_waitingSource s) (xs_waitingSource s')"
    and rest: "xs_stack s' = xs_stack s" "xs_runData s' = xs_runData s"
  shows "\<exists>e. ex_node e = n \<and> map_of (ex_data e) Main_type = Some (collapse xs)
    \<and> xs_stack (start_waiting_run w n run s') = xs_stack (enqueue_entry w e s)
    \<and> xs_runData (start_waiting_run w n run s') = xs_runData s
    \<and> waiting_ok w (start_waiting_run w n run s')
    \<and> (\<forall>nm' run'. waiting_slots (xs_waiting (start_waiting_run w n run s')) nm' run'
         = (if nm' = node_name n \<and> run' = run then None else waiting_slots (xs_waiting s) nm' run'))"
proof -
  let ?e = "\<lparr>ex_node = n, ex_data = stack_slots (get_or [] (run_entry (node_name n) run (xs_waiting s'))),
     ex_source = run_entry (node_name n) run (xs_waitingSource s'), ex_metadata = None, ex_runIndex = None\<rparr>"
  let ?s = "enqueue_entry w ?e s'"
  have st': "stores (node_name n) run xs (xs_waiting s) (xs_waiting ?s)"
    "stores (node_name n) run ys (xs_waitingSource s) (xs_waitingSource ?s)" using st by simp_all
  from st(1) obtain runs where "map_of (xs_waiting s') (node_name n) = Some runs" unfolding stores_def by auto
  then have nm: "map_of (xs_waiting ?s) (node_name n) = Some runs" by simp
  have "waiting_slots (xs_waiting s') (node_name n) run = Some xs" using run_entry_stores(1) [OF st(1)] by simp
  then have "map_of (ex_data ?e) Main_type = Some (collapse xs)"
    by (auto simp: map_of_stack_slots waiting_slots_def get_or_def split: bind_splits)
  then show ?thesis
    using waiting_ok_removed [OF ok st'] rest slots_remove_waiting [OF nm, of run] run_entry_stores(1) [OF st(1)]
      remove_waiting_views(3,4) [OF nm, of run]
    by (intro exI [of _ ?e]) (simp add: start_waiting_run_def)
qed

text \<open>The forced inputs of the legacy order only append to the stack.\<close>

definition appended :: "exec_state \<Rightarrow> exec_state \<Rightarrow> bool" where
  "appended s s' \<longleftrightarrow> (\<exists>es. s' = s\<lparr>xs_stack := xs_stack s @ es\<rparr>)"

lemma appended_refl [simp]: "appended s s"
  unfolding appended_def by (rule exI [of _ "[]"]) simp

lemma appended_trans: "appended s t \<Longrightarrow> appended t u \<Longrightarrow> appended s u"
  unfolding appended_def by auto

lemma add_input_node_appends:
  assumes "add_input_node w targets parent j out r c s = Inr s'"
  shows "appended s s'" and "\<not> isLegacyExecutionOrder w \<Longrightarrow> s' = s"
proof -
  have "s' = s \<or> isLegacyExecutionOrder w \<and> (\<exists>e. s' = enqueue_entry w e s)"
    using assms by (auto simp: add_input_node_def Let_def res_bind_eq_Inr split: if_splits option.splits)
  then show "appended s s'" "\<not> isLegacyExecutionOrder w \<Longrightarrow> s' = s"
    by (auto simp: enqueue_entry_def appended_def intro: exI [of _ "[]"])
qed

lemma add_missing_inputs_appends:
  assumes "add_missing_inputs w nm parent j out r s = Inr s'"
  shows "appended s s'" and "\<not> isLegacyExecutionOrder w \<Longrightarrow> s' = s"
proof -
  from assms obtain targets where
    loop: "for_each (add_input_node w targets parent j out r) (concat (map (get_or []) (main_inputs_of w nm))) s = Inr s'"
    by (auto simp: add_missing_inputs_def res_bind_eq_Inr)
  show "appended s s'"
    by (rule for_each_inv [OF loop, where Q = "appended s"]) (auto intro: appended_trans add_input_node_appends)
  show "s' = s" if "\<not> isLegacyExecutionOrder w"
    by (rule for_each_inv [OF loop, where Q = "\<lambda>t. t = s"]) (use add_input_node_appends(2) that in blast)+
qed

lemma appended_views: "appended s s' \<Longrightarrow> xs_waiting s' = xs_waiting s \<and> xs_waitingSource s' = xs_waitingSource s
    \<and> xs_runData s' = xs_runData s"
  by (auto simp: appended_def)

text \<open>
  The check of the other inputs raises no error when the targets of the parent are listed by
  destination and no output of the run data is null.
\<close>

definition main_listed :: "workflow \<Rightarrow> string \<Rightarrow> bool" where
  "main_listed w nm = (case map_of (wf_connectionsByDestinationNode w) nm of
     None \<Rightarrow> False | Some tys \<Rightarrow> map_of tys Main_type \<noteq> None)"

definition targets_listed :: "workflow \<Rightarrow> string \<Rightarrow> bool" where
  "targets_listed w parent = (case targets_of_parent w parent of
     Inl e \<Rightarrow> False | Inr targets \<Rightarrow> list_all (main_listed w) targets)"

definition outputs_present :: "run_data \<Rightarrow> bool" where
  "outputs_present runData \<longleftrightarrow> (\<forall>(nm, runs) \<in> set runData. \<forall>td \<in> set runs.
     case td_data td of None \<Rightarrow> True | Some cs \<Rightarrow> (case map_of cs Main_type of None \<Rightarrow> True | Some outs \<Rightarrow> None \<notin> set outs))"

lemma main_output_present: "outputs_present runData \<Longrightarrow> main_output runData nm r i \<noteq> Some None"
proof
  assume ok: "outputs_present runData" and "main_output runData nm r i = Some None"
  then obtain runs td cs outs where *: "map_of runData nm = Some runs" "arr_get runs r = Some td" "td_data td = Some cs"
    "map_of cs Main_type = Some outs" "arr_get outs i = Some None"
    unfolding main_output_def by (auto simp: bind_eq_Some_conv)
  from ok map_of_SomeD [OF *(1)] arr_get_in_set [OF *(2)] have "None \<notin> set outs"
    unfolding outputs_present_def using *(3,4) by fastforce
  with arr_get_in_set [OF *(5)] show False by simp
qed

lemma incoming_total: "outputs_present runData \<Longrightarrow> \<exists>b. incomingConnectionIsEmpty runData cs r = Inr b"
  using main_output_present by (induction runData cs r rule: incomingConnectionIsEmpty.induct)
    (auto split: option.splits)

lemma add_input_node_v1:
  assumes "\<not> isLegacyExecutionOrder w" and "list_all (main_listed w) targets" and "outputs_present (xs_runData s)"
  shows "add_input_node w targets parent j out r c s = Inr s"
proof -
  have "\<exists>b. res_bind (input_bucket w (conn_node c) 0) (\<lambda>cs. res_bind (incomingConnectionIsEmpty (xs_runData s) cs r)
      (\<lambda>empty. Inr (\<not> empty))) = Inr b" if "conn_node c \<in> set targets"
  proof -
    from assms(2) that have "main_listed w (conn_node c)" by (simp add: list_all_iff)
    then obtain cs where "input_bucket w (conn_node c) 0 = Inr cs"
      by (auto simp: main_listed_def input_bucket_def split: option.splits)
    with incoming_total [OF assms(3), of cs r] show ?thesis by auto
  qed
  then show ?thesis using assms(1) by (fastforce simp: add_input_node_def Let_def)
qed

lemma add_missing_inputs_v1:
  assumes "\<not> isLegacyExecutionOrder w" and "targets_listed w parent" and "outputs_present (xs_runData s)"
  shows "add_missing_inputs w nm parent j out r s = Inr s"
proof -
  from assms(2) obtain targets where t: "targets_of_parent w parent = Inr targets" "list_all (main_listed w) targets"
    by (auto simp: targets_listed_def split: sum.splits)
  have "for_each (add_input_node w targets parent j out r) cs s = Inr s" for cs
    using add_input_node_v1 [OF assms(1) t(2) assms(3)] by (induction cs) auto
  then show ?thesis by (simp add: add_missing_inputs_def t(1))
qed

lemma keep_waiting_ok:
  assumes "stores (conn_node c) run xs (xs_waiting s) (xs_waiting t)"
    and "stores (conn_node c) run ys (xs_waitingSource s) (xs_waitingSource t)"
    and "conn_index c < length xs" and "xs ! conn_index c = items"
  shows "\<exists>t'. keep_waiting w c items run t = Inr t' \<and> stores (conn_node c) run xs (xs_waiting s) (xs_waiting t')
    \<and> stores (conn_node c) run ys (xs_waitingSource s) (xs_waitingSource t')
    \<and> xs_stack t' = xs_stack t \<and> xs_runData t' = xs_runData t"
proof -
  let ?p = "prepareWaitingToExecution (conn_node c) (length (main_inputs_of w (conn_node c))) run t"
  let ?t' = "?p\<lparr>xs_waiting := obj_put (conn_node c) (index_put run [(Main_type, arr_put None (conn_index c) items xs)]
               (get_or [] (map_of (xs_waiting ?p) (conn_node c)))) (xs_waiting ?p),
             xs_waitingSource := obj_put (conn_node c) (index_put run [(Main_type, ys)]
               (get_or [] (map_of (xs_waitingSource ?p) (conn_node c)))) (xs_waitingSource ?p)\<rparr>"
  have "waiting_slots (xs_waiting t) (conn_node c) run = Some xs" "waiting_slots (xs_waitingSource t) (conn_node c) run = Some ys"
    using run_entry_stores(1) [OF assms(1)] run_entry_stores(1) [OF assms(2)] by simp_all
  then have eq: "keep_waiting w c items run t = Inr ?t'"
    by (simp add: keep_waiting_def Let_def waiting_inputs_slots)
  have "xs[conn_index c := items] = xs" using assms(4) by auto
  then have put: "stores (conn_node c) run xs (xs_waiting ?p) (xs_waiting ?t')"
    using assms(3) by (auto simp: arr_put_inside node_runs_def intro!: stores_put)
  have put2: "stores (conn_node c) run ys (xs_waitingSource ?p) (xs_waitingSource ?t')"
    by (auto simp: node_runs_def intro!: stores_put)
  show ?thesis
  proof (intro exI conjI)
    show "keep_waiting w c items run t = Inr ?t'" by (rule eq)
    show "stores (conn_node c) run xs (xs_waiting s) (xs_waiting ?t')"
      by (rule stores_trans [OF stores_trans [OF assms(1) stores_prepare(1)] put])
    show "stores (conn_node c) run ys (xs_waitingSource s) (xs_waitingSource ?t')"
      by (rule stores_trans [OF stores_trans [OF assms(2) stores_prepare(2)] put2])
  qed (simp_all add: prepareWaitingToExecution_def)
qed

text \<open>Both branches of a call for a node with several inputs, after the data was stored.\<close>

lemma add_with_inputs_result:
  assumes ok: "waiting_ok w s" and i: "conn_index c < length (main_inputs_of w (conn_node c))"
    and items: "arr_get outs outputIndex = Some (Some items)" and n: "getNode w (conn_node c) = Some n"
  defines "run \<equiv> target_run s (conn_node c) (conn_index c)"
    and "slots \<equiv> (target_slots w s (conn_node c) (conn_index c))[conn_index c := Some (Some items)]"
  obtains t ys where "stores (conn_node c) run slots (xs_waiting s) (xs_waiting t)"
    and "stores (conn_node c) run ys (xs_waitingSource s) (xs_waitingSource t)"
    and "xs_stack t = xs_stack s" and "xs_runData t = xs_runData s"
    and "add_with_inputs w c outputIndex parent (Some outs) r s =
      (if Some None \<in> set slots
       then res_bind (if map_of (xs_waiting s) (conn_node c) \<noteq> None then Inr t
              else add_missing_inputs w (conn_node c) parent outputIndex (Some outs) r t)
            (keep_waiting w c (Some (Some items)) run)
       else Inr (start_waiting_run w n run t))"
proof -
  let ?src = "Some (source_entry parent outputIndex r)"
  from store_input_ok [OF ok i, of "Some (Some items)" ?src] obtain t ys where
    st: "store_input w c (Some (Some items)) ?src s = Inr (run, t)"
      "stores (conn_node c) run slots (xs_waiting s) (xs_waiting t)"
      "stores (conn_node c) run ys (xs_waitingSource s) (xs_waitingSource t)"
      "xs_stack t = xs_stack s" "xs_runData t = xs_runData s"
    unfolding run_def slots_def by blast
  have "waiting_inputs (conn_node c) run (xs_waiting t) = Inr slots"
    using run_entry_stores(1) [OF st(2)] by (simp add: waiting_inputs_slots)
  then have "add_with_inputs w c outputIndex parent (Some outs) r s =
      (if Some None \<in> set slots
       then res_bind (if map_of (xs_waiting s) (conn_node c) \<noteq> None then Inr t
              else add_missing_inputs w (conn_node c) parent outputIndex (Some outs) r t)
            (keep_waiting w c (Some (Some items)) run)
       else Inr (start_waiting_run w n run t))"
    by (auto simp: add_with_inputs_def Let_def st(1) items n)
  with st that show ?thesis by blast
qed

lemma slots_after:
  assumes "waiting_ok w s" and "i < length (main_inputs_of w nm)"
  shows "length ((target_slots w s nm i)[i := Some x]) = length (main_inputs_of w nm)"
    and "None \<notin> set ((target_slots w s nm i)[i := Some x])"
    and "(target_slots w s nm i)[i := Some x] ! i = Some x"
  using target_slots_ok [OF assms(1), of nm i] assms(2) set_update_subset_insert [of "target_slots w s nm i" i "Some x"]
  by auto

text \<open>A call keeps the invariant, whichever branch it takes and in both orders.\<close>

lemma add_keeps_waiting_ok:
  assumes ok: "waiting_ok w s" and i: "conn_index c < length (main_inputs_of w (conn_node c))"
    and items: "arr_get outs outputIndex = Some (Some items)"
    and n: "getNode w (conn_node c) = Some n" "node_name n = conn_node c"
    and ret: "addNodeToBeExecuted w c outputIndex parent (Some outs) r newRun meta s = Inr s'"
  shows "waiting_ok w s'"
proof (cases "1 < length (main_inputs_of w (conn_node c))")
  case False
  with ret n(1) show ?thesis
    by (auto simp: addNodeToBeExecuted_def Let_def intro: waiting_ok_only [OF ok])
next
  case True
  with ret have ret': "add_with_inputs w c outputIndex parent (Some outs) r s = Inr s'"
    by (simp add: addNodeToBeExecuted_def)
  define run where "run = target_run s (conn_node c) (conn_index c)"
  define slots where "slots = (target_slots w s (conn_node c) (conn_index c))[conn_index c := Some (Some items)]"
  from add_with_inputs_result [OF ok i items n(1), of parent r] obtain t ys where
    t: "stores (conn_node c) run slots (xs_waiting s) (xs_waiting t)"
      "stores (conn_node c) run ys (xs_waitingSource s) (xs_waitingSource t)"
      "xs_stack t = xs_stack s" "xs_runData t = xs_runData s"
    and eq: "add_with_inputs w c outputIndex parent (Some outs) r s =
      (if Some None \<in> set slots
       then res_bind (if map_of (xs_waiting s) (conn_node c) \<noteq> None then Inr t
              else add_missing_inputs w (conn_node c) parent outputIndex (Some outs) r t)
            (keep_waiting w c (Some (Some items)) run)
       else Inr (start_waiting_run w n run t))" unfolding run_def slots_def by blast
  note after = slots_after [OF ok i, where x = "Some items", folded slots_def]
  have at: "conn_index c < length slots" using i after(1) by simp
  show ?thesis
  proof (cases "Some None \<in> set slots")
    case False
    with eq ret' have "s' = start_waiting_run w n run t" by simp
    with start_waiting_run_ok [OF ok, of n run slots t ys] t n(2) show ?thesis by auto
  next
    case True
    from ret' [unfolded eq] True have "\<exists>u. appended t u \<and> keep_waiting w c (Some (Some items)) run u = Inr s'"
      by (cases "map_of (xs_waiting s) (conn_node c) = None")
        (auto simp: res_bind_eq_Inr dest: add_missing_inputs_appends(1) intro: exI [of _ t])
    then obtain u where u: "appended t u" "keep_waiting w c (Some (Some items)) run u = Inr s'" by blast
    have "stores (conn_node c) run slots (xs_waiting s) (xs_waiting u)"
      "stores (conn_node c) run ys (xs_waitingSource s) (xs_waitingSource u)"
      using t(1,2) appended_views [OF u(1)] by simp_all
    from keep_waiting_ok [OF this at after(3), of w] u(2)
    have "stores (conn_node c) run slots (xs_waiting s) (xs_waiting s')"
      "stores (conn_node c) run ys (xs_waitingSource s) (xs_waitingSource s')" by auto
    from waiting_ok_stored [OF ok this after(1,2) True] show ?thesis .
  qed
qed

text \<open>
  In the order v1, data for one input of several is stored in its slot, and the run goes onto the
  stack when that was the last one missing.
\<close>

lemma add_with_inputs_views:
  assumes ok: "waiting_ok w s" and i: "conn_index c < length (main_inputs_of w (conn_node c))"
    and several: "1 < length (main_inputs_of w (conn_node c))"
    and items: "arr_get outs outputIndex = Some (Some items)"
    and n: "getNode w (conn_node c) = Some n" "node_name n = conn_node c"
    and v1: "\<not> isLegacyExecutionOrder w"
    and ret: "addNodeToBeExecuted w c outputIndex parent (Some outs) r newRun meta s = Inr s'"
  defines "run \<equiv> target_run s (conn_node c) (conn_index c)"
    and "slots \<equiv> (target_slots w s (conn_node c) (conn_index c))[conn_index c := Some (Some items)]"
  shows "xs_runData s' = xs_runData s"
    and "waiting_slots (xs_waiting s') nm' run' =
         (if nm' = conn_node c \<and> run' = run then (if Some None \<in> set slots then Some slots else None)
          else waiting_slots (xs_waiting s) nm' run')"
    and "if Some None \<in> set slots then xs_stack s' = xs_stack s
       else \<exists>e. xs_stack s' = e # xs_stack s \<and> ex_node e = n \<and> map_of (ex_data e) Main_type = Some (collapse slots)"
proof -
  have ret': "add_with_inputs w c outputIndex parent (Some outs) r s = Inr s'"
    using several ret by (simp add: addNodeToBeExecuted_def)
  from add_with_inputs_result [OF ok i items n(1), of parent r] obtain t ys where
    t: "stores (conn_node c) run slots (xs_waiting s) (xs_waiting t)"
      "stores (conn_node c) run ys (xs_waitingSource s) (xs_waitingSource t)"
      "xs_stack t = xs_stack s" "xs_runData t = xs_runData s"
    and eq: "add_with_inputs w c outputIndex parent (Some outs) r s =
      (if Some None \<in> set slots
       then res_bind (if map_of (xs_waiting s) (conn_node c) \<noteq> None then Inr t
              else add_missing_inputs w (conn_node c) parent outputIndex (Some outs) r t)
            (keep_waiting w c (Some (Some items)) run)
       else Inr (start_waiting_run w n run t))" unfolding run_def slots_def by blast
  note after = slots_after [OF ok i, where x = "Some items", folded slots_def]
  have at: "conn_index c < length slots" using i after(1) by simp
  have "xs_runData s' = xs_runData s \<and> waiting_slots (xs_waiting s') nm' run' =
         (if nm' = conn_node c \<and> run' = run then (if Some None \<in> set slots then Some slots else None)
          else waiting_slots (xs_waiting s) nm' run')
    \<and> (if Some None \<in> set slots then xs_stack s' = xs_stack s
       else \<exists>e. xs_stack s' = e # xs_stack s \<and> ex_node e = n \<and> map_of (ex_data e) Main_type = Some (collapse slots))"
  proof (cases "Some None \<in> set slots")
    case False
    with ret' eq have s': "s' = start_waiting_run w n run t" by simp
    from start_waiting_run_ok [OF ok, of n run slots t ys] t n(2) False v1 show ?thesis unfolding s' by auto
  next
    case True
    have "add_missing_inputs w (conn_node c) parent outputIndex (Some outs) r t = Inr u \<Longrightarrow> u = t" for u
      using add_missing_inputs_appends(2) v1 by blast
    with ret' eq True have keep: "keep_waiting w c (Some (Some items)) run t = Inr s'"
      by (auto simp: res_bind_eq_Inr split: if_splits)
    from keep_waiting_ok [OF t(1,2) at after(3), of w] keep t(3,4) True
    show ?thesis using run_entry_stores(1) by fastforce
  qed
  then show "xs_runData s' = xs_runData s"
    and "waiting_slots (xs_waiting s') nm' run' =
         (if nm' = conn_node c \<and> run' = run then (if Some None \<in> set slots then Some slots else None)
          else waiting_slots (xs_waiting s) nm' run')"
    and "if Some None \<in> set slots then xs_stack s' = xs_stack s
       else \<exists>e. xs_stack s' = e # xs_stack s \<and> ex_node e = n \<and> map_of (ex_data e) Main_type = Some (collapse slots)"
    by blast+
qed

text \<open>It raises no error when the targets of the parent are listed and no output is null.\<close>

lemma add_with_inputs_total:
  assumes ok: "waiting_ok w s" and i: "conn_index c < length (main_inputs_of w (conn_node c))"
    and items: "arr_get outs outputIndex = Some (Some items)" and n: "getNode w (conn_node c) = Some n"
    and v1: "\<not> isLegacyExecutionOrder w" and no_error: "targets_listed w parent" "outputs_present (xs_runData s)"
  shows "\<exists>s'. addNodeToBeExecuted w c outputIndex parent (Some outs) r newRun meta s = Inr s'"
proof (cases "1 < length (main_inputs_of w (conn_node c))")
  case False
  then show ?thesis by (simp add: addNodeToBeExecuted_def n Let_def)
next
  case True
  let ?run = "target_run s (conn_node c) (conn_index c)"
  let ?slots = "(target_slots w s (conn_node c) (conn_index c))[conn_index c := Some (Some items)]"
  from add_with_inputs_result [OF ok i items n, of parent r] obtain t ys where
    t: "stores (conn_node c) ?run ?slots (xs_waiting s) (xs_waiting t)"
      "stores (conn_node c) ?run ys (xs_waitingSource s) (xs_waitingSource t)"
      "xs_runData t = xs_runData s"
    and eq: "add_with_inputs w c outputIndex parent (Some outs) r s =
      (if Some None \<in> set ?slots
       then res_bind (if map_of (xs_waiting s) (conn_node c) \<noteq> None then Inr t
              else add_missing_inputs w (conn_node c) parent outputIndex (Some outs) r t)
            (keep_waiting w c (Some (Some items)) ?run)
       else Inr (start_waiting_run w n ?run t))" by metis
  note after = slots_after [OF ok i, where x = "Some items"]
  have at: "conn_index c < length ?slots" using i after(1) by simp
  have "add_missing_inputs w (conn_node c) parent outputIndex (Some outs) r t = Inr t"
    using add_missing_inputs_v1 [OF v1 no_error(1)] no_error(2) t(3) by simp
  with keep_waiting_ok [OF t(1,2) at after(3), of w] eq show ?thesis
    using True by (auto simp: addNodeToBeExecuted_def)
qed

end
