(* ===== verification/Execution_Loop.thy ===== *)
theory Execution_Loop
  imports Node_Output Waiting_Inputs
begin

text \<open>
  The execution loop (\<^verbatim>\<open>processRunExecutionData\<close> in
  \<^verbatim>\<open>packages/core/src/execution-engine/workflow-execute.ts\<close>): one iteration takes an entry off the
  stack, runs its node, stores what it returned, and schedules the nodes its outputs lead to; when
  the stack is empty a waiting node may run with the inputs it has. What nodes return is an argument,
  as are the inputs a node type requires, the lookup of paired items and the moment the execution is
  cancelled. Hooks, timing, error reporting, binary data and engine requests of AI agents are left out.
\<close>

section \<open>Waiting nodes that run with the inputs they have\<close>

fun str_less :: "string \<Rightarrow> string \<Rightarrow> bool" where
  "str_less xs [] = False"
| "str_less [] (y # ys) = True"
| "str_less (x # xs) (y # ys) = ((of_char x :: nat) < of_char y \<or> x = y \<and> str_less xs ys)"

text \<open>The keys of the runs are sorted as strings.\<close>

definition first_run :: "(nat \<times> 'a) list \<Rightarrow> nat option" where
  "first_run runs = (case map fst runs of
     [] \<Rightarrow> None
   | k # ks \<Rightarrow> Some (fold (\<lambda>a b. if str_less (show_nat a) (show_nat b) then a else b) ks k))"

definition required_of :: "workflow \<Rightarrow> (inode \<Rightarrow> string \<Rightarrow> required_inputs option) \<Rightarrow> inode \<Rightarrow> node_type \<Rightarrow> required_inputs option" where
  "required_of w evaluate n t =
     (if isLegacyExecutionOrder w then None
      else case nt_requiredInputs t of Some (RequiredExpression x) \<Rightarrow> evaluate n x | r \<Rightarrow> r)"

definition requires_all :: "required_inputs option \<Rightarrow> node_type \<Rightarrow> bool" where
  "requires_all req t = (case req of
     Some (RequiredIndices l) \<Rightarrow> length l = nt_inputsLength t | Some (RequiredCount k) \<Rightarrow> k = nt_inputsLength t | _ \<Rightarrow> False)"

definition received :: "exec_item list option option list \<Rightarrow> nat list" where
  "received inputs = filter (\<lambda>i. Option.bind (inputs ! i) (\<lambda>x. x) \<noteq> None) [0..<length inputs]"

definition satisfies :: "required_inputs option \<Rightarrow> exec_item list option option list \<Rightarrow> bool" where
  "satisfies req inputs = (case req of
     Some (RequiredIndices l) \<Rightarrow> set l \<subseteq> set (received inputs)
   | Some (RequiredCount k) \<Rightarrow> k \<le> length (received inputs) | _ \<Rightarrow> True)"

definition has_items_in :: "exec_item list option option list \<Rightarrow> bool" where
  "has_items_in inputs \<longleftrightarrow> (\<exists>x \<in> set inputs. case x of Some (Some items) \<Rightarrow> items \<noteq> [] | _ \<Rightarrow> False)"

definition filled_inputs :: "nat \<Rightarrow> exec_item list option option list \<Rightarrow> exec_item list option list" where
  "filled_inputs k inputs =
     (let xs = map (\<lambda>x. case x of None \<Rightarrow> None | Some None \<Rightarrow> Some [] | Some (Some items) \<Rightarrow> Some items) inputs
      in xs @ replicate (k - length xs) (Some []))"

definition total_runs :: "'a pending_runs \<Rightarrow> nat" where
  "total_runs waiting = sum_list (map (\<lambda>(nm, runs). length runs) waiting)"

text \<open>
  What the loop does with one waiting node: it is skipped, its first run goes onto the stack, or
  its first run is dropped because no item ever arrived.
\<close>

datatype verdict = Skip | Run inode node_type nat "exec_item list option option list" | Drop nat

definition judge_waiting :: "workflow \<Rightarrow> (inode \<Rightarrow> string \<Rightarrow> required_inputs option) \<Rightarrow> string list \<Rightarrow> exec_state \<Rightarrow> string
    \<Rightarrow> verdict result" where
  "judge_waiting w evaluate waitingNodes s nm =
     (case getNode w nm of
        None \<Rightarrow> Inr Skip
      | Some n \<Rightarrow> (case node_type_of w n of
          None \<Rightarrow> Inl (TypeError ''description'')
        | Some t \<Rightarrow>
            (let req = required_of w evaluate n t
             in if requires_all req t then Inr Skip
                else res_bind (wf_getParentNodes w nm (OneType Main_type) (-1)) (\<lambda>parentNodes.
                  if \<exists>p \<in> set parentNodes. p \<in> set waitingNodes then Inr Skip
                  else (case first_run (node_runs (xs_waiting s) nm) of
                      None \<Rightarrow> Inl (TypeError ''main'')
                    | Some run \<Rightarrow> res_bind (waiting_inputs nm run (xs_waiting s)) (\<lambda>inputs.
                        if \<not> satisfies req inputs then Inr Skip
                        else if map_of (xs_waitingSource s) nm = None then Inl (TypeError ''waitingExecutionSource'')
                        else Inr (if has_items_in inputs then Run n t run inputs else Drop run)))))))"

lemma total_runs_removed:
  assumes "waiting_inputs nm run (xs_waiting s) = Inr inputs"
  shows "total_runs (xs_waiting (remove_waiting nm run s)) < total_runs (xs_waiting s)"
proof -
  from assms obtain runs cs where m: "map_of (xs_waiting s) nm = Some runs" "map_of runs run = Some cs"
    by (auto simp: waiting_inputs_def split: option.splits bind_splits)
  have del: "length (map_delete run runs) < length runs" using m(2)
  proof (induction runs)
    case (Cons x xs)
    have "length (map_delete run xs) \<le> length xs" by (induction xs) auto
    with Cons show ?case by (cases x) (auto split: if_splits)
  qed simp
  have in_keys: "nm \<in> set (map fst (xs_waiting s))" using m(1) by (force dest: map_of_SomeD)
  have "total_runs (AList.update nm (map_delete run runs) wt) < total_runs wt" if "map_of wt nm = Some runs" for wt :: "exec_item list option pending_runs"
    using that del by (induction wt) (auto simp: total_runs_def split: if_splits)
  from this [OF m(1)] have forget: "total_runs (forget_run nm run (xs_waiting s)) < total_runs (xs_waiting s)"
    using m(1) in_keys by (simp add: forget_run_def obj_put_def)
  have "total_runs (map_delete nm wt) \<le> total_runs wt" for wt :: "exec_item list option pending_runs"
    by (induction wt) (auto simp: total_runs_def)
  from order.strict_trans1 [OF this forget] forget show ?thesis by (simp add: remove_waiting_def Let_def)
qed

lemma judge_waiting_removes:
  "judge_waiting w evaluate waitingNodes s nm = Inr (Drop run) \<Longrightarrow>
   total_runs (xs_waiting (remove_waiting nm run s)) < total_runs (xs_waiting s)"
  by (auto simp: judge_waiting_def Let_def res_bind_eq_Inr intro: total_runs_removed split: option.splits if_splits)

text \<open>The nodes are tried in order; a dropped run starts the search again.\<close>

function promote_waiting :: "workflow \<Rightarrow> (inode \<Rightarrow> string \<Rightarrow> required_inputs option) \<Rightarrow> string list \<Rightarrow> string list \<Rightarrow> exec_state
    \<Rightarrow> exec_state result" where
  "promote_waiting w evaluate waitingNodes [] s = Inr s"
| "promote_waiting w evaluate waitingNodes (nm # nms) s =
     (case judge_waiting w evaluate waitingNodes s nm of
        Inl err \<Rightarrow> Inl err
      | Inr Skip \<Rightarrow> promote_waiting w evaluate waitingNodes nms s
      | Inr (Run n t run inputs) \<Rightarrow> Inr (remove_waiting nm run
          (s\<lparr>xs_stack := xs_stack s @ [execute_entry n (filled_inputs (nt_inputsLength t) inputs)
             (run_entry nm run (xs_waitingSource s))]\<rparr>))
      | Inr (Drop run) \<Rightarrow> (let s' = remove_waiting nm run s; names = map fst (xs_waiting s')
          in promote_waiting w evaluate names names s'))"
  by pat_completeness auto
termination
  by (relation "measures [\<lambda>(w, ev, all, nms, s). total_runs (xs_waiting s), \<lambda>(w, ev, all, nms, s). length nms]")
    (auto simp: judge_waiting_removes)

declare promote_waiting.simps [simp del]

section \<open>Scheduling the nodes after a node\<close>

definition main_connections :: "workflow \<Rightarrow> string \<Rightarrow> (nat \<times> iconnection) list" where
  "main_connections w nm =
     concat (map (\<lambda>(i, b). map (\<lambda>c. (i, c)) (get_or [] b)) (enumerate 0
       (get_or [] (Option.bind (map_of (wf_connectionsBySourceNode w) nm) (\<lambda>tys. map_of tys Main_type)))))"

text \<open>An output feeds a connection when it has items; in the legacy order also when it has none, past the first input.\<close>

definition feeds :: "workflow \<Rightarrow> node_data \<Rightarrow> nat \<times> iconnection \<Rightarrow> bool" where
  "feeds w data edge = (case arr_get data (fst edge) of
     Some (Some items) \<Rightarrow> items \<noteq> [] \<or> (0 < conn_index (snd edge) \<and> isLegacyExecutionOrder w) | _ \<Rightarrow> False)"

definition target_position :: "workflow \<Rightarrow> nat \<times> iconnection \<Rightarrow> int \<times> int" where
  "target_position w edge = (case getNode w (conn_node (snd edge)) of None \<Rightarrow> (0, 0) | Some n \<Rightarrow> node_position n)"

definition bottom_right_first :: "workflow \<Rightarrow> nat \<times> iconnection \<Rightarrow> nat \<times> iconnection \<Rightarrow> int" where
  "bottom_right_first w a b =
     (let (ax, ay) = target_position w a; (bx, by') = target_position w b
      in if ay < by' then 1 else if ay > by' then -1 else if ax > bx then -1 else 0)"

definition distribute_outputs :: "workflow \<Rightarrow> string \<Rightarrow> node_data \<Rightarrow> nat \<Rightarrow> exec_state \<Rightarrow> exec_state result" where
  "distribute_outputs w nm data runIndex s =
     (let add = (\<lambda>(i, c) s. addNodeToBeExecuted w c i nm (Some data) runIndex None None s);
          exists = (\<lambda>(i, c). map_of (wf_nodes w) (conn_node c) \<noteq> None);
          missing = Inl (UnexpectedError ''Destination node not found'')
      in if isLegacyExecutionOrder w
         then for_each (\<lambda>edge s. if \<not> exists edge then missing else if feeds w data edge then add edge s else Inr s)
                (main_connections w nm) s
         else if \<not> list_all exists (main_connections w nm) then missing
         else for_each add (js_sort (bottom_right_first w) (filter (feeds w data) (main_connections w nm))) s)"

section \<open>One iteration\<close>

record engine = exec_state +
  en_pinData :: pin_data
  en_lastNode :: "string option"
  en_waitTill :: bool
  en_error :: "json option"
  en_index :: nat
  en_calls :: nat
  en_lastTry :: string

record engine_config =
  cf_workflow :: workflow
  cf_run :: "nat \<Rightarrow> run_outcome"
  cf_pairs :: "run_data \<Rightarrow> pair_lookup"
  cf_outputs :: "inode \<Rightarrow> nat"
  cf_evaluate :: "inode \<Rightarrow> string \<Rightarrow> required_inputs option"
  cf_destination :: "string option"
  cf_filter :: "string list option"
  cf_stopped :: "nat \<Rightarrow> bool"

text \<open>The loop goes on, ends for good (an error, a wait, a cancellation) or is left by an exception.\<close>

datatype loop_result = Continue engine | Stop engine | Crash js_error

definition lift_state :: "exec_state \<Rightarrow> engine \<Rightarrow> engine" where
  "lift_state x s = s\<lparr>xs_stack := xs_stack x, xs_waiting := xs_waiting x, xs_waitingSource := xs_waitingSource x,
     xs_runData := xs_runData x\<rparr>"

definition base_state :: "engine \<Rightarrow> exec_state" where
  "base_state s = exec_state.truncate s"

definition rewired :: "inode \<Rightarrow> string option" where
  "rewired n = (case node_rewireOutputLogTo n of Some ty \<Rightarrow> if ty = [] then None else Some ty | None \<Rightarrow> None)"

text \<open>Run data of a node: a new entry at the end, or the fields of the present one overwritten.\<close>

definition assign_task :: "task_data \<Rightarrow> task_data \<Rightarrow> task_data" where
  "assign_task old new = old\<lparr>td_executionIndex := td_executionIndex new, td_source := td_source new,
     td_executionStatus := td_executionStatus new, td_metadata := td_metadata new,
     td_data := (if td_data new = None then td_data old else td_data new),
     td_inputOverride := (if td_inputOverride new = None then td_inputOverride old else td_inputOverride new),
     td_error := (if td_error new = None then td_error old else td_error new)\<rparr>"

definition store_task :: "string \<Rightarrow> nat \<Rightarrow> task_data \<Rightarrow> run_data \<Rightarrow> run_data" where
  "store_task nm runIndex task runData =
     (let runs = get_or [] (map_of runData nm)
      in obj_put nm (case arr_get runs runIndex of
           None \<Rightarrow> runs @ [task] | Some old \<Rightarrow> runs[runIndex := assign_task old task]) runData)"

definition rewire_task :: "run_data \<Rightarrow> inode \<Rightarrow> nat \<Rightarrow> node_data \<Rightarrow> task_data \<Rightarrow> task_data" where
  "rewire_task runData n runIndex data task =
     (case rewired n of
        None \<Rightarrow> task
      | Some ty \<Rightarrow> task\<lparr>td_inputOverride := Some (get_or [] (Option.bind
            (arr_get (get_or [] (map_of runData (node_name n))) runIndex) td_inputOverride)),
          td_data := Some [(ty, data)]\<rparr>)"

definition new_task :: "execute_data \<Rightarrow> nat \<Rightarrow> bool \<Rightarrow> json option \<Rightarrow> task_data" where
  "new_task e index waits err =
     \<lparr>td_executionIndex = Some (int index),
      td_source = (case ex_source e of None \<Rightarrow> [] | Some sources \<Rightarrow> get_or [] (map_of sources Main_type)),
      td_executionStatus = Some (if err \<noteq> None then ''error'' else if waits then ''waiting'' else ''success''),
      td_data = None, td_inputOverride = None, td_error = err, td_metadata = ex_metadata e\<rparr>"

definition message_item :: "json \<Rightarrow> exec_item result" where
  "message_item err = res_bind (error_message err) (\<lambda>json. Inr (empty_item\<lparr>item_json := json\<rparr>))"

definition continues :: "inode \<Rightarrow> bool" where
  "continues n \<longleftrightarrow> continuesOnError n
     \<or> node_rewireOutputLogTo n = Some AiTool_type \<and> node_onError n \<noteq> Some ''stopWorkflow''"

text \<open>What a failed node that continues passes on.\<close>

definition data_of_failure :: "execute_data \<Rightarrow> json \<Rightarrow> node_data option result" where
  "data_of_failure e err =
     (if node_rewireOutputLogTo (ex_node e) = Some AiTool_type
      then res_bind (message_item err) (\<lambda>item. Inr (Some [Some [item]]))
      else Inr (handleDisabledNode (ex_data e)))"

definition fail_node :: "execute_data \<Rightarrow> nat \<Rightarrow> json \<Rightarrow> task_data \<Rightarrow> engine \<Rightarrow> loop_result" where
  "fail_node e runIndex err task s =
     (let n = ex_node e; nm = node_name n
      in case (if rewired n = None then Inr task
               else res_bind (message_item err) (\<lambda>item. Inr (rewire_task (xs_runData s) n runIndex [Some [item]] task))) of
           Inl x \<Rightarrow> Crash x
         | Inr task' \<Rightarrow> Stop (s\<lparr>xs_runData := store_task nm runIndex task' (xs_runData s), xs_stack := e # xs_stack s\<rparr>))"

text \<open>After the data was stored: wait, stop at the destination, or schedule what follows.\<close>

definition follow_up :: "engine_config \<Rightarrow> execute_data \<Rightarrow> nat \<Rightarrow> node_data \<Rightarrow> engine \<Rightarrow> loop_result" where
  "follow_up cf e runIndex data s =
     (let nm = node_name (ex_node e)
      in if en_waitTill s then Stop (s\<lparr>xs_stack := e # xs_stack s\<rparr>)
         else if cf_destination cf = Some nm then Continue s
         else case distribute_outputs (cf_workflow cf) nm data runIndex (base_state s) of
             Inl x \<Rightarrow> Crash x
           | Inr s1 \<Rightarrow> (let names = map fst (xs_waiting s1)
               in case (if xs_stack s1 = [] \<and> names \<noteq> [] then promote_waiting (cf_workflow cf) (cf_evaluate cf) names names s1
                        else Inr s1) of
                    Inl x \<Rightarrow> Crash x | Inr s2 \<Rightarrow> Continue (lift_state s2 s)))"

definition succeed_node :: "engine_config \<Rightarrow> execute_data \<Rightarrow> nat \<Rightarrow> node_data option \<Rightarrow> task_data \<Rightarrow> engine \<Rightarrow> loop_result" where
  "succeed_node cf e runIndex data task s =
     (case data of
        None \<Rightarrow> Crash (TypeError ''not iterable'')
      | Some outs \<Rightarrow> (case merge_errors outs of
          Inl x \<Rightarrow> Crash x
        | Inr merged \<Rightarrow>
            (let n = ex_node e;
                 task' = rewire_task (xs_runData s) n runIndex merged (task\<lparr>td_data := Some [(Main_type, merged)]\<rparr>)
             in follow_up cf e runIndex merged
                  (s\<lparr>xs_runData := store_task (node_name n) runIndex task' (xs_runData s)\<rparr>))))"

definition note_tries :: "string \<Rightarrow> nat \<times> bool \<times> bool \<times> (json + node_data option \<times> node_data option) \<Rightarrow> engine \<Rightarrow> engine" where
  "note_tries nm tries s =
     (let (calls, waits, threw, res) = tries
      in s\<lparr>en_calls := calls, en_waitTill := en_waitTill s \<or> waits,
           en_lastNode := (if threw \<or> (case res of Inr (Some _, _) \<Rightarrow> True | _ \<Rightarrow> False) then Some nm else en_lastNode s),
           en_error := (case res of Inl err \<Rightarrow> Some err | Inr _ \<Rightarrow> en_error s)\<rparr>)"

definition run_entry_node :: "engine_config \<Rightarrow> execute_data \<Rightarrow> nat \<Rightarrow> nat \<Rightarrow> engine \<Rightarrow> loop_result" where
  "run_entry_node cf e runIndex index s =
     (let n = ex_node e; nm = node_name n;
          pinned = (if is_disabled n then None else map_of (en_pinData s) nm);
          tries = run_tries (cf_pairs cf (xs_runData s)) (cf_outputs cf n) pinned (cf_run cf) e (en_calls s);
          s' = note_tries nm tries s
      in case snd (snd (snd tries)) of
           Inr (_, data) \<Rightarrow>
             if data = None \<and> \<not> en_waitTill s' then Continue s'
             else succeed_node cf e runIndex data (new_task e index (en_waitTill s') None) s'
         | Inl err \<Rightarrow>
             (let task = new_task e index (en_waitTill s') (Some err)
              in if \<not> continues n then fail_node e runIndex err task s'
                 else case data_of_failure e err of
                     Inl x \<Rightarrow> Crash x | Inr data \<Rightarrow> succeed_node cf e runIndex data task s'))"

definition engine_iteration :: "engine_config \<Rightarrow> engine \<Rightarrow> loop_result" where
  "engine_iteration cf s =
     (if cf_stopped cf (en_index s) then Stop s
      else case xs_stack s of
          [] \<Rightarrow> Stop s
        | popped # rest \<Rightarrow>
            (let e = track_items popped; nm = node_name (ex_node e); runIndex = run_index_of (xs_runData s) e;
                 current = execution_try nm runIndex; index = en_index s;
                 s = s\<lparr>xs_stack := rest, en_error := None, en_index := Suc index\<rparr>
             in if current = en_lastTry s then Crash (UserError ''endless loop'')
                else if (case cf_filter cf of None \<Rightarrow> False | Some names \<Rightarrow> nm \<notin> set names) then Continue s
                else case ensureInputData (cf_workflow cf) e (base_state s) of
                    Inl x \<Rightarrow> Crash x
                  | Inr (ready, s') \<Rightarrow>
                      if \<not> ready then Continue ((lift_state s' s)\<lparr>en_lastTry := current\<rparr>)
                      else run_entry_node cf e runIndex index s))"

text \<open>\<open>k\<close> iterations at most; \<open>Continue\<close> with entries left means that they were not enough.\<close>

primrec run_loop :: "engine_config \<Rightarrow> nat \<Rightarrow> engine \<Rightarrow> loop_result" where
  "run_loop cf 0 s = (if xs_stack s = [] then Stop s else Continue s)"
| "run_loop cf (Suc k) s =
     (if xs_stack s = [] then Stop s
      else case engine_iteration cf s of Continue s' \<Rightarrow> run_loop cf k s' | r \<Rightarrow> r)"

section \<open>The end of an execution\<close>

fun contains_string :: "string \<Rightarrow> string \<Rightarrow> bool" where
  "contains_string pat [] = (pat = [])"
| "contains_string pat (c # cs) = (take (length pat) (c # cs) = pat \<or> contains_string pat cs)"

definition string_field :: "string \<Rightarrow> json \<Rightarrow> string option" where
  "string_field k j = (case j of JObj m \<Rightarrow> (case map_of m k of Some (JStr s) \<Rightarrow> Some s | _ \<Rightarrow> None) | _ \<Rightarrow> None)"

definition final_status :: "json option \<Rightarrow> bool \<Rightarrow> string" where
  "final_status err waits = (case err of
     Some x \<Rightarrow> if (case string_field ''message'' x of None \<Rightarrow> False | Some m \<Rightarrow> contains_string ''canceled'' m)
         \<or> (case string_field ''name'' x of None \<Rightarrow> False | Some m \<Rightarrow> contains_string ''Cancelled'' m)
       then ''canceled'' else ''error''
   | None \<Rightarrow> if waits then ''waiting'' else ''success'')"

definition updateTaskStatusesToCancelled :: "run_data \<Rightarrow> run_data" where
  "updateTaskStatusesToCancelled = map (\<lambda>(nm, runs). (nm, map (\<lambda>td.
     if td_executionStatus td = Some ''running'' then td\<lparr>td_executionStatus := Some ''canceled''\<rparr> else td) runs))"

definition moveNodeMetadata :: "(string \<times> data_object list) list \<Rightarrow> run_data \<Rightarrow> run_data" where
  "moveNodeMetadata metadata runData =
     fold (\<lambda>(nm, metas). fold (\<lambda>(index, meta) runData.
         case map_of runData nm of
           None \<Rightarrow> runData
         | Some runs \<Rightarrow> (case arr_get runs index of
             None \<Rightarrow> runData
           | Some td \<Rightarrow> obj_put nm (runs[index := td\<lparr>td_metadata :=
               Some (spread_onto (spread_onto [] (get_or [] (td_metadata td))) meta)\<rparr>]) runData))
       (enumerate 0 metas)) metadata runData"

text \<open>The fields of the scheduling state and of the rest.\<close>

lemma base_state_simps [simp]:
  "xs_stack (base_state s) = xs_stack s" "xs_waiting (base_state s) = xs_waiting s"
  "xs_waitingSource (base_state s) = xs_waitingSource s" "xs_runData (base_state s) = xs_runData s"
  "base_state (lift_state x s) = x"
  by (simp_all add: base_state_def lift_state_def exec_state.defs)

lemma note_tries_views [simp]:
  "xs_stack (note_tries nm tries s) = xs_stack s" "xs_waiting (note_tries nm tries s) = xs_waiting s"
  "xs_waitingSource (note_tries nm tries s) = xs_waitingSource s" "xs_runData (note_tries nm tries s) = xs_runData s"
  "en_index (note_tries nm tries s) = en_index s" "en_lastTry (note_tries nm tries s) = en_lastTry s"
  by (simp_all add: note_tries_def Let_def split_beta)

end
