(* ===== verification/Execution_Indices.thy ===== *)
theory Execution_Indices
  imports Execution_Loop
begin

text \<open>
  The execution indices of the stored tasks: every iteration takes the next index, stores at most
  one task and gives it that index, so no two tasks of an execution share one.
\<close>

section \<open>Storing a task\<close>

definition run_indices :: "task_data list \<Rightarrow> int list" where
  "run_indices runs = List.map_filter td_executionIndex runs"

definition task_indices :: "run_data \<Rightarrow> int list" where
  "task_indices runData = concat (map (\<lambda>(nm, runs). run_indices runs) runData)"

lemma run_indices_simps [simp]:
  "run_indices [] = []" "run_indices (xs @ ys) = run_indices xs @ run_indices ys"
  "run_indices (x # xs) = (case td_executionIndex x of None \<Rightarrow> [] | Some i \<Rightarrow> [i]) @ run_indices xs"
  by (simp_all add: run_indices_def map_filter_def split: option.split)

lemma indices_put:
  assumes "distinct (map fst m)"
  shows "mset (task_indices (obj_put k v m)) + mset (run_indices (get_or [] (map_of m k)))
    = mset (task_indices m) + mset (run_indices v)"
proof (cases "k \<in> fst ` set m")
  case True
  then have eq: "obj_put k v m = AList.update k v m" by (simp add: obj_put_def)
  show ?thesis unfolding eq using assms True
  proof (induction m)
    case (Cons e m)
    then show ?case by (cases e) (auto simp: task_indices_def get_or_def)
  qed simp
next
  case False
  then have none: "map_of m k = None" by (simp add: map_of_eq_None_iff)
  have "mset (task_indices (insert_index n k v m)) = mset (task_indices m) + mset (run_indices v)" for n
    by (induction n k v m rule: insert_index.induct) (auto simp: task_indices_def split: option.splits)
  then show ?thesis using False none by (simp add: obj_put_def task_indices_def get_or_def split: option.split)
qed

lemma indices_update:
  assumes "i < length runs" and "td_executionIndex t = Some x"
  shows "mset (run_indices (runs[i := t])) \<subseteq># mset (run_indices runs) + {#x#}"
proof -
  have "runs = take i runs @ runs ! i # drop (Suc i) runs" by (rule id_take_nth_drop [OF assms(1)])
  then have "mset (run_indices runs) = mset (run_indices (take i runs @ runs ! i # drop (Suc i) runs))" by simp
  then show ?thesis using assms
    by (simp add: upd_conv_take_nth_drop)
qed

lemma store_task_indices:
  assumes "distinct (map fst runData)" and "td_executionIndex task = Some x"
  shows "mset (task_indices (store_task nm r task runData)) \<subseteq># mset (task_indices runData) + {#x#}"
    and "distinct (map fst (store_task nm r task runData))"
proof -
  let ?runs = "get_or [] (map_of runData nm)"
  define runs where "runs = (case arr_get ?runs r of None \<Rightarrow> ?runs @ [task] | Some old \<Rightarrow> ?runs[r := assign_task old task])"
  have st: "store_task nm r task runData = obj_put nm runs runData" by (simp add: store_task_def runs_def Let_def)
  have le: "mset (run_indices runs) \<subseteq># mset (run_indices ?runs) + {#x#}"
  proof (cases "arr_get ?runs r")
    case None
    then show ?thesis using assms(2) by (simp add: runs_def)
  next
    case (Some old)
    then have "r < length ?runs" by (simp add: arr_get_Some)
    from indices_update [OF this, of "assign_task old task" x] Some assms(2) show ?thesis
      by (simp add: runs_def assign_task_def)
  qed
  have "mset (task_indices (obj_put nm runs runData)) + mset (run_indices ?runs)
      \<subseteq># mset (task_indices runData) + (mset (run_indices ?runs) + {#x#})"
    unfolding indices_put [OF assms(1)] using le by simp
  also have "\<dots> = (mset (task_indices runData) + {#x#}) + mset (run_indices ?runs)" by (simp add: ac_simps)
  finally show "mset (task_indices (store_task nm r task runData)) \<subseteq># mset (task_indices runData) + {#x#}"
    unfolding st by simp
  show "distinct (map fst (store_task nm r task runData))" unfolding st by (rule js_obj.distinct_put [OF assms(1)])
qed

section \<open>Scheduling leaves the run data alone\<close>

lemma store_input_runData: "store_input w c items src s = Inr (run, s') \<Longrightarrow> xs_runData s' = xs_runData s"
  by (auto simp: store_input_def Let_def res_bind_eq_Inr prepareWaitingToExecution_def split: if_splits)

lemma keep_waiting_runData: "keep_waiting w c items run s = Inr s' \<Longrightarrow> xs_runData s' = xs_runData s"
  by (auto simp: keep_waiting_def Let_def res_bind_eq_Inr prepareWaitingToExecution_def)

lemma start_waiting_runData: "xs_runData (start_waiting_run w n run s) = xs_runData s"
  by (simp add: start_waiting_run_def remove_waiting_def Let_def)

lemma add_runData:
  assumes "addNodeToBeExecuted w c i nm data r newRun meta s = Inr s'"
  shows "xs_runData s' = xs_runData s"
proof (cases "1 < length (main_inputs_of w (conn_node c))")
  case False
  with assms show ?thesis by (auto simp: addNodeToBeExecuted_def Let_def split: option.splits)
next
  case True
  with assms show ?thesis
    by (auto simp: addNodeToBeExecuted_def add_with_inputs_def Let_def res_bind_eq_Inr start_waiting_runData
        dest!: store_input_runData keep_waiting_runData add_missing_inputs_appends(1) appended_views split: if_splits option.splits)
qed

lemma distribute_runData:
  assumes "distribute_outputs w nm data r s = Inr s'"
  shows "xs_runData s' = xs_runData s"
proof -
  have add: "xs_runData t' = xs_runData s" if "addNodeToBeExecuted w c i nm (Some data) r None None t = Inr t'"
    "xs_runData t = xs_runData s" for c i t t' using add_runData [OF that(1)] that(2) by simp
  show ?thesis
  proof (cases "isLegacyExecutionOrder w")
    case True
    with assms have "for_each (\<lambda>edge s. if \<not> (case edge of (i, c) \<Rightarrow> map_of (wf_nodes w) (conn_node c) \<noteq> None)
        then Inl (UnexpectedError ''Destination node not found'')
        else if feeds w data edge then (case edge of (i, c) \<Rightarrow> \<lambda>s. addNodeToBeExecuted w c i nm (Some data) r None None s) s
        else Inr s) (main_connections w nm) s = Inr s'" by (simp add: distribute_outputs_def Let_def)
    then show ?thesis
      by (rule for_each_inv [where Q = "\<lambda>t. xs_runData t = xs_runData s"])
        (auto split: if_splits prod.splits intro: add)
  next
    case False
    with assms have "for_each (\<lambda>(i, c) s. addNodeToBeExecuted w c i nm (Some data) r None None s)
        (js_sort (bottom_right_first w) (filter (feeds w data) (main_connections w nm))) s = Inr s'"
      by (auto simp: distribute_outputs_def Let_def split: if_splits)
    then show ?thesis
      by (rule for_each_inv [where Q = "\<lambda>t. xs_runData t = xs_runData s"]) (auto split: prod.splits intro: add)
  qed
qed

lemma promote_runData: "promote_waiting w evaluate names nms s = Inr s' \<Longrightarrow> xs_runData s' = xs_runData s"
proof (induction w evaluate names nms s rule: promote_waiting.induct)
  case (1 w evaluate names s)
  then show ?case by (simp add: promote_waiting.simps)
next
  case (2 w evaluate names nm nms s)
  have rem: "xs_runData (remove_waiting nm run t) = xs_runData t" for run t by (simp add: remove_waiting_def Let_def)
  from "2.prems" obtain v where v: "judge_waiting w evaluate names s nm = Inr v"
    by (auto simp: promote_waiting.simps(2) split: sum.splits)
  show ?case
  proof (cases v)
    case Skip
    with "2.prems" "2.IH"(1) [OF v Skip] v show ?thesis by (simp add: promote_waiting.simps(2))
  next
    case (Drop run)
    with "2.prems" "2.IH"(2) [OF v Drop refl refl] v rem show ?thesis by (simp add: promote_waiting.simps(2) Let_def)
  next
    case (Run n t run xs)
    with "2.prems" v show ?thesis by (auto simp: promote_waiting.simps(2) rem)
  qed
qed

section \<open>One iteration\<close>

definition index_inv :: "engine \<Rightarrow> bool" where
  "index_inv s \<longleftrightarrow> distinct (map fst (xs_runData s)) \<and> distinct (task_indices (xs_runData s))
     \<and> (\<forall>i \<in> set (task_indices (xs_runData s)). i < int (en_index s))"

text \<open>What an iteration does to the run data: nothing, or one task with the index.\<close>

definition records :: "string \<Rightarrow> nat \<Rightarrow> engine \<Rightarrow> engine \<Rightarrow> bool" where
  "records nm index s s' \<longleftrightarrow> en_index s' = en_index s \<and> (xs_runData s' = xs_runData s
     \<or> (\<exists>r task. td_executionIndex task = Some (int index) \<and> xs_runData s' = store_task nm r task (xs_runData s)))"

definition ends_in :: "loop_result \<Rightarrow> engine \<Rightarrow> bool" where
  "ends_in res s' \<longleftrightarrow> res = Continue s' \<or> res = Stop s'"

lemma rewire_task_index [simp]: "td_executionIndex (rewire_task rd n r data task) = td_executionIndex task"
  by (simp add: rewire_task_def split: option.split)

lemma follow_up_keeps: "ends_in (follow_up cf e r data s) s' \<Longrightarrow> en_index s' = en_index s \<and> xs_runData s' = xs_runData s"
  by (auto simp: ends_in_def follow_up_def Let_def lift_state_def dest!: distribute_runData promote_runData
      split: if_splits sum.splits)

lemma succeed_node_records:
  assumes "ends_in (succeed_node cf e r data task s) s'" and "td_executionIndex task = Some (int index)"
  shows "records (node_name (ex_node e)) index s s'"
proof -
  from assms(1) obtain outs merged where m: "data = Some outs" "merge_errors outs = Inr merged"
    by (auto simp: succeed_node_def ends_in_def split: option.splits sum.splits)
  let ?task = "rewire_task (xs_runData s) (ex_node e) r merged (task\<lparr>td_data := Some [(Main_type, merged)]\<rparr>)"
  let ?t = "s\<lparr>xs_runData := store_task (node_name (ex_node e)) r ?task (xs_runData s)\<rparr>"
  from assms(1) m have "ends_in (follow_up cf e r merged ?t) s'" by (simp add: succeed_node_def Let_def)
  from follow_up_keeps [OF this] assms(2) show ?thesis unfolding records_def
    by (intro conjI disjI2 exI [of _ r] exI [of _ ?task]) simp_all
qed

lemma fail_node_records:
  assumes "ends_in (fail_node e r err task s) s'" and "td_executionIndex task = Some (int index)"
  shows "records (node_name (ex_node e)) index s s'"
proof -
  let ?store = "\<lambda>task'. s\<lparr>xs_runData := store_task (node_name (ex_node e)) r task' (xs_runData s), xs_stack := e # xs_stack s\<rparr>"
  have "\<exists>task'. td_executionIndex task' = Some (int index) \<and> s' = ?store task'"
  proof (cases "rewired (ex_node e)")
    case None
    with assms show ?thesis by (auto simp: fail_node_def ends_in_def Let_def)
  next
    case (Some ty)
    with assms obtain item where "s' = ?store (rewire_task (xs_runData s) (ex_node e) r [Some [item]] task)"
      by (cases "message_item err") (auto simp: fail_node_def ends_in_def Let_def)
    then show ?thesis using assms(2) by (metis rewire_task_index)
  qed
  then obtain task' where "td_executionIndex task' = Some (int index)" "s' = ?store task'" by blast
  then show ?thesis unfolding records_def
    by (intro conjI disjI2 exI [of _ r] exI [of _ task']) simp_all
qed

lemma new_task_index [simp]: "td_executionIndex (new_task e index waits err) = Some (int index)"
  by (simp add: new_task_def)

lemma run_entry_node_records:
  assumes "ends_in (run_entry_node cf e r index s) s'"
  shows "records (node_name (ex_node e)) index s s'"
proof -
  let ?tries = "run_tries (cf_pairs cf (xs_runData s)) (cf_outputs cf (ex_node e))
    (if is_disabled (ex_node e) then None else map_of (en_pinData s) (node_name (ex_node e))) (cf_run cf) e (en_calls s)"
  let ?t = "note_tries (node_name (ex_node e)) ?tries s"
  have "s' = ?t \<or> (\<exists>data task. td_executionIndex task = Some (int index) \<and> ends_in (succeed_node cf e r data task ?t) s')
      \<or> (\<exists>err task. td_executionIndex task = Some (int index) \<and> ends_in (fail_node e r err task ?t) s')"
    using assms new_task_index [of e index] unfolding run_entry_node_def Let_def ends_in_def
    by (auto split: if_splits sum.splits prod.splits)
  moreover have "records (node_name (ex_node e)) index ?t ?t" by (simp add: records_def)
  ultimately have "records (node_name (ex_node e)) index ?t s'" using succeed_node_records fail_node_records by metis
  then show ?thesis by (simp add: records_def note_tries_def Let_def split_beta)
qed

lemma iteration_records:
  assumes "ends_in (engine_iteration cf s) s'" and "xs_stack s \<noteq> []"
  shows "(xs_runData s' = xs_runData s \<and> en_index s \<le> en_index s')
    \<or> en_index s' = Suc (en_index s) \<and> (\<exists>nm r task. td_executionIndex task = Some (int (en_index s))
         \<and> xs_runData s' = store_task nm r task (xs_runData s)
         \<and> (\<forall>names. cf_filter cf = Some names \<longrightarrow> nm \<in> set names))"
proof (cases "cf_stopped cf (en_index s)")
  case True
  with assms(1) show ?thesis by (simp add: engine_iteration_def ends_in_def)
next
  case False
  from assms(2) obtain popped rest where pop: "xs_stack s = popped # rest" by (cases "xs_stack s") auto
  let ?t = "s\<lparr>xs_stack := rest, en_error := None, en_index := Suc (en_index s)\<rparr>"
  let ?e = "track_items popped"
  have "xs_runData s' = xs_runData s \<and> en_index s' = Suc (en_index s)
      \<or> (\<forall>names. cf_filter cf = Some names \<longrightarrow> node_name (ex_node ?e) \<in> set names)
        \<and> (\<exists>r. ends_in (run_entry_node cf ?e r (en_index s) ?t) s')"
    using assms(1) pop False unfolding engine_iteration_def ensureInputData_def Let_def ends_in_def
    by (auto simp: res_bind_def lift_state_def split: if_splits sum.splits option.splits)
  then show ?thesis
  proof
    assume f: "(\<forall>names. cf_filter cf = Some names \<longrightarrow> node_name (ex_node ?e) \<in> set names)
        \<and> (\<exists>r. ends_in (run_entry_node cf ?e r (en_index s) ?t) s')"
    then have "records (node_name (ex_node ?e)) (en_index s) ?t s'" using run_entry_node_records by blast
    with f show ?thesis by (auto simp: records_def)
  qed simp
qed

lemma distinct_submultiset:
  assumes "mset ys \<subseteq># mset xs" and "distinct xs"
  shows "distinct ys"
proof -
  obtain zs where "mset zs = mset xs - mset ys" using ex_mset by blast
  with assms(1) have "mset (ys @ zs) = mset xs" by simp
  with assms(2) have "distinct (ys @ zs)" by (metis mset_eq_imp_distinct_iff)
  then show ?thesis by simp
qed

lemma index_inv_step:
  assumes inv: "index_inv s" and step: "ends_in (engine_iteration cf s) s'" and "xs_stack s \<noteq> []"
  shows "index_inv s'"
proof -
  from iteration_records [OF step assms(3)] show ?thesis
  proof
    assume "xs_runData s' = xs_runData s \<and> en_index s \<le> en_index s'"
    with inv show ?thesis by (force simp: index_inv_def)
  next
    assume "en_index s' = Suc (en_index s) \<and> (\<exists>nm r task. td_executionIndex task = Some (int (en_index s))
         \<and> xs_runData s' = store_task nm r task (xs_runData s)
         \<and> (\<forall>names. cf_filter cf = Some names \<longrightarrow> nm \<in> set names))"
    then obtain nm r task where t: "en_index s' = Suc (en_index s)" "td_executionIndex task = Some (int (en_index s))"
      "xs_runData s' = store_task nm r task (xs_runData s)" by blast
    have d: "distinct (map fst (xs_runData s))" using inv by (simp add: index_inv_def)
    note le = store_task_indices(1) [OF d t(2), of nm r, folded t(3)]
    let ?old = "task_indices (xs_runData s)" and ?x = "int (en_index s)"
    have "distinct (?x # ?old)" using inv by (auto simp: index_inv_def)
    moreover have "mset (task_indices (xs_runData s')) \<subseteq># mset (?x # ?old)" using le by simp
    ultimately have "distinct (task_indices (xs_runData s'))" by (rule distinct_submultiset [rotated])
    moreover have "\<forall>i \<in> set (task_indices (xs_runData s')). i < int (en_index s')"
    proof
      fix i
      assume "i \<in> set (task_indices (xs_runData s'))"
      with mset_subset_eqD [OF le] have "i = ?x \<or> i \<in> set ?old" by auto
      with inv t(1) show "i < int (en_index s')" by (auto simp: index_inv_def)
    qed
    ultimately show ?thesis using store_task_indices(2) [OF d t(2), of nm r] t(3) by (simp add: index_inv_def)
  qed
qed

text \<open>What every iteration keeps, the loop keeps.\<close>

lemma run_loop_keeps:
  assumes step: "\<And>s s'. Q s \<Longrightarrow> xs_stack s \<noteq> [] \<Longrightarrow> ends_in (engine_iteration cf s) s' \<Longrightarrow> Q s'"
    and "Q s" and "ends_in (run_loop cf k s) s'"
  shows "Q s'"
  using assms(2,3)
proof (induction k arbitrary: s)
  case 0
  then show ?case by (auto simp: ends_in_def split: if_splits)
next
  case (Suc k)
  show ?case
  proof (cases "xs_stack s = []")
    case True
    with Suc.prems show ?thesis by (simp add: ends_in_def)
  next
    case False
    note step = step [OF Suc.prems(1) False]
    show ?thesis
    proof (cases "engine_iteration cf s")
      case (Continue t)
      with Suc.prems(2) False have "ends_in (run_loop cf k t) s'" by simp
      moreover have "Q t" using Continue by (intro step) (simp add: ends_in_def)
      ultimately show ?thesis by (intro Suc.IH)
    next
      case (Stop t)
      with Suc.prems(2) False have "t = s'" by (simp add: ends_in_def)
      with Stop show ?thesis by (intro step) (simp add: ends_in_def)
    next
      case (Crash x)
      with Suc.prems(2) False show ?thesis by (simp add: ends_in_def)
    qed
  qed
qed

lemma run_loop_index_inv:
  assumes "index_inv s" and "ends_in (run_loop cf k s) s'"
  shows "index_inv s'"
  by (rule run_loop_keeps [where Q = index_inv, OF _ assms]) (rule index_inv_step)

section \<open>Filtered nodes\<close>

lemma store_task_other: "nm \<noteq> nm' \<Longrightarrow> map_of (store_task nm' r task runData) nm = map_of runData nm"
  by (simp add: store_task_def Let_def js_obj.lookup_put)

text \<open>The run data of a node outside the run filter never changes.\<close>

lemma run_loop_filtered:
  assumes "cf_filter cf = Some names" and "nm \<notin> set names" and "ends_in (run_loop cf k s) s'"
  shows "map_of (xs_runData s') nm = map_of (xs_runData s) nm"
proof (rule run_loop_keeps [OF _ _ assms(3)])
  fix u v
  assume u: "map_of (xs_runData u) nm = map_of (xs_runData s) nm" and "xs_stack u \<noteq> []" "ends_in (engine_iteration cf u) v"
  from iteration_records [OF this(3,2)] assms(1,2) u show "map_of (xs_runData v) nm = map_of (xs_runData s) nm"
    by (metis store_task_other)
qed simp

end
