(* ===== verification/Workflow_Runs.thy ===== *)
theory Workflow_Runs
  imports Disabled_Nodes Graph_Scc Find_Trigger Execution_Indices
begin

text \<open>
  How an execution begins: the methods \<^verbatim>\<open>run\<close> and \<^verbatim>\<open>runPartialWorkflow2\<close> of \<^verbatim>\<open>WorkflowExecute\<close>
  (\<^verbatim>\<open>core/src/execution-engine/workflow-execute.ts\<close>) up to their call of \<^verbatim>\<open>processRunExecutionData\<close>,
  and the rewiring of a tool that is executed alone
  (\<^verbatim>\<open>partial-execution-utils/rewire-graph.ts\<close>). A partial execution composes the whole pipeline of
  graph transformations. The result is a plan, the data that the engine starts from.
\<close>

section \<open>Nodes as tools\<close>

datatype node_output = OutputName string | OutputConfig string

text \<open>The part of a node description that \<^verbatim>\<open>isTool\<close> reads; outputs that are an expression are \<open>None\<close>.\<close>

record tool_description =
  tds_name :: string
  tds_outputs :: "node_output list option"

fun tool_outputs :: "node_output list \<Rightarrow> bool" where
  "tool_outputs [] = False"
| "tool_outputs (OutputName ty # os) = (ty = AiTool_type)"
| "tool_outputs (OutputConfig ty # os) = (ty = AiTool_type \<or> tool_outputs os)"

definition isTool :: "tool_description \<Rightarrow> data_object \<Rightarrow> bool" where
  "isTool nodeTypeDescription parameters =
     (if contains_string ''vectorStore'' (tds_name nodeTypeDescription)
      then map_of parameters ''mode'' = Some (JStr ''retrieve-as-tool'')
      else case tds_outputs nodeTypeDescription of None \<Rightarrow> False | Some os \<Rightarrow> tool_outputs os)"

text \<open>The request of an agent: the query as JSON text, and the name of the tool.\<close>

record agent_request =
  ar_query :: string
  ar_tool :: string

definition TOOL_EXECUTOR_NODE_NAME :: string where
  "TOOL_EXECUTOR_NODE_NAME = ''PartialExecutionToolExecutor''"

definition tool_executor :: "nat \<Rightarrow> agent_request option \<Rightarrow> inode \<Rightarrow> inode \<Rightarrow> inode" where
  "tool_executor ref agentRequest tool rootNode =
     \<lparr>node_ref = ref, node_id = node_id rootNode, node_name = TOOL_EXECUTOR_NODE_NAME, node_typeVersion = (0, 0),
      node_type = ''@n8n/n8n-nodes-langchain.toolExecutor'', node_position = (0, 0), node_disabled = Some False,
      node_executeOnce = None, node_onError = None, node_continueOnFail = None,
      node_parameters =
        [(''query'', JStr (case agentRequest of None \<Rightarrow> ''{}'' | Some r \<Rightarrow> ar_query r)),
         (''toolName'', JStr (case agentRequest of None \<Rightarrow> [] | Some r \<Rightarrow> ar_tool r)),
         (''node'', JStr (node_name tool))],
      node_rewireOutputLogTo = None, node_retryOnFail = None, node_maxTries = None, node_alwaysOutputData = None\<rparr>"

text \<open>The graphs share their nodes, so a change of a node is seen wherever it occurs.\<close>

definition change_node :: "inode \<Rightarrow> inode \<Rightarrow> inode \<Rightarrow> inode" where
  "change_node old new n = (if n = old then new else n)"

definition change_conn :: "inode \<Rightarrow> inode \<Rightarrow> gconn \<Rightarrow> gconn" where
  "change_conn old new c = c\<lparr>gc_from := change_node old new (gc_from c), gc_to := change_node old new (gc_to c)\<rparr>"

definition change_graph :: "inode \<Rightarrow> inode \<Rightarrow> directed_graph \<Rightarrow> directed_graph" where
  "change_graph old new g =
     \<lparr>g_nodes = map (\<lambda>(k, n). (k, change_node old new n)) (g_nodes g),
      g_conns = map (\<lambda>(k, c). (k, change_conn old new c)) (g_conns g)\<rparr>"

definition rewireGraph :: "nat \<Rightarrow> agent_request option \<Rightarrow> inode \<Rightarrow> directed_graph \<Rightarrow> directed_graph result" where
  "rewireGraph ref agentRequest tool graph =
     res_bind (clone_graph graph) (\<lambda>modifiedGraph.
     res_bind (getChildren modifiedGraph tool) (\<lambda>children.
       if children = [] then Inr graph
       else
         let rootNode = last children in
         res_bind (getDirectParentConnections modifiedGraph rootNode) (\<lambda>parents.
           let toolExecutor = tool_executor ref agentRequest tool rootNode;
               rewired = tool\<lparr>node_rewireOutputLogTo := Some AiTool_type\<rparr>;
               allIncomingConnection = map (change_conn tool rewired) (filter (\<lambda>c. gc_type c = Main_type) parents);
               modifiedGraph = change_graph tool rewired (addNode toolExecutor modifiedGraph)
           in res_bind (addConnection \<lparr>ci_from = rewired, ci_to = toolExecutor, ci_type = Some AiTool_type,
                          ci_outputIndex = None, ci_inputIndex = None\<rparr> modifiedGraph) (\<lambda>modifiedGraph.
              res_bind (for_each (\<lambda>c. addConnection \<lparr>ci_from = gc_from c, ci_to = toolExecutor, ci_type = Some (gc_type c),
                          ci_outputIndex = None, ci_inputIndex = None\<rparr>) allIncomingConnection modifiedGraph) (\<lambda>modifiedGraph.
              res_bind (removeNode (change_node tool rewired rootNode)
                          \<lparr>reconnectConnections = False, skipConnectionFn = None\<rparr> modifiedGraph) (\<lambda>(_, modifiedGraph).
                Inr modifiedGraph))))))"

text \<open>The workflow of a graph; the constructor's resolution of node parameters is left out.\<close>

definition toWorkflow :: "workflow \<Rightarrow> directed_graph \<Rightarrow> workflow result" where
  "toWorkflow w g = res_bind (toIConnections g) (\<lambda>cs. Inr (setConnections cs (setNodes (map_values (g_nodes g)) w)))"

section \<open>Plans\<close>

record destination_node =
  dn_nodeName :: string
  dn_inclusive :: bool

record run_plan =
  rp_destination :: "destination_node option"
  rp_filter :: "string list option"
  rp_stack :: "execute_data list"
  rp_waiting :: waiting_execution
  rp_waitingSource :: waiting_source
  rp_runData :: run_data
  rp_pinData :: pin_data
  rp_nextIndex :: int

section \<open>Running a workflow\<close>

definition run_filter :: "workflow \<Rightarrow> destination_node \<Rightarrow> string list option \<Rightarrow> string list result" where
  "run_filter w dest additionalRunFilterNodes =
     res_bind (wf_getParentNodes w (dn_nodeName dest) (OneType Main_type) (-1)) (\<lambda>mainParents.
     res_bind (wf_getParentNodes w (dn_nodeName dest) AllNonMain (-1)) (\<lambda>otherParents.
       Inr (set_of (mainParents @ otherParents
         @ (if dn_inclusive dest then [dn_nodeName dest] else [])
         @ (case additionalRunFilterNodes of None \<Rightarrow> [] | Some ns \<Rightarrow> ns)))))"

text \<open>\<open>triggerData\<close> is the data of a trigger that has already run, \<open>index\<close> the present execution index.\<close>

definition run_workflow ::
    "workflow \<Rightarrow> inode option \<Rightarrow> destination_node option \<Rightarrow> pin_data \<Rightarrow> task_connections option
      \<Rightarrow> string list option \<Rightarrow> int \<Rightarrow> run_plan result" where
  "run_workflow w startNode destinationNode pinData triggerData additionalRunFilterNodes index =
     res_bind (case startNode of
                 Some n \<Rightarrow> Inr (Some n)
               | None \<Rightarrow> getStartNode w (map_option dn_nodeName destinationNode)) (\<lambda>startNode.
       case startNode of
         None \<Rightarrow> Inl (UserError ''No node to start the workflow from could be found'')
       | Some n \<Rightarrow>
           res_bind (case destinationNode of
                       None \<Rightarrow> Inr None
                     | Some dest \<Rightarrow> res_bind (run_filter w dest additionalRunFilterNodes) (\<lambda>names. Inr (Some names)))
             (\<lambda>runNodeFilter. Inr
               \<lparr>rp_destination = destinationNode, rp_filter = runNodeFilter,
                rp_stack = [\<lparr>ex_node = n,
                   ex_data = (case triggerData of Some d \<Rightarrow> d | None \<Rightarrow> [(Main_type, [Some [empty_item]])]),
                   ex_source = None, ex_metadata = None, ex_runIndex = None\<rparr>],
                rp_waiting = [], rp_waitingSource = [], rp_runData = [], rp_pinData = pinData, rp_nextIndex = index\<rparr>))"

section \<open>Running a part of a workflow\<close>

text \<open>The trigger, or else the first parent that is enabled and has run data.\<close>

definition partial_trigger :: "workflow \<Rightarrow> string \<Rightarrow> run_data \<Rightarrow> inode result" where
  "partial_trigger w nodeName runData =
     res_bind (findTriggerForPartialExecution w nodeName runData) (\<lambda>trigger.
       case trigger of
         Some t \<Rightarrow> Inr t
       | None \<Rightarrow>
           res_bind (wf_getParentNodes w nodeName (OneType Main_type) (-1)) (\<lambda>parentNodes.
             case List.map_filter (\<lambda>nm. case getNode w nm of
                 None \<Rightarrow> None
               | Some n \<Rightarrow> if \<not> is_disabled n \<and> map_of runData nm \<noteq> None then Some n else None) parentNodes of
               [] \<Rightarrow> Inl (UserError ''Connect a trigger to run this node'')
             | n # _ \<Rightarrow> Inr n))"

text \<open>A tool is replaced by the virtual node that executes it.\<close>

definition partial_target ::
    "(string \<Rightarrow> nat \<times> nat \<Rightarrow> tool_description option) \<Rightarrow> nat \<Rightarrow> agent_request option
      \<Rightarrow> workflow \<Rightarrow> directed_graph \<Rightarrow> destination_node \<Rightarrow> inode
      \<Rightarrow> (workflow \<times> directed_graph \<times> destination_node \<times> inode) result" where
  "partial_target describe ref agentRequest w graph destinationNode destination =
     (case describe (node_type destination) (node_typeVersion destination) of
        None \<Rightarrow> Inl (TypeError ''Cannot read properties of undefined (reading description)'')
      | Some description \<Rightarrow>
          if isTool description (node_parameters destination) then
            res_bind (rewireGraph ref agentRequest destination graph) (\<lambda>graph.
            res_bind (toWorkflow w graph) (\<lambda>w.
              case getNode w TOOL_EXECUTOR_NODE_NAME of
                None \<Rightarrow> Inl (OperationalError ''ToolExecutor can not be found'')
              | Some n \<Rightarrow> Inr (w, graph, \<lparr>dn_nodeName = node_name n, dn_inclusive = True\<rparr>, n)))
          else Inr (w, graph, destinationNode, destination))"

text \<open>The steps 2 to 7 of a partial execution, from the trigger to the execution stack.\<close>

definition partial_plan ::
    "(string \<Rightarrow> string \<Rightarrow> int) \<Rightarrow> directed_graph \<Rightarrow> destination_node \<Rightarrow> inode \<Rightarrow> inode
      \<Rightarrow> run_data \<Rightarrow> pin_data \<Rightarrow> string list \<Rightarrow> run_plan result" where
  "partial_plan compare graph destinationNode destination trigger runData pinData dirtyNodeNames =
     res_bind (filterDisabledNodes graph) (\<lambda>filteredGraph.
       if is_disabled destination then Inl (UserError ''Cannot execute a disabled node'')
       else
         res_bind (findSubgraph filteredGraph destination trigger) (\<lambda>graph.
         res_bind (cleanRunData runData graph (getNodesByNames graph dirtyNodeNames)) (\<lambda>runData.
         res_bind (findStartNodes graph trigger destination pinData runData) (\<lambda>startNodes.
         res_bind (handleCycles graph startNodes trigger) (\<lambda>startNodes.
         res_bind (cleanRunData runData graph startNodes) (\<lambda>runData.
         res_bind (recreateNodeExecutionStack compare graph startNodes runData pinData) (\<lambda>st. Inr
           \<lparr>rp_destination = Some destinationNode, rp_filter = Some (map node_name (map_values (dg_getNodes graph))),
            rp_stack = st_stack st, rp_waiting = st_waiting st, rp_waitingSource = st_waitingSource st,
            rp_runData = runData, rp_pinData = pinData, rp_nextIndex = getNextExecutionIndex runData\<rparr>)))))))"

definition runPartialWorkflow2 ::
    "(string \<Rightarrow> string \<Rightarrow> int) \<Rightarrow> (string \<Rightarrow> nat \<times> nat \<Rightarrow> tool_description option) \<Rightarrow> nat
      \<Rightarrow> agent_request option \<Rightarrow> workflow \<Rightarrow> run_data \<Rightarrow> pin_data \<Rightarrow> string list \<Rightarrow> destination_node \<Rightarrow> run_plan result" where
  "runPartialWorkflow2 compare describe ref agentRequest w runData pinData dirtyNodeNames destinationNode =
     (case getNode w (dn_nodeName destinationNode) of
        None \<Rightarrow> Inl (AssertionError ''Could not find a node with the name'')
      | Some destination \<Rightarrow>
          res_bind (fromWorkflow w) (\<lambda>graph.
          res_bind (partial_target describe ref agentRequest w graph destinationNode destination)
            (\<lambda>(w, graph, destinationNode, destination).
          res_bind (partial_trigger w (dn_nodeName destinationNode) runData) (\<lambda>trigger.
            partial_plan compare graph destinationNode destination trigger runData pinData dirtyNodeNames))))"

section \<open>The engine on a plan\<close>

definition pending_slots :: "waiting_execution \<Rightarrow> exec_item list option pending_runs" where
  "pending_slots waiting = map (\<lambda>(nm, runs). (nm, map (\<lambda>(run, cs). (run, map (\<lambda>(ty, xs).
     (ty, map (map_option Some) xs)) cs)) runs)) waiting"

definition engine_of :: "run_plan \<Rightarrow> engine" where
  "engine_of p =
     \<lparr>xs_stack = rp_stack p, xs_waiting = pending_slots (rp_waiting p), xs_waitingSource = rp_waitingSource p,
      xs_runData = rp_runData p, en_pinData = rp_pinData p, en_lastNode = None, en_waitTill = False, en_error = None,
      en_index = nat (rp_nextIndex p), en_calls = 0, en_lastTry = []\<rparr>"

definition config_of :: "run_plan \<Rightarrow> engine_config \<Rightarrow> engine_config" where
  "config_of p cf = cf\<lparr>cf_destination := map_option dn_nodeName (rp_destination p), cf_filter := rp_filter p\<rparr>"

end
