(* ===== verification/Runs_Correct.thy ===== *)
theory Runs_Correct
  imports Workflow_Runs
begin

text \<open>
  The composition of the pipeline: what each step needs of the one before. The nodes above a
  destination in the connection objects are those with a main path in the graph; what is left of
  a graph after filtering and cutting keeps the types of its sources; cleaned run data stays typed.
\<close>

section \<open>Ancestors\<close>

definition ancestors :: "workflow \<Rightarrow> conn_filter \<Rightarrow> string \<Rightarrow> string set" where
  "ancestors w flt nm = {x. (nm, x) \<in> (hop_rel (wf_connectionsByDestinationNode w) flt)\<^sup>+ \<and> x \<noteq> nm}"

lemma parents_are_ancestors:
  "\<exists>ns. wf_getParentNodes w nm flt (-1) = Inr ns \<and> distinct ns \<and> set ns = ancestors w flt nm"
  unfolding wf_getParentNodes_def getParentNodes_def ancestors_def by (rule getConnectedNodes_reachable)

lemma run_filter_names:
  assumes "run_filter w dest extra = Inr names"
  shows "set names = ancestors w (OneType Main_type) (dn_nodeName dest) \<union> ancestors w AllNonMain (dn_nodeName dest)
    \<union> (if dn_inclusive dest then {dn_nodeName dest} else {}) \<union> (case extra of None \<Rightarrow> {} | Some ns \<Rightarrow> set ns)"
proof -
  from parents_are_ancestors [of w "dn_nodeName dest" "OneType Main_type"] obtain ms where
    ms: "wf_getParentNodes w (dn_nodeName dest) (OneType Main_type) (-1) = Inr ms"
      "set ms = ancestors w (OneType Main_type) (dn_nodeName dest)" by blast
  from parents_are_ancestors [of w "dn_nodeName dest" AllNonMain] obtain os where
    os: "wf_getParentNodes w (dn_nodeName dest) AllNonMain (-1) = Inr os"
      "set os = ancestors w AllNonMain (dn_nodeName dest)" by blast
  from assms ms os show ?thesis by (auto simp: run_filter_def split: option.split)
qed

text \<open>Connections whose input is a main one leave a main output.\<close>

definition inputs_typed :: "workflow \<Rightarrow> bool" where
  "inputs_typed w \<longleftrightarrow> (\<forall>(s, t, i, c) \<in> set (conn_entries (wf_connectionsBySourceNode w)).
     conn_type c = Main_type \<longrightarrow> t = Main_type)"

lemma by_destination:
  assumes "workflow_wf w"
  shows "conns_wf (wf_connectionsByDestinationNode w)"
    and "set (conn_entries (wf_connectionsByDestinationNode w))
      = flip_entry ` set (conn_entries (wf_connectionsBySourceNode w))"
proof -
  have d: "wf_connectionsByDestinationNode w = mapConnectionsByDestination (wf_connectionsBySourceNode w)"
    using assms by (simp add: workflow_wf_def)
  show "conns_wf (wf_connectionsByDestinationNode w)"
    using mapConnectionsByDestination_full d by (simp add: full_conns_def)
  show "set (conn_entries (wf_connectionsByDestinationNode w))
      = flip_entry ` set (conn_entries (wf_connectionsBySourceNode w))"
    using arg_cong [OF mset_mapConnectionsByDestination [of "wf_connectionsBySourceNode w"], of set_mset] d by simp
qed

lemma parents_known_wf:
  assumes wf: "workflow_wf w" "workflow_lookup_ok w"
  shows "parents_known w"
proof -
  have "getNode w (conn_node c) \<noteq> None" if "(s, t, i, c) \<in> set (conn_entries (wf_connectionsByDestinationNode w))" for s t i c
  proof -
    from that obtain k where "(conn_node c, conn_type c, conn_index c, k) \<in> set (conn_entries (wf_connectionsBySourceNode w))"
      unfolding by_destination(2) [OF wf(1)] by auto
    from entry_ends [OF wf this] show ?thesis by auto
  qed
  then show ?thesis unfolding parents_known_def by blast
qed

lemma main_hop_edge:
  assumes wf: "workflow_wf w" "workflow_lookup_ok w" and typed: "inputs_typed w"
    and g: "graph_conns g = entry_conn (getNode w) ` set (conn_entries (wf_connectionsBySourceNode w))"
    and hop: "(y, x) \<in> hop_rel (wf_connectionsByDestinationNode w) (OneType Main_type)"
  shows "\<exists>a b. getNode w x = Some a \<and> getNode w y = Some b \<and> (a, b) \<in> main_edges g"
proof -
  from hop obtain i c where "(y, Main_type, i, c) \<in> set (conn_entries (wf_connectionsByDestinationNode w))" "conn_node c = x"
    unfolding hop_one_type [OF by_destination(1) [OF wf(1)]] by blast
  then obtain s t j k where e: "(s, t, j, k) \<in> set (conn_entries (wf_connectionsBySourceNode w))"
    and k: "conn_node k = y" "conn_type k = Main_type" "s = x"
    unfolding by_destination(2) [OF wf(1)] by auto
  with typed have t: "t = Main_type" by (auto simp: inputs_typed_def)
  from entry_ends [OF wf e] obtain a b where ab: "getNode w x = Some a" "getNode w y = Some b" using k by auto
  have "entry_conn (getNode w) (s, t, j, k) \<in> graph_conns g" unfolding g using e by (rule imageI)
  moreover have "gc_type (entry_conn (getNode w) (s, t, j, k)) = Main_type"
    "gc_from (entry_conn (getNode w) (s, t, j, k)) = a" "gc_to (entry_conn (getNode w) (s, t, j, k)) = b"
    using t ab k by (simp_all add: entry_conn_def)
  ultimately have "(a, b) \<in> main_edges g" unfolding main_edges_iff by blast
  with ab show ?thesis by blast
qed

lemma ancestor_edges:
  assumes wf: "workflow_wf w" "workflow_lookup_ok w" "inputs_typed w"
    and g: "graph_conns g = entry_conn (getNode w) ` set (conn_entries (wf_connectionsBySourceNode w))"
    and hops: "(y, x) \<in> (hop_rel (wf_connectionsByDestinationNode w) (OneType Main_type))\<^sup>+" and a: "getNode w x = Some a"
  shows "\<exists>b. getNode w y = Some b \<and> (a, b) \<in> (main_edges g)\<^sup>+"
  using hops a
proof (induction arbitrary: a rule: trancl_induct)
  case (base x)
  with main_hop_edge [OF wf g] show ?case by fastforce
next
  case (step m x)
  from main_hop_edge [OF wf g step.hyps(2)] step.prems obtain b where "getNode w m = Some b" "(a, b) \<in> main_edges g" by auto
  with step.IH show ?case by (meson trancl_into_trancl2)
qed

section \<open>The trigger\<close>

lemma named_node: "workflow_wf w \<Longrightarrow> getNode w nm = Some n \<Longrightarrow> node_name n = nm \<and> n \<in> set (map_values (wf_nodes w))"
  unfolding getNode_def workflow_wf_def by (force dest: map_of_SomeD)

text \<open>The nodes a partial execution may start from.\<close>

definition may_start :: "workflow \<Rightarrow> inode \<Rightarrow> inode \<Rightarrow> bool" where
  "may_start w d t \<longleftrightarrow> \<not> is_disabled t \<and> getNode w (node_name t) = Some t
     \<and> (t = d \<or> node_name t \<in> ancestors w (OneType Main_type) (node_name d))"

lemma partial_trigger_correct:
  assumes wf: "workflow_wf w" "workflow_lookup_ok w" "known_types w" and d: "getNode w nm = Some d"
  shows "case partial_trigger w nm runData of
      Inl e \<Rightarrow> (\<exists>msg. e = UserError msg) \<and> \<not> (is_trigger w d \<and> \<not> is_disabled d) \<and> triggers_above w nm = {}
        \<and> (\<forall>n. may_start w d n \<and> n \<noteq> d \<longrightarrow> map_of runData (node_name n) = None)
    | Inr t \<Rightarrow> may_start w d t"
proof -
  have nm: "node_name d = nm" using named_node [OF wf(1) d] by simp
  from findTrigger_correct [OF wf(1,3) parents_known_wf [OF wf(1,2)] d, of runData] obtain r where
    r: "findTriggerForPartialExecution w nm runData = Inr r"
    "case r of None \<Rightarrow> \<not> (is_trigger w d \<and> \<not> is_disabled d) \<and> triggers_above w nm = {}
       | Some n \<Rightarrow> if is_trigger w d \<and> \<not> is_disabled d then n = d else n \<in> triggers_above w nm" 
    by (auto split: option.splits if_splits)
  from parents_are_ancestors [of w nm "OneType Main_type"] obtain ns where
    ns: "wf_getParentNodes w nm (OneType Main_type) (-1) = Inr ns" "set ns = ancestors w (OneType Main_type) nm" by blast
  define pick where "pick = (\<lambda>x. case getNode w x of None \<Rightarrow> None
    | Some n \<Rightarrow> if \<not> is_disabled n \<and> map_of runData x \<noteq> None then Some n else None)"
  have picked: "n \<in> set (List.map_filter pick ns) \<longleftrightarrow> \<not> is_disabled n \<and> map_of runData (node_name n) \<noteq> None
      \<and> getNode w (node_name n) = Some n \<and> node_name n \<in> set ns" for n
  proof -
    have "n \<in> set (List.map_filter pick ns) \<longleftrightarrow> (\<exists>x \<in> set ns. pick x = Some n)"
      by (force simp: map_filter_def)
    also have "\<dots> \<longleftrightarrow> (\<exists>x \<in> set ns. getNode w x = Some n \<and> \<not> is_disabled n \<and> map_of runData x \<noteq> None)"
    proof (rule bex_cong [OF refl])
      fix x
      show "pick x = Some n \<longleftrightarrow> getNode w x = Some n \<and> \<not> is_disabled n \<and> map_of runData x \<noteq> None"
        by (cases "getNode w x") (auto simp: pick_def)
    qed
    also have "\<dots> \<longleftrightarrow> \<not> is_disabled n \<and> map_of runData (node_name n) \<noteq> None
      \<and> getNode w (node_name n) = Some n \<and> node_name n \<in> set ns"
      using named_node [OF wf(1)] by blast
    finally show ?thesis .
  qed
  have run: "partial_trigger w nm runData = (case r of Some t \<Rightarrow> Inr t
    | None \<Rightarrow> (case List.map_filter pick ns of [] \<Rightarrow> Inl (UserError ''Connect a trigger to run this node'') | n # _ \<Rightarrow> Inr n))"
    by (simp add: partial_trigger_def r(1) ns(1) pick_def split: option.split)
  show ?thesis
  proof (cases r)
    case (Some t)
    with r(2) d nm have "may_start w d t"
      by (auto simp: may_start_def triggers_above_def ancestors_def split: if_splits)
    with run Some show ?thesis by simp
  next
    case None
    show ?thesis
    proof (cases "List.map_filter pick ns")
      case Nil
      then have "map_of runData (node_name n) = None" if "may_start w d n" "n \<noteq> d" for n
        using picked [of n] that nm ns(2) by (auto simp: may_start_def)
      with run None Nil r(2) show ?thesis by simp
    next
      case (Cons n rest)
      then have "n \<in> set (List.map_filter pick ns)" by simp
      then have "may_start w d n" unfolding picked using ns(2) nm by (simp add: may_start_def)
      with run None Cons show ?thesis by simp
    qed
  qed
qed

section \<open>Typed run data\<close>

lemma run_data_ok_traced:
  assumes "run_data_ok g runData" and "traced g fg" and "graph_nodes fg \<subseteq> graph_nodes g"
  shows "run_data_ok fg runData"
  unfolding run_data_ok_def
proof (intro conjI ballI impI)
  fix c
  assume "c \<in> graph_conns fg"
  with assms(2) obtain d where "d \<in> graph_conns g" "gc_from d = gc_from c" "gc_type d = gc_type c"
    unfolding traced_def by blast
  with assms(1) show "typed_runs runData (node_name (gc_from c)) (gc_type c)" unfolding run_data_ok_def by metis
next
  fix n
  assume "n \<in> graph_nodes fg" "node_type n = split_in_batches"
  with assms(1,3) show "typed_runs runData (node_name n) Main_type" unfolding run_data_ok_def by blast
qed

lemma run_data_ok_part: "run_data_ok g runData \<Longrightarrow> part_of g sg \<Longrightarrow> run_data_ok sg runData"
  unfolding run_data_ok_def part_of_def by blast

lemma run_data_ok_less:
  assumes "run_data_ok g runData" and "\<And>nm. map_of r nm = map_of runData nm \<or> map_of r nm = None"
  shows "run_data_ok g r"
proof -
  have "typed_runs r nm ty" if "typed_runs runData nm ty" for nm ty
  proof -
    have "set (runs_of r nm) \<subseteq> set (runs_of runData nm)" using assms(2) [of nm] by (auto simp: runs_of_def)
    with that show ?thesis unfolding typed_runs_def by blast
  qed
  with assms(1) show ?thesis unfolding run_data_ok_def by blast
qed

lemma edge_target: "graph_wf g \<Longrightarrow> (a, b) \<in> (edge_rel g)\<^sup>* \<Longrightarrow> a \<in> graph_nodes g \<Longrightarrow> b \<in> graph_nodes g"
proof (erule rtranclE)
  fix y
  assume "graph_wf g" "(y, b) \<in> edge_rel g"
  then show "b \<in> graph_nodes g" unfolding edge_rel_iff using graph_wf_ends by blast
qed simp

lemma walk_edges: "(walk_rel g dest runData pinData)\<^sup>* \<subseteq> (edge_rel g)\<^sup>*"
proof (rule rtrancl_mono)
  show "walk_rel g dest runData pinData \<subseteq> edge_rel g" unfolding walk_rel_def edge_rel_def by blast
qed

lemma node_of_name:
  assumes "graph_wf g" and "hasNode g nm"
  shows "\<exists>n \<in> graph_nodes g. node_name n = nm"
proof -
  from assms(2) obtain n where "(nm, n) \<in> set (g_nodes g)" by (auto simp: hasNode_def)
  with assms(1) show ?thesis unfolding graph_wf_def by force
qed

section \<open>The plan\<close>

text \<open>The dirty nodes that are looked up by name belong to the graph.\<close>

lemma getNodesByNames_nodes: "set (getNodesByNames g names) \<subseteq> graph_nodes g"
proof -
  let ?f = "\<lambda>nm S. case map_of (g_nodes g) nm of None \<Rightarrow> S | Some n \<Rightarrow> set_add n S"
  have "set (fold ?f names S) \<subseteq> graph_nodes g" if "set S \<subseteq> graph_nodes g" for S
    using that
  proof (induction names arbitrary: S)
    case (Cons nm names)
    have "set (?f nm S) \<subseteq> graph_nodes g"
      using Cons.prems by (auto simp: image_iff split: option.split dest!: map_of_SomeD) force
    with Cons.IH show ?case by simp
  qed simp
  from this [of "[]"] show ?thesis by (simp add: getNodesByNames_def)
qed

text \<open>The start nodes, after the cycles are handled.\<close>

lemma start_nodes_of_plan:
  assumes wf: "graph_wf g" and t: "trigger \<in> graph_nodes g" and ok: "run_data_ok g runData"
  shows "\<exists>ns ms. findStartNodes g trigger d pinData runData = Inr ns \<and> handleCycles g ns trigger = Inr ms
    \<and> set ms \<subseteq> graph_nodes g"
proof -
  from findStartNodes_set [OF wf ok t, of d pinData] obtain ns where
    ns: "findStartNodes g trigger d pinData runData = Inr ns" "distinct ns"
    "set ns \<subseteq> {n. (trigger, n) \<in> (walk_rel g d runData pinData)\<^sup>*}" by blast
  with walk_edges have reach: "\<forall>n \<in> set ns. (trigger, n) \<in> (edge_rel g)\<^sup>*" by blast
  with edge_target [OF wf _ t] have nodes: "set ns \<subseteq> graph_nodes g" by blast
  from getStronglyConnectedComponents_sound [OF wf] obtain sccs where
    sccs: "getStronglyConnectedComponents g = Inr sccs" "set (concat sccs) \<subseteq> graph_nodes g" by blast
  from handleCycles_correct [OF wf t nodes ns(2) reach sccs(1)] obtain ms where
    ms: "handleCycles g ns trigger = Inr ms" "set ms = replaced g trigger sccs (set ns)" by blast
  have "f \<in> graph_nodes g" if f: "C \<in> set sccs" "set ns \<inter> set C \<noteq> {}" "cycle_start g trigger C = Some f" for C f
  proof -
    from f(2) reach obtain x where "x \<in> set C" "(trigger, x) \<in> (edge_rel g)\<^sup>*" by blast
    from cycle_start_in [OF wf t this] f(3) have "f \<in> set C" by auto
    with f(1) sccs(2) show ?thesis by auto
  qed
  with ms(2) nodes have "set ms \<subseteq> graph_nodes g" unfolding replaced_def by blast
  with ns(1) ms(1) show ?thesis by blast
qed

lemma stack_nodes:
  assumes "list_all2 (entries_for G g runData pinData) ns ess" and "e \<in> set (concat ess)"
  shows "ex_node e \<in> set ns"
proof -
  from assms(2) obtain es where "es \<in> set ess" "e \<in> set es" by auto
  then obtain i where i: "i < length ess" "e \<in> set (ess ! i)" by (metis in_set_conv_nth)
  with assms(1) have "entries_for G g runData pinData (ns ! i) (ess ! i)" "i < length ns"
    by (auto simp: list_all2_conv_all_nth)
  moreover from this(1) i(2) have "ex_node e = ns ! i"
    by (auto simp: entries_for_def group_entry_def execute_entry_def list_all2_conv_all_nth in_set_conv_nth split: if_splits)
  ultimately show ?thesis by simp
qed

text \<open>What a plan promises, against the graph of the workflow.\<close>

definition plan_ok :: "directed_graph \<Rightarrow> inode \<Rightarrow> run_data \<Rightarrow> run_plan \<Rightarrow> bool" where
  "plan_ok g d runData p \<longleftrightarrow>
     (\<exists>ns. rp_filter p = Some (map node_name ns) \<and> distinct ns \<and> d \<in> set ns
        \<and> set ns \<subseteq> {n \<in> graph_nodes g. \<not> is_disabled n \<and> (n, d) \<in> (edge_rel g)\<^sup>*}
        \<and> ex_node ` set (rp_stack p) \<subseteq> set ns
        \<and> (\<forall>nm. map_of (rp_runData p) nm = None
             \<or> nm \<in> node_name ` (set ns - ex_node ` set (rp_stack p)) \<and> map_of (rp_runData p) nm = map_of runData nm))"

text \<open>The part of the graph that a partial execution works on.\<close>

definition cut_out :: "directed_graph \<Rightarrow> inode \<Rightarrow> inode \<Rightarrow> run_data \<Rightarrow> directed_graph \<Rightarrow> bool" where
  "cut_out g d trigger runData sg \<longleftrightarrow> graph_wf sg \<and> run_data_ok sg runData
     \<and> trigger \<in> graph_nodes sg \<and> d \<in> graph_nodes sg
     \<and> graph_nodes sg \<subseteq> {n \<in> graph_nodes g. \<not> is_disabled n \<and> (n, d) \<in> (edge_rel g)\<^sup>*}
     \<and> main_edges sg \<subseteq> (main_edges g)\<^sup>+"

lemma cut_out_exists:
  assumes wf: "graph_wf g" and plain: "plain_names g" and acyc: "acyclic (disabled_rel g)" and ok: "run_data_ok g runData"
    and d: "d \<in> graph_nodes g" "\<not> is_disabled d"
    and t: "trigger \<in> graph_nodes g" "\<not> is_disabled trigger" "(trigger, d) \<in> (main_edges g)\<^sup>*"
  shows "\<exists>fg sg. filterDisabledNodes g = Inr fg \<and> findSubgraph fg d trigger = Inr sg \<and> cut_out g d trigger runData sg"
proof -
  from filterDisabledNodes_correct [OF wf acyc] obtain fg where fg: "filterDisabledNodes g = Inr fg"
    and F: "filtered g (graph_nodes g) fg" by blast
  have fwf: "graph_wf fg" and fnodes: "graph_nodes fg = {n \<in> graph_nodes g. \<not> is_disabled n}" and traced: "traced g fg"
    and reach: "\<forall>a \<in> graph_nodes fg. \<forall>b \<in> graph_nodes fg. (a, b) \<in> (main_edges fg)\<^sup>+ \<longleftrightarrow> (a, b) \<in> (main_edges g)\<^sup>+"
    using F plain unfolding filtered_def by blast+
  have dt: "d \<in> graph_nodes fg" "trigger \<in> graph_nodes fg" using d t fnodes by blast+
  with t(3) reach have tr: "(trigger, d) \<in> (main_edges fg)\<^sup>*" by (metis rtrancl_eq_or_trancl)
  from findSubgraph_correct [OF fwf dt(1), of trigger] obtain sg mg where sg: "findSubgraph fg d trigger = Inr sg"
    "part_of fg sg" "leads_to fg d mg" "grown fg (utility_conns fg (graph_nodes mg)) mg sg"
    and paths: "\<forall>p. simple_path fg d p trigger \<longrightarrow> set p \<subseteq> graph_conns mg \<and> trigger \<in> graph_nodes mg"
    and mpart: "part_of fg mg" by blast
  from simple_path_exists [OF tr] obtain path where path: "simple_path fg d path trigger" by blast
  have swf: "graph_wf sg" and sub: "graph_nodes sg \<subseteq> graph_nodes fg" using sg(2) by (auto simp: part_of_def)
  have ts: "trigger \<in> graph_nodes sg" and pc: "set path \<subseteq> graph_conns sg" using paths path sg(4) unfolding grown_def by blast+
  have ds: "d \<in> graph_nodes sg"
  proof (cases "path = []")
    case True
    with path have "trigger = d" by (simp add: simple_path_def)
    with ts show ?thesis by simp
  next
    case False
    with path pc obtain c where "c \<in> graph_conns sg" "gc_to c = d" by (cases path) (auto simp: simple_path_def)
    with graph_wf_ends(2) [OF swf] show ?thesis by blast
  qed
  have leads: "(n, d) \<in> (edge_rel g)\<^sup>*" if "n \<in> graph_nodes sg" for n
    using findSubgraph_leads [OF sg(3,4) that] traced_edges [OF traced] by blast
  have ok1: "run_data_ok sg runData"
    using run_data_ok_part [OF run_data_ok_traced [OF ok traced] sg(2)] fnodes by blast
  have "main_edges sg \<subseteq> (main_edges g)\<^sup>+"
  proof (rule subrelI)
    fix a b
    assume "(a, b) \<in> main_edges sg"
    moreover from this have "a \<in> graph_nodes sg" "b \<in> graph_nodes sg"
      unfolding main_edges_iff using graph_wf_ends [OF swf] by blast+
    moreover have "main_edges sg \<subseteq> main_edges fg" using sg(2) unfolding part_of_def main_edges_def by blast
    ultimately have "(a, b) \<in> (main_edges fg)\<^sup>+" "a \<in> graph_nodes fg" "b \<in> graph_nodes fg" using sub by blast+
    with reach show "(a, b) \<in> (main_edges g)\<^sup>+" by blast
  qed
  moreover have "graph_nodes sg \<subseteq> {n \<in> graph_nodes g. \<not> is_disabled n \<and> (n, d) \<in> (edge_rel g)\<^sup>*}"
    using sub fnodes leads by blast
  ultimately have "cut_out g d trigger runData sg" unfolding cut_out_def using swf ok1 ts ds by blast
  with fg sg(1) show ?thesis by blast
qed

lemma cut_outD:
  assumes "cut_out g d trigger runData sg"
  shows "graph_wf sg" and "run_data_ok sg runData" and "trigger \<in> graph_nodes sg" and "d \<in> graph_nodes sg"
    and "graph_nodes sg \<subseteq> {n \<in> graph_nodes g. \<not> is_disabled n \<and> (n, d) \<in> (edge_rel g)\<^sup>*}"
    and "main_edges sg \<subseteq> (main_edges g)\<^sup>+" and "\<forall>n \<in> graph_nodes sg. \<not> is_disabled n"
  using assms unfolding cut_out_def by blast+

lemma plan_correct:
  assumes g: "graph_wf g" "plain_names g" "acyclic (disabled_rel g)" "run_data_ok g runData"
    and d: "d \<in> graph_nodes g" "\<not> is_disabled d"
    and t: "trigger \<in> graph_nodes g" "\<not> is_disabled trigger" "(trigger, d) \<in> (main_edges g)\<^sup>*"
  shows "\<exists>p. partial_plan compare g dn d trigger runData pinData dirty = Inr p \<and> plan_ok g d runData p
    \<and> rp_destination p = Some dn \<and> rp_pinData p = pinData"
proof -
  from cut_out_exists [OF g d t] obtain fg sg where fg: "filterDisabledNodes g = Inr fg" "findSubgraph fg d trigger = Inr sg"
    and cut: "cut_out g d trigger runData sg" by blast
  note swf = cut_outD(1) [OF cut] and ok1 = cut_outD(2) [OF cut] and ts = cut_outD(3) [OF cut] and ds = cut_outD(4) [OF cut]
  from cleanRunData_correct [OF swf getNodesByNames_nodes [of sg dirty], of runData] obtain r1 where
    r1: "cleanRunData runData sg (getNodesByNames sg dirty) = Inr r1"
    "\<And>nm. map_of r1 nm = map_of runData nm \<or> map_of r1 nm = None" by (metis (no_types))
  have ok2: "run_data_ok sg r1" by (rule run_data_ok_less [OF ok1 r1(2)])
  from start_nodes_of_plan [OF swf ts ok2, of d pinData] obtain ns ms where
    ns: "findStartNodes sg trigger d pinData r1 = Inr ns" and ms: "handleCycles sg ns trigger = Inr ms" "set ms \<subseteq> graph_nodes sg"
    by blast
  from cleanRunData_correct [OF swf ms(2), of r1] obtain r2 where r2: "cleanRunData r1 sg ms = Inr r2"
    and r2': "\<And>nm. map_of r2 nm = (if hasNode sg nm \<and> nm \<notin> stale_names sg (set ms) then map_of r1 nm else None)" by metis
  have ok3: "run_data_ok sg r2" by (rule run_data_ok_less [OF ok2]) (simp add: r2')
  from recreate_correct [OF swf cut_outD(7) [OF cut] ms(2) ok3, of compare pinData] obtain st ess where
    st: "recreateNodeExecutionStack compare sg ms r2 pinData = Inr st" "st_stack st = concat ess"
    "list_all2 (entries_for (\<lambda>n. getSourceDataGroups compare sg n r2 pinData) sg r2 pinData) ms ess" by auto
  have stack: "ex_node ` set (st_stack st) \<subseteq> set ms" using stack_nodes [OF st(3)] st(2) by auto
  let ?ns = "map_values (g_nodes sg)"
  have dist: "distinct ?ns"
  proof -
    have "map node_name ?ns = map fst (g_nodes sg)" using swf by (auto simp: graph_wf_def)
    with graph_wf_distinct(1) [OF swf] show ?thesis by (metis distinct_map)
  qed
  let ?p = "\<lparr>rp_destination = Some dn, rp_filter = Some (map node_name ?ns), rp_stack = st_stack st,
    rp_waiting = st_waiting st, rp_waitingSource = st_waitingSource st, rp_runData = r2, rp_pinData = pinData,
    rp_nextIndex = getNextExecutionIndex r2\<rparr>"
  have "map_of r2 nm = None \<or> nm \<in> node_name ` (set ?ns - ex_node ` set (st_stack st)) \<and> map_of r2 nm = map_of runData nm" for nm
  proof (cases "map_of r2 nm")
    case (Some runs)
    with r2' [of nm] have "hasNode sg nm" "nm \<notin> stale_names sg (set ms)" and eq: "map_of r2 nm = map_of r1 nm"
      by (auto split: if_splits)
    from node_of_name [OF swf this(1)] obtain n where n: "n \<in> set ?ns" "node_name n = nm" by blast
    have "n \<notin> set ms" using n(2) \<open>nm \<notin> stale_names sg (set ms)\<close> by (auto simp: stale_names_def stale_def)
    with n stack have "nm \<in> node_name ` (set ?ns - ex_node ` set (st_stack st))" by blast
    moreover have "map_of r2 nm = map_of runData nm" using eq Some r1(2) [of nm] by auto
    ultimately show ?thesis by blast
  qed simp
  moreover have "set ?ns \<subseteq> {n \<in> graph_nodes g. \<not> is_disabled n \<and> (n, d) \<in> (edge_rel g)\<^sup>*}"
    by (rule cut_outD(5) [OF cut])
  moreover have "ex_node ` set (st_stack st) \<subseteq> set ?ns" using stack ms(2) by blast
  ultimately have "plan_ok g d runData ?p" unfolding plan_ok_def using dist ds by (intro exI [of _ ?ns]) simp
  moreover have "partial_plan compare g dn d trigger runData pinData dirty = Inr ?p"
    using fg d(2) r1(1) ns ms(1) r2 st(1) by (simp add: partial_plan_def dg_getNodes_def)
  ultimately show ?thesis by simp
qed

text \<open>Without data of an earlier run the plan starts at the trigger.\<close>

lemma clean_nothing:
  assumes "graph_wf g" and "set ns \<subseteq> graph_nodes g"
  shows "cleanRunData [] g ns = Inr []"
proof -
  from cleanRunData_correct [OF assms, of "[]"] obtain r where r: "cleanRunData [] g ns = Inr r" "\<And>nm. map_of r nm = None"
    by auto
  from r(2) have "r = []" by (cases r) (auto split: if_splits, metis option.distinct(1))
  with r(1) show ?thesis by simp
qed

lemma fresh_plan:
  assumes g: "graph_wf g" "plain_names g" "acyclic (disabled_rel g)"
    and d: "d \<in> graph_nodes g" "\<not> is_disabled d"
    and t: "trigger \<in> graph_nodes g" "\<not> is_disabled trigger" "(trigger, d) \<in> (main_edges g)\<^sup>*"
    and root: "\<And>n. (n, trigger) \<notin> main_edges g"
    and plan: "partial_plan compare g dn d trigger [] [] dirty = Inr p"
  shows "rp_stack p = [execute_entry trigger [Some [empty_item]] None] \<and> rp_waiting p = [] \<and> rp_waitingSource p = []
    \<and> rp_runData p = []"
proof -
  have ok: "run_data_ok h []" for h by (simp add: run_data_ok_def typed_runs_def runs_of_def)
  from cut_out_exists [OF g ok d t] obtain fg sg where fg: "filterDisabledNodes g = Inr fg" "findSubgraph fg d trigger = Inr sg"
    and cut: "cut_out g d trigger [] sg" by blast
  note swf = cut_outD(1) [OF cut] and ts = cut_outD(3) [OF cut]
  have first: "findStartNodes sg trigger d [] [] = Inr [trigger]"
    by (simp add: findStartNodes_def isDirty_def set_add_def)
  from getStronglyConnectedComponents_sound [OF swf] obtain sccs where sccs: "getStronglyConnectedComponents sg = Inr sccs" by blast
  from handleCycles_correct [OF swf ts _ _ _ sccs, of "[trigger]"] ts obtain ms where
    ms: "handleCycles sg [trigger] trigger = Inr ms" "distinct ms" "set ms = replaced sg trigger sccs {trigger}" by auto
  have "cycle_start sg trigger C = Some trigger" if "trigger \<in> set C" for C
    using that by (simp add: cycle_start_def depthFirstSearch_def)
  then have "set ms = {trigger}" unfolding ms(3) replaced_def by (auto split: if_splits)
  moreover from this distinct_card [OF ms(2)] have "length ms = 1" by simp
  then obtain x where "ms = [x]" by (metis One_nat_def length_0_conv length_Suc_conv)
  ultimately have m: "ms = [trigger]" by simp
  have none: "main_inputs sg trigger = []"
  proof -
    have "(gc_from c, trigger) \<notin> main_edges sg" for c using cut_outD(6) [OF cut] root by (metis subsetD tranclD2)
    then show ?thesis unfolding main_inputs_def getConnections_def filter_empty_conv main_edges_iff by auto
  qed
  from recreate_correct [OF swf cut_outD(7) [OF cut] _ ok, of "[trigger]" compare "[]"] ts obtain st ess where
    st: "recreateNodeExecutionStack compare sg [trigger] [] [] = Inr st" "st_stack st = concat ess"
    "list_all2 (entries_for (\<lambda>n. getSourceDataGroups compare sg n [] []) sg [] []) [trigger] ess"
    "waiting_only (incomplete_names (\<lambda>n. getSourceDataGroups compare sg n [] []) sg {trigger}) st" by auto
  from st(3) none obtain es where "ess = [es]" "es = [execute_entry trigger [Some [empty_item]] None]"
    by (auto simp: list_all2_Cons1 entries_for_def)
  moreover have "incomplete_names (\<lambda>n. getSourceDataGroups compare sg n [] []) sg {trigger} = {}"
    using none by (auto simp: incomplete_names_def)
  with st(4) have "st_waiting st = [] \<and> st_waitingSource st = []" by (auto simp: waiting_only_def)
  moreover have clean: "cleanRunData [] sg (getNodesByNames sg dirty) = Inr []" "cleanRunData [] sg [trigger] = Inr []"
    by (rule clean_nothing [OF swf getNodesByNames_nodes], rule clean_nothing [OF swf]) (use ts in simp)
  ultimately show ?thesis
    using plan fg d(2) clean first ms(1) [unfolded m] st(1,2) by (auto simp: partial_plan_def dg_getNodes_def)
qed

end
