(* ===== verification/Samples.thy ===== *)
theory Samples
  imports Find_Trigger Graph_Scc Disabled_Nodes
begin

text \<open>
  A small workflow on which the properties are applied: a manual trigger T feeding A feeding B,
  and a language model M attached to A. Also a graph whose components the search of
  \<^verbatim>\<open>getStronglyConnectedComponents\<close> misses, and a graph with a disabled node.
\<close>

definition sample_node :: "nat \<Rightarrow> string \<Rightarrow> string \<Rightarrow> inode" where
  "sample_node ref nm ty = \<lparr>node_ref = ref, node_id = nm, node_name = nm, node_typeVersion = (1, 0), node_type = ty,
     node_position = (0, 0), node_disabled = Some False, node_executeOnce = None, node_onError = None,
     node_continueOnFail = None, node_parameters = [], node_rewireOutputLogTo = None,
     node_retryOnFail = None, node_maxTries = None, node_alwaysOutputData = None\<rparr>"

definition sampleT :: inode where "sampleT = sample_node 0 ''T'' ''n8n-nodes-base.manualTrigger''"
definition sampleA :: inode where "sampleA = sample_node 1 ''A'' ''n8n-nodes-base.set''"
definition sampleB :: inode where "sampleB = sample_node 2 ''B'' ''n8n-nodes-base.merge''"
definition sampleM :: inode where "sampleM = sample_node 3 ''M'' ''model''"

definition sample_target :: "string \<Rightarrow> string \<Rightarrow> nat \<Rightarrow> iconnection" where
  "sample_target nm ty i = \<lparr>conn_node = nm, conn_type = ty, conn_index = i\<rparr>"

definition sample_connections :: iconnections where
  "sample_connections =
     [(''T'', [(''main'', [Some [sample_target ''A'' ''main'' 0]])]),
      (''A'', [(''main'', [Some [sample_target ''B'' ''main'' 1]])]),
      (''M'', [(''ai_languageModel'', [None, Some [sample_target ''A'' ''ai_languageModel'' 0]])])]"

definition sample_types :: "string \<Rightarrow> nat \<times> nat \<Rightarrow> node_type option" where
  "sample_types ty v = (if ty = ''n8n-nodes-base.manualTrigger''
     then Some \<lparr>nt_name = ty, nt_group = [''trigger''], nt_trigger = True, nt_poll = False,
       nt_requiredInputs = None, nt_inputsLength = 0\<rparr>
     else Some \<lparr>nt_name = ty, nt_group = [''transform''], nt_trigger = False, nt_poll = False,
       nt_requiredInputs = None, nt_inputsLength = 1\<rparr>)"

definition sample_workflow :: workflow where
  "sample_workflow = setConnections sample_connections (setNodes [sampleT, sampleA, sampleB, sampleM]
     \<lparr>wf_nodes = [], wf_connectionsBySourceNode = [], wf_connectionsByDestinationNode = [],
      wf_nodeTypes = sample_types, wf_executionOrder = Some ''v1'', wf_pinData = None\<rparr>)"

definition sample_conn :: "inode \<Rightarrow> inode \<Rightarrow> string \<Rightarrow> nat \<Rightarrow> nat \<Rightarrow> gconn" where
  "sample_conn a b ty i j = \<lparr>gc_from = a, gc_to = b, gc_type = ty, gc_outputIndex = i, gc_inputIndex = j\<rparr>"

definition graph_of :: "inode list \<Rightarrow> gconn list \<Rightarrow> directed_graph" where
  "graph_of ns cs = \<lparr>g_nodes = map (\<lambda>n. (node_name n, n)) ns, g_conns = map (\<lambda>c. (make_key c, c)) cs\<rparr>"

definition sample_graph :: directed_graph where
  "sample_graph = graph_of [sampleT, sampleA, sampleB, sampleM]
     [sample_conn sampleT sampleA ''main'' 0 0, sample_conn sampleA sampleB ''main'' 0 1,
      sample_conn sampleM sampleA ''ai_languageModel'' 1 0]"

text \<open>Three nodes on two overlapping cycles through B, the edge to C before the edge to A.\<close>

definition cyclic_graph :: directed_graph where
  "cyclic_graph = graph_of [sampleA, sampleB, sampleM]
     [sample_conn sampleA sampleB ''main'' 0 0, sample_conn sampleB sampleM ''main'' 0 0,
      sample_conn sampleB sampleA ''main'' 0 0, sample_conn sampleM sampleB ''main'' 0 0]"

text \<open>The trigger feeds a cycle of two nodes.\<close>

definition loop_graph :: directed_graph where
  "loop_graph = graph_of [sampleT, sampleA, sampleB]
     [sample_conn sampleT sampleA ''main'' 0 0, sample_conn sampleA sampleB ''main'' 0 0,
      sample_conn sampleB sampleA ''main'' 0 0]"

definition disabledA :: inode where
  "disabledA = sampleA\<lparr>node_disabled := Some True\<rparr>"

definition disabled_graph :: directed_graph where
  "disabled_graph = graph_of [sampleT, disabledA, sampleB]
     [sample_conn sampleT disabledA ''main'' 0 0, sample_conn disabledA sampleB ''main'' 0 1]"

lemmas sample_node_defs = sampleT_def sampleA_def sampleB_def sampleM_def sample_node_def disabledA_def

lemma sample_workflow_ok: "workflow_wf sample_workflow" "workflow_lookup_ok sample_workflow" "plain_workflow sample_workflow"
  by code_simp+

lemma sample_graph_wf: "graph_wf sample_graph" "graph_wf cyclic_graph" "graph_wf loop_graph" "graph_wf disabled_graph"
  by code_simp+

lemma sample_graph_plain: "plain_names sample_graph" "plain_names disabled_graph"
  by code_simp+

lemma sample_members: "sampleT \<in> graph_nodes sample_graph" "sampleA \<in> graph_nodes sample_graph"
  "sampleB \<in> graph_nodes sample_graph" "sampleT \<in> graph_nodes loop_graph" "sampleB \<in> graph_nodes loop_graph"
  by code_simp+

text \<open>Run data of T and A: one run each, with one item on the main output.\<close>

definition sample_run :: task_data where
  "sample_run = \<lparr>td_executionIndex = Some 3, td_source = [], td_executionStatus = Some ''success'',
     td_data = Some [(''main'', [Some [empty_item]])], td_inputOverride = None, td_error = None, td_metadata = None\<rparr>"

definition sample_run_data :: run_data where
  "sample_run_data = [(''T'', [sample_run]), (''A'', [sample_run]), (''old'', [sample_run])]"

lemma sample_run_data_ok: "run_data_ok sample_graph sample_run_data"
  by code_simp

end
