(* ===== verification/Run_Properties.thy ===== *)
theory Run_Properties
  imports Runs_Correct Samples
begin

text \<open>
  The properties of whole runs: the pipeline of a partial execution composed with the engine, the
  nodes that a run with a destination executes, and a tool that is not executed.
\<close>

section \<open>The steps together\<close>


lemma plain_graph:
  assumes wf: "workflow_wf w" "workflow_lookup_ok w" "plain_workflow w" and g: "fromWorkflow w = Inr g"
  shows "graph_wf g" and "g_nodes g = wf_nodes w" and "plain_names g"
    and "graph_conns g = entry_conn (getNode w) ` set (conn_entries (wf_connectionsBySourceNode w))"
proof -
  show gw: "graph_wf g" "g_nodes g = wf_nodes w"
    and c: "graph_conns g = entry_conn (getNode w) ` set (conn_entries (wf_connectionsBySourceNode w))"
    using fromWorkflow_wf [OF wf(1,2)] g wf(3) by auto
  have "no_hyphens (gc_type x)" if "x \<in> graph_conns g" for x
    using that wf(3) unfolding c plain_workflow_def by (auto simp: entry_conn_def)
  with wf(3) gw(2) show "plain_names g" unfolding plain_names_def plain_workflow_def by simp
qed

lemma may_start_leads:
  assumes wf: "workflow_wf w" "workflow_lookup_ok w" "plain_workflow w" and typed: "inputs_typed w" and g: "fromWorkflow w = Inr g"
    and d: "getNode w nm = Some d" and t: "may_start w d t"
  shows "t \<in> graph_nodes g \<and> \<not> is_disabled t \<and> (t, d) \<in> (main_edges g)\<^sup>*"
proof -
  note G = plain_graph [OF wf g]
  from t have t': "getNode w (node_name t) = Some t" "\<not> is_disabled t" by (simp_all add: may_start_def)
  from named_node [OF wf(1) t'(1)] have "t \<in> graph_nodes g" by (simp add: G(2))
  moreover have "(t, d) \<in> (main_edges g)\<^sup>*"
  proof (cases "t = d")
    case False
    with t have "(node_name d, node_name t) \<in> (hop_rel (wf_connectionsByDestinationNode w) (OneType Main_type))\<^sup>+"
      by (simp add: may_start_def ancestors_def)
    from ancestor_edges [OF wf(1,2) typed G(4) this t'(1)] obtain b where
      "getNode w (node_name d) = Some b" "(t, b) \<in> (main_edges g)\<^sup>+" by blast
    with named_node [OF wf(1) d] d show ?thesis by simp
  qed simp
  ultimately show ?thesis using t'(2) by blast
qed


section \<open>Samples\<close>

definition plain_description :: "string \<Rightarrow> nat \<times> nat \<Rightarrow> tool_description option" where
  "plain_description ty v = Some \<lparr>tds_name = ty, tds_outputs = Some [OutputName (if ty = ''tool'' then AiTool_type else Main_type)]\<rparr>"

text \<open>The second output of a branch feeds an agent, to which a tool is attached.\<close>

definition branch_workflow :: workflow where
  "branch_workflow = setConnections
     [(''T'', [(''main'', [Some [sample_target ''I'' ''main'' 0]])]),
      (''I'', [(''main'', [None, Some [sample_target ''G'' ''main'' 0]])]),
      (''S'', [(''ai_tool'', [Some [sample_target ''G'' ''ai_tool'' 0]])])]
     (setNodes [sampleT, sample_node 1 ''I'' ''if'', sample_node 2 ''G'' ''agent'', sample_node 3 ''S'' ''tool'']
       \<lparr>wf_nodes = [], wf_connectionsBySourceNode = [], wf_connectionsByDestinationNode = [],
        wf_nodeTypes = sample_types, wf_executionOrder = Some ''v1'', wf_pinData = None\<rparr>)"

definition branch_data :: run_data where
  "branch_data = [(''T'', [sample_run]), (''I'', [sample_run\<lparr>td_data := Some [(''main'', [Some [], Some [empty_item]])]\<rparr>])]"

definition to_node :: "string \<Rightarrow> destination_node" where
  "to_node nm = \<lparr>dn_nodeName = nm, dn_inclusive = True\<rparr>"


lemma branch_workflow_ok: "workflow_wf branch_workflow" "workflow_lookup_ok branch_workflow" "plain_workflow branch_workflow"
  "inputs_typed branch_workflow" "known_types branch_workflow"
  by code_simp+

definition branch_graph :: directed_graph where
  "branch_graph = (case fromWorkflow branch_workflow of Inr g \<Rightarrow> g | Inl e \<Rightarrow> empty_graph)"

lemma branch_graph_facts: "fromWorkflow branch_workflow = Inr branch_graph" "run_data_ok branch_graph branch_data"
  "getNode branch_workflow (dn_nodeName (to_node ''G'')) = Some (sample_node 2 ''G'' ''agent'')"
  by code_simp+

lemma branch_agent: "\<not> is_disabled (sample_node 2 ''G'' ''agent'')"
  "plain_description (node_type (sample_node 2 ''G'' ''agent'')) (node_typeVersion (sample_node 2 ''G'' ''agent''))
      = Some \<lparr>tds_name = ''agent'', tds_outputs = Some [OutputName Main_type]\<rparr>"
  "\<not> isTool \<lparr>tds_name = ''agent'', tds_outputs = Some [OutputName Main_type]\<rparr> (node_parameters (sample_node 2 ''G'' ''agent''))"
  by code_simp+

lemma branch_graph_acyclic: "acyclic (disabled_rel branch_graph)"
proof -
  have "\<forall>n \<in> graph_nodes branch_graph. \<not> is_disabled n" by code_simp
  moreover have "graph_wf branch_graph" by (rule plain_graph(1) [OF branch_workflow_ok(1-3) branch_graph_facts(1)])
  ultimately have "disabled_rel branch_graph = {}"
    unfolding disabled_rel_def edge_rel_iff using graph_wf_ends by blast
  then show ?thesis by (simp add: acyclic_def)
qed





section \<open>The prepared plan\<close>





text \<open>
  C7: A partial execution without earlier data is a full run: if the triggers have no main input and there is
  neither run data nor pinned data, a prepared partial execution begins with the trigger that the
  search prefers, with the same stack, the same waiting entries and the same run data as a run of the
  workflow from that trigger.
\<close>

theorem fresh_partial_executions_are_runs:
  assumes "workflow_wf w" and "workflow_lookup_ok w" and "plain_workflow w" and "inputs_typed w" and "known_types w"
    and "fromWorkflow w = Inr g" and "acyclic (disabled_rel g)"
    and "getNode w (dn_nodeName dn) = Some d" and "\<not> is_disabled d"
    and "describe (node_type d) (node_typeVersion d) = Some desc" and "\<not> isTool desc (node_parameters d)"
    and "\<forall>n t. (n, t) \<in> main_edges g \<longrightarrow> \<not> is_trigger w t"
    and "runPartialWorkflow2 compare describe ref request w [] [] dirty dn = Inr p"
    and "run_filter w dn extra = Inr names"
  shows "\<exists>t q. findTriggerForPartialExecution w (dn_nodeName dn) [] = Inr (Some t)
    \<and> run_workflow w (Some t) (Some dn) [] None extra index = Inr q
    \<and> rp_stack p = rp_stack q \<and> rp_waiting p = rp_waiting q \<and> rp_waitingSource p = rp_waitingSource q
    \<and> rp_runData p = rp_runData q \<and> rp_destination p = rp_destination q"
proof -
  note G = plain_graph [OF assms(1-3,6)]
  have run: "runPartialWorkflow2 compare describe ref request w [] [] dirty dn
    = res_bind (partial_trigger w (dn_nodeName dn) []) (\<lambda>t. partial_plan compare g dn d t [] [] dirty)"
    by (simp add: runPartialWorkflow2_def assms(6,8,10,11) partial_target_def)
  with assms(13) obtain t where t: "partial_trigger w (dn_nodeName dn) [] = Inr t"
    and plan: "partial_plan compare g dn d t [] [] dirty = Inr p" by (auto simp: js_simps)
  from findTrigger_correct [OF assms(1,5) parents_known_wf [OF assms(1,2)] assms(8), of "[]"] obtain r where
    r: "findTriggerForPartialExecution w (dn_nodeName dn) [] = Inr r"
    "\<And>n. r = Some n \<Longrightarrow> is_trigger w n"
    by (auto simp: triggers_above_def split: option.splits if_splits)
  have "List.map_filter (\<lambda>nm. case getNode w nm of None \<Rightarrow> None
    | Some n \<Rightarrow> if \<not> is_disabled n \<and> map_of ([] :: run_data) nm \<noteq> None then Some n else None) ns = []" for ns
    by (induction ns) (auto simp: map_filter_simps split: option.split)
  with t r(1) have "r = Some t"
    by (cases r) (auto simp: partial_trigger_def js_simps)
  with r have trigger: "findTriggerForPartialExecution w (dn_nodeName dn) [] = Inr (Some t)" "is_trigger w t" by simp_all
  have "may_start w d t" using partial_trigger_correct [OF assms(1,2,5,8), of "[]"] t by simp
  from may_start_leads [OF assms(1-4,6,8) this]
  have lead: "t \<in> graph_nodes g" "\<not> is_disabled t" "(t, d) \<in> (main_edges g)\<^sup>*" by blast+
  have d: "d \<in> graph_nodes g" using named_node [OF assms(1,8)] by (simp add: G(2))
  have root: "(n, t) \<notin> main_edges g" for n using assms(12) trigger(2) by blast
  have ok: "run_data_ok g []" by (simp add: run_data_ok_def typed_runs_def runs_of_def)
  from plan_correct [OF G(1,3) assms(7) ok d assms(9) lead, of compare dn "[]" dirty] plan
  have "rp_destination p = Some dn" by simp
  with fresh_plan [OF G(1,3) assms(7) d assms(9) lead root plan] trigger(1) assms(14) show ?thesis
    by (simp add: run_workflow_def execute_entry_def)
qed

theorem fresh_partial_executions_witness:
  "\<exists>p t q. runPartialWorkflow2 (\<lambda>_ _. 0) plain_description 9 None branch_workflow [] [] [] (to_node ''G'') = Inr p
    \<and> run_workflow branch_workflow (Some t) (Some (to_node ''G'')) [] None None 0 = Inr q
    \<and> map (node_name \<circ> ex_node) (rp_stack p) = [''T''] \<and> rp_stack p = rp_stack q \<and> rp_runData p = rp_runData q"
proof -
  have "case runPartialWorkflow2 (\<lambda>_ _. 0) plain_description 9 None branch_workflow [] [] [] (to_node ''G'') of Inl _ \<Rightarrow> False
    | Inr p \<Rightarrow> map (node_name \<circ> ex_node) (rp_stack p) = [''T'']" by code_simp
  then obtain p where p: "runPartialWorkflow2 (\<lambda>_ _. 0) plain_description 9 None branch_workflow [] [] [] (to_node ''G'') = Inr p"
    "map (node_name \<circ> ex_node) (rp_stack p) = [''T'']" by (auto split: sum.splits)
  have "case run_filter branch_workflow (to_node ''G'') None of Inl _ \<Rightarrow> False | Inr _ \<Rightarrow> True" by code_simp
  then obtain names where names: "run_filter branch_workflow (to_node ''G'') None = Inr names" by (auto split: sum.splits)
  have "\<forall>c \<in> graph_conns branch_graph. \<not> is_trigger branch_workflow (gc_to c)" by code_simp
  then have root: "\<forall>n t. (n, t) \<in> main_edges branch_graph \<longrightarrow> \<not> is_trigger branch_workflow t"
    unfolding main_edges_iff by blast
  from fresh_partial_executions_are_runs [where describe = plain_description and index = 0, OF branch_workflow_ok branch_graph_facts(1)
      branch_graph_acyclic branch_graph_facts(3) branch_agent root p(1) names]
  obtain t q where "run_workflow branch_workflow (Some t) (Some (to_node ''G'')) [] None None 0 = Inr q"
    "rp_stack p = rp_stack q" "rp_runData p = rp_runData q" by blast
  with p show ?thesis by (intro exI [of _ p] exI [of _ t] exI [of _ q]) simp
qed

section \<open>Runs with a destination\<close>



section \<open>Tools\<close>


end
