(* ===== verification/Execution_Ends.thy ===== *)
theory Execution_Ends
  imports Execution_Loop
begin

text \<open>
  Why an execution of an acyclic workflow ends in the order v1, whatever its nodes return: the names
  of the nodes on the stack and of the inputs that wait form a multiset; an iteration takes one name
  out of it and puts in only names of nodes after that one, so the multiset gets smaller in the
  order that the connections induce.
\<close>

section \<open>The pending work\<close>

definition filled :: "exec_item list option option list \<Rightarrow> nat" where
  "filled xs = length (filter (\<lambda>x. Option.bind x (\<lambda>x. x) \<noteq> None) xs)"

definition waiting_at_run :: "exec_item list option pending_runs \<Rightarrow> string \<times> nat \<Rightarrow> string multiset" where
  "waiting_at_run waiting p = (case waiting_slots waiting (fst p) (snd p) of
     None \<Rightarrow> {#} | Some xs \<Rightarrow> replicate_mset (filled xs) (fst p))"

definition waiting_runs :: "exec_item list option pending_runs \<Rightarrow> (string \<times> nat) set" where
  "waiting_runs waiting = {p. waiting_slots waiting (fst p) (snd p) \<noteq> None}"

definition waiting_work :: "exec_item list option pending_runs \<Rightarrow> string multiset" where
  "waiting_work waiting = (\<Sum>p \<in> waiting_runs waiting. waiting_at_run waiting p)"

definition stack_work :: "execute_data list \<Rightarrow> string multiset" where
  "stack_work es = mset (map (\<lambda>e. node_name (ex_node e)) es)"

definition pending :: "exec_state \<Rightarrow> string multiset" where
  "pending s = stack_work (xs_stack s) + waiting_work (xs_waiting s)"

lemma stack_work_simps [simp]:
  "stack_work [] = {#}" "stack_work (e # es) = add_mset (node_name (ex_node e)) (stack_work es)"
  "stack_work (es @ fs) = stack_work es + stack_work fs"
  by (simp_all add: stack_work_def)

lemma finite_waiting_runs: "finite (waiting_runs waiting)"
proof -
  have "waiting_runs waiting \<subseteq> (\<Union>(nm, runs) \<in> set waiting. Pair nm ` fst ` set runs)"
  proof
    fix p
    assume "p \<in> waiting_runs waiting"
    then obtain runs cs where "map_of waiting (fst p) = Some runs" "map_of runs (snd p) = Some cs"
      by (auto simp: waiting_runs_def waiting_slots_def run_entry_def bind_eq_Some_conv)
    then have "(fst p, runs) \<in> set waiting" "snd p \<in> fst ` set runs" by (force dest: map_of_SomeD)+
    then show "p \<in> (\<Union>(nm, runs) \<in> set waiting. Pair nm ` fst ` set runs)" by (cases p) force
  qed
  then show ?thesis by (rule finite_subset) auto
qed

text \<open>A change of one run changes its share only.\<close>

lemma waiting_work_update:
  assumes "\<And>nm' run'. waiting_slots wt' nm' run' = (if nm' = nm \<and> run' = run then v else waiting_slots wt nm' run')"
  shows "waiting_work wt' + waiting_at_run wt (nm, run) = waiting_work wt + waiting_at_run wt' (nm, run)"
proof -
  let ?D = "insert (nm, run) (waiting_runs wt \<union> waiting_runs wt')"
  have fin: "finite ?D" by (simp add: finite_waiting_runs)
  have all: "waiting_work w = (\<Sum>p \<in> ?D. waiting_at_run w p)" if "w = wt \<or> w = wt'" for w
    unfolding waiting_work_def using that
    by (intro sum.mono_neutral_left [OF fin]) (auto simp: waiting_runs_def waiting_at_run_def)
  have rest: "(\<Sum>p \<in> ?D - {(nm, run)}. waiting_at_run wt' p) = (\<Sum>p \<in> ?D - {(nm, run)}. waiting_at_run wt p)"
    by (rule sum.cong) (auto simp: waiting_at_run_def assms)
  show ?thesis unfolding all [of wt', simplified] all [of wt, simplified]
    using fin rest by (simp add: sum.remove [of ?D "(nm, run)"] add.commute add.left_commute)
qed

lemma filled_update: "filled (xs[i := x]) \<le> Suc (filled xs)"
proof (cases "i < length xs")
  case True
  have "filled (take i xs @ [x] @ drop (Suc i) xs) \<le> Suc (filled (take i xs @ [xs ! i] @ drop (Suc i) xs))"
    by (simp add: filled_def)
  then show ?thesis using True by (simp add: upd_conv_take_nth_drop id_take_nth_drop [symmetric])
next
  case False
  then show ?thesis by (simp add: list_update_beyond)
qed

lemma replicate_mset_subset: "m \<le> a + k \<Longrightarrow> replicate_mset m x \<subseteq># replicate_mset a x + replicate_mset k x"
  by (simp add: subseteq_mset_def)

lemma waiting_work_stored:
  assumes "\<And>nm' run'. waiting_slots wt' nm' run' = (if nm' = nm \<and> run' = run then v else waiting_slots wt nm' run')"
    and "case v of None \<Rightarrow> True | Some ys \<Rightarrow> filled ys \<le> (case waiting_slots wt nm run of None \<Rightarrow> 0 | Some xs \<Rightarrow> filled xs) + k"
  shows "waiting_work wt' \<subseteq># waiting_work wt + replicate_mset k nm"
proof -
  have "waiting_at_run wt' (nm, run) \<subseteq># waiting_at_run wt (nm, run) + replicate_mset k nm"
    using assms(2) by (cases v; cases "waiting_slots wt nm run")
      (simp_all add: waiting_at_run_def assms(1) replicate_mset_subset replicate_mset_subset [where a = 0, simplified])
  with waiting_work_update [OF assms(1)] have "waiting_work wt' + waiting_at_run wt (nm, run)
      \<subseteq># waiting_work wt + (waiting_at_run wt (nm, run) + replicate_mset k nm)"
    by simp
  also have "\<dots> = (waiting_work wt + replicate_mset k nm) + waiting_at_run wt (nm, run)" by (simp add: ac_simps)
  finally show ?thesis by simp
qed

section \<open>Workflows whose executions are bounded\<close>

definition main_typed :: "workflow \<Rightarrow> bool" where
  "main_typed w \<longleftrightarrow> (\<forall>nm \<in> set (map fst (wf_connectionsBySourceNode w)). \<forall>(i, c) \<in> set (main_connections w nm). conn_type c = Main_type)"

definition inputs_listed :: "workflow \<Rightarrow> bool" where
  "inputs_listed w \<longleftrightarrow> (\<forall>nm \<in> set (map fst (wf_connectionsBySourceNode w)).
     \<forall>(i, c) \<in> set (main_connections w nm). conn_index c < length (main_inputs_of w (conn_node c)))"

text \<open>The nodes after a node, as pairs of a node and the one before it.\<close>

definition main_successor :: "workflow \<Rightarrow> (string \<times> string) set" where
  "main_successor w = {(conn_node c, nm) | c nm i. (i, c) \<in> set (main_connections w nm)}"

lemma main_connections_source: "(i, c) \<in> set (main_connections w nm) \<Longrightarrow> nm \<in> set (map fst (wf_connectionsBySourceNode w))"
  by (auto simp: main_connections_def get_or_def dest!: map_of_SomeD split: option.splits bind_splits intro: rev_image_eqI)

lemma main_connections_entry:
  assumes "(i, c) \<in> set (main_connections w nm)"
  shows "(nm, Main_type, i, c) \<in> set (conn_entries (wf_connectionsBySourceNode w))"
proof -
  from assms obtain tys bs where "map_of (wf_connectionsBySourceNode w) nm = Some tys" "map_of tys Main_type = Some bs"
    and e: "(i, c) \<in> set (concat (map (\<lambda>(i, b). map (\<lambda>c. (i, c)) (get_or [] b)) (enumerate 0 bs)))"
    by (auto simp: main_connections_def get_or_def split: option.splits bind_splits)
  then have "(nm, tys) \<in> set (wf_connectionsBySourceNode w)" "(Main_type, bs) \<in> set tys" by (simp_all add: map_of_SomeD)
  moreover from e have "i < length bs \<and> (\<exists>cs. bs ! i = Some cs \<and> c \<in> set cs)"
    by (auto simp: in_set_enumerate_eq get_or_def split: option.splits)
  ultimately show ?thesis unfolding in_conn_entries by blast
qed

lemma finite_main_successor: "finite (main_successor w)"
proof -
  have "main_successor w \<subseteq> (\<lambda>(nm, ty, i, c). (conn_node c, nm)) ` set (conn_entries (wf_connectionsBySourceNode w))"
    using main_connections_entry by (force simp: main_successor_def)
  then show ?thesis by (rule finite_subset) simp
qed

lemma inputs_listed_wf:
  assumes wf: "workflow_wf w" and typed: "main_typed w"
  shows "inputs_listed w"
  unfolding inputs_listed_def
proof (intro ballI, clarify)
  fix nm i c
  assume "nm \<in> set (map fst (wf_connectionsBySourceNode w))" and e: "(i, c) \<in> set (main_connections w nm)"
  with typed have ty: "conn_type c = Main_type" by (fastforce simp: main_typed_def)
  let ?dest = "wf_connectionsByDestinationNode w"
  have d: "?dest = mapConnectionsByDestination (wf_connectionsBySourceNode w)" using wf by (simp add: workflow_wf_def)
  have "set (conn_entries ?dest) = flip_entry ` set (conn_entries (wf_connectionsBySourceNode w))"
    using arg_cong [OF mset_mapConnectionsByDestination [of "wf_connectionsBySourceNode w"], of set_mset] d by simp
  then have "flip_entry (nm, Main_type, i, c) \<in> set (conn_entries ?dest)" using main_connections_entry [OF e] by blast
  then obtain tys bs where bs: "(conn_node c, tys) \<in> set ?dest" "(Main_type, bs) \<in> set tys" "conn_index c < length bs"
    using ty by (auto simp: in_conn_entries)
  have "conns_wf ?dest" using mapConnectionsByDestination_full d by (simp add: full_conns_def)
  with bs(1,2) have "map_of ?dest (conn_node c) = Some tys" "map_of tys Main_type = Some bs"
    by (auto simp: conns_wf_def)
  with bs(3) show "conn_index c < length (main_inputs_of w (conn_node c))" by (simp add: main_inputs_of_def get_or_def)
qed

section \<open>One call adds at most one name\<close>

definition entries_ok :: "exec_state \<Rightarrow> bool" where
  "entries_ok s \<longleftrightarrow> (\<forall>e \<in> set (xs_stack s). map_of (ex_data e) Main_type \<noteq> None)"

definition schedule_ok :: "workflow \<Rightarrow> exec_state \<Rightarrow> bool" where
  "schedule_ok w s \<longleftrightarrow> waiting_ok w s \<and> entries_ok s"

lemma target_slots_filled:
  assumes "waiting_ok w s"
  shows "filled (target_slots w s nm i)
    \<le> (case waiting_slots (xs_waiting s) nm (target_run s nm i) of None \<Rightarrow> 0 | Some xs \<Rightarrow> filled xs)"
proof (cases "open_run s nm i")
  case None
  then show ?thesis by (simp add: target_slots_def filled_def)
next
  case (Some r)
  obtain run cs where r: "r = (run, cs)" by (cases r)
  from open_runD(2,3) [OF assms Some [unfolded r]] show ?thesis by simp
qed

lemma add_work:
  assumes ok: "schedule_ok w s" and i: "conn_index c < length (main_inputs_of w (conn_node c))"
    and items: "arr_get outs outputIndex = Some (Some items)"
    and n: "getNode w (conn_node c) = Some n" "node_name n = conn_node c"
    and v1: "\<not> isLegacyExecutionOrder w"
    and ret: "addNodeToBeExecuted w c outputIndex parent (Some outs) r newRun meta s = Inr s'"
  shows "schedule_ok w s'" and "pending s' \<subseteq># pending s + {#conn_node c#}"
proof -
  let ?nm = "conn_node c"
  have wok: "waiting_ok w s" using ok by (simp add: schedule_ok_def)
  note wok' = add_keeps_waiting_ok [OF wok i items n ret]
  have "entries_ok s' \<and> pending s' \<subseteq># pending s + {#?nm#}"
  proof (cases "1 < length (main_inputs_of w ?nm)")
    case False
    with ret n ok v1 show ?thesis
      by (auto simp: addNodeToBeExecuted_def Let_def schedule_ok_def entries_ok_def pending_def)
  next
    case True
    define run where "run = target_run s ?nm (conn_index c)"
    define slots where "slots = (target_slots w s ?nm (conn_index c))[conn_index c := Some (Some items)]"
    note views = add_with_inputs_views [OF wok i True items n v1 ret, folded run_def slots_def]
    have le: "filled slots \<le> (case waiting_slots (xs_waiting s) ?nm run of None \<Rightarrow> 0 | Some xs \<Rightarrow> filled xs) + 1"
      using filled_update [of "target_slots w s ?nm (conn_index c)" "conn_index c" "Some (Some items)"]
        target_slots_filled [OF wok, of ?nm "conn_index c"] unfolding slots_def run_def by linarith
    show ?thesis
    proof (cases "Some None \<in> set slots")
      case True
      from waiting_work_stored [OF views(2), of 1] le True
      have "waiting_work (xs_waiting s') \<subseteq># waiting_work (xs_waiting s) + {#?nm#}" by simp
      with views(3) True ok show ?thesis by (simp add: pending_def entries_ok_def schedule_ok_def)
    next
      case False
      from waiting_work_stored [OF views(2), of 0] False
      have "waiting_work (xs_waiting s') \<subseteq># waiting_work (xs_waiting s)" by simp
      with views(3) False ok n(2) show ?thesis
        by (auto simp: pending_def entries_ok_def schedule_ok_def)
    qed
  qed
  with wok' show "schedule_ok w s'" "pending s' \<subseteq># pending s + {#?nm#}" by (simp_all add: schedule_ok_def)
qed

section \<open>Distribution and promotion\<close>

text \<open>What the loop needs of the workflow.\<close>

definition plain_schedule :: "workflow \<Rightarrow> bool" where
  "plain_schedule w \<longleftrightarrow> workflow_wf w \<and> main_typed w \<and> \<not> isLegacyExecutionOrder w"

lemma getNode_name: "workflow_wf w \<Longrightarrow> getNode w nm = Some n \<Longrightarrow> node_name n = nm"
  by (auto simp: workflow_wf_def getNode_def dest!: map_of_SomeD)

lemma add_edges_work:
  assumes plain: "plain_schedule w" and edges: "set edges \<subseteq> set (main_connections w nm)"
    and fed: "list_all (feeds w data) edges" and found: "list_all (\<lambda>(i, c). map_of (wf_nodes w) (conn_node c) \<noteq> None) edges"
    and ok: "schedule_ok w s"
    and ret: "for_each (\<lambda>(i, c) s. addNodeToBeExecuted w c i nm (Some data) r None None s) edges s = Inr s'"
  shows "schedule_ok w s' \<and> pending s' \<subseteq># pending s + mset (map (\<lambda>(i, c). conn_node c) edges)"
  using edges fed found ok ret
proof (induction edges arbitrary: s)
  case Nil
  then show ?case by simp
next
  case (Cons edge edges)
  obtain i c where e: "edge = (i, c)" by (cases edge)
  from Cons.prems(5) e obtain t where t: "addNodeToBeExecuted w c i nm (Some data) r None None s = Inr t"
    "for_each (\<lambda>(i, c) s. addNodeToBeExecuted w c i nm (Some data) r None None s) edges t = Inr s'"
    by (auto simp: res_bind_eq_Inr)
  from Cons.prems(1) e plain have idx: "conn_index c < length (main_inputs_of w (conn_node c))"
    using inputs_listed_wf main_connections_source by (fastforce simp: plain_schedule_def inputs_listed_def)
  from Cons.prems(2) e obtain items where items: "arr_get data i = Some (Some items)"
    by (auto simp: feeds_def split: option.splits)
  from Cons.prems(3) e obtain n where n: "getNode w (conn_node c) = Some n" by (auto simp: getNode_def)
  have nn: "node_name n = conn_node c" using getNode_name [OF _ n] plain by (simp add: plain_schedule_def)
  have v1: "\<not> isLegacyExecutionOrder w" using plain by (simp add: plain_schedule_def)
  note add = add_work [OF Cons.prems(4) idx items n nn v1 t(1)]
  from Cons.IH [OF _ _ _ add(1) t(2)] Cons.prems(1,2,3)
  have IH: "schedule_ok w s'" "pending s' \<subseteq># pending t + mset (map (\<lambda>(i, c). conn_node c) edges)" by auto
  have "pending t + mset (map (\<lambda>(i, c). conn_node c) edges)
      \<subseteq># pending s + {#conn_node c#} + mset (map (\<lambda>(i, c). conn_node c) edges)"
    using add(2) by (rule mset_subset_eq_mono_add) simp
  with IH e show ?case by (auto intro: subset_mset.order_trans)
qed

lemma distribute_outputs_work:
  assumes plain: "plain_schedule w" and ok: "schedule_ok w s" and ret: "distribute_outputs w nm data r s = Inr s'"
  obtains K where "schedule_ok w s'" and "pending s' \<subseteq># pending s + K" and "\<And>k. k \<in># K \<Longrightarrow> (k, nm) \<in> main_successor w"
proof -
  let ?edges = "js_sort (bottom_right_first w) (filter (feeds w data) (main_connections w nm))"
  have v1: "\<not> isLegacyExecutionOrder w" using plain by (simp add: plain_schedule_def)
  from ret v1 have found: "list_all (\<lambda>(i, c). map_of (wf_nodes w) (conn_node c) \<noteq> None) (main_connections w nm)"
    and loop: "for_each (\<lambda>(i, c) s. addNodeToBeExecuted w c i nm (Some data) r None None s) ?edges s = Inr s'"
    by (auto simp: distribute_outputs_def Let_def split: if_splits)
  have "list_all (\<lambda>(i, c). map_of (wf_nodes w) (conn_node c) \<noteq> None) ?edges" "list_all (feeds w data) ?edges"
    "set ?edges \<subseteq> set (main_connections w nm)"
    using found by (auto simp: list_all_iff)
  from add_edges_work [OF plain this(3,2,1) ok loop]
  have "schedule_ok w s'" "pending s' \<subseteq># pending s + mset (map (\<lambda>(i, c). conn_node c) ?edges)" by simp_all
  moreover have "(k, nm) \<in> main_successor w" if "k \<in># mset (map (\<lambda>(i, c). conn_node c) ?edges)" for k
    using that by (auto simp: main_successor_def)
  ultimately show thesis using that by blast
qed

text \<open>Removing a waiting run.\<close>

lemma stores_same:
  assumes "waiting_slots waiting nm run = Some xs"
  shows "stores nm run xs waiting waiting"
proof -
  from assms obtain runs cs where "map_of waiting nm = Some runs" "map_of runs run = Some cs" "map_of cs Main_type = Some xs"
    by (auto simp: waiting_slots_def run_entry_def bind_eq_Some_conv)
  then show ?thesis unfolding stores_def
    by (intro exI [of _ runs] exI [of _ cs]) (auto simp: node_runs_def get_or_def)
qed

lemma remove_waiting_ok:
  assumes ok: "waiting_ok w s" and xs: "waiting_slots (xs_waiting s) nm run = Some xs"
  shows "waiting_ok w (remove_waiting nm run s)"
    and "waiting_work (xs_waiting (remove_waiting nm run s)) + replicate_mset (filled xs) nm = waiting_work (xs_waiting s)"
proof -
  from xs obtain runs cs where m: "map_of (xs_waiting s) nm = Some runs" "map_of runs run = Some cs"
    by (auto simp: waiting_slots_def run_entry_def bind_eq_Some_conv)
  then have "map_of (node_runs (xs_waiting s) nm) run = Some cs" by (simp add: node_runs_def get_or_def)
  from runs_wait [OF ok this] obtain ys where ys: "waiting_slots (xs_waitingSource s) nm run = Some ys" by blast
  show "waiting_ok w (remove_waiting nm run s)"
    by (rule waiting_ok_removed [OF ok stores_same [OF xs] stores_same [OF ys]])
  have "waiting_work (xs_waiting (remove_waiting nm run s)) + waiting_at_run (xs_waiting s) (nm, run)
      = waiting_work (xs_waiting s) + waiting_at_run (xs_waiting (remove_waiting nm run s)) (nm, run)"
    by (rule waiting_work_update) (rule slots_remove_waiting [OF m(1)])
  then show "waiting_work (xs_waiting (remove_waiting nm run s)) + replicate_mset (filled xs) nm = waiting_work (xs_waiting s)"
    by (simp add: waiting_at_run_def xs slots_remove_waiting [OF m(1)])
qed

lemma judge_waiting_slots:
  assumes "judge_waiting w evaluate names s nm = Inr v"
  shows "v = Drop run \<Longrightarrow> \<exists>xs. waiting_slots (xs_waiting s) nm run = Some xs"
    and "v = Run n t run xs \<Longrightarrow> waiting_slots (xs_waiting s) nm run = Some xs \<and> has_items_in xs \<and> getNode w nm = Some n"
  using assms
  by (auto simp: judge_waiting_def Let_def res_bind_eq_Inr waiting_inputs_slots split: option.splits if_splits)

lemma has_items_filled: "has_items_in xs \<Longrightarrow> 0 < filled xs"
proof -
  assume "has_items_in xs"
  then obtain x where x: "x \<in> set xs" "case x of Some (Some items) \<Rightarrow> items \<noteq> [] | _ \<Rightarrow> False"
    by (auto simp: has_items_in_def)
  from x(2) have "\<exists>items. x = Some (Some items)" by (auto split: option.splits)
  then obtain items where "x = Some (Some items)" by blast
  with x(1) have "Some (Some items) \<in> set xs" by simp
  then have "Some (Some items) \<in> set (filter (\<lambda>x. Option.bind x (\<lambda>x. x) \<noteq> None) xs)" by simp
  then show ?thesis unfolding filled_def by (rule length_pos_if_in_set)
qed

lemma promote_waiting_work:
  assumes "workflow_wf w" and "schedule_ok w s" and "promote_waiting w evaluate names nms s = Inr s'"
  shows "schedule_ok w s' \<and> pending s' \<subseteq># pending s"
  using assms
proof (induction w evaluate names nms s rule: promote_waiting.induct)
  case (1 w evaluate names s)
  then show ?case by (simp add: promote_waiting.simps)
next
  case (2 w evaluate names nm nms s)
  from "2.prems"(3) obtain v where v: "judge_waiting w evaluate names s nm = Inr v"
    by (auto simp: promote_waiting.simps(2) split: sum.splits)
  show ?case
  proof (cases v)
    case Skip
    with 2 v show ?thesis by (simp add: promote_waiting.simps(2))
  next
    case (Drop run)
    from judge_waiting_slots(1) [OF v Drop] obtain xs where xs: "waiting_slots (xs_waiting s) nm run = Some xs" by blast
    have m: "xs_stack (remove_waiting nm run s) = xs_stack s" by (simp add: remove_waiting_def Let_def)
    have ok: "schedule_ok w (remove_waiting nm run s)"
      using remove_waiting_ok(1) [OF _ xs] "2.prems"(2) m by (auto simp: schedule_ok_def entries_ok_def)
    have le: "pending (remove_waiting nm run s) \<subseteq># pending s"
      using remove_waiting_ok(2) [OF _ xs] "2.prems"(2) m unfolding pending_def schedule_ok_def
      by (metis mset_subset_eq_add_left subset_mset.add_left_mono)
    from "2.IH"(2) [OF v Drop refl refl "2.prems"(1) ok] "2.prems"(3) v Drop le show ?thesis
      by (auto simp: promote_waiting.simps(2) Let_def intro: subset_mset.order_trans)
  next
    case (Run n t run xs)
    note J = judge_waiting_slots(2) [OF v Run]
    let ?e = "execute_entry n (filled_inputs (nt_inputsLength t) xs) (run_entry nm run (xs_waitingSource s))"
    let ?s = "s\<lparr>xs_stack := xs_stack s @ [?e]\<rparr>"
    have s': "s' = remove_waiting nm run ?s" using "2.prems"(3) v Run by (simp add: promote_waiting.simps(2))
    have xs: "waiting_slots (xs_waiting ?s) nm run = Some xs" using J by simp
    have m: "xs_stack s' = xs_stack s @ [?e]" by (simp add: s' remove_waiting_def Let_def)
    have wok: "waiting_ok w ?s" using "2.prems"(2) by (auto simp: schedule_ok_def intro: waiting_ok_only)
    have ok: "schedule_ok w s'"
      using remove_waiting_ok(1) [OF wok xs] "2.prems"(2) m
      by (auto simp: schedule_ok_def entries_ok_def s' execute_entry_def)
    have nn: "node_name n = nm" using J getNode_name [OF "2.prems"(1), of nm n] by simp
    from has_items_filled J obtain k where k: "filled xs = Suc k" by (auto simp: gr0_conv_Suc)
    have "add_mset nm (waiting_work (xs_waiting s')) + replicate_mset k nm = waiting_work (xs_waiting s)"
      using remove_waiting_ok(2) [OF wok xs] by (simp add: k s')
    then have "add_mset nm (waiting_work (xs_waiting s')) \<subseteq># waiting_work (xs_waiting s)"
      by (metis mset_subset_eq_add_left)
    with ok m nn show ?thesis by (simp add: pending_def execute_entry_def)
  qed
qed

section \<open>One iteration makes the pending work smaller\<close>

definition engine_ok :: "workflow \<Rightarrow> engine \<Rightarrow> bool" where
  "engine_ok w s \<longleftrightarrow> schedule_ok w (base_state s)"

definition work :: "engine \<Rightarrow> string multiset" where
  "work s = pending (base_state s)"

lemma schedule_ok_cong:
  "xs_stack s = xs_stack t \<Longrightarrow> xs_waiting s = xs_waiting t \<Longrightarrow> xs_waitingSource s = xs_waitingSource t \<Longrightarrow>
   schedule_ok w s = schedule_ok w t"
  by (simp add: schedule_ok_def entries_ok_def waiting_ok_def node_waits_def)

lemma engine_ok_iff:
  "engine_ok w s \<longleftrightarrow> schedule_ok w \<lparr>xs_stack = xs_stack s, xs_waiting = xs_waiting s,
     xs_waitingSource = xs_waitingSource s, xs_runData = xs_runData s\<rparr>"
  unfolding engine_ok_def by (rule schedule_ok_cong) simp_all

lemma engine_ok_cong:
  "xs_stack s = xs_stack t \<Longrightarrow> xs_waiting s = xs_waiting t \<Longrightarrow> xs_waitingSource s = xs_waitingSource t \<Longrightarrow>
   engine_ok w s = engine_ok w t"
  unfolding engine_ok_def by (rule schedule_ok_cong) simp_all

lemma work_eq: "work s = stack_work (xs_stack s) + waiting_work (xs_waiting s)"
  by (simp add: work_def pending_def)

text \<open>\<open>spawns w nm s s'\<close>: only names after \<open>nm\<close> were added.\<close>

definition spawns :: "workflow \<Rightarrow> string \<Rightarrow> engine \<Rightarrow> engine \<Rightarrow> bool" where
  "spawns w nm s s' \<longleftrightarrow> engine_ok w s' \<and> (\<exists>K. work s' \<subseteq># work s + K \<and> (\<forall>k \<in># K. (k, nm) \<in> main_successor w))"

lemma spawns_same: "engine_ok w s \<Longrightarrow> xs_stack s' = xs_stack s \<Longrightarrow> xs_waiting s' = xs_waiting s \<Longrightarrow>
   xs_waitingSource s' = xs_waitingSource s \<Longrightarrow> spawns w nm s s'"
  using engine_ok_cong [of s s' w] by (auto simp: spawns_def work_eq intro!: exI [of _ "{#}"])

lemma follow_up_spawns:
  assumes plain: "plain_schedule (cf_workflow cf)" and ok: "engine_ok (cf_workflow cf) s"
    and ret: "follow_up cf e r data s = Continue s'"
  shows "spawns (cf_workflow cf) (node_name (ex_node e)) s s'"
proof (cases "cf_destination cf = Some (node_name (ex_node e))")
  case True
  with ret have "s' = s" by (simp add: follow_up_def Let_def split: if_splits)
  then show ?thesis using ok by (simp add: spawns_same)
next
  case False
  let ?w = "cf_workflow cf" and ?nm = "node_name (ex_node e)"
  from ret False obtain s1 where s1: "distribute_outputs ?w ?nm data r (base_state s) = Inr s1"
    by (auto simp: follow_up_def Let_def split: if_splits sum.splits)
  let ?names = "map fst (xs_waiting s1)"
  from ret False s1 obtain s2 where s2: "s' = lift_state s2 s"
    "(if xs_stack s1 = [] \<and> ?names \<noteq> [] then promote_waiting ?w (cf_evaluate cf) ?names ?names s1 else Inr s1) = Inr s2"
    by (auto simp: follow_up_def Let_def split: if_splits sum.splits)
  from distribute_outputs_work [OF plain ok [unfolded engine_ok_def] s1] obtain K where
    K: "schedule_ok ?w s1" "pending s1 \<subseteq># work s + K" "\<And>k. k \<in># K \<Longrightarrow> (k, ?nm) \<in> main_successor ?w"
    unfolding work_def by metis
  have "schedule_ok ?w s2 \<and> pending s2 \<subseteq># pending s1"
    using s2(2) K(1) promote_waiting_work [of ?w s1 "cf_evaluate cf" ?names ?names s2] plain
    by (auto simp: plain_schedule_def split: if_splits)
  with K s2(1) show ?thesis by (auto simp: spawns_def engine_ok_def work_def intro: subset_mset.order_trans)
qed

lemma succeed_node_spawns:
  assumes plain: "plain_schedule (cf_workflow cf)" and ok: "engine_ok (cf_workflow cf) s"
    and ret: "succeed_node cf e r data task s = Continue s'"
  shows "spawns (cf_workflow cf) (node_name (ex_node e)) s s'"
proof -
  from ret obtain merged t where t: "follow_up cf e r merged t = Continue s'"
    "xs_stack t = xs_stack s" "xs_waiting t = xs_waiting s" "xs_waitingSource t = xs_waitingSource s"
    by (auto simp: succeed_node_def Let_def split: option.splits sum.splits)
  from engine_ok_cong [OF t(2-4)] ok have "engine_ok (cf_workflow cf) t" by simp
  from follow_up_spawns [OF plain this t(1)] t(2,3) show ?thesis by (simp add: spawns_def work_eq)
qed

lemma run_entry_node_spawns:
  assumes plain: "plain_schedule (cf_workflow cf)" and ok: "engine_ok (cf_workflow cf) s"
    and ret: "run_entry_node cf e r index s = Continue s'"
  shows "spawns (cf_workflow cf) (node_name (ex_node e)) s s'"
proof -
  let ?tries = "run_tries (cf_pairs cf (xs_runData s)) (cf_outputs cf (ex_node e))
    (if is_disabled (ex_node e) then None else map_of (en_pinData s) (node_name (ex_node e))) (cf_run cf) e (en_calls s)"
  let ?t = "note_tries (node_name (ex_node e)) ?tries s"
  have "s' = ?t \<or> (\<exists>data task. succeed_node cf e r data task ?t = Continue s')"
    using ret unfolding run_entry_node_def fail_node_def Let_def
    by (auto split: if_splits sum.splits option.splits prod.splits)
  then show ?thesis
  proof
    assume "s' = ?t"
    then show ?thesis using ok by (intro spawns_same) simp_all
  next
    assume "\<exists>data task. succeed_node cf e r data task ?t = Continue s'"
    then obtain data task where ret': "succeed_node cf e r data task ?t = Continue s'" by blast
    have "engine_ok (cf_workflow cf) ?t" using ok engine_ok_cong [of ?t s] by simp
    from succeed_node_spawns [OF plain this ret'] show ?thesis by (simp add: spawns_def work_eq)
  qed
qed

lemma track_items_main: "map_of (ex_data (track_items e)) ty = None \<longleftrightarrow> map_of (ex_data e) ty = None"
  and track_items_node [simp]: "ex_node (track_items e) = ex_node e"
proof -
  have "map_of (map (\<lambda>(ty, inputs). (ty, map (\<lambda>(i, input). track_input e i input) (enumerate 0 inputs))) cs) ty = None
      \<longleftrightarrow> map_of cs ty = None" for cs
    by (induction cs) auto
  then show "map_of (ex_data (track_items e)) ty = None \<longleftrightarrow> map_of (ex_data e) ty = None"
    by (simp add: track_items_def)
  show "ex_node (track_items e) = ex_node e" by (simp add: track_items_def)
qed

lemma inputs_ready_v1:
  assumes "\<not> isLegacyExecutionOrder w" and "map_of (ex_data e) Main_type \<noteq> None"
  shows "inputs_ready w e is \<noteq> Inr False"
  using assms by (induction w e "is" rule: inputs_ready.induct)
    (auto simp: res_bind_eq_Inr split: if_splits option.splits)

lemma removed_work:
  assumes "M' \<subseteq># I + K" and "\<forall>k \<in># K. (k, nm) \<in> r"
  shows "(M', add_mset nm I) \<in> mult r"
proof -
  have "(I + K, I + {#nm#}) \<in> mult r" using assms(2) by (intro one_step_implies_mult) auto
  moreover have "M' = I + K \<or> (M', I + K) \<in> mult r"
    using assms(1) subset_implies_mult by (auto simp: subset_mset.le_less)
  ultimately show ?thesis unfolding mult_def by auto
qed

text \<open>The rest of the stack after an entry was taken off.\<close>

lemma iteration_work:
  assumes plain: "plain_schedule (cf_workflow cf)" and ok: "engine_ok (cf_workflow cf) s"
    and ret: "engine_iteration cf s = Continue s'"
  shows "engine_ok (cf_workflow cf) s' \<and> (work s', work s) \<in> mult (main_successor (cf_workflow cf))"
proof -
  let ?w = "cf_workflow cf"
  from ret obtain popped rest where pop: "xs_stack s = popped # rest"
    by (auto simp: engine_iteration_def split: if_splits list.splits)
  let ?e = "track_items popped" and ?nm = "node_name (ex_node popped)"
  define t where "t = s\<lparr>xs_stack := rest, en_error := None, en_index := Suc (en_index s)\<rparr>"
  have views: "xs_stack t = rest" "xs_waiting t = xs_waiting s" "xs_waitingSource t = xs_waitingSource s"
    by (simp_all add: t_def)
  have ok': "engine_ok ?w t" using ok pop views
    by (auto simp: engine_ok_iff schedule_ok_def entries_ok_def intro: waiting_ok_only)
  have main: "map_of (ex_data ?e) Main_type \<noteq> None"
    using ok pop unfolding track_items_main by (simp add: engine_ok_def schedule_ok_def entries_ok_def)
  have w: "work s = add_mset ?nm (work t)" using pop views by (simp add: work_eq)
  have v1: "\<not> isLegacyExecutionOrder ?w" using plain by (simp add: plain_schedule_def)
  have "s' = t \<or> (\<exists>r index. run_entry_node cf ?e r index t = Continue s')"
    using ret pop inputs_ready_v1 [OF v1 main]
    unfolding engine_iteration_def ensureInputData_def Let_def t_def
    by (auto simp: res_bind_def split: if_splits sum.splits option.splits)
  then have "spawns ?w ?nm t s'"
  proof
    assume "s' = t"
    then show ?thesis using ok' by (intro spawns_same) simp_all
  next
    assume "\<exists>r index. run_entry_node cf ?e r index t = Continue s'"
    then obtain r index where "run_entry_node cf ?e r index t = Continue s'" by blast
    from run_entry_node_spawns [OF plain ok' this] show ?thesis by simp
  qed
  then obtain K where K: "engine_ok ?w s'" "work s' \<subseteq># work t + K" "\<forall>k \<in># K. (k, ?nm) \<in> main_successor ?w"
    unfolding spawns_def by blast
  from removed_work [OF K(2,3)] K(1) show ?thesis unfolding w by simp
qed

text \<open>Acyclic connections make the order of the pending work well-founded.\<close>

definition acyclic_workflow :: "workflow \<Rightarrow> bool" where
  "acyclic_workflow w \<longleftrightarrow> acyclic (main_successor w)"

lemma run_loop_ends:
  assumes "plain_schedule (cf_workflow cf)" and "acyclic_workflow (cf_workflow cf)" and "engine_ok (cf_workflow cf) s"
  shows "\<exists>k. \<forall>s'. run_loop cf k s \<noteq> Continue s'"
proof -
  let ?R = "inv_image (mult (main_successor (cf_workflow cf))) work"
  have "wf (main_successor (cf_workflow cf))"
    using finite_acyclic_wf [OF finite_main_successor] assms(2) by (simp add: acyclic_workflow_def)
  then have wfR: "wf ?R" by (intro wf_inv_image wf_mult)
  show ?thesis using assms(3)
  proof (induction s rule: wf_induct_rule [OF wfR])
    case (1 s)
    show ?case
    proof (cases "xs_stack s = []")
      case True
      then have "run_loop cf 0 s \<noteq> Continue s'" for s' by simp
      then show ?thesis by blast
    next
      case False
      show ?thesis
      proof (cases "engine_iteration cf s")
        case (Continue t)
        from iteration_work [OF assms(1) "1.prems" Continue] "1.IH" [of t] obtain k where
          "\<And>s'. run_loop cf k t \<noteq> Continue s'" by auto
        then have "run_loop cf (Suc k) s \<noteq> Continue s'" for s' using False Continue by simp
        then show ?thesis by blast
      next
        case (Stop t)
        then have "run_loop cf 1 s \<noteq> Continue s'" for s' using False by simp
        then show ?thesis by blast
      next
        case (Crash x)
        then have "run_loop cf 1 s \<noteq> Continue s'" for s' using False by simp
        then show ?thesis by blast
      qed
    qed
  qed
qed

end
