(* ===== verification/Execute_Properties.thy ===== *)
theory Execute_Properties
  imports Execution_Ends Execution_Indices Samples
begin

text \<open>
  The properties of the engine: how nodes with several inputs wait, the order of the stack, the
  execution loop, retries and outputs with errors. The sample workflow has a trigger T that feeds A
  and B, which feed the two inputs of the merge node M.
\<close>

definition merge_workflow :: "string option \<Rightarrow> workflow" where
  "merge_workflow order = setConnections
     [(''T'', [(''main'', [Some [sample_target ''A'' ''main'' 0, sample_target ''B'' ''main'' 0]])]),
      (''A'', [(''main'', [Some [sample_target ''M'' ''main'' 0]])]),
      (''B'', [(''main'', [Some [sample_target ''M'' ''main'' 1]])])]
     (setNodes [sampleT, sampleA\<lparr>node_position := (100, 200)\<rparr>, sampleB\<lparr>node_position := (100, 0)\<rparr>, sampleM]
       \<lparr>wf_nodes = [], wf_connectionsBySourceNode = [], wf_connectionsByDestinationNode = [],
        wf_nodeTypes = sample_types, wf_executionOrder = order, wf_pinData = None\<rparr>)"

definition idle :: exec_state where
  "idle = \<lparr>xs_stack = [], xs_waiting = [], xs_waitingSource = [], xs_runData = []\<rparr>"

definition some_items :: node_data where
  "some_items = [Some [empty_item]]"

definition merge_input :: "nat \<Rightarrow> iconnection" where
  "merge_input i = sample_target ''M'' ''main'' i"

text \<open>A has delivered the first input of M.\<close>

definition half_merged :: exec_state where
  "half_merged = (case addNodeToBeExecuted (merge_workflow (Some ''v1'')) (merge_input 0) 0 ''A'' (Some some_items) 0 None None idle of
     Inr s \<Rightarrow> s | Inl e \<Rightarrow> idle)"

lemma merge_workflow_facts:
  "workflow_wf (merge_workflow order)" "main_typed (merge_workflow order)"
  "isLegacyExecutionOrder (merge_workflow order) \<longleftrightarrow> order \<noteq> Some ''v1''"
proof -
  show "workflow_wf (merge_workflow order)" unfolding merge_workflow_def by (rule workflow_wf_set) code_simp
  show "main_typed (merge_workflow order)"
    by (auto simp: main_typed_def merge_workflow_def setConnections_def setNodes_def main_connections_def get_or_def sample_target_def)
  show "isLegacyExecutionOrder (merge_workflow order) \<longleftrightarrow> order \<noteq> Some ''v1''"
    by (simp add: isLegacyExecutionOrder_def merge_workflow_def setConnections_def setNodes_def)
qed

section \<open>Nodes with several inputs\<close>

text \<open>C19: One call of addNodeToBeExecuted, in either execution order, keeps every waiting run
  waiting: its inputs are one slot per input of the node, without holes, and at least one of them
  has no data yet; the sources are kept for the same runs.\<close>

theorem waiting_runs_stay_incomplete:
  assumes "workflow_wf w" and "main_typed w" and "(i, c) \<in> set (main_connections w nm)"
    and "arr_get outs i = Some (Some items)" and "getNode w (conn_node c) = Some n" and "waiting_ok w s"
    and "addNodeToBeExecuted w c i nm (Some outs) r newRun meta s = Inr s'"
  shows "waiting_ok w s'"
proof -
  have "conn_index c < length (main_inputs_of w (conn_node c))"
    using inputs_listed_wf [OF assms(1,2)] assms(3) main_connections_source [OF assms(3)] by (fastforce simp: inputs_listed_def)
  from add_keeps_waiting_ok [OF assms(6) this assms(4,5) getNode_name [OF assms(1,5)] assms(7)] show ?thesis .
qed

theorem waiting_runs_witness: "waiting_ok (merge_workflow (Some ''v1'')) half_merged"
proof (rule waiting_runs_stay_incomplete)
  show "workflow_wf (merge_workflow (Some ''v1''))" "main_typed (merge_workflow (Some ''v1''))"
    by (rule merge_workflow_facts)+
  show "(0, merge_input 0) \<in> set (main_connections (merge_workflow (Some ''v1'')) ''A'')" by code_simp
  show "arr_get some_items 0 = Some (Some [empty_item])" by code_simp
  show "getNode (merge_workflow (Some ''v1'')) (conn_node (merge_input 0)) = Some sampleM" by code_simp
  show "waiting_ok (merge_workflow (Some ''v1'')) idle" by code_simp
  show "addNodeToBeExecuted (merge_workflow (Some ''v1'')) (merge_input 0) 0 ''A'' (Some some_items) 0 None None idle
      = Inr half_merged" by code_simp
qed

text \<open>C10: In the order v1, when data arrives for one input of a node with several, it goes to the
  first waiting run that still lacks it (a new run otherwise). If an input is still missing nothing
  is scheduled; if it was the last one, the run leaves the waiting ones and goes on top of the stack
  with the data of all its inputs. No other waiting run changes, and the call raises no error when
  the targets of the parent are listed by destination and no stored output is null.\<close>

theorem several_inputs_are_awaited:
  assumes ok: "waiting_ok w s" and i: "conn_index c < length (main_inputs_of w (conn_node c))"
    and several: "1 < length (main_inputs_of w (conn_node c))"
    and items: "arr_get outs outputIndex = Some (Some items)"
    and n: "getNode w (conn_node c) = Some n" "node_name n = conn_node c"
    and v1: "\<not> isLegacyExecutionOrder w" and no_error: "targets_listed w parent" "outputs_present (xs_runData s)"
  shows "\<exists>s'. addNodeToBeExecuted w c outputIndex parent (Some outs) r newRun meta s = Inr s'
    \<and> (let run = target_run s (conn_node c) (conn_index c);
           slots = (target_slots w s (conn_node c) (conn_index c))[conn_index c := Some (Some items)]
       in (\<forall>nm' run'. waiting_slots (xs_waiting s') nm' run' =
             (if nm' = conn_node c \<and> run' = run then (if Some None \<in> set slots then Some slots else None)
              else waiting_slots (xs_waiting s) nm' run'))
          \<and> (if Some None \<in> set slots then xs_stack s' = xs_stack s
             else \<exists>e. xs_stack s' = e # xs_stack s \<and> ex_node e = n \<and> map_of (ex_data e) Main_type = Some (collapse slots)))"
proof -
  from add_with_inputs_total [OF ok i items n(1) v1 no_error] obtain s' where
    s': "addNodeToBeExecuted w c outputIndex parent (Some outs) r newRun meta s = Inr s'" by blast
  from add_with_inputs_views(2,3) [OF ok i several items n v1 s'] s' show ?thesis unfolding Let_def by blast
qed

theorem several_inputs_witness:
  "\<exists>s'. addNodeToBeExecuted (merge_workflow (Some ''v1'')) (merge_input 1) 0 ''B'' (Some some_items) 0 None None half_merged = Inr s'
    \<and> (let run = target_run half_merged ''M'' 1;
           slots = (target_slots (merge_workflow (Some ''v1'')) half_merged ''M'' 1)[1 := Some (Some [empty_item])]
       in (\<forall>nm' run'. waiting_slots (xs_waiting s') nm' run' =
             (if nm' = ''M'' \<and> run' = run then (if Some None \<in> set slots then Some slots else None)
              else waiting_slots (xs_waiting half_merged) nm' run'))
          \<and> (if Some None \<in> set slots then xs_stack s' = xs_stack half_merged
             else \<exists>e. xs_stack s' = e # xs_stack half_merged \<and> ex_node e = sampleM \<and> map_of (ex_data e) Main_type = Some (collapse slots)))"
proof -
  have c: "conn_node (merge_input 1) = ''M''" "conn_index (merge_input 1) = 1"
    by (simp_all add: merge_input_def sample_target_def)
  have facts: "waiting_ok (merge_workflow (Some ''v1'')) half_merged"
    "1 < length (main_inputs_of (merge_workflow (Some ''v1'')) ''M'')" "arr_get some_items 0 = Some (Some [empty_item])"
    "getNode (merge_workflow (Some ''v1'')) ''M'' = Some sampleM" "node_name sampleM = ''M''"
    "\<not> isLegacyExecutionOrder (merge_workflow (Some ''v1''))" "targets_listed (merge_workflow (Some ''v1'')) ''B''"
    "outputs_present (xs_runData half_merged)"
    by code_simp+
  show ?thesis
    using several_inputs_are_awaited [OF facts(1) _ _ facts(3) _ _ facts(6-8), of "merge_input 1", unfolded c, OF facts(2,2,4,5)] .
qed

text \<open>Inputs delivered to M one after the other.\<close>

definition deliver :: "(nat \<times> exec_item list) list \<Rightarrow> exec_state \<Rightarrow> exec_state result" where
  "deliver = for_each (\<lambda>(i, items). addNodeToBeExecuted (merge_workflow (Some ''v1'')) (merge_input i) 0
     (if i = 0 then ''A'' else ''B'') (Some [Some items]) 0 None None)"

lemma merge_node_facts:
  "length (main_inputs_of (merge_workflow (Some ''v1'')) ''M'') = 2"
  "getNode (merge_workflow (Some ''v1'')) ''M'' = Some sampleM"
  "targets_listed (merge_workflow (Some ''v1'')) ''A''" "targets_listed (merge_workflow (Some ''v1'')) ''B''"
  "conn_node (merge_input i) = ''M''" "conn_index (merge_input i) = i" "node_name sampleM = ''M''"
  "\<not> isLegacyExecutionOrder (merge_workflow (Some ''v1''))"
  by (code_simp | simp add: merge_input_def sample_target_def)+

text \<open>C22: Waiting runs are numbered by how many there are, so a run can be lost: when M got its
  first input twice (d1, then d2) before the second one (e1), the run with d1 and e1 is scheduled
  and leaves run 1, with d2, waiting; the next first input (d3) is given number 1 as well and
  takes the place of d2, which is neither on the stack nor waiting any more.\<close>

theorem second_round_is_overwritten:
  "\<exists>s e. deliver [(0, d1), (0, d2), (1, e1), (0, d3)] idle = Inr s \<and> xs_stack s = [e]
     \<and> ex_data e = [(''main'', [Some d1, Some e1])]
     \<and> xs_waiting s = [(''M'', [(1, [(''main'', [Some (Some d3), Some None])])])]"
proof -
  have "case deliver [(0, d1), (0, d2), (1, e1), (0, d3)] idle of
      Inr s \<Rightarrow> map ex_data (xs_stack s) = [[(''main'', [Some d1, Some e1])]]
        \<and> xs_waiting s = [(''M'', [(1, [(''main'', [Some (Some d3), Some None])])])]
    | Inl _ \<Rightarrow> False"
    by code_simp
  then show ?thesis by (auto split: sum.splits)
qed

section \<open>The loop ends, or does not\<close>


definition start_entry :: "inode \<Rightarrow> execute_data" where
  "start_entry n = execute_entry n [Some [empty_item]] None"

definition start_engine :: "execute_data list \<Rightarrow> engine" where
  "start_engine es = \<lparr>xs_stack = es, xs_waiting = [], xs_waitingSource = [], xs_runData = [], en_pinData = [],
     en_lastNode = None, en_waitTill = False, en_error = None, en_index = 0, en_calls = 0, en_lastTry = []\<rparr>"

text \<open>Every node passes on one empty item, or does what \<open>run\<close> says.\<close>

definition config :: "workflow \<Rightarrow> (nat \<Rightarrow> run_outcome) \<Rightarrow> engine_config" where
  "config w run = \<lparr>cf_workflow = w, cf_run = run, cf_pairs = (\<lambda>_ _ _ _. Inr None), cf_outputs = (\<lambda>_. 1),
     cf_evaluate = (\<lambda>_ _. None), cf_destination = None, cf_filter = None, cf_stopped = (\<lambda>_. False)\<rparr>"



text \<open>An entry whose inputs are not there, and which the loop puts back.\<close>

definition starving :: "workflow \<Rightarrow> execute_data \<Rightarrow> bool" where
  "starving w e \<longleftrightarrow> inputs_ready w e [0..<length (main_inputs_of w (node_name (ex_node e)))] = Inr False"

lemma track_items_idle: "inputs_ready w (track_items e) is = inputs_ready w e is"
proof -
  have "map_of (map (\<lambda>(ty, inputs). (ty, map (\<lambda>(i, input). track_input e i input) (enumerate 0 inputs))) cs) Main_type
      = map_option (\<lambda>inputs. map (\<lambda>(i, input). track_input e i input) (enumerate 0 inputs)) (map_of cs Main_type)" for cs
    by (induction cs) auto
  then have main: "map_of (ex_data (track_items e)) Main_type
      = map_option (\<lambda>inputs. map (\<lambda>(i, input). track_input e i input) (enumerate 0 inputs)) (map_of (ex_data e) Main_type)"
    by (simp add: track_items_def)
  have slot: "arr_get (map (\<lambda>(i, input). track_input e i input) (enumerate 0 inputs)) j = Some None
      \<longleftrightarrow> arr_get inputs j = Some None" for inputs j
    by (auto simp: arr_get_def nth_enumerate_eq track_input_def)
  show ?thesis
    by (induction "is") (auto simp: main slot res_bind_def split: option.splits sum.splits)
qed

lemma starving_tracked: "starving w (track_items e) = starving w e"
  by (simp add: starving_def track_items_idle)

definition try_of :: "engine \<Rightarrow> execute_data \<Rightarrow> string" where
  "try_of s e = execution_try (node_name (ex_node e)) (run_index_of (xs_runData s) e)"

lemma try_of_tracked: "try_of s (track_items e) = try_of s e"
proof -
  have "ex_runIndex (track_items e) = ex_runIndex e" by (simp add: track_items_def)
  then show ?thesis by (cases "ex_runIndex e") (simp_all add: try_of_def run_index_of_def)
qed

lemma starving_iteration:
  assumes "xs_stack s = e # rest" and "starving (cf_workflow cf) e" and "try_of s e \<noteq> en_lastTry s"
    and "\<And>k. \<not> cf_stopped cf k" and "cf_filter cf = None"
  shows "\<exists>s'. engine_iteration cf s = Continue s' \<and> xs_stack s' = rest @ [track_items e] \<and> xs_runData s' = xs_runData s
    \<and> en_lastTry s' = try_of s e"
proof -
  have "inputs_ready (cf_workflow cf) (track_items e)
      [0..<length (main_inputs_of (cf_workflow cf) (node_name (ex_node (track_items e))))] = Inr False"
    using assms(2) by (simp add: starving_def track_items_idle)
  moreover have "execution_try (node_name (ex_node e)) (run_index_of (xs_runData s) (track_items e)) = try_of s e"
    using try_of_tracked [of s e] by (simp add: try_of_def)
  ultimately show ?thesis using assms
    by (simp add: engine_iteration_def Let_def ensureInputData_def lift_state_def)
qed

text \<open>C23: The loop stops when an entry comes up twice in a row without its inputs, but two entries
  that take turns are not noticed: with two different starving entries on the stack and nothing else
  to do, the loop goes on forever, for any number of iterations, and no node ever runs.\<close>

theorem starving_entries_go_on_forever:
  assumes "xs_stack s = [a, b]" and "starving (cf_workflow cf) a" and "starving (cf_workflow cf) b"
    and "try_of s a \<noteq> try_of s b" and "en_lastTry s \<noteq> try_of s a"
    and "\<And>k. \<not> cf_stopped cf k" and "cf_filter cf = None"
  shows "\<exists>s'. run_loop cf k s = Continue s' \<and> length (xs_stack s') = 2 \<and> xs_runData s' = xs_runData s"
  using assms(1-5)
proof (induction k arbitrary: s a b)
  case 0
  then show ?case by simp
next
  case (Suc k)
  from starving_iteration [OF Suc.prems(1,2) _ assms(6,7)] Suc.prems(5) obtain t where
    t: "engine_iteration cf s = Continue t" "xs_stack t = [b, track_items a]" "xs_runData t = xs_runData s"
      "en_lastTry t = try_of s a" by auto
  have tr: "try_of t = try_of s" using t(3) by (simp add: try_of_def fun_eq_iff)
  from Suc.IH [OF t(2)] Suc.prems(2-4) t(1,3,4) tr Suc.prems(1) show ?case
    by (simp add: starving_tracked try_of_tracked)
qed

theorem starving_entries_witness:
  "\<exists>s'. run_loop (config (merge_workflow None) (\<lambda>k. Returned None False)) 1000
      (start_engine [execute_entry sampleA [None] None, execute_entry sampleB [None] None]) = Continue s'
    \<and> length (xs_stack s') = 2
    \<and> xs_runData s' = xs_runData (start_engine [execute_entry sampleA [None] None, execute_entry sampleB [None] None])"
proof (rule starving_entries_go_on_forever [where a = "execute_entry sampleA [None] None" and b = "execute_entry sampleB [None] None"])
  let ?cf = "config (merge_workflow None) (\<lambda>k. Returned None False)"
  show "starving (cf_workflow ?cf) (execute_entry sampleA [None] None)"
    "starving (cf_workflow ?cf) (execute_entry sampleB [None] None)" by code_simp+
qed (code_simp | simp add: start_engine_def config_def try_of_def execution_try_def)+

section \<open>The order of the stack\<close>

text \<open>\<open>above a b\<close>: node a is not below b, and not right of it at the same height.\<close>

definition above :: "inode \<Rightarrow> inode \<Rightarrow> bool" where
  "above a b \<longleftrightarrow> snd (node_position a) < snd (node_position b)
     \<or> snd (node_position a) = snd (node_position b) \<and> fst (node_position a) \<le> fst (node_position b)"

definition below_pos :: "workflow \<Rightarrow> nat \<times> iconnection \<Rightarrow> nat \<times> iconnection \<Rightarrow> bool" where
  "below_pos w a b \<longleftrightarrow> snd (target_position w b) < snd (target_position w a)
     \<or> snd (target_position w a) = snd (target_position w b) \<and> fst (target_position w b) \<le> fst (target_position w a)"

lemma sorted_targets: "sorted_wrt (below_pos w) (js_sort (bottom_right_first w) edges)"
  by (rule sorted_js_sort)
    (auto simp: bottom_right_first_def below_pos_def transp_def split_beta Let_def split: if_splits)

definition single_target :: "workflow \<Rightarrow> nat \<times> iconnection \<Rightarrow> bool" where
  "single_target w edge \<longleftrightarrow> length (main_inputs_of w (conn_node (snd edge))) \<le> 1
     \<and> getNode w (conn_node (snd edge)) \<noteq> None"

lemma add_single_targets:
  assumes v1: "\<not> isLegacyExecutionOrder w" and "list_all (single_target w) edges"
  shows "\<exists>new. for_each (\<lambda>(i, c) s. addNodeToBeExecuted w c i nm (Some data) r None None s) edges s
      = Inr (s\<lparr>xs_stack := rev new @ xs_stack s\<rparr>) \<and> map ex_node new = map (\<lambda>e. the (getNode w (conn_node (snd e)))) edges"
  using assms(2)
proof (induction edges arbitrary: s)
  case Nil
  then show ?case by simp
next
  case (Cons edge edges)
  obtain i c where e: "edge = (i, c)" by (cases edge)
  from Cons.prems e obtain n where n: "getNode w (conn_node c) = Some n" "\<not> 1 < length (main_inputs_of w (conn_node c))"
    by (auto simp: single_target_def)
  then obtain entry where add: "addNodeToBeExecuted w c i nm (Some data) r None None s = Inr (s\<lparr>xs_stack := entry # xs_stack s\<rparr>)"
    "ex_node entry = n" using v1 by (auto simp: addNodeToBeExecuted_def Let_def enqueue_entry_def)
  from Cons.IH [of "s\<lparr>xs_stack := entry # xs_stack s\<rparr>"] Cons.prems obtain new where
    "for_each (\<lambda>(i, c) s. addNodeToBeExecuted w c i nm (Some data) r None None s) edges (s\<lparr>xs_stack := entry # xs_stack s\<rparr>)
      = Inr (s\<lparr>xs_stack := rev new @ entry # xs_stack s\<rparr>)" "map ex_node new = map (\<lambda>e. the (getNode w (conn_node (snd e)))) edges"
    by auto
  then show ?case using e n add by (intro exI [of _ "entry # new"]) simp
qed

text \<open>In the order v1, when a node has run and all the nodes it feeds have a single input, each of
  them gets one entry on top of the stack, in the order of their places on the canvas: from top to
  bottom and, at the same height, from left to right. The waiting nodes and the rest of the stack stay.\<close>

theorem top_left_nodes_run_first:
  assumes "\<not> isLegacyExecutionOrder w"
    and "\<forall>(i, c) \<in> set (main_connections w nm). map_of (wf_nodes w) (conn_node c) \<noteq> None"
    and "list_all (single_target w) (filter (feeds w data) (main_connections w nm))"
  shows "\<exists>new. distribute_outputs w nm data r s = Inr (s\<lparr>xs_stack := new @ xs_stack s\<rparr>)
    \<and> mset (map ex_node new) = mset (map (\<lambda>e. the (getNode w (conn_node (snd e)))) (filter (feeds w data) (main_connections w nm)))
    \<and> sorted_wrt above (map ex_node new)"
proof -
  let ?edges = "js_sort (bottom_right_first w) (filter (feeds w data) (main_connections w nm))"
  let ?node = "\<lambda>e. the (getNode w (conn_node (snd e)))"
  have ok: "list_all (single_target w) ?edges" using assms(3) by (simp add: list_all_iff)
  from add_single_targets [OF assms(1) ok] obtain new where
    new: "for_each (\<lambda>(i, c) s. addNodeToBeExecuted w c i nm (Some data) r None None s) ?edges s
      = Inr (s\<lparr>xs_stack := rev new @ xs_stack s\<rparr>)" "map ex_node new = map ?node ?edges" by blast
  have "distribute_outputs w nm data r s = Inr (s\<lparr>xs_stack := rev new @ xs_stack s\<rparr>)"
    using new(1) assms(1,2) by (simp add: distribute_outputs_def Let_def list_all_iff)
  moreover have "mset (map ex_node (rev new)) = mset (map ?node (filter (feeds w data) (main_connections w nm)))"
    using new(2) by (simp add: rev_map [symmetric])
  moreover have "sorted_wrt above (map ex_node (rev new))"
  proof -
    have pos: "target_position w e = node_position (?node e)" if "e \<in> set ?edges" for e
    proof -
      from ok that have "single_target w e" unfolding list_all_iff by blast
      then show ?thesis by (auto simp: single_target_def target_position_def)
    qed
    have "sorted_wrt (\<lambda>a b. above (?node b) (?node a)) ?edges"
      by (rule sorted_wrt_mono_rel [OF _ sorted_targets]) (auto simp: below_pos_def above_def pos)
    then show ?thesis unfolding rev_map [symmetric] new(2) by (simp add: sorted_wrt_rev sorted_wrt_map)
  qed
  ultimately show ?thesis by blast
qed

theorem top_left_witness:
  "\<exists>new. distribute_outputs (merge_workflow (Some ''v1'')) ''T'' some_items 0 idle = Inr (idle\<lparr>xs_stack := new @ xs_stack idle\<rparr>)
    \<and> mset (map ex_node new) = mset (map (\<lambda>e. the (getNode (merge_workflow (Some ''v1'')) (conn_node (snd e))))
        (filter (feeds (merge_workflow (Some ''v1'')) some_items) (main_connections (merge_workflow (Some ''v1'')) ''T'')))
    \<and> sorted_wrt above (map ex_node new)"
  by (rule top_left_nodes_run_first) (code_simp | simp add: merge_workflow_facts)+

section \<open>Retries\<close>

lemma try_node_calls:
  "k < fst (try_node run finish again left k waits threw)
   \<and> fst (try_node run finish again left k waits threw) \<le> k + (if again \<and> left \<noteq> 0 then 2 * left else 2 * left + 1)"
proof (induction run finish again left k waits threw rule: try_node.induct)
  case (1 run finish again left k waits threw)
  show ?case
  proof (cases "run k")
    case (Thrown err w)
    then show ?thesis using "1.IH"(3) [OF Thrown] by (subst (1 2) try_node.simps) auto
  next
    case (Returned data w)
    show ?thesis
    proof (cases "failed_data data \<and> (if again then left - 1 else left) \<noteq> 0")
      case True
      then show ?thesis using "1.IH"(1) [OF Returned refl True] Returned
        by (subst (1 2) try_node.simps) (auto simp: Let_def split: if_splits)
    next
      case False
      then show ?thesis using "1.IH"(2) [OF Returned refl False] Returned
        by (subst (1 2) try_node.simps) (auto simp: Let_def split: if_splits sum.splits)
    qed
  qed
qed

text \<open>C21: A node is called at least once unless it is pinned, and never more than nine times: with
  \<open>m\<close> tries, at most \<open>2 * m - 1\<close> times, and \<open>m\<close> is at most five.\<close>

theorem calls_of_a_node_are_bounded:
  "k + (if pinned = None then 1 else 0) \<le> fst (run_tries lookup outputs pinned run e k)
   \<and> fst (run_tries lookup outputs pinned run e k) \<le> k + (2 * max_tries (ex_node e) (ex_metadata e) - 1)
   \<and> 1 \<le> max_tries (ex_node e) (ex_metadata e) \<and> max_tries (ex_node e) (ex_metadata e) \<le> 5"
proof -
  let ?m = "max_tries (ex_node e) (ex_metadata e)"
  have m: "1 \<le> ?m" "?m \<le> 5" by (auto simp: max_tries_def split: option.splits nat.splits)
  show ?thesis
  proof (cases pinned)
    case None
    moreover from m obtain l where "?m = Suc l" by (cases ?m) auto
    ultimately show ?thesis
      using try_node_calls [of k run "finish_data lookup outputs False e" False "?m - 1" False False] m
      by (simp add: run_tries_def)
  next
    case (Some items)
    moreover from m obtain l where "?m = Suc l" by (cases ?m) auto
    ultimately show ?thesis using m by (simp add: run_tries_def split: sum.splits)
  qed
qed

text \<open>A call that throws, and data that reports an error.\<close>

definition error_data :: "node_data option" where
  "error_data = Some [Some [empty_item\<lparr>item_json := [(''error'', JStr ''failed'')]\<rparr>]]"

definition flaky :: "nat \<Rightarrow> run_outcome" where
  "flaky k = (if k = 0 then Returned error_data False else if k = 1 then Thrown JNull False else Returned (Some some_items) False)"

text \<open>The number of tries of a node does not bound its calls: with two tries, a node that first
  returns data with an error, then throws, is called a third time, since the loop that repeats a
  call that returned an error does not count a repetition that throws.\<close>

theorem two_tries_may_be_three_calls:
  "max_tries (sampleA\<lparr>node_retryOnFail := Some True, node_maxTries := Some 2\<rparr>) None = 2
   \<and> fst (run_tries (\<lambda>_ _ _. Inr None) 1 None flaky
       (start_entry (sampleA\<lparr>node_retryOnFail := Some True, node_maxTries := Some 2\<rparr>)) 0) = 3"
  unfolding start_entry_def execute_entry_def run_tries_def
  by (simp add: max_tries_def try_node.simps flaky_def error_data_def failed_data_def first_item_def empty_item_def
      finish_data_def assignPairedItems_def some_items_def always_output_def main_of_def sampleA_def sample_node_def arr_get_def)

lemma try_node_throws:
  assumes "\<And>i. i < j \<Longrightarrow> \<exists>err w. run (k + i) = Thrown err w" and "j \<le> left"
  shows "\<exists>waits' threw'. try_node run finish False left k waits threw = try_node run finish False (left - j) (k + j) waits' threw'"
  using assms
proof (induction j)
  case (Suc j)
  then obtain waits' threw' where
    IH: "try_node run finish False left k waits threw = try_node run finish False (left - j) (k + j) waits' threw'" by force
  from Suc.prems(1) [of j] obtain err w where "run (k + j) = Thrown err w" by auto
  then have "try_node run finish False (left - j) (k + j) waits' threw'
      = try_node run finish False (left - Suc j) (k + Suc j) (waits' \<or> w) True"
    using Suc.prems(2) by (subst try_node.simps) simp
  with IH show ?case by metis
qed auto

text \<open>Calls that throw are repeated: if \<open>j\<close> calls throw, with \<open>j\<close> below the number of tries, and
  the next one returns data that reports no error and can be finished, then that data is the result,
  after exactly \<open>j + 1\<close> calls.\<close>

theorem throwing_calls_are_repeated:
  assumes "\<And>i. i < j \<Longrightarrow> \<exists>err w. run (k + i) = Thrown err w" and "j < max_tries (ex_node e) (ex_metadata e)"
    and "run (k + j) = Returned data w" and "\<not> failed_data data" and "finish_data lookup outputs False e data = Inr x"
  shows "\<exists>waits threw. run_tries lookup outputs None run e k = (k + j + 1, waits, threw, Inr x)"
proof -
  let ?m = "max_tries (ex_node e) (ex_metadata e)"
  have "j \<le> ?m - 1" using assms(2) by simp
  from try_node_throws [of j run k, OF assms(1) this, of "finish_data lookup outputs False e" False False]
  obtain waits threw where "run_tries lookup outputs None run e k
      = try_node run (finish_data lookup outputs False e) False (?m - 1 - j) (k + j) waits threw"
    by (auto simp: run_tries_def)
  moreover have "try_node run (finish_data lookup outputs False e) False (?m - 1 - j) (k + j) waits threw
      = (k + j + 1, waits \<or> w, threw, Inr x)"
    using assms(3-5) by (subst try_node.simps) simp
  ultimately have "run_tries lookup outputs None run e k = (k + j + 1, waits \<or> w, threw, Inr x)" by simp
  then show ?thesis by blast
qed

theorem throwing_calls_witness:
  "\<exists>waits threw. run_tries (\<lambda>_ _ _. Inr None) 1 None (\<lambda>k. if k = 5 then Thrown JNull False else Returned (Some some_items) False)
     (start_entry (sampleA\<lparr>node_retryOnFail := Some True\<rparr>)) 5
   = (5 + 1 + 1, waits, threw, Inr (Some [Some [pair_at 0 empty_item]], Some [Some [pair_at 0 empty_item]]))"
  by (rule throwing_calls_are_repeated [where data = "Some some_items" and w = False]) (simp | code_simp)+

section \<open>Which waiting run goes first\<close>

lemma show_digit: "d < 10 \<Longrightarrow> show_nat d = [char_of (48 + d)]"
  by (simp add: show_nat.simps)

lemma str_less_digits:
  assumes "a < 10" and "b < 10"
  shows "str_less (show_nat a) (show_nat b) \<longleftrightarrow> a < b"
  using assms of_char_digit [of a] of_char_digit [of b] by (simp add: show_digit)

lemma fold_earliest:
  assumes "a < 10" and "\<forall>b \<in> set ks. b < 10"
  shows "fold (\<lambda>a b. if str_less (show_nat a) (show_nat b) then a else b) ks a = Min (insert a (set ks))"
  using assms
proof (induction ks arbitrary: a)
  case (Cons k ks)
  have "fold (\<lambda>a b. if str_less (show_nat a) (show_nat b) then a else b) ks (min k a) = Min (insert (min k a) (set ks))"
    by (rule Cons.IH) (use Cons.prems in auto)
  moreover have "(if str_less (show_nat k) (show_nat a) then k else a) = min k a"
    using Cons.prems str_less_digits [of k a] by (simp add: min_def)
  moreover have "Min (insert (min k a) (set ks)) = Min (insert a (insert k (set ks)))"
    by (cases "set ks = {}") (simp_all add: Min_insert min.commute min.assoc)
  ultimately show ?case by simp
qed simp

text \<open>The run of a waiting node that is tried first is the earliest one as long as the runs are
  numbered below ten.\<close>

theorem earliest_run_goes_first:
  assumes "runs \<noteq> []" and "\<forall>(k, cs) \<in> set runs. k < 10"
  shows "first_run runs = Some (Min (fst ` set runs))"
proof -
  obtain k ks where ks: "map fst runs = k # ks" using assms(1) by (cases runs) auto
  have "\<forall>b \<in> set (map fst runs). b < 10" using assms(2) by auto
  then have "first_run runs = Some (Min (set (map fst runs)))"
    using fold_earliest [of k ks] by (simp add: first_run_def ks)
  then show ?thesis by simp
qed

theorem earliest_run_witness: "first_run [(4, ()), (7, ()), (9, ())] = Some (Min (fst ` set [(4, ()), (7, ()), (9, ())]))"
  by (rule earliest_run_goes_first) simp_all

text \<open>The numbers of the runs are sorted as strings, so from ten runs on the one tried first is
  not the earliest: of the runs 2 and 10, run 10 goes first.\<close>

theorem tenth_run_overtakes: "first_run [(2, x), (10, y)] = Some 10"
proof -
  have "\<not> str_less (show_nat 2) (show_nat 10) \<and> str_less (show_nat 10) (show_nat 2)"
    by (simp add: show_nat.simps of_char_of)
  then show ?thesis by (simp add: first_run_def)
qed

section \<open>Recorded tasks\<close>



definition continuing :: inode where
  "continuing = sampleA\<lparr>node_onError := Some ''continueRegularOutput''\<rparr>"

definition line_workflow :: "inode list \<Rightarrow> workflow" where
  "line_workflow ns = setConnections [(''A'', [(''main'', [Some (if length ns = 1 then [] else [sample_target ''B'' ''main'' 0])])])]
     (setNodes ns \<lparr>wf_nodes = [], wf_connectionsBySourceNode = [], wf_connectionsByDestinationNode = [],
        wf_nodeTypes = sample_types, wf_executionOrder = Some ''v1'', wf_pinData = None\<rparr>)"

definition first_throws :: "nat \<Rightarrow> run_outcome" where
  "first_throws k = (if k = 0 then Thrown (JObj [(''message'', JStr ''failed'')]) False else Returned (Some some_items) False)"

definition outcome_of :: "loop_result \<Rightarrow> string \<times> (string \<times> string option list) list" where
  "outcome_of r = (case r of
     Stop s \<Rightarrow> (final_status (en_error s) (en_waitTill s), map (\<lambda>(nm, runs). (nm, map td_executionStatus runs)) (xs_runData s))
   | _ \<Rightarrow> ([], []))"

text \<open>The status of an execution depends on its last node: a node that is configured to continue
  on errors and throws leaves the error in place, so the execution ends with status error when
  nothing runs after it, and with success when another node does, with the same data passed on.\<close>

theorem last_node_decides_the_status:
  "outcome_of (run_loop (config (line_workflow [continuing]) first_throws) 9 (start_engine [start_entry continuing]))
     = (''error'', [(''A'', [Some ''error''])])
   \<and> outcome_of (run_loop (config (line_workflow [continuing, sampleB]) first_throws) 9 (start_engine [start_entry continuing]))
     = (''success'', [(''A'', [Some ''error'']), (''B'', [Some ''success''])])"
  by code_simp

section \<open>The error output\<close>

text \<open>C20: For a node with an error output, the items of every other output are sorted: those without an
  error stay, in order, and those with one move to the last output, in the order of the outputs,
  each completed with the input item it came from where that can be found. No item is lost.\<close>

theorem error_output_takes_the_failures:
  assumes "handleNodeErrorOutput lookup outputs e data = Inr data'" and "1 \<le> outputs"
  shows "map (arr_get data') [0..<outputs - 1]
      = map (\<lambda>i. Some (Some (filter (\<lambda>x. \<not> failed x) (items_at data i)))) [0..<outputs - 1]
    \<and> (\<exists>errors. map_result (error_item lookup e) (failed_items data (outputs - 1)) = Inr errors
         \<and> arr_get data' (outputs - 1) = Some (Some errors))"
  using handleNodeErrorOutput_result [OF assms] by simp

definition failed_item :: exec_item where
  "failed_item = empty_item\<lparr>item_json := [(''error'', JStr ''failed'')]\<rparr>"

theorem error_output_witness:
  "map (arr_get [Some [empty_item], Some [failed_item]]) [0..<2 - 1]
      = map (\<lambda>i. Some (Some (filter (\<lambda>x. \<not> failed x) (items_at [Some [empty_item, failed_item]] i)))) [0..<2 - 1]
    \<and> (\<exists>errors. map_result (error_item (\<lambda>_ _ _. Inr None) (start_entry sampleA)) (failed_items [Some [empty_item, failed_item]] (2 - 1))
           = Inr errors
         \<and> arr_get [Some [empty_item], Some [failed_item]] (2 - 1) = Some (Some errors))"
  by (rule error_output_takes_the_failures) code_simp+

end
