(* ===== verification/Workflow_Properties.thy ===== *)
theory Workflow_Properties
  imports Samples
begin

text \<open>
  The properties of the raw connection object, of the class \<^verbatim>\<open>Workflow\<close> and of the choice of the
  trigger of a partial execution, each with a witness on the sample workflow where it has a
  hypothesis.
\<close>

text \<open>
  Inverting a connection object keeps every connection, seen from its other end, with its
  multiplicity: the entries of the result are the flipped entries of the argument, whatever the
  buckets, indices and types.
\<close>

theorem inversion_keeps_connections:
  "mset (conn_entries (mapConnectionsByDestination cs)) = image_mset flip_entry (mset (conn_entries cs))"
  by (rule mset_mapConnectionsByDestination)

text \<open>
  C36: With unlimited depth the memoised search for connected nodes always returns, lists no node
  twice, and lists exactly the nodes other than the start that one or more connections of the
  requested types lead to. The memo, whose entries depend on the path, does not change the result.
\<close>

theorem connected_nodes_are_the_reachable_ones:
  "\<exists>ns. getConnectedNodes cs nm flt (-1) = Inr ns \<and> distinct ns
     \<and> set ns = {x. (nm, x) \<in> (hop_rel cs flt)\<^sup>+ \<and> x \<noteq> nm}"
  by (rule getConnectedNodes_reachable)

text \<open>
  For any other depth too the search for child or parent nodes of a workflow ends with a
  list of names.
\<close>

theorem child_and_parent_search_returns:
  "(\<exists>cs. wf_getChildNodes w nm flt d = Inr cs) \<and> (\<exists>ps. wf_getParentNodes w nm flt d = Inr ps)"
  by (simp add: wf_getChildNodes_def wf_getParentNodes_def getChildNodes_def getParentNodes_def getConnectedNodes_total)

text \<open>
  The search for the highest parents returns for every workflow, cyclic ones included, and
  lists only enabled nodes of the workflow, each once, that are the node itself or lie above it on
  main connections.
\<close>

theorem highest_nodes_are_enabled_ancestors:
  "\<exists>ns. getHighestNode w nm idx = Inr ns \<and> distinct ns
     \<and> set ns \<subseteq> {x. enabled_in w x \<and> (nm, x) \<in> (main_rel (wf_connectionsByDestinationNode w))\<^sup>*}"
  using getHighestNode_enabled [of w nm idx] by blast

text \<open>
  C37: The breadth-first search over main connections returns each node other than the source
  that lies within the maximal depth exactly once, with its distance from the source as depth.
\<close>

theorem breadth_first_depths_are_distances:
  assumes "-1 \<le> m"
  shows "\<exists>ns. searchNodesBFS cs s m = Inr ns \<and> distinct (map cn_name ns)
    \<and> cn_name ` set ns = {x. x \<noteq> s \<and> (\<exists>k. within_depth m k \<and> x \<in> at_hops cs s k)}
    \<and> (\<forall>v \<in> set ns. cn_depth v = distance cs s (cn_name v))"
  using assms by (rule searchNodesBFS_correct)

theorem breadth_first_depths_witness:
  "map_sum id (map (\<lambda>v. (cn_name v, cn_depth v))) (searchNodesBFS sample_connections ''T'' (-1)) = Inr [(''A'', 1), (''B'', 2)]
   \<and> (\<exists>ns. searchNodesBFS sample_connections ''T'' (-1) = Inr ns \<and> distinct (map cn_name ns)
    \<and> cn_name ` set ns = {x. x \<noteq> ''T'' \<and> (\<exists>k. within_depth (-1) k \<and> x \<in> at_hops sample_connections ''T'' k)}
    \<and> (\<forall>v \<in> set ns. cn_depth v = distance sample_connections ''T'' (cn_name v)))"
proof
  show "map_sum id (map (\<lambda>v. (cn_name v, cn_depth v))) (searchNodesBFS sample_connections ''T'' (-1)) = Inr [(''A'', 1), (''B'', 2)]"
    by code_simp
qed (rule breadth_first_depths_are_distances, simp)

text \<open>
  The connection indexes between a node and an ancestor are found exactly when the ancestor
  is a node of the workflow and some path of connections of the type leads from it to the node;
  the indexes then are those of a stored connection from the ancestor into a node on such a path.
\<close>

theorem connection_indexes_found_iff_ancestor:
  "(case getNodeConnectionIndexes w nm p ty of
      None \<Rightarrow> \<not> (getNode w p \<noteq> None \<and> (nm, p) \<in> (hop_rel (wf_connectionsByDestinationNode w) (OneType ty))\<^sup>+)
    | Some r \<Rightarrow> getNode w p \<noteq> None \<and> (nm, p) \<in> (hop_rel (wf_connectionsByDestinationNode w) (OneType ty))\<^sup>+
        \<and> (\<exists>cur tys bs l. (nm, cur) \<in> (hop_rel (wf_connectionsByDestinationNode w) (OneType ty))\<^sup>*
            \<and> map_of (wf_connectionsByDestinationNode w) cur = Some tys \<and> map_of tys ty = Some bs \<and> Some l \<in> set bs
            \<and> nc_destinationIndex r < length l \<and> conn_node (l ! nc_destinationIndex r) = p
            \<and> conn_index (l ! nc_destinationIndex r) = nc_sourceIndex r))"
  using getNodeConnectionIndexes_iff [of w nm p ty] getNodeConnectionIndexes_Some [of w nm p ty]
  by (cases "getNodeConnectionIndexes w nm p ty") auto

text \<open>
  When all node types are known, choosing the start node of a whole workflow never raises.
  It gives an enabled node of the workflow, or nothing, and then no enabled trigger or poll node
  (other than the manual chat trigger) and no enabled node of a starting type exists.
\<close>

theorem start_node_of_a_workflow:
  assumes "workflow_wf w" and "known_types w"
  shows "\<exists>r. getStartNode w None = Inr r
    \<and> (case r of Some n \<Rightarrow> n \<in> set (map_values (wf_nodes w)) \<and> \<not> is_disabled n
        | None \<Rightarrow> \<forall>n \<in> set (map_values (wf_nodes w)). \<not> is_start_trigger w n \<and> \<not> is_starting n)"
proof -
  have known: "\<forall>nm \<in> set (map_keys (wf_nodes w)). \<exists>n. map_of (wf_nodes w) nm = Some n \<and> node_type_of w n \<noteq> None"
    using assms unfolding workflow_wf_def known_types_def by (fastforce simp: map_of_eq_Some_iff)
  have all: "\<exists>nm \<in> set (map_keys (wf_nodes w)). map_of (wf_nodes w) nm = Some n" if "n \<in> set (map_values (wf_nodes w))" for n
    using that assms(1) unfolding workflow_wf_def by (force simp: map_of_eq_Some_iff)
  have eq: "getStartNode w None = get_start_node w (map_keys (wf_nodes w))" by (simp add: getStartNode_def)
  from get_start_node_None [OF known refl] consider
    (some) n where "get_start_node w (map_keys (wf_nodes w)) = Inr (Some n)"
    | (none) "get_start_node w (map_keys (wf_nodes w)) = Inr None"
        "\<forall>nm \<in> set (map_keys (wf_nodes w)). \<forall>n. map_of (wf_nodes w) nm = Some n \<longrightarrow> \<not> is_start_trigger w n"
        "\<forall>n \<in> set (map_values (wf_nodes w)). \<not> is_starting n" by blast
  then show ?thesis
  proof cases
    case some
    with get_start_node_Some [OF some] show ?thesis unfolding eq by (intro exI [of _ "Some n"]) simp
  next
    case none
    have "\<not> is_start_trigger w n \<and> \<not> is_starting n" if "n \<in> set (map_values (wf_nodes w))" for n
      using all [OF that] none(2,3) that by blast
    then show ?thesis unfolding eq none(1) by (intro exI [of _ None]) simp
  qed
qed

theorem start_node_witness:
  "getStartNode sample_workflow None = Inr (Some sampleT)
   \<and> (\<exists>r. getStartNode sample_workflow None = Inr r
    \<and> (case r of Some n \<Rightarrow> n \<in> set (map_values (wf_nodes sample_workflow)) \<and> \<not> is_disabled n
        | None \<Rightarrow> \<forall>n \<in> set (map_values (wf_nodes sample_workflow)). \<not> is_start_trigger sample_workflow n \<and> \<not> is_starting n))"
proof
  show "getStartNode sample_workflow None = Inr (Some sampleT)" by code_simp
  show "\<exists>r. getStartNode sample_workflow None = Inr r
    \<and> (case r of Some n \<Rightarrow> n \<in> set (map_values (wf_nodes sample_workflow)) \<and> \<not> is_disabled n
        | None \<Rightarrow> \<forall>n \<in> set (map_values (wf_nodes sample_workflow)). \<not> is_start_trigger sample_workflow n \<and> \<not> is_starting n)"
    by (rule start_node_of_a_workflow [OF sample_workflow_ok(1)]) code_simp
qed

text \<open>
  The connections between two lists of nodes are exactly the stored connections that leave a
  node of the first list and enter one of the second, as pairs of their two ends.
\<close>

theorem connections_between_nodes:
  assumes "conns_wf (wf_connectionsBySourceNode w)"
  shows "set (getConnectionsBetweenNodes w sources targets) =
    {(a, c). conn_node a \<in> set sources \<and> conn_node c \<in> set targets
       \<and> (conn_node a, conn_type a, conn_index a, c) \<in> set (conn_entries (wf_connectionsBySourceNode w))}"
  using in_getConnectionsBetweenNodes [OF assms] by auto

theorem connections_between_witness:
  "set (getConnectionsBetweenNodes sample_workflow [''A'', ''M''] [''B'']) =
    {(a, c). conn_node a \<in> set [''A'', ''M''] \<and> conn_node c \<in> set [''B'']
       \<and> (conn_node a, conn_type a, conn_index a, c) \<in> set (conn_entries (wf_connectionsBySourceNode sample_workflow))}
   \<and> length (getConnectionsBetweenNodes sample_workflow [''A'', ''M''] [''B'']) = 1"
proof
  show "length (getConnectionsBetweenNodes sample_workflow [''A'', ''M''] [''B'']) = 1" by code_simp
qed (rule connections_between_nodes, code_simp)

text \<open>
  The trigger of a partial execution: with all node types known and the connections within
  the workflow the search never raises; it takes the destination if that is an enabled trigger,
  else an enabled trigger above it that no other such trigger is preferred to (run data, then a
  pinned webhook, then pinned, then a webhook); it gives nothing only if there is no such trigger.
\<close>

theorem trigger_of_a_partial_execution:
  assumes "workflow_wf w" and "known_types w" and "parents_known w" and "getNode w dest = Some d"
  shows "\<exists>r. findTriggerForPartialExecution w dest runData = Inr r
    \<and> (case r of
         None \<Rightarrow> \<not> (is_trigger w d \<and> \<not> is_disabled d) \<and> triggers_above w dest = {}
       | Some n \<Rightarrow> if is_trigger w d \<and> \<not> is_disabled d then n = d
           else n \<in> triggers_above w dest \<and> (\<forall>m \<in> triggers_above w dest. preference w runData n \<le> preference w runData m))"
  using assms by (rule findTrigger_correct)

theorem trigger_witness:
  "findTriggerForPartialExecution sample_workflow ''B'' sample_run_data = Inr (Some sampleT)
   \<and> (\<exists>r. findTriggerForPartialExecution sample_workflow ''B'' sample_run_data = Inr r
    \<and> (case r of
         None \<Rightarrow> \<not> (is_trigger sample_workflow sampleB \<and> \<not> is_disabled sampleB) \<and> triggers_above sample_workflow ''B'' = {}
       | Some n \<Rightarrow> if is_trigger sample_workflow sampleB \<and> \<not> is_disabled sampleB then n = sampleB
           else n \<in> triggers_above sample_workflow ''B''
             \<and> (\<forall>m \<in> triggers_above sample_workflow ''B''. preference sample_workflow sample_run_data n \<le> preference sample_workflow sample_run_data m)))"
proof
  show "findTriggerForPartialExecution sample_workflow ''B'' sample_run_data = Inr (Some sampleT)" by code_simp
qed (rule trigger_of_a_partial_execution [OF sample_workflow_ok(1)], code_simp+)

end
