(* ===== verification/Partial_Properties.thy ===== *)
theory Partial_Properties
  imports Samples
begin

text \<open>
  The properties of the directed graph and of partial executions, each with a witness on the
  sample graphs where it has a hypothesis.
\<close>

text \<open>
  The descendants of a node: on a well-formed graph \<^verbatim>\<open>getChildren\<close> returns, each once, exactly the
  nodes that one or more connections lead to, so the node itself exactly when it is on a cycle.
\<close>

theorem children_are_the_descendants:
  assumes "graph_wf g"
    and "n \<in> graph_nodes g"
  shows "\<exists>ns. getChildren g n = Inr ns \<and> distinct ns \<and> set ns = {m. (n, m) \<in> (edge_rel g)\<^sup>+}"
  using assms by (rule getChildren_set)

theorem children_witness:
  "getChildren sample_graph sampleT = Inr [sampleA, sampleB]
   \<and> (\<exists>ns. getChildren sample_graph sampleT = Inr ns \<and> distinct ns \<and> set ns = {m. (sampleT, m) \<in> (edge_rel sample_graph)\<^sup>+})"
proof
  show "getChildren sample_graph sampleT = Inr [sampleA, sampleB]" by code_simp
qed (rule children_are_the_descendants [OF sample_graph_wf(1) sample_members(1)])

text \<open>
  The connections above a node: \<^verbatim>\<open>getParentConnections\<close> returns, each once, exactly the connections
  whose target leads to the node, cycles included.
\<close>

theorem parent_connections_are_the_ones_above:
  assumes "graph_wf g"
    and "n \<in> graph_nodes g"
  shows "\<exists>cs. getParentConnections g n = Inr cs \<and> distinct cs
    \<and> set cs = {c \<in> graph_conns g. (gc_to c, n) \<in> (edge_rel g)\<^sup>*}"
  using assms by (rule getParentConnections_set)

theorem parent_connections_witness:
  "map_sum id (map gc_type) (getParentConnections sample_graph sampleB) = Inr [''main'', ''main'', ''ai_languageModel'']
   \<and> (\<exists>cs. getParentConnections sample_graph sampleB = Inr cs \<and> distinct cs
    \<and> set cs = {c \<in> graph_conns sample_graph. (gc_to c, sampleB) \<in> (edge_rel sample_graph)\<^sup>*})"
proof
  show "map_sum id (map gc_type) (getParentConnections sample_graph sampleB) = Inr [''main'', ''main'', ''ai_languageModel'']"
    by code_simp
qed (rule parent_connections_are_the_ones_above [OF sample_graph_wf(1) sample_members(3)])

text \<open>
  The depth-first search of a graph from a node of it finds a node that satisfies the predicate
  and is reachable, and gives nothing only if no reachable node (the start included) satisfies it.
\<close>

theorem depth_first_search_finds:
  assumes "graph_wf g"
    and "start \<in> graph_nodes g"
  shows "\<exists>r. depthFirstSearch g start fn = Inr r
    \<and> (case r of Some x \<Rightarrow> fn x \<and> (start, x) \<in> (edge_rel g)\<^sup>*
        | None \<Rightarrow> \<forall>x. (start, x) \<in> (edge_rel g)\<^sup>* \<longrightarrow> \<not> fn x)"
  using assms by (rule depthFirstSearch_correct)

theorem depth_first_witness:
  "depthFirstSearch sample_graph sampleT (\<lambda>n. node_name n = ''B'') = Inr (Some sampleB)
   \<and> (\<exists>r. depthFirstSearch sample_graph sampleT (\<lambda>n. node_name n = ''B'') = Inr r
    \<and> (case r of Some x \<Rightarrow> node_name x = ''B'' \<and> (sampleT, x) \<in> (edge_rel sample_graph)\<^sup>*
        | None \<Rightarrow> \<forall>x. (sampleT, x) \<in> (edge_rel sample_graph)\<^sup>* \<longrightarrow> \<not> node_name x = ''B''))"
proof
  show "depthFirstSearch sample_graph sampleT (\<lambda>n. node_name n = ''B'') = Inr (Some sampleB)" by code_simp
qed (rule depth_first_search_finds [OF sample_graph_wf(1) sample_members(1)])

text \<open>
  The keys of connections determine the connection when neither source names nor types hold a
  hyphen: two such connections with one key agree on both end names, the type and both indices.
\<close>

theorem connection_keys_are_unambiguous:
  assumes "make_key c = make_key d"
    and "no_hyphens (node_name (gc_from c))"
    and "no_hyphens (node_name (gc_from d))"
    and "no_hyphens (gc_type c)"
    and "no_hyphens (gc_type d)"
  shows "node_name (gc_from c) = node_name (gc_from d) \<and> gc_type c = gc_type d
    \<and> gc_outputIndex c = gc_outputIndex d \<and> gc_inputIndex c = gc_inputIndex d
    \<and> node_name (gc_to c) = node_name (gc_to d)"
  using assms by (rule make_key_parts)

theorem connection_keys_witness:
  "node_name (gc_from (sample_conn sampleA sampleB ''main'' 12 3)) = node_name (gc_from (sample_conn sampleA sampleB ''main'' 12 3))
   \<and> gc_type (sample_conn sampleA sampleB ''main'' 12 3) = gc_type (sample_conn sampleA sampleB ''main'' 12 3)
   \<and> gc_outputIndex (sample_conn sampleA sampleB ''main'' 12 3) = gc_outputIndex (sample_conn sampleA sampleB ''main'' 12 3)
   \<and> gc_inputIndex (sample_conn sampleA sampleB ''main'' 12 3) = gc_inputIndex (sample_conn sampleA sampleB ''main'' 12 3)
   \<and> node_name (gc_to (sample_conn sampleA sampleB ''main'' 12 3)) = node_name (gc_to (sample_conn sampleA sampleB ''main'' 12 3))"
  by (rule connection_keys_are_unambiguous) code_simp+

text \<open>
  With hyphens in the names of nodes the keys collide: there are a well-formed graph and a connection between
  two of its nodes that it does not hold such that adding the connection succeeds and silently
  drops another one.
\<close>

theorem hyphenated_names_lose_connections:
  "\<exists>g c d. graph_wf g \<and> gc_from c \<in> graph_nodes g \<and> gc_to c \<in> graph_nodes g \<and> c \<notin> graph_conns g \<and> d \<in> graph_conns g
     \<and> (case addConnection (conn_as_input c) g of Inl _ \<Rightarrow> False | Inr g' \<Rightarrow> d \<notin> graph_conns g')"
proof (intro exI conjI)
  let ?X = "sample_node 10 ''A'' ''set''" and ?Y = "sample_node 11 ''B-main-0-0-C'' ''set''"
    and ?Z = "sample_node 12 ''A-main-0-0-B'' ''set''" and ?W = "sample_node 13 ''C'' ''set''"
  let ?d = "sample_conn ?X ?Y ''main'' 0 0" and ?c = "sample_conn ?Z ?W ''main'' 0 0"
  let ?g = "graph_of [?X, ?Y, ?Z, ?W] [?d]"
  show "graph_wf ?g" by code_simp
  show "gc_from ?c \<in> graph_nodes ?g" by code_simp
  show "gc_to ?c \<in> graph_nodes ?g" by code_simp
  show "?c \<notin> graph_conns ?g" by code_simp
  show "?d \<in> graph_conns ?g" by code_simp
  show "case addConnection (conn_as_input ?c) ?g of Inl _ \<Rightarrow> False | Inr g' \<Rightarrow> ?d \<notin> graph_conns g'" by code_simp
qed

text \<open>
  Removing a node with reconnection: if the node has no connection to itself, the result is a
  well-formed graph without the node, whose connections are those that did not touch it and one
  joined connection per pair of a kept incoming and a kept outgoing connection, which are also
  what the call returns.
\<close>

theorem removing_a_node_reconnects:
  assumes "graph_wf g"
    and "n \<in> graph_nodes g"
    and "reconnectConnections opts"
    and "(n, n) \<notin> edge_rel g"
    and "plain_names g"
  shows "\<exists>new g'. removeNode n opts g = Inr (Some new, g') \<and> set new = joined_conns g n opts
    \<and> graph_wf g' \<and> graph_nodes g' = graph_nodes g - {n}
    \<and> graph_conns g' = kept_conns g n \<union> joined_conns g n opts"
  using removeNode_join [OF assms(1-4)] assms(5) by blast

theorem removing_witness:
  "(case removeNode sampleA main_only sample_graph of Inr (Some new, g') \<Rightarrow> map gc_inputIndex new = [1] \<and> length (g_conns g') = 1 | _ \<Rightarrow> False)
   \<and> (\<exists>new g'. removeNode sampleA main_only sample_graph = Inr (Some new, g') \<and> set new = joined_conns sample_graph sampleA main_only
    \<and> graph_wf g' \<and> graph_nodes g' = graph_nodes sample_graph - {sampleA}
    \<and> graph_conns g' = kept_conns sample_graph sampleA \<union> joined_conns sample_graph sampleA main_only)"
proof
  show "case removeNode sampleA main_only sample_graph of Inr (Some new, g') \<Rightarrow> map gc_inputIndex new = [1] \<and> length (g_conns g') = 1 | _ \<Rightarrow> False"
    by code_simp
qed (rule removing_a_node_reconnects [OF sample_graph_wf(1) sample_members(2)], code_simp+)

text \<open>
  Reconnecting removal without a skip function keeps the reachability between all other nodes.
\<close>

theorem removal_keeps_reachability:
  assumes "graph_wf g"
    and "n \<in> graph_nodes g"
    and "(n, n) \<notin> edge_rel g"
    and "plain_names g"
    and "removeNode n \<lparr>reconnectConnections = True, skipConnectionFn = None\<rparr> g = Inr (r, g')"
    and "a \<noteq> n"
    and "b \<noteq> n"
  shows "(a, b) \<in> (edge_rel g')\<^sup>+ \<longleftrightarrow> (a, b) \<in> (edge_rel g)\<^sup>+"
  using removeNode_edges [OF assms(1,2) _ assms(3) _ assms(4,5)] bypass_trancl [OF assms(6,7), of "edge_rel g"] by simp

theorem removal_reachability_witness:
  "\<exists>r g'. removeNode disabledA \<lparr>reconnectConnections = True, skipConnectionFn = None\<rparr> disabled_graph = Inr (r, g')
   \<and> ((sampleT, sampleB) \<in> (edge_rel g')\<^sup>+ \<longleftrightarrow> (sampleT, sampleB) \<in> (edge_rel disabled_graph)\<^sup>+)"
proof -
  have n: "disabledA \<in> graph_nodes disabled_graph" and l: "(disabledA, disabledA) \<notin> edge_rel disabled_graph"
    and ne: "sampleT \<noteq> disabledA" "sampleB \<noteq> disabledA" by code_simp+
  from removeNode_join [OF sample_graph_wf(4) n _ l, of "\<lparr>reconnectConnections = True, skipConnectionFn = None\<rparr>"]
  obtain r g' where "removeNode disabledA \<lparr>reconnectConnections = True, skipConnectionFn = None\<rparr> disabled_graph = Inr (r, g')"
    by auto
  with removal_keeps_reachability [OF sample_graph_wf(4) n l sample_graph_plain(2) this ne] show ?thesis by blast
qed

text \<open>
  C34: The graph of a workflow: when every connection names nodes of the workflow, the conversion
  succeeds, gives a well-formed graph over the workflow's nodes and, for names without hyphens,
  with exactly the workflow's connections.
\<close>

theorem graph_of_a_workflow:
  assumes "workflow_wf w"
    and "workflow_lookup_ok w"
  shows "\<exists>g. fromWorkflow w = Inr g \<and> graph_wf g \<and> g_nodes g = wf_nodes w
    \<and> graph_conns g \<subseteq> entry_conn (getNode w) ` set (conn_entries (wf_connectionsBySourceNode w))
    \<and> (plain_workflow w \<longrightarrow>
         graph_conns g = entry_conn (getNode w) ` set (conn_entries (wf_connectionsBySourceNode w)))"
  using assms by (rule fromWorkflow_wf)

theorem graph_of_a_workflow_witness:
  "fromWorkflow sample_workflow = Inr sample_graph
   \<and> (\<exists>g. fromWorkflow sample_workflow = Inr g \<and> graph_wf g \<and> g_nodes g = wf_nodes sample_workflow
    \<and> graph_conns g \<subseteq> entry_conn (getNode sample_workflow) ` set (conn_entries (wf_connectionsBySourceNode sample_workflow))
    \<and> (plain_workflow sample_workflow \<longrightarrow>
         graph_conns g = entry_conn (getNode sample_workflow) ` set (conn_entries (wf_connectionsBySourceNode sample_workflow))))"
proof
  show "fromWorkflow sample_workflow = Inr sample_graph" by code_simp
qed (rule graph_of_a_workflow [OF sample_workflow_ok(1,2)])

text \<open>
  A workflow whose connections name a node that it does not have is refused with an assertion
  error, even if the unknown source has no connections.
\<close>

theorem graph_of_a_broken_workflow:
  assumes "\<not> workflow_lookup_ok w"
  shows "\<exists>msg. fromWorkflow w = Inl (AssertionError msg)"
  using assms add_iconnections_refused by (simp add: fromWorkflow_def workflow_lookup_ok_def)

theorem graph_of_a_broken_workflow_witness:
  "\<exists>msg. fromWorkflow (setConnections [(''gone'', [])] sample_workflow) = Inl (AssertionError msg)"
  by (rule graph_of_a_broken_workflow) code_simp

text \<open>
  Cloning a well-formed graph gives the same graph: no assertion fails and the order of nodes and
  connections is kept.
\<close>

theorem clone_is_identity:
  assumes "graph_wf g"
  shows "clone_graph g = Inr g"
  using assms by (rule clone_graph_id)

theorem clone_witness:
  "clone_graph sample_graph = Inr sample_graph"
  by (rule clone_is_identity [OF sample_graph_wf(1)])

text \<open>
  Exporting a graph as a connection object succeeds exactly when no node has outgoing connections
  of two types; then the object holds exactly the graph's connections. Otherwise indexing the
  missing array raises a TypeError.
\<close>

theorem export_needs_one_type_per_source:
  "(case toIConnections g of
      Inr cs \<Rightarrow> one_type_per_source (map_values (g_conns g))
        \<and> mset (conn_entries cs) = mset (map conn_entry_of (map_values (g_conns g)))
    | Inl e \<Rightarrow> \<not> one_type_per_source (map_values (g_conns g)) \<and> (\<exists>msg. e = TypeError msg))"
  by (rule toIConnections_iff)

text \<open>
  C4: The start nodes of a partial execution: for run data that has the connection types the graph
  asks for, the walk from the trigger ends and gives, each once, exactly the nodes where a branch
  stops (dirty, the destination, or a loop node whose end output has no data in its last run) that
  are reached from the trigger over connections with run or pinned data and nodes where no branch
  stops.
\<close>

theorem start_nodes_are_the_first_stops:
  assumes "graph_wf g"
    and "run_data_ok g runData"
    and "trigger \<in> graph_nodes g"
  shows "\<exists>ns. findStartNodes g trigger dest pinData runData = Inr ns \<and> distinct ns
    \<and> set ns = {n. branch_stops g dest runData pinData n \<and> (trigger, n) \<in> (walk_rel g dest runData pinData)\<^sup>*}"
  using assms by (rule findStartNodes_set)

theorem start_nodes_witness:
  "findStartNodes sample_graph sampleT sampleB [] sample_run_data = Inr [sampleB]
   \<and> (\<exists>ns. findStartNodes sample_graph sampleT sampleB [] sample_run_data = Inr ns \<and> distinct ns
    \<and> set ns = {n. branch_stops sample_graph sampleB sample_run_data [] n \<and> (sampleT, n) \<in> (walk_rel sample_graph sampleB sample_run_data [])\<^sup>*})"
proof
  show "findStartNodes sample_graph sampleT sampleB [] sample_run_data = Inr [sampleB]" by code_simp
qed (rule start_nodes_are_the_first_stops [OF sample_graph_wf(1) sample_run_data_ok sample_members(1)])



text \<open>
  C6: The subgraph of a partial execution: the search ends; the result is a well-formed part of the
  graph in which every node leads to the destination, and it holds every connection of every simple
  path of main connections from the trigger to the destination.
\<close>

theorem subgraph_holds_the_paths:
  assumes "graph_wf g"
    and "dest \<in> graph_nodes g"
  shows "\<exists>sg. findSubgraph g dest trigger = Inr sg \<and> part_of g sg
    \<and> graph_nodes sg \<subseteq> {n. (n, dest) \<in> (edge_rel g)\<^sup>*}
    \<and> (\<forall>p. simple_path g dest p trigger \<longrightarrow> set p \<subseteq> graph_conns sg \<and> trigger \<in> graph_nodes sg)"
proof -
  from findSubgraph_correct [OF assms, of trigger] obtain sg mg where sg: "findSubgraph g dest trigger = Inr sg"
    "part_of g sg" "leads_to g dest mg" "grown g (utility_conns g (graph_nodes mg)) mg sg"
    and paths: "\<forall>p. simple_path g dest p trigger \<longrightarrow> set p \<subseteq> graph_conns mg \<and> trigger \<in> graph_nodes mg" by blast
  have "graph_nodes mg \<subseteq> graph_nodes sg" "graph_conns mg \<subseteq> graph_conns sg" using sg(4) unfolding grown_def by blast+
  with sg(1,2) paths findSubgraph_leads [OF sg(3,4)] show ?thesis by blast
qed

theorem subgraph_witness:
  "map_sum id (\<lambda>g. (length (g_nodes g), length (g_conns g))) (findSubgraph sample_graph sampleB sampleT) = Inr (4, 3)
   \<and> (\<exists>sg. findSubgraph sample_graph sampleB sampleT = Inr sg \<and> part_of sample_graph sg
    \<and> graph_nodes sg \<subseteq> {n. (n, sampleB) \<in> (edge_rel sample_graph)\<^sup>*}
    \<and> (\<forall>p. simple_path sample_graph sampleB p sampleT \<longrightarrow> set p \<subseteq> graph_conns sg \<and> sampleT \<in> graph_nodes sg))"
proof
  show "map_sum id (\<lambda>g. (length (g_nodes g), length (g_conns g))) (findSubgraph sample_graph sampleB sampleT) = Inr (4, 3)"
    by code_simp
qed (rule subgraph_holds_the_paths [OF sample_graph_wf(1) sample_members(3)])

text \<open>
  A trigger that leads to the destination over main connections is in the subgraph.
\<close>

theorem subgraph_holds_a_leading_trigger:
  assumes "graph_wf g"
    and "dest \<in> graph_nodes g"
    and "(trigger, dest) \<in> (main_edges g)\<^sup>*"
  shows "\<exists>sg. findSubgraph g dest trigger = Inr sg \<and> trigger \<in> graph_nodes sg"
proof -
  from findSubgraph_correct [OF assms(1,2), of trigger] obtain sg mg where "findSubgraph g dest trigger = Inr sg"
    "grown g (utility_conns g (graph_nodes mg)) mg sg"
    "\<forall>p. simple_path g dest p trigger \<longrightarrow> trigger \<in> graph_nodes mg" by blast
  moreover from simple_path_exists [OF assms(3)] obtain p where "simple_path g dest p trigger" by blast
  ultimately show ?thesis unfolding grown_def by blast
qed

theorem subgraph_trigger_witness:
  "\<exists>sg. findSubgraph sample_graph sampleB sampleT = Inr sg \<and> sampleT \<in> graph_nodes sg"
proof (rule subgraph_holds_a_leading_trigger [OF sample_graph_wf(1) sample_members(3)])
  have "(sampleT, sampleA) \<in> main_edges sample_graph" "(sampleA, sampleB) \<in> main_edges sample_graph"
    unfolding main_edges_iff by code_simp+
  then show "(sampleT, sampleB) \<in> (main_edges sample_graph)\<^sup>*" by auto
qed

text \<open>
  C8: Removing the disabled nodes: if no cycle runs through disabled nodes only, the result is a
  well-formed graph with exactly the enabled nodes, and (for names without hyphens) an enabled node
  reaches another over main connections after the removal exactly when it did before.
\<close>

theorem filtering_keeps_enabled_nodes_and_reachability:
  assumes "graph_wf g"
    and "acyclic (disabled_rel g)"
    and "plain_names g"
  shows "\<exists>fg. filterDisabledNodes g = Inr fg \<and> graph_wf fg \<and> graph_nodes fg = {n \<in> graph_nodes g. \<not> is_disabled n}
    \<and> (\<forall>a \<in> graph_nodes fg. \<forall>b \<in> graph_nodes fg. (a, b) \<in> (main_edges fg)\<^sup>+ \<longleftrightarrow> (a, b) \<in> (main_edges g)\<^sup>+)"
proof -
  from filterDisabledNodes_correct [OF assms(1,2)] obtain fg where "filterDisabledNodes g = Inr fg"
    "filtered g (graph_nodes g) fg" by blast
  with assms(3) show ?thesis unfolding filtered_def by blast
qed

theorem filtering_witness:
  "\<exists>fg. filterDisabledNodes disabled_graph = Inr fg \<and> graph_wf fg \<and> graph_nodes fg = {n \<in> graph_nodes disabled_graph. \<not> is_disabled n}
    \<and> (\<forall>a \<in> graph_nodes fg. \<forall>b \<in> graph_nodes fg. (a, b) \<in> (main_edges fg)\<^sup>+ \<longleftrightarrow> (a, b) \<in> (main_edges disabled_graph)\<^sup>+)"
proof (rule filtering_keeps_enabled_nodes_and_reachability [OF sample_graph_wf(4) _ sample_graph_plain(2)])
  have "\<forall>c \<in> graph_conns disabled_graph. \<not> (is_disabled (gc_from c) \<and> is_disabled (gc_to c))" by code_simp
  then have "disabled_rel disabled_graph = {}" unfolding disabled_rel_def edge_rel_iff by blast
  then show "acyclic (disabled_rel disabled_graph)" by (simp add: acyclic_def)
qed

text \<open>
  The source data groups of a node: they partition its incoming connections (main ones, and others
  that have data); each group is non-empty, its inputs are consecutive and ascending, and it is
  marked complete exactly when every connection in it has run or pinned data.
\<close>

theorem groups_partition_the_inputs:
  "set (getSourceDataGroups compare g n runData pinData)
      \<subseteq> {gr. group_ok (has_source_data runData pinData) gr \<and> sg_connections gr \<noteq> []}
    \<and> mset (concat (map sg_connections (getSourceDataGroups compare g n runData pinData)))
      = mset (filter (\<lambda>c. has_source_data runData pinData c \<or> gc_type c = Main_type) (getConnections g (Some n)))"
  using getSourceDataGroups_correct [of compare g n runData pinData] by blast

text \<open>
  C5: Recreating the execution stack: for a well-formed graph without disabled nodes and run data with
  the needed types it never raises; each start node gets, in order, one entry with a single empty
  item if it has no main input and otherwise one entry per complete group with its items and its
  sources, and only start nodes with an incomplete group wait.
\<close>

theorem stack_has_one_entry_per_complete_group:
  assumes "graph_wf g"
    and "\<forall>n \<in> graph_nodes g. \<not> is_disabled n"
    and "set startNodes \<subseteq> graph_nodes g"
    and "run_data_ok g runData"
  shows "\<exists>st ess. recreateNodeExecutionStack compare g startNodes runData pinData = Inr st
    \<and> st_stack st = concat ess
    \<and> list_all2 (entries_for (\<lambda>n. getSourceDataGroups compare g n runData pinData) g runData pinData) startNodes ess
    \<and> waiting_only (incomplete_names (\<lambda>n. getSourceDataGroups compare g n runData pinData) g (set startNodes)) st"
  using assms by (rule recreate_correct)

theorem stack_witness:
  "\<exists>st ess. recreateNodeExecutionStack (\<lambda>_ _. 0) sample_graph [sampleB] sample_run_data [] = Inr st
    \<and> st_stack st = concat ess
    \<and> list_all2 (entries_for (\<lambda>n. getSourceDataGroups (\<lambda>_ _. 0) sample_graph n sample_run_data []) sample_graph sample_run_data []) [sampleB] ess
    \<and> waiting_only (incomplete_names (\<lambda>n. getSourceDataGroups (\<lambda>_ _. 0) sample_graph n sample_run_data []) sample_graph (set [sampleB])) st"
  by (rule stack_has_one_entry_per_complete_group [OF sample_graph_wf(1) _ _ sample_run_data_ok]) code_simp+

text \<open>
  Waiting inputs: after the data of an input is added for a node and a run, reading that input gives
  the data, and every other node, run, type and input reads as before.
\<close>

theorem waiting_input_roundtrip:
  "waiting_at (addWaitingExecution nm run ty i d w) nm' run' ty' i'
     = (if nm' = nm \<and> run' = run \<and> ty' = ty \<and> i' = i then d else waiting_at w nm' run' ty' i')
   \<and> waiting_at (addWaitingExecutionSource nm run ty i e v) nm' run' ty' i'
     = (if nm' = nm \<and> run' = run \<and> ty' = ty \<and> i' = i then e else waiting_at v nm' run' ty' i')"
  by (simp add: waiting_at_addWaitingExecution waiting_at_addWaitingExecutionSource)

text \<open>
  C35: The components that the search reports are sound: it never raises, no node is in two of them,
  none is empty, and the nodes of one reach each other.
\<close>

theorem components_are_sound:
  assumes "graph_wf g"
  shows "\<exists>sccs. getStronglyConnectedComponents g = Inr sccs \<and> distinct (concat sccs)
    \<and> set (concat sccs) \<subseteq> graph_nodes g
    \<and> (\<forall>C \<in> set sccs. C \<noteq> [] \<and> (\<forall>x \<in> set C. \<forall>y \<in> set C. (x, y) \<in> (edge_rel g)\<^sup>*))"
  using assms by (rule getStronglyConnectedComponents_sound)

theorem components_witness:
  "getStronglyConnectedComponents loop_graph = Inr [[sampleB, sampleA], [sampleT]]
   \<and> (\<exists>sccs. getStronglyConnectedComponents loop_graph = Inr sccs \<and> distinct (concat sccs)
    \<and> set (concat sccs) \<subseteq> graph_nodes loop_graph
    \<and> (\<forall>C \<in> set sccs. C \<noteq> [] \<and> (\<forall>x \<in> set C. \<forall>y \<in> set C. (x, y) \<in> (edge_rel loop_graph)\<^sup>*)))"
proof
  show "getStronglyConnectedComponents loop_graph = Inr [[sampleB, sampleA], [sampleT]]" by code_simp
qed (rule components_are_sound [OF sample_graph_wf(3)])

text \<open>
  C38: They are not complete: there is a well-formed graph with a cycle through all of its nodes for
  which the search reports no component at all.
\<close>

theorem components_are_incomplete:
  "\<exists>g. graph_wf g \<and> graph_nodes g \<noteq> {} \<and> graph_nodes g \<times> graph_nodes g \<subseteq> (edge_rel g)\<^sup>*
     \<and> getStronglyConnectedComponents g = Inr []"
proof (intro exI conjI)
  show "graph_wf cyclic_graph" by (rule sample_graph_wf(2))
  have nodes: "graph_nodes cyclic_graph = {sampleA, sampleB, sampleM}" by code_simp
  then show "graph_nodes cyclic_graph \<noteq> {}" by simp
  have e: "(sampleA, sampleB) \<in> edge_rel cyclic_graph" "(sampleB, sampleM) \<in> edge_rel cyclic_graph"
    "(sampleB, sampleA) \<in> edge_rel cyclic_graph" "(sampleM, sampleB) \<in> edge_rel cyclic_graph"
    unfolding edge_rel_iff by code_simp+
  then have "(x, sampleB) \<in> (edge_rel cyclic_graph)\<^sup>*" "(sampleB, x) \<in> (edge_rel cyclic_graph)\<^sup>*"
    if "x \<in> graph_nodes cyclic_graph" for x using that unfolding nodes by auto
  then show "graph_nodes cyclic_graph \<times> graph_nodes cyclic_graph \<subseteq> (edge_rel cyclic_graph)\<^sup>*"
    by (meson mem_Sigma_iff rtrancl_trans subrelI)
  show "getStronglyConnectedComponents cyclic_graph = Inr []" by code_simp
qed

text \<open>
  Handling cycles: when the trigger leads to all start nodes, no assertion fails, and each start
  node in a reported component is replaced by the node of the component that a search from the
  trigger meets first; the others stay.
\<close>

theorem start_nodes_in_cycles_are_replaced:
  assumes "graph_wf g"
    and "trigger \<in> graph_nodes g"
    and "set starts \<subseteq> graph_nodes g"
    and "distinct starts"
    and "\<forall>s \<in> set starts. (trigger, s) \<in> (edge_rel g)\<^sup>*"
    and "getStronglyConnectedComponents g = Inr sccs"
  shows "\<exists>ns. handleCycles g starts trigger = Inr ns \<and> distinct ns \<and> set ns = replaced g trigger sccs (set starts)"
  using assms by (rule handleCycles_correct)

theorem handle_cycles_witness:
  "handleCycles loop_graph [sampleB] sampleT = Inr [sampleA]
   \<and> (\<exists>ns. handleCycles loop_graph [sampleB] sampleT = Inr ns \<and> distinct ns
        \<and> set ns = replaced loop_graph sampleT [[sampleB, sampleA], [sampleT]] (set [sampleB]))"
proof
  show "handleCycles loop_graph [sampleB] sampleT = Inr [sampleA]" by code_simp
  have "(sampleT, sampleA) \<in> edge_rel loop_graph" "(sampleA, sampleB) \<in> edge_rel loop_graph"
    unfolding edge_rel_iff by code_simp+
  then have r: "\<forall>s \<in> set [sampleB]. (sampleT, s) \<in> (edge_rel loop_graph)\<^sup>*" by auto
  have s: "set [sampleB] \<subseteq> graph_nodes loop_graph" using sample_members(5) by simp
  have c: "getStronglyConnectedComponents loop_graph = Inr [[sampleB, sampleA], [sampleT]]" by code_simp
  show "\<exists>ns. handleCycles loop_graph [sampleB] sampleT = Inr ns \<and> distinct ns
        \<and> set ns = replaced loop_graph sampleT [[sampleB, sampleA], [sampleT]] (set [sampleB])"
    by (rule start_nodes_in_cycles_are_replaced [OF sample_graph_wf(3) sample_members(4) s _ r c]) simp
qed

text \<open>
  Whether a root above a node has run data: the answer is yes exactly when some node that leads to
  it, and that no main connection enters, has run data.
\<close>

theorem root_with_run_data:
  assumes "graph_wf g"
    and "map_of (g_nodes g) nm = Some dest"
  shows "anyReachableRootHasRunData g nm runData
    = Inr (\<exists>n. root_above g dest n \<and> map_of runData (node_name n) \<noteq> None)"
  using assms by (rule anyReachableRoot_correct)

theorem root_with_run_data_witness:
  "anyReachableRootHasRunData sample_graph ''B'' sample_run_data
    = Inr (\<exists>n. root_above sample_graph sampleB n \<and> map_of sample_run_data (node_name n) \<noteq> None)"
  by (rule root_with_run_data [OF sample_graph_wf(1)]) code_simp

text \<open>
  The next execution index is larger than every index in the run data.
\<close>

theorem next_index_is_fresh:
  assumes "(nm, tds) \<in> set runData"
    and "td \<in> set tds"
    and "td_executionIndex td = Some i"
  shows "i < getNextExecutionIndex runData"
  using assms by (rule getNextExecutionIndex_fresh)

theorem next_index_witness:
  "3 < getNextExecutionIndex sample_run_data"
  by (rule next_index_is_fresh [of "''T''" "[sample_run]" _ sample_run]) code_simp+

end
