(* ===== verification/Transitions.thy ===== *)
theory Transitions
  imports Main
begin

text \<open>
  The interface that every stateful component offers to its properties: initial states, a step
  relation over operations, and an invariant that the steps keep. What is reachable satisfies
  the invariant; a second invariant may be proved with the help of the first one.
\<close>

locale invariant_system =
  fixes start :: "'s \<Rightarrow> bool"
    and step :: "'s \<Rightarrow> 's \<Rightarrow> bool"
    and ok :: "'s \<Rightarrow> bool"
  assumes ok_start: "start s \<Longrightarrow> ok s"
    and ok_step: "ok s \<Longrightarrow> step s t \<Longrightarrow> ok t"
begin

lemma steps_keep: "step\<^sup>*\<^sup>* s t \<Longrightarrow> ok s \<Longrightarrow> ok t"
  by (induction rule: rtranclp_induct) (auto intro: ok_step)

lemma reachable_ok: "start s \<Longrightarrow> step\<^sup>*\<^sup>* s t \<Longrightarrow> ok t"
  using steps_keep ok_start by blast

lemma reachable_also:
  assumes "start s" and "step\<^sup>*\<^sup>* s t" and "Q s"
    and "\<And>u v. ok u \<Longrightarrow> Q u \<Longrightarrow> step u v \<Longrightarrow> Q v"
  shows "Q t"
  using assms(2)
proof (induction rule: rtranclp_induct)
  case base
  then show ?case using assms(3) by simp
next
  case (step u v)
  with assms(1) have "ok u" by (blast intro: reachable_ok)
  with step show ?case using assms(4) by blast
qed

end

text \<open>A history that only grows at its end, and a measure that a step moves by at most one.\<close>

lemma rtranclp_mono_measure:
  assumes "step\<^sup>*\<^sup>* s t" and "\<And>u v. step u v \<Longrightarrow> (f u :: 'a :: preorder) \<le> f v"
  shows "f s \<le> f t"
  using assms(1) by (induction rule: rtranclp_induct) (auto intro: order_trans assms(2))

end
