(* ===== verification/Concurrency.thy ===== *)
theory Concurrency
  imports Prelude Transitions "HOL-Library.Sublist"
begin

text \<open>
  Execution concurrency control, from \<^verbatim>\<open>packages/cli/src/concurrency\<close>: the queue of throttled
  executions (\<^verbatim>\<open>concurrency-queue.ts\<close>), the service that keeps one queue per kind of execution
  (\<^verbatim>\<open>concurrency-control.service.ts\<close>) and the reservation an active execution holds
  (\<^verbatim>\<open>concurrency-capacity-reservation.ts\<close>). A promise that is still pending is represented by its
  \<^verbatim>\<open>resolve\<close> function, a value of the type parameter \<open>'r\<close>; events and resolved promises are the
  output of an operation. The queue as a system of executions that arrive, finish and are
  cancelled is a step relation, and its invariants are proved by induction over the steps.
\<close>

section \<open>The queue\<close>

datatype 'r queue_event =
    ConcurrencyCheck int
  | ExecutionThrottled string
  | ExecutionReleased string
  | Resolved 'r

record 'r queue_item =
  qi_executionId :: string
  qi_resolve :: 'r

record 'r concurrency_queue =
  cq_capacity :: int
  cq_queue :: "'r queue_item list"

definition new_queue :: "int \<Rightarrow> 'r concurrency_queue" where
  "new_queue capacity = \<lparr>cq_capacity = capacity, cq_queue = []\<rparr>"

text \<open>
  The first component of the result says whether the caller has to wait: a throttled call returns
  the pending promise that \<open>r\<close> resolves, the others return at once.
\<close>

definition enqueue ::
    "string \<Rightarrow> 'r \<Rightarrow> 'r concurrency_queue \<Rightarrow> bool \<times> 'r queue_event list \<times> 'r concurrency_queue" where
  "enqueue executionId r q =
     (let capacity = cq_capacity q - 1
      in if capacity < 0
         then (True, [ConcurrencyCheck capacity, ExecutionThrottled executionId],
               \<lparr>cq_capacity = capacity, cq_queue = cq_queue q @ [\<lparr>qi_executionId = executionId, qi_resolve = r\<rparr>]\<rparr>)
         else (False, [ConcurrencyCheck capacity], q\<lparr>cq_capacity := capacity\<rparr>))"

definition resolveNext :: "'r concurrency_queue \<Rightarrow> 'r queue_event list \<times> 'r concurrency_queue" where
  "resolveNext q =
     (case cq_queue q of
        [] \<Rightarrow> ([], q)
      | i # rest \<Rightarrow> ([ExecutionReleased (qi_executionId i), Resolved (qi_resolve i)], q\<lparr>cq_queue := rest\<rparr>))"

definition currentCapacity :: "'r concurrency_queue \<Rightarrow> int" where
  "currentCapacity q = cq_capacity q"

definition dequeue :: "'r concurrency_queue \<Rightarrow> 'r queue_event list \<times> 'r concurrency_queue" where
  "dequeue q = resolveNext (q\<lparr>cq_capacity := cq_capacity q + 1\<rparr>)"

definition has_id :: "string \<Rightarrow> 'r queue_item \<Rightarrow> bool" where
  "has_id executionId i \<longleftrightarrow> qi_executionId i = executionId"

definition remove_first :: "('a \<Rightarrow> bool) \<Rightarrow> 'a list \<Rightarrow> 'a list" where
  "remove_first p xs = takeWhile (\<lambda>x. \<not> p x) xs @ tl (dropWhile (\<lambda>x. \<not> p x) xs)"

definition queue_remove :: "string \<Rightarrow> 'r concurrency_queue \<Rightarrow> 'r queue_event list \<times> 'r concurrency_queue" where
  "queue_remove executionId q =
     (if list_ex (has_id executionId) (cq_queue q)
      then resolveNext \<lparr>cq_capacity = cq_capacity q + 1, cq_queue = remove_first (has_id executionId) (cq_queue q)\<rparr>
      else ([], q))"

definition queue_getAll :: "'r concurrency_queue \<Rightarrow> string list" where
  "queue_getAll q = set_of (map qi_executionId (cq_queue q))"

definition queue_has :: "string \<Rightarrow> 'r concurrency_queue \<Rightarrow> bool" where
  "queue_has executionId q \<longleftrightarrow> list_ex (has_id executionId) (cq_queue q)"

text \<open>The promises that a list of events resolves, in order.\<close>

fun resolved :: "'r queue_event list \<Rightarrow> 'r list" where
  "resolved [] = []"
| "resolved (Resolved r # es) = r # resolved es"
| "resolved (_ # es) = resolved es"

lemma resolved_append [simp]: "resolved (es @ fs) = resolved es @ resolved fs"
  by (induction es rule: resolved.induct) auto

lemma remove_first_split:
  assumes "\<exists>x \<in> set xs. p x"
  shows "\<exists>us x vs. xs = us @ x # vs \<and> p x \<and> (\<forall>u \<in> set us. \<not> p u) \<and> remove_first p xs = us @ vs"
  using assms
proof (induction xs)
  case Nil
  then show ?case by simp
next
  case (Cons y ys)
  show ?case
  proof (cases "p y")
    case True
    then have "remove_first p (y # ys) = [] @ ys" by (simp add: remove_first_def)
    with True show ?thesis by (metis append_Nil empty_iff list.set(1))
  next
    case False
    with Cons obtain us x vs where "ys = us @ x # vs" "p x" "\<forall>u \<in> set us. \<not> p u" "remove_first p ys = us @ vs"
      by auto
    then have "y # ys = (y # us) @ x # vs \<and> p x \<and> (\<forall>u \<in> set (y # us). \<not> p u)
      \<and> remove_first p (y # ys) = (y # us) @ vs" using False by (simp add: remove_first_def)
    then show ?thesis by blast
  qed
qed

lemma remove_first_none: "(\<forall>x \<in> set xs. \<not> p x) \<Longrightarrow> remove_first p xs = xs"
  unfolding remove_first_def by (metis append_Nil2 dropWhile_eq_Nil_conv list.sel(2) takeWhile_eq_all_conv)

lemma length_remove_first:
  "list_ex p xs \<Longrightarrow> Suc (length (remove_first p xs)) = length xs"
  using remove_first_split [of xs p] by (auto simp: list_ex_iff)

section \<open>Executions over one queue\<close>

text \<open>
  The queue in use: executions arrive (with a promise handle of their own), running ones finish,
  and waiting ones are cancelled by their id. A resolved promise starts its execution. The
  fields after the first two are histories that the properties speak about.
\<close>

record 'r exec_system =
  sys_queue :: "'r concurrency_queue"
  sys_running :: "'r set"
  sys_arrived :: "'r list"
  sys_started :: "'r list"
  sys_cancelled :: nat

definition waiting :: "'r exec_system \<Rightarrow> 'r list" where
  "waiting s = map qi_resolve (cq_queue (sys_queue s))"

definition empty_system :: "nat \<Rightarrow> 'r exec_system" where
  "empty_system limit = \<lparr>sys_queue = new_queue (int limit), sys_running = {}, sys_arrived = [],
     sys_started = [], sys_cancelled = 0\<rparr>"

definition arrive :: "string \<Rightarrow> 'r \<Rightarrow> 'r exec_system \<Rightarrow> 'r exec_system" where
  "arrive executionId r s =
     (case enqueue executionId r (sys_queue s) of
        (waits, _, q) \<Rightarrow> s\<lparr>sys_queue := q, sys_arrived := sys_arrived s @ [r],
           sys_running := (if waits then sys_running s else insert r (sys_running s)),
           sys_started := (if waits then sys_started s else sys_started s @ [r])\<rparr>)"

definition finish :: "'r \<Rightarrow> 'r exec_system \<Rightarrow> 'r exec_system" where
  "finish r s =
     (case dequeue (sys_queue s) of
        (events, q) \<Rightarrow> s\<lparr>sys_queue := q, sys_running := (sys_running s - {r}) \<union> set (resolved events),
           sys_started := sys_started s @ resolved events\<rparr>)"

definition cancel :: "string \<Rightarrow> 'r exec_system \<Rightarrow> 'r exec_system" where
  "cancel executionId s =
     (case queue_remove executionId (sys_queue s) of
        (events, q) \<Rightarrow> s\<lparr>sys_queue := q, sys_running := sys_running s \<union> set (resolved events),
           sys_started := sys_started s @ resolved events,
           sys_cancelled := (if queue_has executionId (sys_queue s) then Suc (sys_cancelled s) else sys_cancelled s)\<rparr>)"

inductive exec_step :: "'r exec_system \<Rightarrow> 'r exec_system \<Rightarrow> bool" where
  arrives: "r \<notin> set (sys_arrived s) \<Longrightarrow> exec_step s (arrive executionId r s)"
| finishes: "r \<in> sys_running s \<Longrightarrow> exec_step s (finish r s)"
| cancels: "exec_step s (cancel executionId s)"

inductive_cases exec_stepE: "exec_step s t"

definition exec_inv :: "nat \<Rightarrow> 'r exec_system \<Rightarrow> bool" where
  "exec_inv limit s \<longleftrightarrow>
     finite (sys_running s) \<and> distinct (sys_arrived s)
   \<and> subseq (sys_started s @ waiting s) (sys_arrived s)
   \<and> sys_running s \<subseteq> set (sys_started s)
   \<and> cq_capacity (sys_queue s) = int limit - int (card (sys_running s)) - int (length (waiting s))
   \<and> (waiting s \<noteq> [] \<longrightarrow> limit \<le> card (sys_running s))
   \<and> card (sys_running s) \<le> limit + sys_cancelled s"

lemma subseq_distinct: "subseq xs ys \<Longrightarrow> distinct ys \<Longrightarrow> distinct xs"
  using subseqs_distinctD [of xs ys] by simp

lemma subseq_subset: "subseq xs ys \<Longrightarrow> set xs \<subseteq> set ys"
  by (auto elim: list_emb_set [of "(=)"])

lemma exec_invD:
  assumes "exec_inv limit s"
  shows "finite (sys_running s)" "distinct (sys_arrived s)"
    "subseq (sys_started s @ waiting s) (sys_arrived s)"
    "sys_running s \<subseteq> set (sys_started s)"
    "cq_capacity (sys_queue s) = int limit - int (card (sys_running s)) - int (length (waiting s))"
    "waiting s \<noteq> [] \<Longrightarrow> limit \<le> card (sys_running s)"
    "card (sys_running s) \<le> limit + sys_cancelled s"
  using assms by (simp_all add: exec_inv_def)

lemma exec_inv_fresh:
  assumes "exec_inv limit s" and "r \<in> set (waiting s) \<or> r \<notin> set (sys_arrived s)"
  shows "r \<notin> sys_running s"
proof -
  note f = exec_invD [OF assms(1)]
  from f(2,3) have "distinct (sys_started s @ waiting s)" by (rule subseq_distinct [rotated])
  moreover from f(3) have "set (sys_started s) \<subseteq> set (sys_arrived s)" using subseq_subset by fastforce
  ultimately show ?thesis using f(4) assms(2) by auto
qed

lemma empty_system_inv: "exec_inv limit (empty_system limit)"
  by (simp add: exec_inv_def empty_system_def new_queue_def waiting_def)

text \<open>Starting the first of the waiting executions, while one slot has become free.\<close>

lemma resolveNext_cases:
  obtains (none) "cq_queue q = []" "resolveNext q = ([], q)"
  | (item) i rest where "cq_queue q = i # rest"
      "resolveNext q = ([ExecutionReleased (qi_executionId i), Resolved (qi_resolve i)], q\<lparr>cq_queue := rest\<rparr>)"
  by (cases "cq_queue q") (auto simp: resolveNext_def)

lemma card_take_out: "finite R \<Longrightarrow> r \<in> R \<Longrightarrow> int (card (R - {r})) = int (card R) - 1"
  by (metis card_Suc_Diff1 of_nat_Suc add_diff_cancel_left')

lemma arrive_full:
  "cq_capacity (sys_queue s) \<le> 0 \<Longrightarrow> arrive executionId r s = s\<lparr>
     sys_queue := \<lparr>cq_capacity = cq_capacity (sys_queue s) - 1,
        cq_queue = cq_queue (sys_queue s) @ [\<lparr>qi_executionId = executionId, qi_resolve = r\<rparr>]\<rparr>,
     sys_arrived := sys_arrived s @ [r]\<rparr>"
  by (simp add: arrive_def enqueue_def Let_def)

lemma arrive_free:
  "0 < cq_capacity (sys_queue s) \<Longrightarrow> arrive executionId r s = s\<lparr>
     sys_queue := (sys_queue s)\<lparr>cq_capacity := cq_capacity (sys_queue s) - 1\<rparr>,
     sys_arrived := sys_arrived s @ [r], sys_running := insert r (sys_running s),
     sys_started := sys_started s @ [r]\<rparr>"
  by (simp add: arrive_def enqueue_def Let_def)

lemma arrive_inv:
  assumes i: "exec_inv limit s" and new: "r \<notin> set (sys_arrived s)"
  shows "exec_inv limit (arrive executionId r s)"
proof (cases "cq_capacity (sys_queue s) \<le> 0")
  case True
  note f = exec_invD [OF i]
  have full: "limit \<le> card (sys_running s)"
    using f(5,6) True by (cases "waiting s") auto
  have w: "waiting (arrive executionId r s) = waiting s @ [r]"
    unfolding arrive_full [OF True] waiting_def by simp
  show ?thesis
    using f(1,2,3,4,5,7) full new unfolding exec_inv_def w unfolding arrive_full [OF True]
    by (simp flip: append_assoc)
next
  case False
  note f = exec_invD [OF i]
  have w: "waiting s = []" and lt: "card (sys_running s) < limit"
    using f(5,6) False by (cases "waiting s"; force)+
  have c: "arrive executionId r s = s\<lparr>
     sys_queue := (sys_queue s)\<lparr>cq_capacity := cq_capacity (sys_queue s) - 1\<rparr>,
     sys_arrived := sys_arrived s @ [r], sys_running := insert r (sys_running s),
     sys_started := sys_started s @ [r]\<rparr>" using False by (intro arrive_free) simp
  have w': "waiting (arrive executionId r s) = []" using w unfolding c waiting_def by simp
  have "r \<notin> sys_running s" using exec_inv_fresh [OF i] new by blast
  then show ?thesis
    using f(1,2,3,4,5,7) new w lt unfolding exec_inv_def w' unfolding c
    by (auto simp: subset_insertI2)
qed

lemma finish_inv:
  assumes i: "exec_inv limit s" and r: "r \<in> sys_running s"
  shows "exec_inv limit (finish r s)"
proof (cases "sys_queue s\<lparr>cq_capacity := cq_capacity (sys_queue s) + 1\<rparr>" rule: resolveNext_cases)
  case none
  note f = exec_invD [OF i]
  have c: "finish r s = s\<lparr>sys_queue := (sys_queue s)\<lparr>cq_capacity := cq_capacity (sys_queue s) + 1\<rparr>,
      sys_running := sys_running s - {r}\<rparr>"
    unfolding finish_def dequeue_def none(2) by simp
  have w: "waiting s = []" "waiting (finish r s) = []" using none(1) unfolding c waiting_def by simp_all
  have "card (sys_running s - {r}) \<le> card (sys_running s)" by (rule card_Diff1_le)
  with f(1,2,3,4,5,7) card_take_out [OF f(1) r] w(1) show ?thesis unfolding exec_inv_def w(2) unfolding c by auto
next
  case (item x rest)
  note f = exec_invD [OF i]
  let ?R = "insert (qi_resolve x) (sys_running s - {r})"
  have c: "finish r s = s\<lparr>sys_queue := \<lparr>cq_capacity = cq_capacity (sys_queue s) + 1, cq_queue = rest\<rparr>,
      sys_running := ?R, sys_started := sys_started s @ [qi_resolve x]\<rparr>"
    unfolding finish_def dequeue_def item(2) by simp
  have w: "waiting s = qi_resolve x # map qi_resolve rest" "waiting (finish r s) = map qi_resolve rest"
    using item(1) unfolding c waiting_def by simp_all
  have "qi_resolve x \<notin> sys_running s" using exec_inv_fresh [OF i] w(1) by simp
  with f(1) r have R: "card ?R = card (sys_running s)"
    by (metis Diff_iff card_Suc_Diff1 card_insert_disjoint finite_Diff)
  from f w(1) show ?thesis unfolding exec_inv_def w(2) unfolding c by (auto simp: R)
qed

lemma cancel_inv:
  assumes i: "exec_inv limit s"
  shows "exec_inv limit (cancel executionId s)"
proof (cases "queue_has executionId (sys_queue s)")
  case False
  with i show ?thesis
    unfolding cancel_def queue_remove_def queue_has_def by simp
next
  case True
  note f = exec_invD [OF i]
  define q where "q = \<lparr>cq_capacity = cq_capacity (sys_queue s) + 1,
    cq_queue = remove_first (has_id executionId) (cq_queue (sys_queue s))\<rparr>"
  from True obtain us x vs where sp: "cq_queue (sys_queue s) = us @ x # vs"
    "remove_first (has_id executionId) (cq_queue (sys_queue s)) = us @ vs"
    using remove_first_split [of "cq_queue (sys_queue s)" "has_id executionId"]
    unfolding queue_has_def list_ex_iff by blast
  have full: "limit \<le> card (sys_running s)" using f(6) sp(1) by (simp add: waiting_def)
  have sub: "subseq (sys_started s @ map qi_resolve (us @ vs)) (sys_arrived s)"
  proof (rule subseq_order.trans [OF _ f(3)])
    show "subseq (sys_started s @ map qi_resolve (us @ vs)) (sys_started s @ waiting s)"
      unfolding waiting_def sp(1) subseq_append' map_append list.map
      by (rule list_emb_Cons [OF subseq_order.order_refl])
  qed
  have c: "cancel executionId s = (case resolveNext q of (events, q) \<Rightarrow>
      s\<lparr>sys_queue := q, sys_running := sys_running s \<union> set (resolved events),
        sys_started := sys_started s @ resolved events, sys_cancelled := Suc (sys_cancelled s)\<rparr>)"
    using True unfolding cancel_def queue_remove_def queue_has_def q_def by simp
  have len: "length (waiting s) = Suc (length (us @ vs))" unfolding waiting_def sp(1) by simp
  show ?thesis
  proof (cases q rule: resolveNext_cases)
    case none
    have c': "cancel executionId s = s\<lparr>sys_queue := q, sys_cancelled := Suc (sys_cancelled s)\<rparr>"
      unfolding c none(2) by simp
    have uv: "us @ vs = []" using none(1) unfolding q_def sp(2) by simp
    have w: "waiting (cancel executionId s) = []" unfolding c' waiting_def by (simp add: none(1))
    have "cq_capacity q = int limit - int (card (sys_running s))"
      unfolding q_def using f(5) len uv by simp
    with f(1,2,4,7) sub uv show ?thesis unfolding exec_inv_def w unfolding c' by simp
  next
    case (item y rest)
    then have uv: "us @ vs = y # rest" and w: "waiting (cancel executionId s) = map qi_resolve rest"
      unfolding q_def sp(2) c by (simp_all add: waiting_def)
    have "y \<in> set (us @ vs)" unfolding uv by simp
    then have "qi_resolve y \<in> set (waiting s)" unfolding waiting_def sp(1) by auto
    then have y: "qi_resolve y \<notin> sys_running s" using exec_inv_fresh [OF i] by blast
    have started: "(sys_started s @ [qi_resolve y]) @ map qi_resolve rest = sys_started s @ map qi_resolve (us @ vs)"
      using uv by simp
    have len': "length (us @ vs) = Suc (length rest)" unfolding uv by simp
    have c': "cancel executionId s = s\<lparr>sys_queue := q\<lparr>cq_queue := rest\<rparr>, sys_running := insert (qi_resolve y) (sys_running s),
        sys_started := sys_started s @ [qi_resolve y], sys_cancelled := Suc (sys_cancelled s)\<rparr>"
      unfolding c item(2) by simp
    have "cq_capacity q = int limit - int (Suc (card (sys_running s))) - int (length rest)"
      unfolding q_def using f(5) len len' by simp
    with f(1,2,7) y sub full subset_insertI2 [OF f(4)] show ?thesis
      unfolding exec_inv_def w unfolding c' started [symmetric] by simp
  qed
qed

interpretation executions: invariant_system
  "\<lambda>s :: 'r exec_system. s = empty_system limit" exec_step "exec_inv limit"
proof unfold_locales
  fix s :: "'r exec_system"
  assume "s = empty_system limit"
  then show "exec_inv limit s" by (simp add: empty_system_inv)
next
  fix s t :: "'r exec_system"
  assume i: "exec_inv limit s" and "exec_step s t"
  from this(2) show "exec_inv limit t"
    by (cases rule: exec_stepE) (use i in \<open>auto intro: arrive_inv finish_inv cancel_inv\<close>)
qed

end
