(* ===== verification/Concurrency_Service.thy ===== *)
theory Concurrency_Service
  imports Concurrency
begin

text \<open>
  The concurrency control service, from \<^verbatim>\<open>packages/cli/src/concurrency/concurrency-control.service.ts\<close>,
  with the limit of evaluation executions (\<^verbatim>\<open>evaluation.ee/evaluation-concurrency.helper.ts\<close>) and
  the capacity reservation of an active execution. The configuration, the environment and the
  license are arguments; log lines are left out, telemetry is the function \<open>tracked\<close> of the
  queue's events.
\<close>

section \<open>The limit of evaluation executions\<close>

definition EVALUATION_TIER_DEFAULTS :: "(string \<times> int) list" where
  "EVALUATION_TIER_DEFAULTS = [(''Community'', 1), (''Pro'', 1), (''Business'', 3), (''Enterprise'', 5)]"

definition isPlanTier :: "string \<Rightarrow> bool" where
  "isPlanTier nm \<longleftrightarrow> map_of EVALUATION_TIER_DEFAULTS nm \<noteq> None"

text \<open>
  The license as the code reads it: the value of the quota, when that is a number, and the name
  of the plan.
\<close>

record license =
  lic_quota :: "int option"
  lic_planName :: string

definition readLicenseQuota :: "license \<Rightarrow> int option" where
  "readLicenseQuota l = (case lic_quota l of None \<Rightarrow> None | Some raw \<Rightarrow> if raw = 0 then None else Some raw)"

record service_config =
  scf_mode :: string
  scf_productionLimit :: int
  scf_evaluationLimit :: int
  scf_deployment :: string
  scf_evaluationEnvSet :: bool

definition resolveEvaluationConcurrencyLimit :: "service_config \<Rightarrow> license \<Rightarrow> int" where
  "resolveEvaluationConcurrencyLimit cfg l =
     (if scf_evaluationEnvSet cfg then scf_evaluationLimit cfg
      else case readLicenseQuota l of
        Some n \<Rightarrow> n
      | None \<Rightarrow> (case map_of EVALUATION_TIER_DEFAULTS (lic_planName l) of Some n \<Rightarrow> n | None \<Rightarrow> 1))"

definition getEvaluationConcurrencyLimitSource :: "service_config \<Rightarrow> license \<Rightarrow> string" where
  "getEvaluationConcurrencyLimitSource cfg l =
     (if scf_evaluationEnvSet cfg then ''env''
      else if readLicenseQuota l \<noteq> None then ''license'' else ''tier'')"

section \<open>The service\<close>

record 'r control_service =
  ccs_config :: service_config
  ccs_isEnabled :: bool
  ccs_limits :: "(string, int) jsmap"
  ccs_queues :: "(string, 'r concurrency_queue) jsmap option"
  ccs_evalQueueResolved :: bool

abbreviation production :: string where "production \<equiv> ''production''"
abbreviation evaluation :: string where "evaluation \<equiv> ''evaluation''"

definition normaliseLimit :: "int \<Rightarrow> int result" where
  "normaliseLimit limit =
     (if limit = 0 then Inl (UserError ''Concurrency limit set to invalid value'')
      else Inr (if limit < -1 then -1 else limit))"

definition new_service :: "service_config \<Rightarrow> 'r control_service result" where
  "new_service cfg =
     res_bind (normaliseLimit (scf_productionLimit cfg)) (\<lambda>normalisedProduction.
     res_bind (normaliseLimit (scf_evaluationLimit cfg)) (\<lambda>normalisedEvaluation.
       let limits = [(production, normalisedProduction), (evaluation, normalisedEvaluation)]
       in if scf_mode cfg = ''queue''
          then Inr \<lparr>ccs_config = cfg, ccs_isEnabled = False, ccs_limits = limits, ccs_queues = None,
                 ccs_evalQueueResolved = False\<rparr>
          else
            let queues = (if 0 < normalisedProduction then [(production, new_queue normalisedProduction)] else []);
                queues = (if 0 < normalisedEvaluation
                          then map_set evaluation (new_queue normalisedEvaluation) queues else queues)
            in Inr \<lparr>ccs_config = cfg, ccs_isEnabled = (0 < length queues), ccs_limits = limits,
                 ccs_queues = Some queues, ccs_evalQueueResolved = (0 < normalisedEvaluation)\<rparr>))"

text \<open>
  Reading \<^verbatim>\<open>this.queues\<close>, which the constructor leaves undefined in queue mode: a method call on it
  then raises.
\<close>

definition queues_of :: "'r control_service \<Rightarrow> (string, 'r concurrency_queue) jsmap result" where
  "queues_of s = (case ccs_queues s of None \<Rightarrow> Inl (TypeError ''queues is undefined'') | Some qs \<Rightarrow> Inr qs)"

definition ensureEvalQueueResolved :: "license \<Rightarrow> 'r control_service \<Rightarrow> 'r control_service result" where
  "ensureEvalQueueResolved l s =
     (if ccs_evalQueueResolved s then Inr s
      else let s = s\<lparr>ccs_evalQueueResolved := True\<rparr>
        in if scf_mode (ccs_config s) = ''queue'' then Inr s
           else res_bind (normaliseLimit (resolveEvaluationConcurrencyLimit (ccs_config s) l)) (\<lambda>normalised.
             let s = s\<lparr>ccs_limits := map_set evaluation normalised (ccs_limits s)\<rparr>
             in if 0 < normalised
                then res_bind (queues_of s) (\<lambda>qs.
                  Inr (s\<lparr>ccs_queues := Some (map_set evaluation (new_queue normalised) qs), ccs_isEnabled := True\<rparr>))
                else Inr s))"

definition unqueued_modes :: "string list" where
  "unqueued_modes = [''error'', ''integrated'', ''cli'', ''internal'', ''manual'', ''retry'']"

definition production_modes :: "string list" where
  "production_modes = [''webhook'', ''trigger'', ''chat'']"

text \<open>The queue of a mode with its key, so that the mutation of the queue can be written back.\<close>

definition getQueue :: "string \<Rightarrow> 'r control_service \<Rightarrow> (string \<times> 'r concurrency_queue) option result" where
  "getQueue mode s =
     (if mode \<in> set unqueued_modes then Inr None
      else if mode \<in> set production_modes
        then res_bind (queues_of s) (\<lambda>qs. Inr (map_option (Pair production) (map_of qs production)))
      else if mode = evaluation
        then res_bind (queues_of s) (\<lambda>qs. Inr (map_option (Pair evaluation) (map_of qs evaluation)))
      else Inl (UnexpectedError ''Unknown execution mode''))"

definition isUnlimited :: "string \<Rightarrow> 'r control_service \<Rightarrow> bool result" where
  "isUnlimited mode s = res_bind (getQueue mode s) (\<lambda>q. Inr (q = None))"

definition put_queue :: "string \<Rightarrow> 'r concurrency_queue \<Rightarrow> 'r control_service \<Rightarrow> 'r control_service" where
  "put_queue key q s = s\<lparr>ccs_queues := map_option (map_set key q) (ccs_queues s)\<rparr>"

definition has_execution :: "string \<Rightarrow> 'r control_service \<Rightarrow> bool result" where
  "has_execution executionId s =
     (if \<not> ccs_isEnabled s then Inr False
      else res_bind (queues_of s) (\<lambda>qs. Inr (list_ex (queue_has executionId) (map_values qs))))"

text \<open>
  The frame that throttle, release and remove share: resolve the evaluation queue if need be, let
  the call pass if the service is off or the mode unlimited, and otherwise act on the queue.
\<close>

definition on_queue ::
    "license \<Rightarrow> string \<Rightarrow> 'a \<Rightarrow> ('r concurrency_queue \<Rightarrow> 'a \<times> 'r concurrency_queue) \<Rightarrow> 'r control_service
      \<Rightarrow> ('a \<times> 'r control_service) result" where
  "on_queue l mode idle act s =
     res_bind (if mode = evaluation then ensureEvalQueueResolved l s else Inr s) (\<lambda>s.
       if \<not> ccs_isEnabled s then Inr (idle, s)
       else res_bind (isUnlimited mode s) (\<lambda>unlimited.
         if unlimited then Inr (idle, s)
         else res_bind (getQueue mode s) (\<lambda>found.
           case found of
             None \<Rightarrow> Inr (idle, s)
           | Some (key, q) \<Rightarrow> (let (out, q') = act q in Inr (out, put_queue key q' s)))))"

definition throttle ::
    "license \<Rightarrow> string \<Rightarrow> string \<Rightarrow> 'r \<Rightarrow> 'r control_service \<Rightarrow> ((bool \<times> 'r queue_event list) \<times> 'r control_service) result" where
  "throttle l mode executionId r =
     on_queue l mode (False, []) (\<lambda>q. case enqueue executionId r q of (waits, events, q) \<Rightarrow> ((waits, events), q))"

definition release ::
    "license \<Rightarrow> string \<Rightarrow> 'r control_service \<Rightarrow> ('r queue_event list \<times> 'r control_service) result" where
  "release l mode = on_queue l mode [] dequeue"

definition remove_execution ::
    "license \<Rightarrow> string \<Rightarrow> string \<Rightarrow> 'r control_service \<Rightarrow> ('r queue_event list \<times> 'r control_service) result" where
  "remove_execution l mode executionId = on_queue l mode [] (queue_remove executionId)"

text \<open>Emptying one queue: the ids are collected first and then removed one by one.\<close>

definition remove_each :: "'r concurrency_queue \<Rightarrow> 'r queue_event list \<times> 'r concurrency_queue" where
  "remove_each q =
     fold (\<lambda>executionId (events, q). case queue_remove executionId q of (es, q) \<Rightarrow> (events @ es, q))
       (queue_getAll q) ([], q)"

text \<open>
  \<^verbatim>\<open>removeAll\<close>: the events of the queues, and the ids that the execution repository is told to
  cancel (none if the call returns before).
\<close>

definition removeAll ::
    "string list \<Rightarrow> 'r control_service \<Rightarrow> ('r queue_event list \<times> string list \<times> 'r control_service) result" where
  "removeAll executionIdsToCancel s =
     (if \<not> ccs_isEnabled s then Inr ([], [], s)
      else res_bind (queues_of s) (\<lambda>qs.
        let emptied = map (\<lambda>(key, q). (key, remove_each q)) qs
        in Inr (concat (map (\<lambda>(_, events, _). events) emptied), executionIdsToCancel,
             s\<lparr>ccs_queues := Some (map (\<lambda>(key, _, q). (key, q)) emptied)\<rparr>)))"

definition disable :: "'r control_service \<Rightarrow> 'r control_service" where
  "disable s = s\<lparr>ccs_isEnabled := False\<rparr>"

definition limitsToReport :: "int list" where
  "limitsToReport = map (\<lambda>t. 999 - t) [5, 10, 20, 50, 100, 200]"

definition shouldReport :: "service_config \<Rightarrow> int \<Rightarrow> bool" where
  "shouldReport cfg capacity \<longleftrightarrow> scf_deployment cfg = ''cloud'' \<and> capacity \<in> set limitsToReport"

text \<open>The telemetry that the listeners of a queue send for an event: threshold and queue type.\<close>

fun tracked :: "service_config \<Rightarrow> string \<Rightarrow> 'r queue_event \<Rightarrow> (int \<times> string) list" where
  "tracked cfg type (ConcurrencyCheck capacity) =
     (if shouldReport cfg capacity then [(999 - capacity, type)] else [])"
| "tracked cfg type (ExecutionThrottled _) = []"
| "tracked cfg type (ExecutionReleased _) = []"
| "tracked cfg type (Resolved _) = []"

section \<open>The reservation of an execution\<close>

record reservation =
  acquiredReservation :: "(string \<times> string) option"

text \<open>
  \<^verbatim>\<open>reserve\<close> up to its \<^verbatim>\<open>await\<close>, and what runs when the awaited call is through. The pair holds the
  execution id and the mode.
\<close>

definition reserve ::
    "license \<Rightarrow> string \<times> string \<Rightarrow> 'r \<Rightarrow> reservation \<Rightarrow> 'r control_service
      \<Rightarrow> ((bool \<times> 'r queue_event list) \<times> 'r control_service) result" where
  "reserve l capacityFor r res s =
     res_bind (assert_ok (acquiredReservation res = None) ''Capacity already reserved'') (\<lambda>_.
       throttle l (snd capacityFor) (fst capacityFor) r s)"

definition reserved :: "string \<times> string \<Rightarrow> reservation \<Rightarrow> reservation" where
  "reserved capacityFor res = res\<lparr>acquiredReservation := Some capacityFor\<rparr>"

definition release_reservation ::
    "license \<Rightarrow> reservation \<Rightarrow> 'r control_service \<Rightarrow> (reservation \<times> 'r queue_event list \<times> 'r control_service) result" where
  "release_reservation l res s =
     (case acquiredReservation res of
        None \<Rightarrow> Inr (res, [], s)
      | Some (_, mode) \<Rightarrow> res_bind (release l mode s) (\<lambda>(events, s).
          Inr (res\<lparr>acquiredReservation := None\<rparr>, events, s)))"

section \<open>Emptying a queue\<close>

text \<open>Of the waiting executions that are removed one after the other, every second one is started.\<close>

fun every_second :: "'a list \<Rightarrow> 'a list" where
  "every_second (x # y # xs) = y # every_second xs"
| "every_second xs = []"

lemma set_of_distinct: "distinct xs \<Longrightarrow> set_of xs = xs"
proof -
  have "fold set_add xs ys = ys @ xs" if "distinct (ys @ xs)" for ys
    using that by (induction xs arbitrary: ys) (auto simp: set_add_def)
  then show "distinct xs \<Longrightarrow> set_of xs = xs" by (simp add: set_of_def set_add_all_def)
qed

lemma queue_remove_head:
  "queue_remove (qi_executionId x) \<lparr>cq_capacity = c, cq_queue = x # its\<rparr> =
     resolveNext \<lparr>cq_capacity = c + 1, cq_queue = its\<rparr>"
  by (simp add: queue_remove_def has_id_def remove_first_def)

lemma queue_remove_absent:
  "executionId \<notin> qi_executionId ` set (cq_queue q) \<Longrightarrow> queue_remove executionId q = ([], q)"
  by (auto simp: queue_remove_def has_id_def list_ex_iff)

lemma remove_each_steps:
  assumes "distinct (map qi_executionId its)"
  shows "\<exists>es. fold (\<lambda>executionId (events, q). case queue_remove executionId q of (es, q) \<Rightarrow> (events @ es, q))
       (map qi_executionId its) (ev, \<lparr>cq_capacity = c, cq_queue = its\<rparr>)
     = (ev @ es, \<lparr>cq_capacity = c + int ((length its + 1) div 2), cq_queue = []\<rparr>)
     \<and> resolved es = map qi_resolve (every_second its)"
  using assms
proof (induction its arbitrary: ev c rule: every_second.induct)
  case (1 x y xs)
  have tl: "queue_remove (qi_executionId y) \<lparr>cq_capacity = c + 1, cq_queue = xs\<rparr> = ([], \<lparr>cq_capacity = c + 1, cq_queue = xs\<rparr>)"
    using 1(2) by (intro queue_remove_absent) auto
  let ?es = "[ExecutionReleased (qi_executionId y), Resolved (qi_resolve y)]"
  from 1(2) have "distinct (map qi_executionId xs)" by simp
  from 1(1) [OF this, of "ev @ ?es" "c + 1"] obtain es where
    "fold (\<lambda>executionId (events, q). case queue_remove executionId q of (es, q) \<Rightarrow> (events @ es, q))
       (map qi_executionId xs) (ev @ ?es, \<lparr>cq_capacity = c + 1, cq_queue = xs\<rparr>)
     = ((ev @ ?es) @ es, \<lparr>cq_capacity = c + 1 + int ((length xs + 1) div 2), cq_queue = []\<rparr>)"
    "resolved es = map qi_resolve (every_second xs)" by blast
  then show ?case by (intro exI [of _ "?es @ es"]) (simp add: queue_remove_head resolveNext_def tl)
qed (simp_all add: queue_remove_head resolveNext_def)

lemma remove_each_correct:
  assumes "distinct (map qi_executionId (cq_queue q))"
  shows "cq_queue (snd (remove_each q)) = []"
    and "cq_capacity (snd (remove_each q)) = cq_capacity q + int ((length (cq_queue q) + 1) div 2)"
    and "resolved (fst (remove_each q)) = map qi_resolve (every_second (cq_queue q))"
proof -
  have "q = \<lparr>cq_capacity = cq_capacity q, cq_queue = cq_queue q\<rparr>" by simp
  with remove_each_steps [OF assms, of "[]" "cq_capacity q"] set_of_distinct [OF assms]
  obtain es where "remove_each q = (es, \<lparr>cq_capacity = cq_capacity q + int ((length (cq_queue q) + 1) div 2), cq_queue = []\<rparr>)"
    "resolved es = map qi_resolve (every_second (cq_queue q))"
    unfolding remove_each_def queue_getAll_def by auto
  then show "cq_queue (snd (remove_each q)) = []"
    "cq_capacity (snd (remove_each q)) = cq_capacity q + int ((length (cq_queue q) + 1) div 2)"
    "resolved (fst (remove_each q)) = map qi_resolve (every_second (cq_queue q))" by simp_all
qed

section \<open>Which calls raise\<close>

text \<open>
  What the constructor establishes and the operations keep: the limits of the configuration are
  not zero, and the queues are missing in queue mode only, where the service stays off.
\<close>

definition service_ok :: "'r control_service \<Rightarrow> bool" where
  "service_ok s \<longleftrightarrow> scf_productionLimit (ccs_config s) \<noteq> 0 \<and> scf_evaluationLimit (ccs_config s) \<noteq> 0
     \<and> (ccs_queues s = None \<longleftrightarrow> scf_mode (ccs_config s) = ''queue'')
     \<and> (scf_mode (ccs_config s) = ''queue'' \<longrightarrow> \<not> ccs_isEnabled s)"

definition WorkflowExecuteModeList :: "string list" where
  "WorkflowExecuteModeList = [''cli'', ''error'', ''integrated'', ''internal'', ''manual'', ''retry'',
     ''trigger'', ''webhook'', ''evaluation'', ''chat'', ''agent'']"

definition known_mode :: "string \<Rightarrow> bool" where
  "known_mode mode \<longleftrightarrow> mode \<in> set unqueued_modes \<or> mode \<in> set production_modes \<or> mode = evaluation"

lemma normaliseLimit_returns: "limit \<noteq> 0 \<Longrightarrow> \<exists>n. normaliseLimit limit = Inr n \<and> n \<noteq> 0 \<and> -1 \<le> n"
  by (auto simp: normaliseLimit_def)

lemma new_service_ok:
  "new_service cfg = Inr s \<Longrightarrow> service_ok s"
  by (auto simp: new_service_def normaliseLimit_def service_ok_def Let_def split: if_splits)

lemma new_service_returns:
  "(\<exists>s. new_service cfg = Inr s) \<longleftrightarrow> scf_productionLimit cfg \<noteq> 0 \<and> scf_evaluationLimit cfg \<noteq> 0"
  by (auto simp: new_service_def normaliseLimit_def Let_def)

lemma evaluation_limit_nonzero:
  "scf_evaluationLimit cfg \<noteq> 0 \<Longrightarrow> resolveEvaluationConcurrencyLimit cfg l \<noteq> 0"
  by (auto simp: resolveEvaluationConcurrencyLimit_def readLicenseQuota_def EVALUATION_TIER_DEFAULTS_def
      split: option.splits if_splits)

lemma ensureEvalQueueResolved_returns:
  assumes "service_ok s"
  shows "\<exists>t. ensureEvalQueueResolved l s = Inr t \<and> service_ok t \<and> (ccs_isEnabled s \<longrightarrow> ccs_isEnabled t)"
proof (cases "ccs_evalQueueResolved s \<or> scf_mode (ccs_config s) = ''queue''")
  case True
  with assms show ?thesis by (auto simp: ensureEvalQueueResolved_def service_ok_def)
next
  case False
  from assms have "scf_evaluationLimit (ccs_config s) \<noteq> 0" by (simp add: service_ok_def)
  from normaliseLimit_returns [OF evaluation_limit_nonzero [OF this]] obtain n where
    n: "normaliseLimit (resolveEvaluationConcurrencyLimit (ccs_config s) l) = Inr n" by blast
  from False assms obtain qs where "ccs_queues s = Some qs" by (auto simp: service_ok_def)
  with False n assms show ?thesis
    by (auto simp: ensureEvalQueueResolved_def Let_def queues_of_def service_ok_def)
qed

lemma getQueue_returns: "service_ok s \<Longrightarrow> ccs_isEnabled s \<Longrightarrow> known_mode mode \<Longrightarrow> \<exists>q. getQueue mode s = Inr q"
  by (cases "ccs_queues s") (auto simp: getQueue_def queues_of_def service_ok_def known_mode_def)

lemma getQueue_unknown: "\<not> known_mode mode \<Longrightarrow> getQueue mode s = Inl (UnexpectedError ''Unknown execution mode'')"
  by (simp add: getQueue_def known_mode_def)

lemma put_queue_ok: "service_ok s \<Longrightarrow> service_ok (put_queue key q s)"
  by (simp add: service_ok_def put_queue_def)

lemma on_queue_returns:
  assumes ok: "service_ok s" and known: "known_mode mode"
  shows "\<exists>out t. on_queue l mode idle act s = Inr (out, t) \<and> service_ok t"
proof -
  obtain s' where s': "(if mode = evaluation then ensureEvalQueueResolved l s else Inr s) = Inr s'" "service_ok s'"
    using ensureEvalQueueResolved_returns [OF ok, of l] ok by (cases "mode = evaluation") auto
  show ?thesis
  proof (cases "ccs_isEnabled s'")
    case False
    with s' show ?thesis by (simp add: on_queue_def)
  next
    case True
    with getQueue_returns [OF s'(2) True known] obtain q where "getQueue mode s' = Inr q" by blast
    with s' True show ?thesis
      by (cases q) (auto simp: on_queue_def isUnlimited_def put_queue_ok split: prod.splits)
  qed
qed

lemma on_queue_unknown:
  assumes "ccs_isEnabled s" and "\<not> known_mode mode"
  shows "on_queue l mode idle act s = Inl (UnexpectedError ''Unknown execution mode'')"
  using assms getQueue_unknown [OF assms(2), of s]
  by (auto simp: on_queue_def isUnlimited_def known_mode_def)

end
