(* ===== verification/Service_Properties.thy ===== *)
theory Service_Properties
  imports Concurrency_Service
begin

text \<open>
  The properties of execution concurrency control: the running executions against the limit, the
  order of starts, what a cancellation and an emptied queue do, and which calls raise.
\<close>

text \<open>
  C24: Executions over one queue: after any sequence of arrivals, ends and cancellations the capacity
  of the queue is the limit less the running and the waiting executions; an execution waits only
  while at least as many executions run as the limit allows, and more than the limit run only
  if executions were cancelled while waiting.
\<close>

theorem concurrency_is_accounted:
  assumes "exec_step\<^sup>*\<^sup>* (empty_system limit) s"
  shows "cq_capacity (sys_queue s) = int limit - int (card (sys_running s)) - int (length (waiting s))
    \<and> (waiting s \<noteq> [] \<longrightarrow> limit \<le> card (sys_running s))
    \<and> card (sys_running s) \<le> limit + sys_cancelled s"
  using executions.reachable_ok [OF refl assms] exec_invD(5,6,7) by blast

definition sample_system :: "nat exec_system" where
  "sample_system = arrive ''c'' 3 (arrive ''b'' 2 (arrive ''a'' 1 (empty_system 1)))"

lemma sample_system_reachable: "exec_step\<^sup>*\<^sup>* (empty_system 1) sample_system"
proof -
  have "exec_step (empty_system 1) (arrive ''a'' 1 (empty_system 1) :: nat exec_system)"
    by (rule arrives) code_simp
  moreover have "exec_step (arrive ''a'' 1 (empty_system 1))
      (arrive ''b'' 2 (arrive ''a'' 1 (empty_system 1)) :: nat exec_system)"
    by (rule arrives) code_simp
  moreover have "exec_step (arrive ''b'' 2 (arrive ''a'' 1 (empty_system 1))) sample_system"
    unfolding sample_system_def by (rule arrives) code_simp
  ultimately show ?thesis by (meson converse_rtranclp_into_rtranclp rtranclp.rtrancl_refl)
qed

theorem concurrency_witness:
  "waiting sample_system \<noteq> [] \<and> 1 \<le> card (sys_running sample_system)
    \<and> cq_capacity (sys_queue sample_system) = int 1 - int (card (sys_running sample_system)) - int (length (waiting sample_system))
    \<and> card (sys_running sample_system) \<le> 1 + sys_cancelled sample_system"
proof -
  have "waiting sample_system \<noteq> []" by code_simp
  with concurrency_is_accounted [OF sample_system_reachable] show ?thesis by blast
qed

text \<open>
  C25: First come, first served: the executions that were started, followed by those that still wait,
  are a subsequence of the arrivals, so none is started twice and none overtakes another; what
  is missing in it are the executions cancelled while waiting.
\<close>

theorem executions_start_in_order:
  assumes "exec_step\<^sup>*\<^sup>* (empty_system limit) s"
  shows "subseq (sys_started s @ waiting s) (sys_arrived s) \<and> distinct (sys_arrived s)
    \<and> sys_running s \<subseteq> set (sys_started s)"
  using executions.reachable_ok [OF refl assms] exec_invD(2,3,4) by blast

theorem executions_order_witness:
  "subseq (sys_started sample_system @ waiting sample_system) (sys_arrived sample_system)
    \<and> distinct (sys_arrived sample_system) \<and> sys_running sample_system \<subseteq> set (sys_started sample_system)"
  by (rule executions_start_in_order [OF sample_system_reachable])

text \<open>
  The limit is not kept: cancelling a waiting execution starts the next one although no running
  execution has ended, so with a limit of one two executions can run at the same time.
\<close>

theorem cancelling_exceeds_the_limit:
  "\<exists>s :: nat exec_system. exec_step\<^sup>*\<^sup>* (empty_system 1) s \<and> card (sys_running s) = 2"
proof (intro exI conjI)
  show "exec_step\<^sup>*\<^sup>* (empty_system 1) (cancel ''b'' sample_system)"
    using sample_system_reachable cancels [of sample_system "''b''"] by (rule rtranclp.rtrancl_into_rtrancl)
  show "card (sys_running (cancel ''b'' sample_system)) = 2" by code_simp
qed

text \<open>
  Emptying a queue of executions with distinct ids: afterwards nothing waits, but every second
  waiting execution was started on the way instead of being removed.
\<close>

theorem emptying_starts_every_second:
  assumes "distinct (map qi_executionId (cq_queue q))"
  shows "cq_queue (snd (remove_each q)) = [] \<and> resolved (fst (remove_each q)) = map qi_resolve (every_second (cq_queue q))
    \<and> cq_capacity (snd (remove_each q)) = cq_capacity q + int ((length (cq_queue q) + 1) div 2)"
  using remove_each_correct [OF assms] by blast

theorem emptying_witness:
  "cq_queue (snd (remove_each (sys_queue sample_system))) = []
    \<and> resolved (fst (remove_each (sys_queue sample_system))) = map qi_resolve (every_second (cq_queue (sys_queue sample_system)))
    \<and> cq_capacity (snd (remove_each (sys_queue sample_system)))
        = cq_capacity (sys_queue sample_system) + int ((length (cq_queue (sys_queue sample_system)) + 1) div 2)"
  by (rule emptying_starts_every_second) code_simp

text \<open>
  A service that was constructed from valid limits and is on serves a listed execution mode
  exactly when the mode is not the agent mode: throttling an execution of that mode raises.
\<close>

theorem only_the_agent_mode_is_refused:
  assumes "service_ok s" and "ccs_isEnabled s" and "mode \<in> set WorkflowExecuteModeList"
  shows "(\<exists>out. throttle l mode executionId r s = Inr out) \<longleftrightarrow> mode \<noteq> ''agent''"
proof (cases "known_mode mode")
  case True
  then have "mode \<noteq> ''agent''" by (auto simp: known_mode_def unqueued_modes_def production_modes_def)
  moreover have "\<exists>out. throttle l mode executionId r s = Inr out"
    unfolding throttle_def using on_queue_returns [OF assms(1) True, of l "(False, [])"] by metis
  ultimately show ?thesis by simp
next
  case False
  with assms(3) have "mode = ''agent''"
    by (auto simp: known_mode_def unqueued_modes_def production_modes_def WorkflowExecuteModeList_def)
  then show ?thesis unfolding throttle_def on_queue_unknown [OF assms(2) False] by simp
qed

definition sample_config :: service_config where
  "sample_config = \<lparr>scf_mode = ''regular'', scf_productionLimit = 1, scf_evaluationLimit = -1,
     scf_deployment = ''default'', scf_evaluationEnvSet = False\<rparr>"

definition sample_service :: "nat control_service" where
  "sample_service = \<lparr>ccs_config = sample_config, ccs_isEnabled = True,
     ccs_limits = [(production, 1), (evaluation, -1)], ccs_queues = Some [(production, new_queue 1)],
     ccs_evalQueueResolved = False\<rparr>"

definition sample_license :: license where
  "sample_license = \<lparr>lic_quota = None, lic_planName = ''Community''\<rparr>"

lemma sample_service_ok: "service_ok sample_service" "ccs_isEnabled sample_service"
  "new_service sample_config = Inr sample_service"
  by code_simp+

theorem agent_mode_witness:
  "(\<exists>out. throttle sample_license ''agent'' ''x'' 1 sample_service = Inr out) \<longleftrightarrow> ''agent'' \<noteq> ''agent''"
  by (rule only_the_agent_mode_is_refused [OF sample_service_ok(1,2)]) code_simp

text \<open>
  On the way down nothing is cancelled: once the service is switched off, as the shutdown does
  first, emptying the queues returns at once, and the executions that it was to cancel are not
  passed on to the execution repository.
\<close>

theorem shutdown_cancels_nothing:
  "removeAll executionIdsToCancel (disable s) = Inr ([], [], disable s)"
  by (simp add: removeAll_def disable_def)

text \<open>
  A reservation is given back: reserving a free slot of a service and releasing the reservation
  leaves the service and the reservation as they were.
\<close>

theorem reservation_roundtrip:
  assumes "ccs_isEnabled s" and "mode \<in> set production_modes"
    and "ccs_queues s = Some qs" and "map_of qs production = Some q"
    and "0 < cq_capacity q" and "cq_queue q = []" and "acquiredReservation res = None"
  shows "\<exists>events t. reserve l (executionId, mode) r res s = Inr ((False, events), t)
    \<and> release_reservation l (reserved (executionId, mode) res) t = Inr (res, [], s)"
proof -
  have mode: "mode \<noteq> evaluation" "mode \<notin> set unqueued_modes"
    using assms(2) by (auto simp: production_modes_def unqueued_modes_def)
  have queue: "getQueue mode t = Inr (Some (production, p))"
    if "ccs_queues t = Some ps" "map_of ps production = Some p" for t :: "'a control_service" and ps p
    using mode assms(2) that by (simp add: getQueue_def queues_of_def)
  let ?q = "q\<lparr>cq_capacity := cq_capacity q - 1\<rparr>"
  let ?t = "s\<lparr>ccs_queues := Some (map_set production ?q qs)\<rparr>"
  have "reserve l (executionId, mode) r res s = Inr ((False, [ConcurrencyCheck (cq_capacity q - 1)]), ?t)"
    using assms mode queue [OF assms(3,4)]
    by (simp add: reserve_def throttle_def on_queue_def isUnlimited_def put_queue_def enqueue_def Let_def)
  moreover have "release l mode ?t = Inr ([], s)"
  proof -
    have "ccs_queues ?t = Some (map_set production ?q qs)" "map_of (map_set production ?q qs) production = Some ?q"
      by (simp_all add: update_conv)
    moreover have "s\<lparr>ccs_queues := Some qs\<rparr> = s" using assms(3) by (cases s) simp
    ultimately show ?thesis using queue assms mode
      by (simp add: release_def on_queue_def isUnlimited_def put_queue_def dequeue_def resolveNext_def
          update_same)
  qed
  ultimately show ?thesis using assms(7) by (auto simp: release_reservation_def reserved_def)
qed

theorem reservation_witness:
  "\<exists>events t. reserve sample_license (''x'', ''webhook'') 1 \<lparr>acquiredReservation = None\<rparr> sample_service = Inr ((False, events), t)
    \<and> release_reservation sample_license (reserved (''x'', ''webhook'') \<lparr>acquiredReservation = None\<rparr>) t
        = Inr (\<lparr>acquiredReservation = None\<rparr>, [], sample_service)"
  by (rule reservation_roundtrip [where qs = "[(production, new_queue 1)]" and q = "new_queue 1"]) code_simp+

end
