(* ===== verification/Engine_Requests.thy ===== *)
theory Engine_Requests
  imports Execution_Indices
begin

text \<open>
  Requests of a node to the engine, from \<^verbatim>\<open>packages/core/src/execution-engine/requests-response.ts\<close> and
  \<^verbatim>\<open>workflow-execute.ts\<close>: instead of data a node (an agent) may return actions, each of them a node to
  run and the input for it. The engine gives every action a slot in the run data of its node, puts
  the requesting node and the requested nodes onto the stack, and hands the run data in the slots
  to the requesting node when its turn comes again. The preparation changes nodes and run data
  before it may raise an error, so its result is the changed state together with the error or the
  entries. An index that is absent reads as undefined; the list of runs of a node is created
  together with its first run and is never empty.
\<close>

section \<open>Requests\<close>

record engine_action =
  act_nodeName :: string
  act_input :: data_object
  act_type :: string
  act_id :: string
  act_metadata :: "data_object option"

record engine_request =
  rq_actions :: "engine_action list"
  rq_metadata :: data_object

record node_to_run =
  nb_connection :: iconnection
  nb_outputIndex :: nat
  nb_parentNode :: string
  nb_parentData :: "node_data option"
  nb_runIndex :: nat
  nb_nodeRunIndex :: nat
  nb_metadata :: "data_object option"

text \<open>The objects that are kept in the metadata of a stack entry, as JSON values.\<close>

definition source_json :: "source_data \<Rightarrow> json" where
  "source_json src = JObj ([(''previousNode'', JStr (previousNode src))]
     @ (case previousNodeOutput src of None \<Rightarrow> [] | Some i \<Rightarrow> [(''previousNodeOutput'', JNum (int i))])
     @ (case previousNodeRun src of None \<Rightarrow> [] | Some i \<Rightarrow> [(''previousNodeRun'', JNum (int i))]))"

definition action_json :: "engine_action \<Rightarrow> json" where
  "action_json a = JObj ([(''actionType'', JStr ''ExecutionNodeAction''), (''nodeName'', JStr (act_nodeName a)),
     (''input'', JObj (act_input a)), (''type'', JStr (act_type a)), (''id'', JStr (act_id a))]
     @ (case act_metadata a of None \<Rightarrow> [] | Some m \<Rightarrow> [(''metadata'', JObj m)]))"

definition slot_json :: "engine_action \<Rightarrow> nat \<Rightarrow> json" where
  "slot_json a i = JObj [(''action'', action_json a), (''nodeName'', JStr (act_nodeName a)), (''runIndex'', JNum (int i))]"

section \<open>The requested nodes\<close>

text \<open>\<^verbatim>\<open>executionData.source?.main?.[i]\<close>.\<close>

definition main_source :: "execute_data \<Rightarrow> nat \<Rightarrow> source_data option" where
  "main_source e i = Option.bind (ex_source e) (\<lambda>sources. Option.bind (map_of sources Main_type) (\<lambda>xs.
     Option.bind (arr_get xs i) (\<lambda>src. src)))"

text \<open>The parent an action names, and whether it counts in a condition.\<close>

definition parent_name :: "engine_action \<Rightarrow> string option" where
  "parent_name a = Option.bind (act_metadata a) (\<lambda>m. string_field ''parentNodeName'' (JObj m))"

definition custom_parent :: "engine_action \<Rightarrow> bool" where
  "custom_parent a \<longleftrightarrow> (case parent_name a of None \<Rightarrow> False | Some nm \<Rightarrow> nm \<noteq> [])"

definition buildParentOutputData :: "data_object \<Rightarrow> nat \<Rightarrow> nat \<Rightarrow> string \<Rightarrow> node_data" where
  "buildParentOutputData json parentRunIndex parentOutputIndex parentSourceNode =
     [Some [\<lparr>item_json = json, item_pairedItem = Some (PairedOne
        \<lparr>paired_item = parentRunIndex, paired_input = Some parentOutputIndex,
         paired_sourceOverwrite = Some (source_entry parentSourceNode parentOutputIndex parentRunIndex)\<rparr>),
        item_error = None\<rparr>]]"

definition placeholder :: "source_data \<Rightarrow> node_data \<Rightarrow> task_data" where
  "placeholder src displayOutputData =
     \<lparr>td_executionIndex = Some 0, td_source = [Some src], td_executionStatus = None, td_data = None,
      td_inputOverride = Some [(AiTool_type, displayOutputData)], td_error = None, td_metadata = None\<rparr>"

text \<open>The index of the new run of the node, and the run data with it.\<close>

definition initializeNodeRunData ::
    "run_data \<Rightarrow> string \<Rightarrow> string \<Rightarrow> nat \<Rightarrow> nat \<Rightarrow> engine_action \<Rightarrow> nat \<Rightarrow> node_data \<Rightarrow> nat \<times> run_data" where
  "initializeNodeRunData runData nodeName parentNode parentOutputIndex parentRunIndex a runIndex displayOutputData =
     (let runs = get_or [] (map_of runData nodeName);
          src = source_entry parentNode parentOutputIndex (if custom_parent a then parentRunIndex else runIndex)
      in (length runs, obj_put nodeName (runs @ [placeholder src displayOutputData]) runData))"

definition parent_run :: "run_data \<Rightarrow> string \<Rightarrow> source_data option \<Rightarrow> engine_action \<Rightarrow> nat" where
  "parent_run runData parentNode src a =
     (if custom_parent a then (case map_of runData parentNode of None \<Rightarrow> 1 | Some runs \<Rightarrow> length runs) - 1
      else get_or 0 (Option.bind src previousNodeRun))"

text \<open>The item of the first main input that an action is about.\<close>

definition agent_item :: "execute_data \<Rightarrow> engine_action \<Rightarrow> data_object" where
  "agent_item e a =
     (let itemIndex = get_or 0 (Option.bind (act_metadata a) (\<lambda>m. Option.bind (map_of m ''itemIndex'') json_nat));
          input = Option.bind (map_of (ex_data e) Main_type) (\<lambda>xs. Option.bind (arr_get xs 0) (\<lambda>x. x))
      in get_or [] (map_option item_json (Option.bind input (\<lambda>items. arr_get items itemIndex))))"

definition preserved_source :: "execute_data \<Rightarrow> source_data \<Rightarrow> json" where
  "preserved_source e fallback =
     (case Option.bind (ex_metadata e) (\<lambda>m. map_of m ''preservedSourceOverwrite'') of
        None \<Rightarrow> source_json fallback | Some JNull \<Rightarrow> source_json fallback | Some v \<Rightarrow> v)"

definition prepare_action ::
    "inode \<Rightarrow> nat \<Rightarrow> execute_data \<Rightarrow> inode \<Rightarrow> engine_action \<Rightarrow> run_data \<Rightarrow> (node_to_run \<times> json) \<times> run_data" where
  "prepare_action currentNode runIndex e n a runData =
     (let src = main_source e runIndex;
          defaultOutput = get_or 0 (Option.bind src previousNodeOutput);
          defaultSource = (case src of None \<Rightarrow> node_name currentNode | Some s \<Rightarrow> previousNode s);
          parentNode = get_or (node_name currentNode) (parent_name a);
          parentRunIndex = parent_run runData parentNode src a;
          mergedJson = obj_put ''toolCallId'' (JStr (act_id a)) (spread_onto (agent_item e a) (act_input a));
          parentOutputData = buildParentOutputData mergedJson parentRunIndex defaultOutput defaultSource;
          displayOutputData = buildParentOutputData (act_input a) parentRunIndex defaultOutput defaultSource;
          (nodeRunIndex, runData') = initializeNodeRunData runData (node_name n) parentNode defaultOutput parentRunIndex
             a runIndex displayOutputData
      in ((\<lparr>nb_connection = \<lparr>conn_node = act_nodeName a, conn_type = act_type a, conn_index = 0\<rparr>,
            nb_outputIndex = 0, nb_parentNode = parentNode, nb_parentData = Some parentOutputData,
            nb_runIndex = (if custom_parent a then parentRunIndex else runIndex), nb_nodeRunIndex = nodeRunIndex,
            nb_metadata = Some [(''preserveSourceOverwrite'', JBool True),
              (''preservedSourceOverwrite'', preserved_source e (source_entry defaultSource defaultOutput parentRunIndex))]\<rparr>,
           slot_json a nodeRunIndex), runData'))"

text \<open>\<^verbatim>\<open>node.rewireOutputLogTo = action.type\<close>: the node is the object in the workflow.\<close>

definition rewire_node :: "string \<Rightarrow> string \<Rightarrow> workflow \<Rightarrow> workflow" where
  "rewire_node nm ty w = (case getNode w nm of None \<Rightarrow> w
     | Some n \<Rightarrow> w\<lparr>wf_nodes := obj_put nm (n\<lparr>node_rewireOutputLogTo := Some ty\<rparr>) (wf_nodes w)\<rparr>)"

primrec prepareRequestedNodesForExecution ::
    "inode \<Rightarrow> nat \<Rightarrow> execute_data \<Rightarrow> engine_action list \<Rightarrow> workflow \<times> run_data
      \<Rightarrow> (workflow \<times> run_data) \<times> (node_to_run \<times> json) list result" where
  "prepareRequestedNodesForExecution currentNode runIndex e [] st = (st, Inr [])"
| "prepareRequestedNodesForExecution currentNode runIndex e (a # as) st =
     (case getNode (fst st) (act_nodeName a) of
        None \<Rightarrow> (st, Inl (UnexpectedError ''Workflow does not contain a node with the name''))
      | Some n \<Rightarrow>
          let (entry, runData) = prepare_action currentNode runIndex e n a (snd st);
              (st', rest) = prepareRequestedNodesForExecution currentNode runIndex e as
                (rewire_node (act_nodeName a) (act_type a) (fst st), runData)
          in (st', res_bind rest (\<lambda>entries. Inr (entry # entries))))"

section \<open>The requesting node\<close>

definition prepareRequestingNodeForResuming :: "execute_data \<Rightarrow> (iconnection \<times> string \<times> data_object) option" where
  "prepareRequestingNodeForResuming e =
     (case map_option previousNode (main_source e 0) of
        None \<Rightarrow> None
      | Some parentNode \<Rightarrow>
          if parentNode = [] then None
          else let metadata = (if has_key ''preservedSourceOverwrite'' (ex_metadata e)
                    \<and> has_key ''preserveSourceOverwrite'' (ex_metadata e)
                  then [(''preserveSourceOverwrite'', JBool True), (''preservedSourceOverwrite'',
                    get_or JNull (Option.bind (ex_metadata e) (\<lambda>m. map_of m ''preservedSourceOverwrite'')))]
                  else [])
               in Some (\<lparr>conn_node = node_name (ex_node e), conn_type = AiTool_type, conn_index = 0\<rparr>, parentNode, metadata))"

definition resumed_metadata :: "json list \<Rightarrow> data_object \<Rightarrow> data_object \<Rightarrow> data_object" where
  "resumed_metadata actions requestMetadata metadata =
     [(''nodeWasResumed'', JBool True),
      (''subNodeExecutionData'', JObj [(''actions'', JArr actions), (''metadata'', JObj requestMetadata)])] @ metadata"

definition handleRequest ::
    "workflow \<Rightarrow> inode \<Rightarrow> engine_request \<Rightarrow> nat \<Rightarrow> execute_data \<Rightarrow> run_data
      \<Rightarrow> (workflow \<times> run_data) \<times> node_to_run list result" where
  "handleRequest w currentNode request runIndex e runData =
     (let (st, prepared) = prepareRequestedNodesForExecution currentNode runIndex e (rq_actions request) (w, runData)
      in (st, res_bind prepared (\<lambda>entries.
           case prepareRequestingNodeForResuming e of
             None \<Rightarrow> Inr []
           | Some (connection, parentNode, metadata) \<Rightarrow>
               Inr (\<lparr>nb_connection = connection, nb_outputIndex = 0, nb_parentNode = parentNode,
                     nb_parentData = map_of (ex_data e) Main_type, nb_runIndex = runIndex, nb_nodeRunIndex = runIndex,
                     nb_metadata = Some (resumed_metadata (map snd entries) (rq_metadata request) metadata)\<rparr>
                    # map fst entries))))"

section \<open>The stack\<close>

text \<open>
  The entries on the stack hold the node objects of the workflow, told apart by their identity.
\<close>

definition share_node :: "workflow \<Rightarrow> execute_data \<Rightarrow> execute_data" where
  "share_node w e = (case find (\<lambda>n. node_ref n = node_ref (ex_node e)) (map snd (wf_nodes w)) of
     None \<Rightarrow> e | Some n \<Rightarrow> e\<lparr>ex_node := n\<rparr>)"

definition schedule :: "workflow \<Rightarrow> node_to_run \<Rightarrow> exec_state \<Rightarrow> exec_state result" where
  "schedule w n s = (case nb_parentData n of
     None \<Rightarrow> Inl (TypeError ''nodeSuccessData'')
   | Some outs \<Rightarrow> addNodeToBeExecuted w (nb_connection n) (nb_outputIndex n) (nb_parentNode n) (Some outs) (nb_runIndex n)
       (Some (nb_nodeRunIndex n)) (nb_metadata n) s)"

text \<open>The workflow and the state after the preparation, and the state with the entries scheduled.\<close>

definition handleEngineRequest ::
    "workflow \<Rightarrow> inode \<Rightarrow> engine_request \<Rightarrow> nat \<Rightarrow> execute_data \<Rightarrow> exec_state
      \<Rightarrow> workflow \<times> exec_state \<times> exec_state result" where
  "handleEngineRequest w currentNode request runIndex e s =
     (let ((w', runData), nodes) = handleRequest w currentNode request runIndex e (xs_runData s);
          s' = s\<lparr>xs_runData := runData, xs_stack := map (share_node w') (xs_stack s)\<rparr>
      in (w', s', res_bind nodes (\<lambda>nodes. for_each (schedule w') nodes s')))"

section \<open>The responses\<close>

text \<open>
  The actions a resumed node asked for, each with the run data in its slot; a slot without a run is
  left out.
\<close>

definition slots_in :: "data_object option \<Rightarrow> json list" where
  "slots_in metadata =
     (case Option.bind metadata (\<lambda>m. map_of m ''subNodeExecutionData'') of
        Some (JObj m) \<Rightarrow> (case map_of m ''actions'' of Some (JArr slots) \<Rightarrow> slots | _ \<Rightarrow> []) | _ \<Rightarrow> [])"

definition response_of :: "run_data \<Rightarrow> json \<Rightarrow> (json \<times> task_data) option" where
  "response_of runData slot =
     (case slot of
        JObj m \<Rightarrow> Option.bind (map_of m ''action'') (\<lambda>action.
          Option.bind (string_field ''nodeName'' slot) (\<lambda>nm.
          Option.bind (Option.bind (map_of m ''runIndex'') json_nat) (\<lambda>i.
          Option.bind (map_of runData nm) (\<lambda>runs.
          map_option (Pair action) (arr_get runs i)))))
      | _ \<Rightarrow> None)"

definition action_responses :: "data_object option \<Rightarrow> run_data \<Rightarrow> (json \<times> task_data) list" where
  "action_responses metadata runData = List.map_filter (response_of runData) (slots_in metadata)"

text \<open>
  The tries of a resumed node. \<open>responses\<close> are the responses that the run data holds; every try adds
  them to those already in \<open>given\<close>, and the calls that repeat a call with failed data are made without
  any. The result lists what each call is given.
\<close>

datatype call_outcome = Answers "node_data option" | Requests engine_request | Fails json

function given_responses :: "(nat \<Rightarrow> call_outcome) \<Rightarrow> 'r list \<Rightarrow> bool \<Rightarrow> nat \<Rightarrow> nat \<Rightarrow> 'r list \<Rightarrow> 'r list list" where
  "given_responses run responses again left k given =
     (let given' = (if again then given else given @ responses);
          now = (if again then [] else given')
      in now # (case run k of
           Fails err \<Rightarrow> if left = 0 then [] else given_responses run responses False (left - 1) (k + 1) given'
         | Requests request \<Rightarrow> []
         | Answers data \<Rightarrow>
             let left' = (if again then left - 1 else left)
             in if failed_data data \<and> left' \<noteq> 0 then given_responses run responses True left' (k + 1) given'
                else []))"
  by pat_completeness auto
termination
  by (relation "measure (\<lambda>(run, responses, again, left, k, given). 2 * left + (if again then 0 else 1))")
    (auto split: if_splits)

declare given_responses.simps [simp del]

end
