(* ===== verification/Requests_Correct.thy ===== *)
theory Requests_Correct
  imports Engine_Requests
begin

text \<open>
  What a request leaves in the run data and on the stack: the slots of its actions, counted by the
  runs their nodes have already, the placeholders in them, and the responses read back from them.
\<close>

section \<open>Slots\<close>

definition tasks_of :: "run_data \<Rightarrow> string \<Rightarrow> task_data list" where
  "tasks_of runData nm = get_or [] (map_of runData nm)"

definition task_at :: "run_data \<Rightarrow> string \<times> nat \<Rightarrow> task_data option" where
  "task_at runData slot = arr_get (tasks_of runData (fst slot)) (snd slot)"

text \<open>The slots for nodes in order, when each node has \<open>base\<close> runs: the next free index of each.\<close>

primrec slots_from :: "(string \<Rightarrow> nat) \<Rightarrow> string list \<Rightarrow> (string \<times> nat) list" where
  "slots_from base [] = []"
| "slots_from base (nm # nms) = (nm, base nm) # slots_from (base(nm := Suc (base nm))) nms"

abbreviation action_nodes :: "engine_action list \<Rightarrow> string list" where
  "action_nodes as \<equiv> map act_nodeName as"

definition request_slots :: "run_data \<Rightarrow> engine_action list \<Rightarrow> (string \<times> nat) list" where
  "request_slots runData as = slots_from (\<lambda>nm. length (tasks_of runData nm)) (action_nodes as)"

lemma slots_from_range:
  "(nm, i) \<in> set (slots_from base nms) \<Longrightarrow> base nm \<le> i \<and> i < base nm + count_list nms nm"
  by (induction nms arbitrary: base) (fastforce split: if_splits)+

lemma slots_from_distinct: "distinct (slots_from base nms)"
proof (induction nms arbitrary: base)
  case (Cons nm nms)
  have "(nm, base nm) \<notin> set (slots_from (base(nm := Suc (base nm))) nms)"
    using slots_from_range [of nm "base nm" "base(nm := Suc (base nm))" nms] by auto
  with Cons.IH show ?case by simp
qed simp

lemma slots_from_length [simp]: "length (slots_from base nms) = length nms"
  by (induction nms arbitrary: base) auto

lemma slots_from_names: "map fst (slots_from base nms) = nms"
  by (induction nms arbitrary: base) auto

lemma tasks_of_put: "tasks_of (obj_put k v runData) nm = (if nm = k then v else tasks_of runData nm)"
  by (simp add: tasks_of_def js_obj.lookup_put get_or_def)

lemma task_at_lookup: "task_at runData (nm, i) = Option.bind (map_of runData nm) (\<lambda>runs. arr_get runs i)"
  by (simp add: task_at_def tasks_of_def get_or_def arr_get_def split: option.split)

section \<open>Placeholders\<close>

definition is_placeholder :: "task_data \<Rightarrow> bool" where
  "is_placeholder t \<longleftrightarrow> td_data t = None \<and> td_executionStatus t = None \<and> td_error t = None \<and> td_inputOverride t \<noteq> None"

lemma placeholder_is: "is_placeholder (placeholder src display)"
  by (simp add: is_placeholder_def placeholder_def)

text \<open>The runs of every node are followed by one placeholder for each action on the node.\<close>

definition reserves :: "string list \<Rightarrow> run_data \<Rightarrow> run_data \<Rightarrow> bool" where
  "reserves nms runData runData' \<longleftrightarrow> (\<forall>nm. \<exists>ts. tasks_of runData' nm = tasks_of runData nm @ ts
     \<and> length ts = count_list nms nm \<and> list_all is_placeholder ts)"

lemma reserves_refl: "reserves [] runData runData"
  by (simp add: reserves_def)

lemma reserves_step:
  assumes "is_placeholder t" and "reserves nms (obj_put nm (tasks_of runData nm @ [t]) runData) runData'"
  shows "reserves (nm # nms) runData runData'"
  unfolding reserves_def
proof
  fix nm'
  from assms(2) obtain ts where ts: "tasks_of runData' nm' = tasks_of (obj_put nm (tasks_of runData nm @ [t]) runData) nm' @ ts"
    "length ts = count_list nms nm'" "list_all is_placeholder ts" by (auto simp: reserves_def)
  show "\<exists>ts. tasks_of runData' nm' = tasks_of runData nm' @ ts \<and> length ts = count_list (nm # nms) nm' \<and> list_all is_placeholder ts"
  proof (cases "nm' = nm")
    case True
    with ts assms(1) show ?thesis by (intro exI [of _ "t # ts"]) (simp add: tasks_of_put)
  next
    case False
    with ts show ?thesis by (intro exI [of _ ts]) (auto simp: tasks_of_put)
  qed
qed

lemma reserves_lengths:
  "reserves nms runData runData' \<Longrightarrow> length (tasks_of runData' nm) = length (tasks_of runData nm) + count_list nms nm"
  unfolding reserves_def by (metis length_append)

lemma reserved_slot:
  assumes "reserves nms runData runData'" and "(nm, i) \<in> set (slots_from (\<lambda>nm. length (tasks_of runData nm)) nms)"
  obtains t where "task_at runData' (nm, i) = Some t" "is_placeholder t"
proof -
  from slots_from_range [OF assms(2)]
  have i: "length (tasks_of runData nm) \<le> i" "i < length (tasks_of runData nm) + count_list nms nm" by auto
  from assms(1) obtain ts where ts: "tasks_of runData' nm = tasks_of runData nm @ ts" "length ts = count_list nms nm"
    "list_all is_placeholder ts" by (auto simp: reserves_def)
  let ?t = "ts ! (i - length (tasks_of runData nm))"
  have "task_at runData' (nm, i) = Some ?t" using i ts by (simp add: task_at_def arr_get_def nth_append)
  moreover have "is_placeholder ?t" using i ts by (auto simp: list_all_length)
  ultimately show thesis by (rule that)
qed

section \<open>Preparation\<close>

definition nodes_named :: "workflow \<Rightarrow> bool" where
  "nodes_named w \<longleftrightarrow> (\<forall>nm n. getNode w nm = Some n \<longrightarrow> node_name n = nm)"

definition knows :: "workflow \<Rightarrow> engine_action \<Rightarrow> bool" where
  "knows w a \<longleftrightarrow> getNode w (act_nodeName a) \<noteq> None"

lemma workflow_wf_named: "workflow_wf w \<Longrightarrow> nodes_named w"
  by (auto simp: workflow_wf_def nodes_named_def getNode_def dest: map_of_SomeD)

lemma getNode_rewire: "getNode (rewire_node nm ty w) nm' =
    (if nm' = nm then map_option (\<lambda>n. n\<lparr>node_rewireOutputLogTo := Some ty\<rparr>) (getNode w nm) else getNode w nm')"
  by (auto simp: rewire_node_def getNode_def js_obj.lookup_put split: option.split)

lemma nodes_named_rewire: "nodes_named w \<Longrightarrow> nodes_named (rewire_node nm ty w)"
  by (auto simp: nodes_named_def getNode_rewire split: if_splits)

lemma knows_rewire [simp]: "knows (rewire_node nm ty w) a = knows w a"
  by (auto simp: knows_def getNode_rewire)

lemma prepare_action_result:
  assumes "prepare_action cur r e n a runData = ((entry, slot), runData')"
  shows "nb_connection entry = \<lparr>conn_node = act_nodeName a, conn_type = act_type a, conn_index = 0\<rparr>"
    and "nb_nodeRunIndex entry = length (tasks_of runData (node_name n))" and "nb_outputIndex entry = 0"
    and "slot = slot_json a (nb_nodeRunIndex entry)" and "nb_parentData entry \<noteq> None"
    and "\<exists>t. is_placeholder t \<and> runData' = obj_put (node_name n) (tasks_of runData (node_name n) @ [t]) runData"
  using assms placeholder_is
  by (auto simp: prepare_action_def Let_def initializeNodeRunData_def tasks_of_def)

text \<open>The actions before the first unknown node are prepared in any case.\<close>

lemma prepared_state:
  assumes "nodes_named w"
    and "prepareRequestedNodesForExecution cur r e as (w, runData) = ((w', runData'), res)"
  shows "reserves (action_nodes (takeWhile (knows w) as)) runData runData'
    \<and> (if list_all (knows w) as then \<exists>entries. res = Inr entries
       else res = Inl (UnexpectedError ''Workflow does not contain a node with the name''))"
  using assms
proof (induction as arbitrary: w runData w' runData' res)
  case Nil
  then show ?case by (auto simp: reserves_refl)
next
  case (Cons a as)
  show ?case
  proof (cases "getNode w (act_nodeName a)")
    case None
    with Cons.prems(2) show ?thesis by (auto simp: knows_def reserves_refl)
  next
    case (Some n)
    obtain entry slot rd1 where pa: "prepare_action cur r e n a runData = ((entry, slot), rd1)"
      by (metis surj_pair)
    let ?w1 = "rewire_node (act_nodeName a) (act_type a) w"
    obtain w2 rd2 rest where rec: "prepareRequestedNodesForExecution cur r e as (?w1, rd1) = ((w2, rd2), rest)"
      by (metis surj_pair)
    from Cons.prems(2) Some pa rec have res: "runData' = rd2" "res = res_bind rest (\<lambda>entries. Inr ((entry, slot) # entries))"
      by (auto simp: Let_def)
    have kn: "knows ?w1 = knows w" by (rule ext) simp
    have nm: "node_name n = act_nodeName a" using Cons.prems(1) Some by (simp add: nodes_named_def)
    from prepare_action_result(6) [OF pa] obtain t where t: "is_placeholder t"
      "rd1 = obj_put (act_nodeName a) (tasks_of runData (act_nodeName a) @ [t]) runData" by (auto simp: nm)
    have k: "knows w a" using Some by (simp add: knows_def)
    from Cons.IH [OF nodes_named_rewire [OF Cons.prems(1)] rec]
    have IH: "reserves (action_nodes (takeWhile (knows w) as)) rd1 rd2"
      "if list_all (knows w) as then \<exists>entries. rest = Inr entries
       else rest = Inl (UnexpectedError ''Workflow does not contain a node with the name'')"
      by (simp_all add: kn)
    from reserves_step [OF t(1) IH(1) [unfolded t(2)]] IH(2) k show ?thesis
      by (auto simp: res split: if_splits)
  qed
qed

lemma prepared_entries:
  assumes "nodes_named w"
    and "prepareRequestedNodesForExecution cur r e as (w, runData) = (st, Inr entries)"
  shows "map (\<lambda>(n, _). (conn_node (nb_connection n), nb_nodeRunIndex n)) entries = request_slots runData as
    \<and> map snd entries = map2 (\<lambda>a (_, i). slot_json a i) as (request_slots runData as)
    \<and> list_all (\<lambda>(n, _). conn_index (nb_connection n) = 0 \<and> nb_outputIndex n = 0 \<and> nb_parentData n \<noteq> None) entries"
  using assms
proof (induction as arbitrary: w runData st entries)
  case Nil
  then show ?case by (simp add: request_slots_def)
next
  case (Cons a as)
  from Cons.prems obtain n where n: "getNode w (act_nodeName a) = Some n"
    by (auto simp: Let_def split: option.splits)
  obtain entry slot rd1 where pa: "prepare_action cur r e n a runData = ((entry, slot), rd1)" by (metis surj_pair)
  let ?w1 = "rewire_node (act_nodeName a) (act_type a) w"
  obtain st2 rest where rec: "prepareRequestedNodesForExecution cur r e as (?w1, rd1) = (st2, rest)" by (metis surj_pair)
  from Cons.prems n pa rec obtain es where es: "rest = Inr es" "entries = (entry, slot) # es"
    by (auto simp: Let_def res_bind_eq_Inr)
  have nm: "node_name n = act_nodeName a" using Cons.prems(1) n by (simp add: nodes_named_def)
  note pr = prepare_action_result [OF pa, unfolded nm]
  from pr(6) obtain t where t: "rd1 = obj_put (act_nodeName a) (tasks_of runData (act_nodeName a) @ [t]) runData" by blast
  have "(\<lambda>nm. length (tasks_of rd1 nm))
      = (\<lambda>nm. length (tasks_of runData nm))(act_nodeName a := Suc (length (tasks_of runData (act_nodeName a))))"
    by (auto simp: t tasks_of_put)
  then have slots: "request_slots runData (a # as) = (act_nodeName a, length (tasks_of runData (act_nodeName a))) # request_slots rd1 as"
    by (simp add: request_slots_def)
  from Cons.IH [OF nodes_named_rewire [OF Cons.prems(1)] rec [unfolded es]] pr es show ?case
    by (simp add: slots)
qed

section \<open>Responses\<close>

lemma response_of_slot:
  "response_of runData (slot_json a i) = map_option (Pair (action_json a)) (task_at runData (act_nodeName a, i))"
  by (simp add: response_of_def slot_json_def string_field_def task_at_lookup Option.bind_map_option
      split: option.split bind_splits)

lemma responses_of_slots:
  assumes "length slots = length as" and "map fst slots = action_nodes as"
    and "\<And>slot. slot \<in> set slots \<Longrightarrow> task_at runData slot = Some (task slot)"
  shows "List.map_filter (response_of runData) (map2 (\<lambda>a (_, i). slot_json a i) as slots)
    = map2 (\<lambda>a slot. (action_json a, task slot)) as slots"
  using assms
proof (induction slots as rule: list_induct2)
  case (Cons slot slots a as)
  then have "task_at runData (act_nodeName a, snd slot) = Some (task slot)" by (cases slot) auto
  with Cons show ?case by (cases slot) (simp add: map_filter_simps response_of_slot)
qed (simp add: map_filter_simps)

lemma slots_in_resumed: "slots_in (Some (resumed_metadata slots requestMetadata metadata)) = slots"
  by (simp add: slots_in_def resumed_metadata_def)

lemma tasks_of_store:
  "arr_get (tasks_of runData nm) i = Some old \<Longrightarrow> tasks_of (store_task nm i t runData) nm' =
    (if nm' = nm then (tasks_of runData nm)[i := assign_task old t] else tasks_of runData nm')"
  by (simp add: store_task_def Let_def tasks_of_put flip: tasks_of_def)

lemma task_at_store:
  "task_at runData slot = Some old \<Longrightarrow> task_at (store_task (fst slot) (snd slot) t runData) slot' =
    (if slot' = slot then Some (assign_task old t) else task_at runData slot')"
  by (cases slot; cases slot') (auto simp: task_at_def tasks_of_store arr_get_def nth_list_update split: if_splits)

text \<open>Storing each slot once, in whatever order.\<close>

lemma task_at_stores:
  assumes "distinct order" and "\<And>slot. slot \<in> set order \<Longrightarrow> task_at runData slot \<noteq> None"
  shows "task_at (fold (\<lambda>slot. store_task (fst slot) (snd slot) (task slot)) order runData) slot =
    (if slot \<in> set order then Some (assign_task (the (task_at runData slot)) (task slot)) else task_at runData slot)"
  using assms
proof (induction order arbitrary: runData)
  case (Cons s order)
  from Cons.prems(2) [of s] obtain old where old: "task_at runData s = Some old" by auto
  note st = task_at_store [OF old]
  have "task_at (store_task (fst s) (snd s) (task s) runData) slot \<noteq> None" if "slot \<in> set order" for slot
    using that Cons.prems(2) by (simp add: st)
  from Cons.IH [OF _ this] Cons.prems(1) old show ?case by (auto simp: st)
qed simp

section \<open>The whole request\<close>

lemma handled_request:
  assumes "nodes_named w" and "list_all (knows w) (rq_actions rq)"
    and "prepareRequestingNodeForResuming e = Some (c, parent, metadata)"
    and "handleRequest w cur rq r e runData = ((w', runData'), res)"
  obtains entries :: "(node_to_run \<times> json) list" where
    "map (\<lambda>(n, _). (conn_node (nb_connection n), nb_nodeRunIndex n)) entries = request_slots runData (rq_actions rq)"
    "list_all (\<lambda>(n, _). conn_index (nb_connection n) = 0 \<and> nb_outputIndex n = 0 \<and> nb_parentData n \<noteq> None) entries"
    "reserves (action_nodes (rq_actions rq)) runData runData'"
    "res = Inr (\<lparr>nb_connection = c, nb_outputIndex = 0, nb_parentNode = parent,
        nb_parentData = map_of (ex_data e) Main_type, nb_runIndex = r, nb_nodeRunIndex = r,
        nb_metadata = Some (resumed_metadata (map2 (\<lambda>a (_, i). slot_json a i) (rq_actions rq) (request_slots runData (rq_actions rq)))
          (rq_metadata rq) metadata)\<rparr> # map fst entries)"
proof -
  obtain w2 rd2 prepared where pr: "prepareRequestedNodesForExecution cur r e (rq_actions rq) (w, runData) = ((w2, rd2), prepared)"
    by (metis surj_pair)
  from prepared_state [OF assms(1) pr] assms(2) obtain entries where en: "prepared = Inr entries"
    and rv: "reserves (action_nodes (takeWhile (knows w) (rq_actions rq))) runData rd2" by auto
  from assms(2) have tw: "takeWhile (knows w) (rq_actions rq) = rq_actions rq"
    by (simp add: takeWhile_eq_all_conv list_all_iff)
  note es = prepared_entries [OF assms(1) pr [unfolded en]]
  from assms(3,4) pr en es have "runData' = rd2"
    "res = Inr (\<lparr>nb_connection = c, nb_outputIndex = 0, nb_parentNode = parent,
        nb_parentData = map_of (ex_data e) Main_type, nb_runIndex = r, nb_nodeRunIndex = r,
        nb_metadata = Some (resumed_metadata (map2 (\<lambda>a (_, i). slot_json a i) (rq_actions rq) (request_slots runData (rq_actions rq)))
          (rq_metadata rq) metadata)\<rparr> # map fst entries)"
    by (auto simp: handleRequest_def Let_def)
  with es rv tw show thesis by (intro that [of entries]) auto
qed

lemma request_slot_reserved:
  assumes "reserves (action_nodes as) runData runData'" and "slot \<in> set (request_slots runData as)"
  shows "task_at runData' slot \<noteq> None"
proof (cases slot)
  case (Pair nm i)
  with assms(2) have "(nm, i) \<in> set (slots_from (\<lambda>nm. length (tasks_of runData nm)) (action_nodes as))"
    by (simp add: request_slots_def)
  from reserved_slot [OF assms(1) this] show ?thesis unfolding Pair by (metis option.distinct(1))
qed

text \<open>The slots of a request after the requested nodes stored their tasks.\<close>

lemma request_responses:
  assumes "reserves (action_nodes as) runData runData'" and "mset order = mset (request_slots runData as)"
  shows "List.map_filter (response_of (fold (\<lambda>slot. store_task (fst slot) (snd slot) (task slot)) order runData'))
      (map2 (\<lambda>a (_, i). slot_json a i) as (request_slots runData as))
    = map2 (\<lambda>a slot. (action_json a, assign_task (the (task_at runData' slot)) (task slot))) as (request_slots runData as)"
proof (rule responses_of_slots)
  show "length (request_slots runData as) = length as" "map fst (request_slots runData as) = action_nodes as"
    by (simp_all add: request_slots_def slots_from_names)
  have eq: "set order = set (request_slots runData as)" using assms(2) by (metis set_mset_mset)
  have dist: "distinct order"
    using assms(2) slots_from_distinct unfolding request_slots_def by (metis mset_eq_imp_distinct_iff)
  have some: "task_at runData' slot \<noteq> None" if "slot \<in> set order" for slot
    by (rule request_slot_reserved [OF assms(1)]) (use that eq in simp)
  show "task_at (fold (\<lambda>slot. store_task (fst slot) (snd slot) (task slot)) order runData') slot
      = Some (assign_task (the (task_at runData' slot)) (task slot))" if "slot \<in> set (request_slots runData as)" for slot
    using task_at_stores [OF dist some] that eq by simp
qed

lemma placeholder_responses:
  assumes "reserves (action_nodes as) runData runData'"
  shows "List.map_filter (response_of runData') (map2 (\<lambda>a (_, i). slot_json a i) as (request_slots runData as))
    = map2 (\<lambda>a slot. (action_json a, the (task_at runData' slot))) as (request_slots runData as)"
proof (rule responses_of_slots)
  show "length (request_slots runData as) = length as" "map fst (request_slots runData as) = action_nodes as"
    by (simp_all add: request_slots_def slots_from_names)
  show "task_at runData' slot = Some (the (task_at runData' slot))" if "slot \<in> set (request_slots runData as)" for slot
    using request_slot_reserved [OF assms that] by (cases "task_at runData' slot") simp_all
qed

section \<open>The stack\<close>

text \<open>A node that the request can put onto the stack at once: it has one main input at most.\<close>

definition runs_alone :: "workflow \<Rightarrow> string \<Rightarrow> bool" where
  "runs_alone w nm \<longleftrightarrow> getNode w nm \<noteq> None \<and> length (main_inputs_of w nm) \<le> 1"

definition stack_entry :: "workflow \<Rightarrow> node_to_run \<Rightarrow> execute_data" where
  "stack_entry w n =
     \<lparr>ex_node = the (getNode w (conn_node (nb_connection n))),
      ex_data = [(Main_type, [Option.bind (arr_get (get_or [] (nb_parentData n)) 0) (\<lambda>x. x)])],
      ex_source = Some [(Main_type, [Some (source_entry (nb_parentNode n) 0 (nb_runIndex n))])],
      ex_metadata = nb_metadata n, ex_runIndex = Some (nb_nodeRunIndex n)\<rparr>"

definition schedulable :: "workflow \<Rightarrow> node_to_run \<Rightarrow> bool" where
  "schedulable w n \<longleftrightarrow> runs_alone w (conn_node (nb_connection n)) \<and> conn_index (nb_connection n) = 0
     \<and> nb_outputIndex n = 0 \<and> nb_parentData n \<noteq> None"

lemma schedule_entry: "schedulable w n \<Longrightarrow> schedule w n s = Inr (enqueue_entry w (stack_entry w n) s)"
  by (auto simp: schedulable_def schedule_def addNodeToBeExecuted_def runs_alone_def stack_entry_def get_or_def)

lemma schedule_all:
  "list_all (schedulable w) nodes \<Longrightarrow> for_each (schedule w) nodes s =
    Inr (s\<lparr>xs_stack := if isLegacyExecutionOrder w then xs_stack s @ map (stack_entry w) nodes
      else rev (map (stack_entry w) nodes) @ xs_stack s\<rparr>)"
  by (induction nodes arbitrary: s) (auto simp: schedule_entry enqueue_entry_def)

text \<open>A request changes nothing of a workflow but what its nodes log to.\<close>

definition same_graph :: "workflow \<Rightarrow> workflow \<Rightarrow> bool" where
  "same_graph w w' \<longleftrightarrow> (\<exists>ns. w' = w\<lparr>wf_nodes := ns\<rparr>) \<and> (\<forall>nm. (getNode w' nm = None) = (getNode w nm = None))
     \<and> (nodes_named w \<longrightarrow> nodes_named w')"

lemma same_graph_refl: "same_graph w w"
proof -
  have "w = w\<lparr>wf_nodes := wf_nodes w\<rparr>" by simp
  then show ?thesis unfolding same_graph_def by blast
qed

lemma same_graph_trans: "same_graph w w' \<Longrightarrow> same_graph w' w'' \<Longrightarrow> same_graph w w''"
  unfolding same_graph_def by (auto intro: workflow.fold_congs)

lemma same_graph_rewire: "same_graph w (rewire_node nm ty w)"
proof -
  have "\<exists>ns. rewire_node nm ty w = w\<lparr>wf_nodes := ns\<rparr>"
  proof (cases "getNode w nm")
    case None
    then have "rewire_node nm ty w = w\<lparr>wf_nodes := wf_nodes w\<rparr>" by (simp add: rewire_node_def)
    then show ?thesis by blast
  qed (auto simp: rewire_node_def)
  then show ?thesis by (auto simp: same_graph_def getNode_rewire nodes_named_rewire)
qed

lemma prepared_workflow:
  "prepareRequestedNodesForExecution cur r e as (w, runData) = ((w', runData'), res) \<Longrightarrow> same_graph w w'"
proof (induction as arbitrary: w runData res)
  case Nil
  then show ?case by (simp add: same_graph_refl)
next
  case (Cons a as)
  then show ?case
    by (auto simp: Let_def same_graph_refl split: option.splits prod.splits
        intro: same_graph_trans [OF same_graph_rewire])
qed

lemma handled_workflow: "handleRequest w cur rq r e runData = ((w', runData'), res) \<Longrightarrow> same_graph w w'"
  using prepared_workflow [of cur r e "rq_actions rq" w runData]
  by (cases "prepareRequestedNodesForExecution cur r e (rq_actions rq) (w, runData)")
    (auto simp: handleRequest_def Let_def)

lemma same_graph_alone: "same_graph w w' \<Longrightarrow> runs_alone w' nm = runs_alone w nm"
  unfolding same_graph_def runs_alone_def by (auto simp: main_inputs_of_def)

lemma same_graph_order: "same_graph w w' \<Longrightarrow> isLegacyExecutionOrder w' = isLegacyExecutionOrder w"
  unfolding same_graph_def by (auto simp: isLegacyExecutionOrder_def)

text \<open>The hypotheses under which a request can be fulfilled.\<close>

definition fulfillable :: "workflow \<Rightarrow> engine_request \<Rightarrow> execute_data \<Rightarrow> bool" where
  "fulfillable w rq e \<longleftrightarrow> nodes_named w \<and> list_all (runs_alone w) (action_nodes (rq_actions rq))
     \<and> runs_alone w (node_name (ex_node e)) \<and> map_of (ex_data e) Main_type \<noteq> None
     \<and> (case main_source e 0 of None \<Rightarrow> False | Some src \<Rightarrow> previousNode src \<noteq> [])"

lemma engine_request_scheduled:
  assumes "fulfillable w rq e" and "handleEngineRequest w cur rq r e s = (w', s1, res)"
  obtains agent tools where
    "res = Inr (s1\<lparr>xs_stack := if isLegacyExecutionOrder w then map (share_node w') (xs_stack s) @ agent # tools
      else rev tools @ agent # map (share_node w') (xs_stack s)\<rparr>)"
    "map (\<lambda>t. (node_name (ex_node t), ex_runIndex t)) tools = map (\<lambda>(nm, i). (nm, Some i)) (request_slots (xs_runData s) (rq_actions rq))"
    "node_name (ex_node agent) = node_name (ex_node e)" "ex_runIndex agent = Some r"
    "slots_in (ex_metadata agent) = map2 (\<lambda>a (_, i). slot_json a i) (rq_actions rq) (request_slots (xs_runData s) (rq_actions rq))"
    "reserves (action_nodes (rq_actions rq)) (xs_runData s) (xs_runData s1)"
proof -
  from assms(1) have named: "nodes_named w" and known: "list_all (knows w) (rq_actions rq)"
    by (auto simp: fulfillable_def knows_def runs_alone_def list_all_iff)
  from assms(1) obtain parent metadata where
    re: "prepareRequestingNodeForResuming e
      = Some (\<lparr>conn_node = node_name (ex_node e), conn_type = AiTool_type, conn_index = 0\<rparr>, parent, metadata)"
    by (auto simp: fulfillable_def prepareRequestingNodeForResuming_def Let_def split: option.splits)
  obtain w2 rd nodes where hr: "handleRequest w cur rq r e (xs_runData s) = ((w2, rd), nodes)" by (metis surj_pair)
  from handled_request [OF named known re hr] obtain entries :: "(node_to_run \<times> json) list" and resume where
    en: "map (\<lambda>(n, _). (conn_node (nb_connection n), nb_nodeRunIndex n)) entries = request_slots (xs_runData s) (rq_actions rq)"
      "list_all (\<lambda>(n, _). conn_index (nb_connection n) = 0 \<and> nb_outputIndex n = 0 \<and> nb_parentData n \<noteq> None) entries"
      "reserves (action_nodes (rq_actions rq)) (xs_runData s) rd" "nodes = Inr (resume # map fst entries)"
    and resume: "nb_connection resume = \<lparr>conn_node = node_name (ex_node e), conn_type = AiTool_type, conn_index = 0\<rparr>"
      "nb_outputIndex resume = 0" "nb_parentData resume = map_of (ex_data e) Main_type" "nb_nodeRunIndex resume = r"
      "nb_metadata resume = Some (resumed_metadata (map2 (\<lambda>a (_, i). slot_json a i) (rq_actions rq)
        (request_slots (xs_runData s) (rq_actions rq))) (rq_metadata rq) metadata)"
    by (metis (no_types, lifting) node_to_run.select_convs)
  from assms(2) hr en(4) have out: "w' = w2" "s1 = s\<lparr>xs_runData := rd, xs_stack := map (share_node w2) (xs_stack s)\<rparr>"
    "res = for_each (schedule w2) (resume # map fst entries) s1"
    by (auto simp: handleEngineRequest_def Let_def)
  note graph = handled_workflow [OF hr]
  have named2: "nodes_named w2" using graph named by (simp add: same_graph_def)
  have names: "map (\<lambda>n. conn_node (nb_connection n)) (map fst entries) = action_nodes (rq_actions rq)"
    using arg_cong [OF en(1), of "map fst"]
    by (simp add: request_slots_def slots_from_names comp_def case_prod_unfold)
  have alone: "list_all (runs_alone w2) (node_name (ex_node e) # action_nodes (rq_actions rq))"
    using assms(1) by (simp add: fulfillable_def same_graph_alone [OF graph] cong: list.pred_cong)
  have ok: "list_all (schedulable w2) (resume # map fst entries)"
    using alone en(2) assms(1) resume
    by (auto simp: schedulable_def list_all_iff fulfillable_def simp flip: names)
  have node: "node_name (ex_node (stack_entry w2 n)) = conn_node (nb_connection n)" if "schedulable w2 n" for n
    using that named2 by (auto simp: schedulable_def runs_alone_def stack_entry_def nodes_named_def)
  show thesis
  proof (rule that [of "stack_entry w2 resume" "map (stack_entry w2) (map fst entries)"])
    show "res = Inr (s1\<lparr>xs_stack := if isLegacyExecutionOrder w
        then map (share_node w') (xs_stack s) @ stack_entry w2 resume # map (stack_entry w2) (map fst entries)
        else rev (map (stack_entry w2) (map fst entries)) @ stack_entry w2 resume # map (share_node w') (xs_stack s)\<rparr>)"
      unfolding out(3) schedule_all [OF ok] same_graph_order [OF graph] by (simp add: out(1,2))
    have "map (\<lambda>t. (node_name (ex_node t), ex_runIndex t)) (map (stack_entry w2) (map fst entries))
        = map (\<lambda>n. (conn_node (nb_connection n), Some (nb_nodeRunIndex n))) (map fst entries)"
      using ok node by (auto simp: list_all_iff stack_entry_def)
    also have "\<dots> = map (\<lambda>(nm, i). (nm, Some i)) (request_slots (xs_runData s) (rq_actions rq))"
      by (simp add: comp_def case_prod_unfold flip: en(1))
    finally show "map (\<lambda>t. (node_name (ex_node t), ex_runIndex t)) (map (stack_entry w2) (map fst entries))
        = map (\<lambda>(nm, i). (nm, Some i)) (request_slots (xs_runData s) (rq_actions rq))" .
    show "node_name (ex_node (stack_entry w2 resume)) = node_name (ex_node e)" using ok node resume(1) by simp
    show "ex_runIndex (stack_entry w2 resume) = Some r" by (simp add: stack_entry_def resume)
    show "slots_in (ex_metadata (stack_entry w2 resume))
        = map2 (\<lambda>a (_, i). slot_json a i) (rq_actions rq) (request_slots (xs_runData s) (rq_actions rq))"
      by (simp add: stack_entry_def resume slots_in_resumed)
    show "reserves (action_nodes (rq_actions rq)) (xs_runData s) (xs_runData s1)" using en(3) by (simp add: out(2))
  qed
qed

text \<open>An entry that is planned for a run stores its task in that run.\<close>

lemma planned_slots:
  "map (\<lambda>t. (node_name (ex_node t), ex_runIndex t)) tools = map (\<lambda>(nm, i). (nm, Some i)) slots \<Longrightarrow>
    map (\<lambda>t. (node_name (ex_node t), run_index_of runData t)) tools = slots"
  by (induction tools arbitrary: slots) (auto simp: run_index_of_def)

section \<open>Repeated calls\<close>

lemma length_given: "given_responses run responses again left k given \<noteq> []"
  by (subst given_responses.simps) (simp add: Let_def)

lemma given_after_failures:
  assumes "n \<le> left" and "\<And>j. j < n \<Longrightarrow> \<exists>err. run (k + j) = Fails err"
  shows "\<exists>calls. length calls = n \<and> given_responses run responses False left k given
    = calls @ given_responses run responses False (left - n) (k + n) (given @ concat (replicate n responses))"
  using assms
proof (induction n arbitrary: left k given)
  case (Suc n)
  from Suc.prems(2) [of 0] obtain err where err: "run k = Fails err" by auto
  from Suc.prems(1) have pos: "left \<noteq> 0" "n \<le> left - 1" by auto
  have later: "\<exists>err. run (k + 1 + j) = Fails err" if "j < n" for j using Suc.prems(2) [of "Suc j"] that by simp
  from Suc.IH [OF pos(2) later] obtain calls where calls: "length calls = n"
    "given_responses run responses False (left - 1) (k + 1) (given @ responses)
      = calls @ given_responses run responses False (left - 1 - n) (k + 1 + n) ((given @ responses) @ concat (replicate n responses))"
    by blast
  have "given_responses run responses False left k given
      = (given @ responses) # given_responses run responses False (left - 1) (k + 1) (given @ responses)"
    using err pos by (subst given_responses.simps) (simp add: Let_def)
  with calls show ?case by (intro exI [of _ "(given @ responses) # calls"]) simp
qed simp

lemma map_fst_map2: "length ys = length xs \<Longrightarrow> map fst (map2 (\<lambda>x y. (f x, g y)) xs ys) = map f xs"
  by (induction ys xs rule: list_induct2) auto

lemma map_snd_map2: "length ys = length xs \<Longrightarrow> map snd (map2 (\<lambda>x y. (f x, g y)) xs ys) = map g ys"
  by (induction ys xs rule: list_induct2) auto

lemma reserved_placeholders:
  assumes "reserves (action_nodes as) runData runData'"
  shows "map fst (map2 (\<lambda>a slot. (action_json a, the (task_at runData' slot))) as (request_slots runData as)) = map action_json as
    \<and> list_all is_placeholder (map snd (map2 (\<lambda>a slot. (action_json a, the (task_at runData' slot))) as (request_slots runData as)))"
proof -
  have len: "length (request_slots runData as) = length as" by (simp add: request_slots_def)
  have "is_placeholder (the (task_at runData' slot))" if "slot \<in> set (request_slots runData as)" for slot
  proof (cases slot)
    case (Pair nm i)
    with that have "(nm, i) \<in> set (slots_from (\<lambda>nm. length (tasks_of runData nm)) (action_nodes as))"
      by (simp add: request_slots_def)
    from reserved_slot [OF assms this] show ?thesis unfolding Pair by (metis option.sel)
  qed
  then show ?thesis unfolding map_fst_map2 [OF len] map_snd_map2 [OF len] by (simp add: list_all_iff)
qed

section \<open>Sources of the requested nodes\<close>

text \<open>When the entry has no source for the run of the requesting node, the requesting node itself is named.\<close>

definition names_itself :: "inode \<Rightarrow> node_to_run \<Rightarrow> bool" where
  "names_itself cur n \<longleftrightarrow> (\<exists>run. nb_metadata n = Some [(''preserveSourceOverwrite'', JBool True),
     (''preservedSourceOverwrite'', source_json (source_entry (node_name cur) 0 run))])"

lemma prepared_without_source:
  assumes "main_source e r = None" and "ex_metadata e = None"
    and "prepareRequestedNodesForExecution cur r e as (w, runData) = (st, Inr entries)"
  shows "length entries = length as \<and> list_all (names_itself cur) (map fst entries)"
  using assms(3)
proof (induction as arbitrary: w runData st entries)
  case (Cons a as)
  from Cons.prems obtain n where n: "getNode w (act_nodeName a) = Some n"
    by (auto simp: Let_def split: option.splits)
  obtain entry slot rd1 where pa: "prepare_action cur r e n a runData = ((entry, slot), rd1)" by (metis surj_pair)
  obtain st2 rest where rec: "prepareRequestedNodesForExecution cur r e as (rewire_node (act_nodeName a) (act_type a) w, rd1) = (st2, rest)"
    by (metis surj_pair)
  from Cons.prems n pa rec obtain es where es: "rest = Inr es" "entries = (entry, slot) # es"
    by (auto simp: Let_def res_bind_eq_Inr)
  have "names_itself cur entry"
    using pa assms(1,2)
    by (auto simp: prepare_action_def Let_def names_itself_def preserved_source_def get_or_def split: prod.splits)
  with Cons.IH [OF rec [unfolded es]] es show ?case by simp
qed simp

end
