(* ===== verification/Request_Properties.thy ===== *)
theory Request_Properties
  imports Requests_Correct Samples
begin

text \<open>
  The properties of requests to the engine: a fulfilled request brings the requesting node back
  with the answers to its actions, and what happens to a request that cannot be fulfilled, in
  workflows with the old execution order, in later runs and when calls are repeated.
\<close>

section \<open>A sample request\<close>

definition sample_source :: source_data where
  "sample_source = source_entry ''T'' 0 0"

definition sample_agent :: execute_data where
  "sample_agent = \<lparr>ex_node = sampleA, ex_data = [(''main'', [Some [empty_item]])],
     ex_source = Some [(''main'', [Some sample_source])], ex_metadata = None, ex_runIndex = None\<rparr>"

definition sample_action :: "string \<Rightarrow> string \<Rightarrow> engine_action" where
  "sample_action nm ref = \<lparr>act_nodeName = nm, act_input = [(''q'', JStr ref)], act_type = ''ai_tool'', act_id = ref,
     act_metadata = None\<rparr>"

definition sample_request :: "string list \<Rightarrow> engine_request" where
  "sample_request nms = \<lparr>rq_actions = map (\<lambda>nm. sample_action nm (''call-'' @ nm)) nms, rq_metadata = []\<rparr>"

definition idle_state :: exec_state where
  "idle_state = \<lparr>xs_stack = [], xs_waiting = [], xs_waitingSource = [], xs_runData = []\<rparr>"

lemma sample_fulfillable:
  "fulfillable (sample_workflow\<lparr>wf_executionOrder := ord\<rparr>) (sample_request [''M'', ''T'', ''M'']) sample_agent"
proof -
  have nodes: "wf_nodes sample_workflow = [(''T'', sampleT), (''A'', sampleA), (''B'', sampleB), (''M'', sampleM)]" by code_simp
  have inputs: "length (main_inputs_of sample_workflow nm) \<le> 1" if "nm \<in> {''M'', ''T'', ''A''}" for nm
    using that by (elim insertE emptyE) (simp_all, code_simp+)
  have same: "main_inputs_of (sample_workflow\<lparr>wf_executionOrder := ord\<rparr>) nm = main_inputs_of sample_workflow nm" for nm
    by (simp add: main_inputs_of_def)
  show ?thesis
    using inputs
    by (auto simp: fulfillable_def nodes_named_def runs_alone_def getNode_def nodes same sample_request_def sample_action_def
        sample_agent_def main_source_def sample_source_def source_entry_def arr_get_def sampleT_def sampleA_def sampleB_def
        sampleM_def sample_node_def split: if_splits)
qed

section \<open>Fulfilled requests\<close>

text \<open>
  C11: In workflows with execution order v1 a request puts the requested nodes onto the stack, each
  for a run of its own (the next free runs of its node), and the requesting node directly below
  them for the run it was in: it resumes only after all of them. In whatever order the nodes then
  store their tasks in these runs, the requesting node is given exactly one response per action,
  in the order of the actions, with the task that the node stored for this action.
\<close>

theorem agents_resume_with_the_answers:
  assumes "fulfillable w rq e" and "\<not> isLegacyExecutionOrder w"
    and "handleEngineRequest w cur rq r e s = (w', s1, res)"
    and "mset order = mset (request_slots (xs_runData s) (rq_actions rq))"
  shows "\<exists>agent tools s2. res = Inr s2
    \<and> xs_stack s2 = rev tools @ agent # map (share_node w') (xs_stack s)
    \<and> map (\<lambda>t. (node_name (ex_node t), run_index_of (xs_runData s2) t)) tools = request_slots (xs_runData s) (rq_actions rq)
    \<and> node_name (ex_node agent) = node_name (ex_node e) \<and> run_index_of (xs_runData s2) agent = r
    \<and> action_responses (ex_metadata agent)
        (fold (\<lambda>slot. store_task (fst slot) (snd slot) (answer slot)) order (xs_runData s2))
      = map2 (\<lambda>a slot. (action_json a, assign_task (the (task_at (xs_runData s2) slot)) (answer slot)))
          (rq_actions rq) (request_slots (xs_runData s) (rq_actions rq))"
proof -
  obtain agent tools where
    run: "res = Inr (s1\<lparr>xs_stack := rev tools @ agent # map (share_node w') (xs_stack s)\<rparr>)"
    and tools: "map (\<lambda>t. (node_name (ex_node t), ex_runIndex t)) tools
      = map (\<lambda>(nm, i). (nm, Some i)) (request_slots (xs_runData s) (rq_actions rq))"
    and agent: "node_name (ex_node agent) = node_name (ex_node e)" "ex_runIndex agent = Some r"
      "slots_in (ex_metadata agent) = map2 (\<lambda>a (_, i). slot_json a i) (rq_actions rq) (request_slots (xs_runData s) (rq_actions rq))"
    and rv: "reserves (action_nodes (rq_actions rq)) (xs_runData s) (xs_runData s1)"
    by (rule engine_request_scheduled [OF assms(1,3), unfolded if_not_P [OF assms(2)]])
  have slots: "map (\<lambda>t. (node_name (ex_node t), run_index_of (xs_runData s1) t)) tools = request_slots (xs_runData s) (rq_actions rq)"
    by (rule planned_slots [OF tools])
  show ?thesis
    using agent slots request_responses [OF rv assms(4), of answer]
    by (intro exI [of _ agent] exI [of _ tools] exI [of _ "s1\<lparr>xs_stack := rev tools @ agent # map (share_node w') (xs_stack s)\<rparr>"])
      (simp add: run action_responses_def run_index_of_def)
qed

text \<open>The request of the sample: a model twice and the trigger between, answered in the opposite order.\<close>

definition sample_answer :: "string \<times> nat \<Rightarrow> task_data" where
  "sample_answer slot = (placeholder sample_source [])\<lparr>td_executionStatus := Some ''success'',
     td_metadata := Some [(''slot'', JNum (int (snd slot)))]\<rparr>"

definition asks_thrice :: engine_request where
  "asks_thrice = sample_request [''M'', ''T'', ''M'']"

lemma thrice_slots: "request_slots (xs_runData idle_state) (rq_actions asks_thrice) = [(''M'', 0), (''T'', 0), (''M'', 1)]"
  by (simp add: request_slots_def tasks_of_def idle_state_def asks_thrice_def sample_request_def sample_action_def get_or_def)

lemma thrice_fulfillable: "fulfillable (sample_workflow\<lparr>wf_executionOrder := ord\<rparr>) asks_thrice sample_agent"
  unfolding asks_thrice_def by (rule sample_fulfillable)

theorem agents_resume_with_the_answers_witness:
  "\<exists>agent tools s2. snd (snd (handleEngineRequest (sample_workflow\<lparr>wf_executionOrder := Some ''v1''\<rparr>) sampleA asks_thrice 0
       sample_agent idle_state)) = Inr s2
    \<and> xs_stack s2 = rev tools @ [agent]
    \<and> map (\<lambda>t. (node_name (ex_node t), run_index_of (xs_runData s2) t)) tools = [(''M'', 0), (''T'', 0), (''M'', 1)]
    \<and> length (action_responses (ex_metadata agent) (fold (\<lambda>slot. store_task (fst slot) (snd slot) (sample_answer slot))
         [(''M'', 1), (''T'', 0), (''M'', 0)] (xs_runData s2))) = 3"
proof -
  let ?w = "sample_workflow\<lparr>wf_executionOrder := Some ''v1''\<rparr>"
  let ?h = "handleEngineRequest ?w sampleA asks_thrice 0 sample_agent idle_state"
  have order: "mset [(''M'', 1), (''T'', 0), (''M'', 0)] = mset (request_slots (xs_runData idle_state) (rq_actions asks_thrice))"
    unfolding thrice_slots by simp
  have v1: "\<not> isLegacyExecutionOrder ?w" by (simp add: isLegacyExecutionOrder_def)
  have h: "?h = (fst ?h, fst (snd ?h), snd (snd ?h))" by simp
  have sample: "length (rq_actions asks_thrice) = 3" "xs_stack idle_state = []"
    by (simp_all add: asks_thrice_def sample_request_def idle_state_def)
  obtain agent tools s2 where got: "snd (snd ?h) = Inr s2" "xs_stack s2 = rev tools @ agent # map (share_node (fst ?h)) (xs_stack idle_state)"
    "map (\<lambda>t. (node_name (ex_node t), run_index_of (xs_runData s2) t)) tools = [(''M'', 0), (''T'', 0), (''M'', 1)]"
    "action_responses (ex_metadata agent) (fold (\<lambda>slot. store_task (fst slot) (snd slot) (sample_answer slot))
         [(''M'', 1), (''T'', 0), (''M'', 0)] (xs_runData s2))
      = map2 (\<lambda>a slot. (action_json a, assign_task (the (task_at (xs_runData s2) slot)) (sample_answer slot)))
          (rq_actions asks_thrice) [(''M'', 0), (''T'', 0), (''M'', 1)]"
    using agents_resume_with_the_answers [OF thrice_fulfillable v1 h order, where answer = sample_answer]
    unfolding thrice_slots by (elim exE conjE) (rule that, assumption+)
  show ?thesis
  proof (intro exI conjI)
    show "snd (snd ?h) = Inr s2" by (rule got)
    show "xs_stack s2 = rev tools @ [agent]" using got(2) by (simp add: sample)
    show "map (\<lambda>t. (node_name (ex_node t), run_index_of (xs_runData s2) t)) tools = [(''M'', 0), (''T'', 0), (''M'', 1)]"
      by (rule got)
    show "length (action_responses (ex_metadata agent) (fold (\<lambda>slot. store_task (fst slot) (snd slot) (sample_answer slot))
         [(''M'', 1), (''T'', 0), (''M'', 0)] (xs_runData s2))) = 3"
      unfolding got(4) by (simp only: length_map length_zip sample) simp
  qed
qed

section \<open>Workflows with the old execution order\<close>

text \<open>
  C13: In workflows with the old execution order the same request puts the requesting node above
  the requested nodes: it resumes first, before any of them has run, and the responses it is given
  are the empty placeholders of its actions (no data, no error, no status).
\<close>

theorem legacy_agents_resume_too_early:
  assumes "fulfillable w rq e" and "isLegacyExecutionOrder w" and "xs_stack s = []"
    and "handleEngineRequest w cur rq r e s = (w', s1, res)"
  shows "\<exists>agent tools s2. res = Inr s2 \<and> xs_stack s2 = agent # tools \<and> length tools = length (rq_actions rq)
    \<and> node_name (ex_node agent) = node_name (ex_node e)
    \<and> map fst (action_responses (ex_metadata agent) (xs_runData s2)) = map action_json (rq_actions rq)
    \<and> list_all is_placeholder (map snd (action_responses (ex_metadata agent) (xs_runData s2)))"
proof -
  obtain agent tools where
    run: "res = Inr (s1\<lparr>xs_stack := map (share_node w') (xs_stack s) @ agent # tools\<rparr>)"
    and tools: "map (\<lambda>t. (node_name (ex_node t), ex_runIndex t)) tools
      = map (\<lambda>(nm, i). (nm, Some i)) (request_slots (xs_runData s) (rq_actions rq))"
    and agent: "node_name (ex_node agent) = node_name (ex_node e)" "ex_runIndex agent = Some r"
      "slots_in (ex_metadata agent) = map2 (\<lambda>a (_, i). slot_json a i) (rq_actions rq) (request_slots (xs_runData s) (rq_actions rq))"
    and rv: "reserves (action_nodes (rq_actions rq)) (xs_runData s) (xs_runData s1)"
    by (rule engine_request_scheduled [OF assms(1,4), unfolded if_P [OF assms(2)]])
  from tools have "length tools = length (rq_actions rq)"
    using map_eq_imp_length_eq [OF tools] by (simp add: request_slots_def)
  then show ?thesis
    using agent placeholder_responses [OF rv] reserved_placeholders [OF rv] assms(3)
    by (intro exI [of _ agent] exI [of _ tools] exI [of _ "s1\<lparr>xs_stack := agent # tools\<rparr>"])
      (simp add: run action_responses_def del: map_map)
qed

theorem legacy_agents_resume_too_early_witness:
  "\<exists>agent tools s2. snd (snd (handleEngineRequest (sample_workflow\<lparr>wf_executionOrder := None\<rparr>) sampleA asks_thrice 0
       sample_agent idle_state)) = Inr s2 \<and> xs_stack s2 = agent # tools \<and> length tools = 3
    \<and> node_name (ex_node agent) = ''A''"
proof -
  let ?w = "sample_workflow\<lparr>wf_executionOrder := None\<rparr>"
  let ?h = "handleEngineRequest ?w sampleA asks_thrice 0 sample_agent idle_state"
  have old: "isLegacyExecutionOrder ?w" by (simp add: isLegacyExecutionOrder_def)
  have h: "?h = (fst ?h, fst (snd ?h), snd (snd ?h))" by simp
  have sample: "length (rq_actions asks_thrice) = 3" "node_name (ex_node sample_agent) = ''A''" "xs_stack idle_state = []"
    by (simp_all add: asks_thrice_def sample_request_def idle_state_def sample_agent_def sampleA_def sample_node_def)
  from legacy_agents_resume_too_early [OF thrice_fulfillable old sample(3) h] show ?thesis
    unfolding sample by blast
qed

section \<open>Requests that are not fulfilled\<close>

text \<open>
  C12: Every action before the first one that names an unknown node leaves a new run in the run data
  of its node, whatever becomes of the request: when an action names an unknown node the request
  raises an error, when the requesting node has no parent it is ignored and nothing is put onto
  the stack, and in both cases the runs of the actions prepared so far stay in the run data.
\<close>

theorem requests_leave_runs_behind:
  assumes "nodes_named w" and "handleRequest w cur rq r e runData = ((w', runData'), res)"
  shows "length (tasks_of runData' nm) = length (tasks_of runData nm)
      + count_list (action_nodes (takeWhile (knows w) (rq_actions rq))) nm
    \<and> (if \<not> list_all (knows w) (rq_actions rq)
       then res = Inl (UnexpectedError ''Workflow does not contain a node with the name'')
       else if main_source e 0 = None then res = Inr []
       else \<exists>nodes. res = Inr nodes)"
proof -
  obtain w2 rd2 prepared where pr: "prepareRequestedNodesForExecution cur r e (rq_actions rq) (w, runData) = ((w2, rd2), prepared)"
    by (metis surj_pair)
  note st = prepared_state [OF assms(1) pr]
  from assms(2) pr have "runData' = rd2" by (simp add: handleRequest_def Let_def)
  with reserves_lengths [OF conjunct1 [OF st]]
  have "length (tasks_of runData' nm) = length (tasks_of runData nm) + count_list (action_nodes (takeWhile (knows w) (rq_actions rq))) nm"
    by simp
  then show ?thesis using assms(2) pr conjunct2 [OF st]
    by (auto simp: handleRequest_def Let_def prepareRequestingNodeForResuming_def split: option.splits)
qed

text \<open>An agent without a parent asks for two runs of M; nothing will run, and M has two runs.\<close>

theorem requests_leave_runs_behind_witness:
  "length (tasks_of (snd (fst (handleRequest sample_workflow sampleA (sample_request [''M'', ''M'']) 0
      (sample_agent\<lparr>ex_source := None\<rparr>) []))) ''M'') = 2
    \<and> snd (handleRequest sample_workflow sampleA (sample_request [''M'', ''M'']) 0 (sample_agent\<lparr>ex_source := None\<rparr>) []) = Inr []"
proof -
  let ?rq = "sample_request [''M'', ''M'']"
  let ?h = "handleRequest sample_workflow sampleA ?rq 0 (sample_agent\<lparr>ex_source := None\<rparr>) []"
  have named: "nodes_named sample_workflow"
    using sample_fulfillable [of "Some ''v1''"] by (simp add: fulfillable_def nodes_named_def getNode_def)
  have h: "?h = ((fst (fst ?h), snd (fst ?h)), snd ?h)" by simp
  have known: "knows sample_workflow (sample_action ''M'' (''call-'' @ ''M''))"
    unfolding knows_def by code_simp
  have none: "main_source (sample_agent\<lparr>ex_source := None\<rparr>) 0 = None" by (simp add: main_source_def)
  have name: "act_nodeName (sample_action ''M'' (''call-'' @ ''M'')) = ''M''" by (simp add: sample_action_def)
  have acts: "rq_actions ?rq = [sample_action ''M'' (''call-'' @ ''M''), sample_action ''M'' (''call-'' @ ''M'')]"
    by (simp add: sample_request_def)
  from requests_leave_runs_behind [OF named h, of "''M''"] show ?thesis
    unfolding acts using known none name by (simp add: tasks_of_def get_or_def)
qed

section \<open>Later runs of the requesting node\<close>

text \<open>
  C14: The sources of the stack entry are indexed by input, but the request reads them at the run
  index. In a run for which the entry has no source at that index (every run but the first, for a
  node with one input) each requested node is told that its items come from the requesting node
  itself, while the requesting node is resumed with its true parent.
\<close>

theorem later_runs_lose_the_parent:
  assumes "main_source e r = None" and "main_source e 0 = Some src" and "previousNode src \<noteq> []"
    and "ex_metadata e = None" and "handleRequest w cur rq r e runData = (st, Inr nodes)"
  shows "\<exists>resume tools. nodes = resume # tools \<and> nb_parentNode resume = previousNode src
    \<and> length tools = length (rq_actions rq) \<and> list_all (names_itself cur) tools"
proof -
  obtain st2 prepared where pr: "prepareRequestedNodesForExecution cur r e (rq_actions rq) (w, runData) = (st2, prepared)"
    by (metis surj_pair)
  from assms(5) pr obtain entries where en: "prepared = Inr entries"
    by (auto simp: handleRequest_def res_bind_eq_Inr)
  from assms(2,3,5) pr en obtain resume where "nodes = resume # map fst entries" "nb_parentNode resume = previousNode src"
    by (auto simp: handleRequest_def prepareRequestingNodeForResuming_def Let_def)
  with prepared_without_source [OF assms(1,4) pr [unfolded en]] show ?thesis by auto
qed

theorem later_runs_lose_the_parent_witness:
  "\<exists>resume tools. snd (handleRequest sample_workflow sampleA (sample_request [''M'']) 1 sample_agent []) = Inr (resume # tools)
    \<and> nb_parentNode resume = ''T'' \<and> length tools = 1 \<and> list_all (names_itself sampleA) tools"
proof -
  let ?h = "handleRequest sample_workflow sampleA (sample_request [''M'']) 1 sample_agent []"
  have src: "main_source sample_agent 1 = None" "main_source sample_agent 0 = Some sample_source"
    "previousNode sample_source \<noteq> []" "ex_metadata sample_agent = None"
    by (simp_all add: main_source_def sample_agent_def arr_get_def sample_source_def source_entry_def)
  have "isl (snd ?h) = False" by code_simp
  then obtain nodes where "?h = (fst ?h, Inr nodes)" by (metis prod.collapse sum.collapse(2))
  from later_runs_lose_the_parent [OF src this] this show ?thesis
    by (auto simp: sample_source_def source_entry_def sample_request_def) (metis snd_conv)
qed

section \<open>Repeated calls\<close>

text \<open>
  C15: The responses are collected again for every try and added to those of the tries before: after
  \<open>n\<close> tries that threw, the requesting node is given every response \<open>n + 1\<close> times. The call that
  repeats a call whose data reports an error is given no responses at all.
\<close>

theorem repeated_calls_distort_the_responses:
  assumes "n < left" and "\<And>j. j < n \<Longrightarrow> \<exists>err. run (k + j) = Fails err"
    and "run (k + n) = Answers data" and "failed_data data"
  shows "given_responses run responses False left k [] ! n = concat (replicate (Suc n) responses)
    \<and> given_responses run responses False left k [] ! Suc n = []"
proof -
  from given_after_failures [of n left run k responses "[]"] assms(1,2) obtain calls where calls: "length calls = n"
    "given_responses run responses False left k []
      = calls @ given_responses run responses False (left - n) (k + n) (concat (replicate n responses))"
    by auto
  have "given_responses run responses False (left - n) (k + n) (concat (replicate n responses))
      = (concat (replicate n responses) @ responses)
        # given_responses run responses True (left - n) (k + n + 1) (concat (replicate n responses) @ responses)"
    using assms(1,3,4) by (subst given_responses.simps) (simp add: Let_def)
  moreover have "\<exists>rest. given_responses run responses True l j g = [] # rest" for l j g
    by (subst given_responses.simps) (simp add: Let_def)
  moreover have "concat (replicate n responses) @ responses = responses @ concat (replicate n responses)"
    by (induction n) auto
  ultimately show ?thesis using calls by (auto simp: nth_append) (metis nth_Cons_0)
qed

text \<open>A node that throws first, then returns an error item: three responses, then six, then none.\<close>

definition error_item_data :: "node_data option" where
  "error_item_data = Some [Some [empty_item\<lparr>item_json := [(''error'', JStr ''failed'')]\<rparr>]]"

definition throws_then_fails :: "nat \<Rightarrow> call_outcome" where
  "throws_then_fails k = (if k = 0 then Fails JNull else Answers error_item_data)"

theorem repeated_calls_distort_the_responses_witness:
  "given_responses throws_then_fails ''abc'' False 2 0 [] ! 1 = ''abcabc''
    \<and> given_responses throws_then_fails ''abc'' False 2 0 [] ! Suc 1 = []"
proof -
  have "1 < (2::nat)" by simp
  moreover have "\<exists>err. throws_then_fails (0 + j) = Fails err" if "j < 1" for j
    using that by (simp add: throws_then_fails_def)
  moreover have "throws_then_fails (0 + 1) = Answers error_item_data" by (simp add: throws_then_fails_def)
  moreover have "failed_data error_item_data" by code_simp
  ultimately have "given_responses throws_then_fails ''abc'' False 2 0 [] ! 1 = concat (replicate (Suc 1) ''abc'')
    \<and> given_responses throws_then_fails ''abc'' False 2 0 [] ! Suc 1 = []"
    by (rule repeated_calls_distort_the_responses)
  then show ?thesis by (simp add: numeral_eq_Suc)
qed

end
