(* ===== verification/Active_Executions.thy ===== *)
theory Active_Executions
  imports Concurrency_Service Transitions
begin

text \<open>
  The executions of one process, from \<^verbatim>\<open>packages/cli/src/active-executions.ts\<close>, together with the
  concurrency control they take their capacity from. A suspended call of \<^verbatim>\<open>add\<close> is an entry of
  \<open>ax_pending\<close>; an execution object is an entry of \<open>ax_objects\<close>, which the registry refers to by
  its token, so that the callback of a settled promise and the registry can see the same object or
  different ones, as in the code. Log lines and the chunks of streaming responses are left out; the
  database is an argument: the id it creates, and whether an update went through.
\<close>

section \<open>State\<close>

record execution_request =
  rq_mode :: string
  rq_workflowId :: "string option"
  rq_retryOf :: "string option"
  rq_httpResponse :: bool

record pending_add =
  pa_id :: string
  pa_request :: execution_request
  pa_resumes :: bool
  pa_waits :: bool
  pa_reservation :: reservation

text \<open>
  An executing workflow. \<open>re_id\<close> and \<open>re_reservation\<close> are the variables that the callback of its
  promise has captured; \<open>re_settled\<close> and \<open>re_handled\<close> say whether the promise is settled and the
  callback has run.
\<close>

record running_execution =
  re_id :: string
  re_request :: execution_request
  re_startedAt :: int
  re_status :: string
  re_responsePromise :: "nat option"
  re_workflowExecution :: "nat option"
  re_settled :: bool
  re_handled :: bool
  re_reservation :: reservation

record active_executions =
  ax_control :: "nat control_service"
  ax_pending :: "(nat, pending_add) jsmap"
  ax_objects :: "(nat, running_execution) jsmap"
  ax_active :: "(string \<times> nat) list"
  ax_responseModes :: "(string, string) jsmap"
  ax_next :: nat

text \<open>What the calls do outside: events, promises of responses, runs that are cancelled.\<close>

datatype ax_effect =
    ExecutionCancelled string "string option"
  | ResponseRejected nat
  | ResponseResolved nat
  | RunCancelled nat
  | HttpResponseEnded string

abbreviation no_reservation :: reservation where
  "no_reservation \<equiv> \<lparr>acquiredReservation = None\<rparr>"

definition new_active :: "nat control_service \<Rightarrow> active_executions" where
  "new_active control =
     \<lparr>ax_control = control, ax_pending = [], ax_objects = [], ax_active = [], ax_responseModes = [], ax_next = 0\<rparr>"

definition ax_has :: "string \<Rightarrow> active_executions \<Rightarrow> bool" where
  "ax_has executionId s \<longleftrightarrow> map_of (ax_active s) executionId \<noteq> None"

text \<open>The object the registry holds for an id, with its token.\<close>

definition ax_find :: "string \<Rightarrow> active_executions \<Rightarrow> (nat \<times> running_execution) option" where
  "ax_find executionId s =
     (case map_of (ax_active s) executionId of
        None \<Rightarrow> None
      | Some tok \<Rightarrow> map_option (Pair tok) (map_of (ax_objects s) tok))"

definition getExecutionOrFail :: "string \<Rightarrow> active_executions \<Rightarrow> (nat \<times> running_execution) result" where
  "getExecutionOrFail executionId s =
     (case ax_find executionId s of
        None \<Rightarrow> Inl (UnexpectedError ''No active execution found'')
      | Some e \<Rightarrow> Inr e)"

definition update_entry :: "'k \<Rightarrow> ('v \<Rightarrow> 'v) \<Rightarrow> ('k, 'v) jsmap \<Rightarrow> ('k, 'v) jsmap" where
  "update_entry k f m = map (\<lambda>(t, e). (t, if t = k then f e else e)) m"

definition update_object :: "nat \<Rightarrow> (running_execution \<Rightarrow> running_execution) \<Rightarrow> active_executions \<Rightarrow> active_executions" where
  "update_object tok f s = s\<lparr>ax_objects := update_entry tok f (ax_objects s)\<rparr>"

section \<open>Adding an execution\<close>

text \<open>A throttled call that is resolved goes on: its reservation is acquired.\<close>

definition resume_pending :: "nat \<Rightarrow> active_executions \<Rightarrow> active_executions" where
  "resume_pending tok s =
     s\<lparr>ax_pending := update_entry tok
         (\<lambda>p. p\<lparr>pa_waits := False, pa_reservation := reserved (pa_id p, rq_mode (pa_request p)) (pa_reservation p)\<rparr>)
         (ax_pending s)\<rparr>"

definition resume_events :: "nat queue_event list \<Rightarrow> active_executions \<Rightarrow> active_executions" where
  "resume_events events s = fold resume_pending (resolved events) s"

text \<open>
  \<^verbatim>\<open>add\<close> up to the point where the capacity is reserved. For a new execution \<open>createdId\<close> is the id
  that the database gives it. Evaluation executions reserve nothing.
\<close>

definition add_begin ::
    "license \<Rightarrow> execution_request \<Rightarrow> string option \<Rightarrow> string \<Rightarrow> active_executions \<Rightarrow> active_executions result" where
  "add_begin l request maybeExecutionId createdId s =
     (let executionId = (case maybeExecutionId of None \<Rightarrow> createdId | Some i \<Rightarrow> i);
          tok = ax_next s;
          p = \<lparr>pa_id = executionId, pa_request = request, pa_resumes = (maybeExecutionId \<noteq> None),
               pa_waits = False, pa_reservation = no_reservation\<rparr>
      in if maybeExecutionId = None \<and> createdId = [] then Inl (JsError ''AssertionError'')
         else if rq_mode request = evaluation
         then Inr (s\<lparr>ax_next := Suc tok, ax_pending := ax_pending s @ [(tok, p)]\<rparr>)
         else res_bind (reserve l (executionId, rq_mode request) tok no_reservation (ax_control s))
           (\<lambda>((waits, _), control).
             Inr (s\<lparr>ax_control := control, ax_next := Suc tok,
                 ax_pending := ax_pending s @ [(tok,
                   if waits then p\<lparr>pa_waits := True\<rparr>
                   else p\<lparr>pa_reservation := reserved (executionId, rq_mode request) no_reservation\<rparr>)]\<rparr>)))"

text \<open>
  What follows an error of the database, or an update that did not go through because another
  process resumes the execution: the reservation is released and the error raised to the caller.
\<close>

definition add_fail :: "license \<Rightarrow> nat \<Rightarrow> active_executions \<Rightarrow> active_executions result" where
  "add_fail l tok s =
     (case map_of (ax_pending s) tok of
        None \<Rightarrow> Inr s
      | Some p \<Rightarrow> res_bind (release_reservation l (pa_reservation p) (ax_control s)) (\<lambda>(_, events, control).
          Inr (resume_events events (s\<lparr>ax_control := control, ax_pending := map_delete tok (ax_pending s)\<rparr>))))"

text \<open>
  The rest of \<^verbatim>\<open>add\<close>: the execution is registered. Its status is running, unless it was resumed
  with an empty id, which does not count as given when the status is chosen.
\<close>

definition add_register :: "int \<Rightarrow> nat \<Rightarrow> active_executions \<Rightarrow> active_executions" where
  "add_register now tok s =
     (case map_of (ax_pending s) tok of
        None \<Rightarrow> s
      | Some p \<Rightarrow>
          (let resumingExecution = map_option snd (ax_find (pa_id p) s);
               execution =
                 \<lparr>re_id = pa_id p, re_request = pa_request p,
                  re_startedAt = (case resumingExecution of Some e \<Rightarrow> re_startedAt e | None \<Rightarrow> now),
                  re_status = (if pa_resumes p \<and> pa_id p = [] then ''new'' else ''running''),
                  re_responsePromise = (case resumingExecution of Some e \<Rightarrow> re_responsePromise e | None \<Rightarrow> None),
                  re_workflowExecution = None, re_settled = False, re_handled = False,
                  re_reservation = pa_reservation p\<rparr>
           in s\<lparr>ax_pending := map_delete tok (ax_pending s),
                ax_objects := ax_objects s @ [(tok, execution)],
                ax_active := obj_put (pa_id p) tok (ax_active s)\<rparr>))"

text \<open>The callback on the settled promise of the object \<open>tok\<close>.\<close>

definition after_settled :: "license \<Rightarrow> nat \<Rightarrow> active_executions \<Rightarrow> active_executions result" where
  "after_settled l tok s =
     (case map_of (ax_objects s) tok of
        None \<Rightarrow> Inr s
      | Some e \<Rightarrow> res_bind (release_reservation l (re_reservation e) (ax_control s)) (\<lambda>(res, events, control).
          let s = resume_events events (s\<lparr>ax_control := control\<rparr>);
              s = update_object tok (\<lambda>e. e\<lparr>re_handled := True, re_reservation := res\<rparr>) s
          in Inr (if re_status e = ''waiting''
                  then update_object tok (\<lambda>e. e\<lparr>re_workflowExecution := None\<rparr>) s
                  else s\<lparr>ax_active := map_delete (re_id e) (ax_active s),
                         ax_responseModes := map_delete (re_id e) (ax_responseModes s)\<rparr>)))"

section \<open>The other operations\<close>

definition settle :: "nat \<Rightarrow> active_executions \<Rightarrow> active_executions" where
  "settle tok = update_object tok (\<lambda>e. e\<lparr>re_settled := True\<rparr>)"

definition attachWorkflowExecution :: "string \<Rightarrow> nat \<Rightarrow> active_executions \<Rightarrow> active_executions result" where
  "attachWorkflowExecution executionId w s =
     res_bind (getExecutionOrFail executionId s) (\<lambda>(tok, _).
       Inr (update_object tok (\<lambda>e. e\<lparr>re_workflowExecution := Some w\<rparr>) s))"

definition attachResponsePromise :: "string \<Rightarrow> nat \<Rightarrow> active_executions \<Rightarrow> active_executions result" where
  "attachResponsePromise executionId p s =
     res_bind (getExecutionOrFail executionId s) (\<lambda>(tok, _).
       Inr (update_object tok (\<lambda>e. e\<lparr>re_responsePromise := Some p\<rparr>) s))"

definition resolveResponsePromise :: "string \<Rightarrow> active_executions \<Rightarrow> ax_effect list" where
  "resolveResponsePromise executionId s =
     (case ax_find executionId s of
        None \<Rightarrow> []
      | Some (_, e) \<Rightarrow> (case re_responsePromise e of None \<Rightarrow> [] | Some p \<Rightarrow> [ResponseResolved p]))"

definition stopExecution :: "string \<Rightarrow> active_executions \<Rightarrow> ax_effect list \<times> active_executions" where
  "stopExecution executionId s =
     (case ax_find executionId s of
        None \<Rightarrow> ([], s)
      | Some (tok, e) \<Rightarrow>
          (let effects = [ExecutionCancelled executionId (rq_workflowId (re_request e))]
                 @ (case re_responsePromise e of None \<Rightarrow> [] | Some p \<Rightarrow> [ResponseRejected p])
           in if re_status e = ''waiting''
              then (effects, s\<lparr>ax_active := map_delete executionId (ax_active s),
                      ax_responseModes := map_delete executionId (ax_responseModes s)\<rparr>)
              else (effects @ (case re_workflowExecution e of None \<Rightarrow> [] | Some w \<Rightarrow> [RunCancelled w]),
                    settle tok s)))"

definition finalizeExecution :: "string \<Rightarrow> active_executions \<Rightarrow> ax_effect list \<times> active_executions" where
  "finalizeExecution executionId s =
     (case ax_find executionId s of
        None \<Rightarrow> ([], s)
      | Some (tok, e) \<Rightarrow>
          (if rq_httpResponse (re_request e) then [HttpResponseEnded executionId] else [], settle tok s))"

definition resolveExecutionResponsePromise :: "string \<Rightarrow> active_executions \<Rightarrow> ax_effect list" where
  "resolveExecutionResponsePromise executionId s =
     (case ax_find executionId s of
        None \<Rightarrow> []
      | Some (_, e) \<Rightarrow>
          (if re_status e \<noteq> ''waiting''
           then (case re_responsePromise e of None \<Rightarrow> [] | Some p \<Rightarrow> [ResponseResolved p]) else []))"

record execution_summary =
  es_id :: string
  es_retryOf :: "string option"
  es_startedAt :: int
  es_mode :: string
  es_workflowId :: "string option"
  es_status :: string

definition getActiveExecutions :: "active_executions \<Rightarrow> execution_summary list" where
  "getActiveExecutions s =
     concat (map (\<lambda>(executionId, tok).
       case map_of (ax_objects s) tok of
         None \<Rightarrow> []
       | Some data \<Rightarrow> [\<lparr>es_id = executionId, es_retryOf = rq_retryOf (re_request data), es_startedAt = re_startedAt data,
           es_mode = rq_mode (re_request data), es_workflowId = rq_workflowId (re_request data),
           es_status = re_status data\<rparr>]) (ax_active s))"

definition ax_setStatus :: "string \<Rightarrow> string \<Rightarrow> active_executions \<Rightarrow> active_executions result" where
  "ax_setStatus executionId status s =
     res_bind (getExecutionOrFail executionId s) (\<lambda>(tok, _).
       Inr (update_object tok (\<lambda>e. e\<lparr>re_status := status\<rparr>) s))"

definition ax_getStatus :: "string \<Rightarrow> active_executions \<Rightarrow> string result" where
  "ax_getStatus executionId s = res_bind (getExecutionOrFail executionId s) (\<lambda>(_, e). Inr (re_status e))"

definition setResponseMode :: "string \<Rightarrow> string \<Rightarrow> active_executions \<Rightarrow> active_executions" where
  "setResponseMode executionId responseMode s =
     s\<lparr>ax_responseModes := map_set executionId responseMode (ax_responseModes s)\<rparr>"

definition getResponseMode :: "string \<Rightarrow> active_executions \<Rightarrow> string option" where
  "getResponseMode executionId s = map_of (ax_responseModes s) executionId"

text \<open>
  \<^verbatim>\<open>shutdown\<close> up to its loop, which waits until no execution is active: the effects, the ids to
  cancel and the state. \<open>shutdown_one\<close> is one turn of the loop over the active ids.
\<close>

definition is_regular :: "active_executions \<Rightarrow> bool" where
  "is_regular s \<longleftrightarrow> scf_mode (ccs_config (ax_control s)) = ''regular''"

fun shutdown_one ::
    "bool \<Rightarrow> string \<Rightarrow> ax_effect list \<times> string list \<times> active_executions \<Rightarrow> ax_effect list \<times> string list \<times> active_executions" where
  "shutdown_one stopAll executionId (effects, toCancel, s) =
     (if stopAll
      then case stopExecution executionId s of (es, s) \<Rightarrow> (effects @ es, toCancel @ [executionId], s)
      else case ax_find executionId s of
        None \<Rightarrow> (effects, toCancel, s)
      | Some (_, e) \<Rightarrow>
          if re_status e = ''waiting'' \<or> re_status e = ''new''
          then (effects, toCancel, s\<lparr>ax_active := map_delete executionId (ax_active s)\<rparr>)
          else (effects, toCancel, s))"

definition ax_shutdown :: "bool \<Rightarrow> active_executions \<Rightarrow> (ax_effect list \<times> string list \<times> active_executions) result" where
  "ax_shutdown cancelAll s =
     (let isRegularMode = is_regular s;
          s = (if isRegularMode then s\<lparr>ax_control := disable (ax_control s)\<rparr> else s)
      in case fold (shutdown_one (isRegularMode \<and> cancelAll)) (map fst (ax_active s)) ([], [], s) of
           (effects, toCancel, s) \<Rightarrow>
             res_bind (removeAll toCancel (ax_control s)) (\<lambda>(events, cancelled, control).
               Inr (effects, cancelled, resume_events events (s\<lparr>ax_control := control\<rparr>))))"

text \<open>A waiting call is taken out of the queue from outside (\<^verbatim>\<open>concurrencyControl.remove\<close>).\<close>

definition remove_waiting_add :: "license \<Rightarrow> string \<Rightarrow> string \<Rightarrow> active_executions \<Rightarrow> active_executions result" where
  "remove_waiting_add l mode executionId s =
     res_bind (remove_execution l mode executionId (ax_control s)) (\<lambda>(events, control).
       Inr (resume_events events (s\<lparr>ax_control := control\<rparr>)))"

end
