(* ===== verification/Executions_Invariant.thy ===== *)
theory Executions_Invariant
  imports Active_Executions
begin

text \<open>
  The step relation of the active executions with their concurrency control, and its invariant: the
  capacity of the production queue is the limit less the waiting calls and the reservations held by
  calls under way and by execution objects. An orphan is an object that the registry no longer
  refers to although its promise is not settled: nothing can settle it any more.
\<close>

section \<open>Steps\<close>

inductive ax_step :: "license \<Rightarrow> active_executions \<Rightarrow> active_executions \<Rightarrow> bool" for l where
  begins: "add_begin l request maybeId createdId s = Inr t \<Longrightarrow> ax_step l s t"
| fails: "map_of (ax_pending s) tok = Some p \<Longrightarrow> \<not> pa_waits p \<Longrightarrow> add_fail l tok s = Inr t \<Longrightarrow> ax_step l s t"
| registers: "map_of (ax_pending s) tok = Some p \<Longrightarrow> \<not> pa_waits p \<Longrightarrow> ax_step l s (add_register now tok s)"
| stops: "ax_step l s (snd (stopExecution executionId s))"
| finalizes: "ax_step l s (snd (finalizeExecution executionId s))"
| handles: "map_of (ax_objects s) tok = Some e \<Longrightarrow> re_settled e \<Longrightarrow> \<not> re_handled e
    \<Longrightarrow> after_settled l tok s = Inr t \<Longrightarrow> ax_step l s t"
| sets_status: "ax_setStatus executionId status s = Inr t \<Longrightarrow> ax_step l s t"
| attaches_run: "attachWorkflowExecution executionId w s = Inr t \<Longrightarrow> ax_step l s t"
| attaches_response: "attachResponsePromise executionId r s = Inr t \<Longrightarrow> ax_step l s t"
| removes: "mode \<noteq> evaluation \<Longrightarrow> remove_waiting_add l mode executionId s = Inr t \<Longrightarrow> ax_step l s t"
| shuts_down: "ax_shutdown cancelAll s = Inr (effects, cancelled, t) \<Longrightarrow> ax_step l s t"

section \<open>Entries\<close>

lemma map_of_update_entry [simp]:
  "map_of (update_entry k f m) j = (if j = k then map_option f (map_of m j) else map_of m j)"
  by (induction m) (auto simp: update_entry_def)

lemma keys_update_entry [simp]: "map fst (update_entry k f m) = map fst m"
  by (induction m) (auto simp: update_entry_def)

lemma count_update_entry:
  assumes "distinct (map fst m)" and "map_of m k = Some v"
  shows "length (filter P (map snd (update_entry k f m))) + (if P v then 1 else 0)
    = length (filter P (map snd m)) + (if P (f v) then 1 else 0)"
proof -
  have other: "update_entry k f m = m" if "k \<notin> fst ` set m" for m :: "('a \<times> 'b) list"
    using that by (induction m) (auto simp: update_entry_def)
  show ?thesis using assms
  proof (induction m)
    case (Cons e m)
    obtain j u where e: "e = (j, u)" by (cases e)
    show ?case
    proof (cases "j = k")
      case True
      with Cons.prems e other [of m] show ?thesis by (simp add: update_entry_def)
    next
      case False
      with Cons e show ?thesis by (auto simp: update_entry_def)
    qed
  qed simp
qed

lemma count_delete:
  assumes "distinct (map fst m)" and "map_of m k = Some v"
  shows "length (filter P (map snd (map_delete k m))) + (if P v then 1 else 0) = length (filter P (map snd m))"
  using assms
proof (induction m)
  case (Cons e m)
  obtain j u where e: "e = (j, u)" by (cases e)
  show ?case
  proof (cases "j = k")
    case True
    with Cons.prems e have "map_delete k m = m" by (auto intro: delete_id)
    with True Cons.prems e show ?thesis by simp
  next
    case False
    with Cons e show ?thesis by auto
  qed
qed simp

section \<open>The production queue of the service\<close>

definition production_queue :: "'r control_service \<Rightarrow> 'r concurrency_queue option" where
  "production_queue c = (case ccs_queues c of None \<Rightarrow> None | Some qs \<Rightarrow> map_of qs production)"

lemma production_queue_put [simp]:
  "production_queue c \<noteq> None \<Longrightarrow> production_queue (put_queue production q c) = Some q"
  "ccs_isEnabled (put_queue key q c) = ccs_isEnabled c"
  "ccs_config (put_queue key q c) = ccs_config c"
  by (auto simp: production_queue_def put_queue_def update_conv' split: option.splits)

lemma production_not_unqueued: "mode \<in> set production_modes \<Longrightarrow> mode \<notin> set unqueued_modes \<and> mode \<noteq> evaluation"
  by (auto simp: production_modes_def unqueued_modes_def)

lemma on_queue_production:
  assumes "ccs_isEnabled c" and "mode \<in> set production_modes" and "production_queue c = Some q"
  shows "on_queue l mode idle act c = (case act q of (out, q') \<Rightarrow> Inr (out, put_queue production q' c))"
proof -
  from assms(3) obtain qs where qs: "ccs_queues c = Some qs" "map_of qs production = Some q"
    by (auto simp: production_queue_def split: option.splits)
  with assms production_not_unqueued [OF assms(2)] have "getQueue mode c = Inr (Some (production, q))"
    by (simp add: getQueue_def queues_of_def)
  with assms production_not_unqueued [OF assms(2)] show ?thesis
    by (simp add: on_queue_def isUnlimited_def split: prod.split)
qed

lemma on_queue_idle:
  assumes "mode \<noteq> evaluation" and "ccs_isEnabled c \<Longrightarrow> mode \<notin> set production_modes"
    and "on_queue l mode idle act c = Inr (out, c')"
  shows "out = idle \<and> c' = c"
proof (cases "ccs_isEnabled c")
  case False
  with assms show ?thesis by (auto simp: on_queue_def)
next
  case True
  with assms show ?thesis
    by (auto simp: on_queue_def isUnlimited_def getQueue_def split: if_splits)
qed

section \<open>The invariant\<close>

definition holds_slot :: "reservation \<Rightarrow> bool" where
  "holds_slot r \<longleftrightarrow> (\<exists>i m. acquiredReservation r = Some (i, m) \<and> m \<in> set production_modes)"

definition held_slots :: "active_executions \<Rightarrow> nat" where
  "held_slots s = length (filter (\<lambda>p. holds_slot (pa_reservation p)) (map_values (ax_pending s)))
     + length (filter (\<lambda>e. holds_slot (re_reservation e)) (map_values (ax_objects s)))"

definition reservation_ok :: "reservation \<Rightarrow> bool" where
  "reservation_ok r \<longleftrightarrow> (\<forall>i m. acquiredReservation r = Some (i, m) \<longrightarrow> m \<noteq> evaluation)"

text \<open>The registry refers to objects that carry the id it has for them.\<close>

definition active_refers :: "(nat, running_execution) jsmap \<Rightarrow> (string \<times> nat) list \<Rightarrow> bool" where
  "active_refers objects active \<longleftrightarrow> (\<forall>(i, tok) \<in> set active. \<exists>e. map_of objects tok = Some e \<and> re_id e = i)"

lemma active_refersI:
  "(\<And>i tok. (i, tok) \<in> set active \<Longrightarrow> \<exists>e. map_of objects tok = Some e \<and> re_id e = i) \<Longrightarrow> active_refers objects active"
  unfolding active_refers_def by (intro ballI) (simp only: split_paired_all prod.case)

lemma active_refersD:
  "active_refers objects active \<Longrightarrow> (i, tok) \<in> set active \<Longrightarrow> \<exists>e. map_of objects tok = Some e \<and> re_id e = i"
  unfolding active_refers_def by (drule (1) bspec) simp

lemma active_refers_mono: "active_refers objects active \<Longrightarrow> set a \<subseteq> set active \<Longrightarrow> active_refers objects a"
  unfolding active_refers_def by (meson subset_eq)

lemma active_refers_update:
  assumes "active_refers objects active" and f: "\<And>e. re_id (f e) = re_id e"
  shows "active_refers (update_entry tok f objects) active"
proof (rule active_refersI)
  fix i k assume "(i, k) \<in> set active"
  with assms(1) obtain e where "map_of objects k = Some e" "re_id e = i" by (blast dest: active_refersD)
  then show "\<exists>e. map_of (update_entry tok f objects) k = Some e \<and> re_id e = i"
    by (cases "k = tok") (auto simp: f)
qed

definition tokens_ok :: "active_executions \<Rightarrow> bool" where
  "tokens_ok s \<longleftrightarrow> distinct (map fst (ax_pending s) @ map fst (ax_objects s))
     \<and> (\<forall>tok \<in> fst ` set (ax_pending s) \<union> fst ` set (ax_objects s). tok < ax_next s)
     \<and> active_refers (ax_objects s) (ax_active s)
     \<and> distinct (map fst (ax_active s))"

text \<open>The calls in the queue are pending, wait, and hold no reservation yet.\<close>

definition queued_ok :: "nat list \<Rightarrow> active_executions \<Rightarrow> bool" where
  "queued_ok toks s \<longleftrightarrow> distinct toks
     \<and> (\<forall>tok \<in> set toks. \<exists>p. map_of (ax_pending s) tok = Some p \<and> pa_waits p
          \<and> pa_reservation p = no_reservation \<and> rq_mode (pa_request p) \<in> set production_modes)"

definition reservations_ok :: "active_executions \<Rightarrow> bool" where
  "reservations_ok s \<longleftrightarrow> (\<forall>p \<in> snd ` set (ax_pending s). reservation_ok (pa_reservation p))
     \<and> (\<forall>e \<in> snd ` set (ax_objects s). reservation_ok (re_reservation e))"

definition ax_inv :: "int \<Rightarrow> active_executions \<Rightarrow> bool" where
  "ax_inv limit s \<longleftrightarrow> tokens_ok s \<and> reservations_ok s
     \<and> scf_mode (ccs_config (ax_control s)) = ''regular''
     \<and> (\<exists>q. production_queue (ax_control s) = Some q \<and> queued_ok (map qi_resolve (cq_queue q)) s
          \<and> (ccs_isEnabled (ax_control s) \<longrightarrow>
               cq_capacity q + int (length (cq_queue q)) + int (held_slots s) = limit))"

definition slots :: "nat concurrency_queue \<Rightarrow> active_executions \<Rightarrow> int" where
  "slots q s = cq_capacity q + int (length (cq_queue q)) + int (held_slots s)"

abbreviation queued :: "nat concurrency_queue \<Rightarrow> active_executions \<Rightarrow> bool" where
  "queued q s \<equiv> queued_ok (map qi_resolve (cq_queue q)) s"

lemma ax_invI:
  assumes "tokens_ok s" and "reservations_ok s" and "scf_mode (ccs_config (ax_control s)) = ''regular''"
    and "production_queue (ax_control s) = Some q" and "queued q s"
    and "ccs_isEnabled (ax_control s) \<Longrightarrow> slots q s = limit"
  shows "ax_inv limit s"
  using assms by (auto simp: ax_inv_def slots_def)

lemma ax_invE:
  assumes "ax_inv limit s"
  obtains q where "tokens_ok s" and "reservations_ok s" and "scf_mode (ccs_config (ax_control s)) = ''regular''"
    and "production_queue (ax_control s) = Some q" and "queued q s"
    and "ccs_isEnabled (ax_control s) \<Longrightarrow> slots q s = limit"
  using assms by (auto simp: ax_inv_def slots_def)

section \<open>Resuming a call\<close>

lemma values_update_entry:
  "\<forall>v \<in> snd ` set m. P v \<Longrightarrow> (\<And>v. P v \<Longrightarrow> P (f v)) \<Longrightarrow> \<forall>v \<in> snd ` set (update_entry k f m). P v"
  by (auto simp: update_entry_def)

lemma production_not_evaluation: "m \<in> set production_modes \<Longrightarrow> m \<noteq> evaluation"
  by (simp add: production_not_unqueued)

lemma resume_pending_keeps:
  assumes "tokens_ok s" and "reservations_ok s" and "map_of (ax_pending s) tok = Some p"
    and "pa_reservation p = no_reservation" and "rq_mode (pa_request p) \<in> set production_modes"
  shows "tokens_ok (resume_pending tok s)" and "reservations_ok (resume_pending tok s)"
    and "held_slots (resume_pending tok s) = Suc (held_slots s)"
    and "queued_ok toks s \<Longrightarrow> tok \<notin> set toks \<Longrightarrow> queued_ok toks (resume_pending tok s)"
proof -
  let ?f = "\<lambda>p. p\<lparr>pa_waits := False, pa_reservation := reserved (pa_id p, rq_mode (pa_request p)) (pa_reservation p)\<rparr>"
  have keys: "fst ` set (update_entry k g m) = fst ` set m" for k :: nat and g :: "pending_add \<Rightarrow> pending_add" and m
    by (metis keys_update_entry image_set)
  show "tokens_ok (resume_pending tok s)"
    using assms(1) unfolding tokens_ok_def resume_pending_def by (simp add: keys)
  have d: "distinct (map fst (ax_pending s))" using assms(1) by (simp add: tokens_ok_def)
  have "reservation_ok (pa_reservation (?f p))"
    using assms(5) by (auto simp: reservation_ok_def reserved_def production_not_evaluation)
  moreover have "v = p" if "(tok, v) \<in> set (ax_pending s)" for v
    using map_of_eq_Some_iff [OF d, of tok v] assms(3) that by simp
  ultimately show "reservations_ok (resume_pending tok s)"
    using assms(2) unfolding reservations_ok_def resume_pending_def by (force simp: update_entry_def)
  have "\<not> holds_slot (pa_reservation p)" "holds_slot (pa_reservation (?f p))"
    using assms(4,5) by (auto simp: holds_slot_def reserved_def)
  then show "held_slots (resume_pending tok s) = Suc (held_slots s)"
    using count_update_entry [OF d assms(3), of "\<lambda>p. holds_slot (pa_reservation p)" ?f]
    by (simp add: held_slots_def resume_pending_def)
  show "queued_ok toks s \<Longrightarrow> tok \<notin> set toks \<Longrightarrow> queued_ok toks (resume_pending tok s)"
    by (auto simp: queued_ok_def resume_pending_def)
qed

lemma resume_pending_frame [simp]:
  "ax_control (resume_pending tok s) = ax_control s" "ax_objects (resume_pending tok s) = ax_objects s"
  "ax_active (resume_pending tok s) = ax_active s" "ax_next (resume_pending tok s) = ax_next s"
  by (simp_all add: resume_pending_def)

text \<open>Starting the first waiting call moves a slot from the queue to a reservation.\<close>

lemma resolveNext_keeps:
  assumes "tokens_ok s" and "reservations_ok s" and "queued q s" and "resolveNext q = (events, q')"
  shows "tokens_ok (resume_events events s)" and "reservations_ok (resume_events events s)"
    and "queued q' (resume_events events s)" and "slots q' (resume_events events s) = slots q s"
    and "ax_control (resume_events events s) = ax_control s" and "ax_objects (resume_events events s) = ax_objects s"
    and "ax_active (resume_events events s) = ax_active s"
proof -
  have "tokens_ok (resume_events events s) \<and> reservations_ok (resume_events events s)
    \<and> queued q' (resume_events events s) \<and> slots q' (resume_events events s) = slots q s
    \<and> ax_control (resume_events events s) = ax_control s \<and> ax_objects (resume_events events s) = ax_objects s
    \<and> ax_active (resume_events events s) = ax_active s"
  proof (cases "cq_queue q")
    case Nil
    with assms show ?thesis by (simp add: resolveNext_def resume_events_def)
  next
    case (Cons i rest)
    with assms(4) have ev: "events = [ExecutionReleased (qi_executionId i), Resolved (qi_resolve i)]"
      "q' = q\<lparr>cq_queue := rest\<rparr>" by (simp_all add: resolveNext_def)
    from assms(3) Cons obtain p where p: "map_of (ax_pending s) (qi_resolve i) = Some p"
      "pa_reservation p = no_reservation" "rq_mode (pa_request p) \<in> set production_modes"
      by (auto simp: queued_ok_def)
    have rest: "queued_ok (map qi_resolve rest) s" "qi_resolve i \<notin> set (map qi_resolve rest)"
      using assms(3) Cons by (auto simp: queued_ok_def)
    from resume_pending_keeps [OF assms(1,2) p] rest Cons show ?thesis
      unfolding ev by (simp add: resume_events_def slots_def)
  qed
  then show "tokens_ok (resume_events events s)" "reservations_ok (resume_events events s)"
    "queued q' (resume_events events s)" "slots q' (resume_events events s) = slots q s"
    "ax_control (resume_events events s) = ax_control s" "ax_objects (resume_events events s) = ax_objects s"
    "ax_active (resume_events events s) = ax_active s" by blast+
qed

lemma dequeue_keeps:
  assumes "tokens_ok s" and "reservations_ok s" and "queued q s" and "dequeue q = (events, q')"
  shows "tokens_ok (resume_events events s)" and "reservations_ok (resume_events events s)"
    and "queued q' (resume_events events s)" and "slots q' (resume_events events s) = slots q s + 1"
    and "ax_control (resume_events events s) = ax_control s" and "ax_objects (resume_events events s) = ax_objects s"
    and "ax_active (resume_events events s) = ax_active s"
  using resolveNext_keeps [OF assms(1,2) _ assms(4) [unfolded dequeue_def]] assms(3)
  by (simp_all add: slots_def)

lemma remove_keeps:
  assumes "tokens_ok s" and "reservations_ok s" and "queued q s" and "queue_remove i q = (events, q')"
  shows "tokens_ok (resume_events events s)" and "reservations_ok (resume_events events s)"
    and "queued q' (resume_events events s)" and "slots q' (resume_events events s) = slots q s"
    and "ax_control (resume_events events s) = ax_control s" and "ax_objects (resume_events events s) = ax_objects s"
    and "ax_active (resume_events events s) = ax_active s"
proof -
  have "tokens_ok (resume_events events s) \<and> reservations_ok (resume_events events s)
    \<and> queued q' (resume_events events s) \<and> slots q' (resume_events events s) = slots q s
    \<and> ax_control (resume_events events s) = ax_control s \<and> ax_objects (resume_events events s) = ax_objects s
    \<and> ax_active (resume_events events s) = ax_active s"
  proof (cases "list_ex (has_id i) (cq_queue q)")
    case False
    with assms show ?thesis by (simp add: queue_remove_def resume_events_def)
  next
    case True
    let ?q = "\<lparr>cq_capacity = cq_capacity q + 1, cq_queue = remove_first (has_id i) (cq_queue q)\<rparr>"
    obtain us x vs where split: "cq_queue q = us @ x # vs" "remove_first (has_id i) (cq_queue q) = us @ vs"
      using remove_first_split [of "cq_queue q" "has_id i"] True by (auto simp: list_ex_iff)
    with assms(3) have "queued ?q s" by (auto simp: queued_ok_def)
    from resolveNext_keeps [OF assms(1,2) this, of events q'] assms(4) True length_remove_first [OF True]
    show ?thesis by (simp add: queue_remove_def slots_def)
  qed
  then show "tokens_ok (resume_events events s)" "reservations_ok (resume_events events s)"
    "queued q' (resume_events events s)" "slots q' (resume_events events s) = slots q s"
    "ax_control (resume_events events s) = ax_control s" "ax_objects (resume_events events s) = ax_objects s"
    "ax_active (resume_events events s) = ax_active s" by blast+
qed

section \<open>Every step keeps the invariant\<close>

text \<open>Changes of an object or of the registry that touch no reservation.\<close>

lemma keys_set_update_entry [simp]: "fst ` set (update_entry k f m) = fst ` set m"
  by (metis keys_update_entry image_set)

lemma update_object_frame [simp]:
  "ax_objects (update_object tok f s) = update_entry tok f (ax_objects s)"
  "ax_pending (update_object tok f s) = ax_pending s" "ax_active (update_object tok f s) = ax_active s"
  "ax_next (update_object tok f s) = ax_next s" "ax_control (update_object tok f s) = ax_control s"
  by (simp_all add: update_object_def)

lemma update_object_inv:
  assumes "ax_inv limit s" and f: "\<And>e. re_id (f e) = re_id e" "\<And>e. re_reservation (f e) = re_reservation e"
  shows "ax_inv limit (update_object tok f s)"
proof -
  from assms(1) obtain q where inv: "tokens_ok s" "reservations_ok s" "scf_mode (ccs_config (ax_control s)) = ''regular''"
    "production_queue (ax_control s) = Some q" "queued q s" "ccs_isEnabled (ax_control s) \<Longrightarrow> slots q s = limit"
    by (rule ax_invE) blast
  have "tokens_ok (update_object tok f s)"
    using inv(1) by (simp add: tokens_ok_def active_refers_update f(1))
  moreover have "reservations_ok (update_object tok f s)"
    using inv(2) values_update_entry [of "ax_objects s" "\<lambda>e. reservation_ok (re_reservation e)" f tok]
    by (simp only: reservations_ok_def update_object_frame f(2)) blast
  moreover have "length (filter P (map_values (update_entry tok f m))) = length (filter P (map_values m))"
    if P: "\<And>e. P (f e) \<longleftrightarrow> P e" for P m
  proof (induction m)
    case (Cons a m)
    then show ?case by (cases a) (simp add: update_entry_def P)
  qed (simp add: update_entry_def)
  then have "held_slots (update_object tok f s) = held_slots s"
    by (simp only: held_slots_def update_object_frame f(2))
  moreover have "queued q (update_object tok f s)"
    using inv(5) unfolding queued_ok_def update_object_frame .
  ultimately show ?thesis
    using inv(3,4,6) by (intro ax_invI [of _ q]) (simp_all only: update_object_frame slots_def)
qed

lemma active_inv:
  assumes "ax_inv limit s" and "set a \<subseteq> set (ax_active s)" and "distinct (map fst a)"
  shows "ax_inv limit (s\<lparr>ax_active := a, ax_responseModes := m\<rparr>)"
    and "ax_inv limit (s\<lparr>ax_active := a\<rparr>)"
proof -
  have refers: "active_refers (ax_objects s) a" if "tokens_ok s"
    using that assms(2) by (auto simp: tokens_ok_def intro: active_refers_mono)
  show "ax_inv limit (s\<lparr>ax_active := a, ax_responseModes := m\<rparr>)" and "ax_inv limit (s\<lparr>ax_active := a\<rparr>)"
    using assms(1,3) refers
    by (auto simp: ax_inv_def tokens_ok_def reservations_ok_def queued_ok_def held_slots_def)
qed

lemma ax_inv_active_keys: "ax_inv limit s \<Longrightarrow> distinct (map fst (ax_active s))"
  by (simp add: ax_inv_def tokens_ok_def)

lemma active_delete_inv:
  assumes "ax_inv limit s"
  shows "ax_inv limit (s\<lparr>ax_active := map_delete i (ax_active s), ax_responseModes := m\<rparr>)"
    and "ax_inv limit (s\<lparr>ax_active := map_delete i (ax_active s)\<rparr>)"
  using assms by (auto intro!: active_inv distinct_map_delete ax_inv_active_keys simp: entries_map_delete)

lemma settle_inv: "ax_inv limit s \<Longrightarrow> ax_inv limit (settle tok s)"
  unfolding settle_def by (rule update_object_inv) simp_all

lemma stop_inv: "ax_inv limit s \<Longrightarrow> ax_inv limit (snd (stopExecution i s))"
  by (auto simp: stopExecution_def Let_def settle_inv active_delete_inv split: option.split)

lemma finalize_inv: "ax_inv limit s \<Longrightarrow> ax_inv limit (snd (finalizeExecution i s))"
  by (auto simp: finalizeExecution_def settle_inv split: option.split)

text \<open>Releasing a reservation that is no longer counted.\<close>

lemma release_reservation_cases:
  assumes "reservation_ok r" and "release_reservation l r c = Inr (r', events, c')"
    and "production_queue c = Some q"
  shows "acquiredReservation r' = None \<and>
    ((ccs_isEnabled c \<and> holds_slot r \<and> (\<exists>q'. dequeue q = (events, q') \<and> c' = put_queue production q' c))
     \<or> (\<not> (ccs_isEnabled c \<and> holds_slot r) \<and> events = [] \<and> c' = c))"
proof (cases "acquiredReservation r")
  case None
  with assms(2) show ?thesis by (auto simp: release_reservation_def holds_slot_def)
next
  case (Some im)
  obtain i m where im: "im = (i, m)" by (cases im)
  with assms(1) Some have m: "m \<noteq> evaluation" by (simp add: reservation_ok_def)
  from assms(2) Some im have rel: "release l m c = Inr (events, c')" "r' = r\<lparr>acquiredReservation := None\<rparr>"
    by (auto simp: release_reservation_def js_simps)
  show ?thesis
  proof (cases "ccs_isEnabled c \<and> m \<in> set production_modes")
    case True
    with rel(1) assms(3) have "(case dequeue q of (out, q') \<Rightarrow> (Inr (out, put_queue production q' c) :: _ result)) = Inr (events, c')"
      by (simp add: release_def on_queue_production)
    with True Some im rel(2) show ?thesis by (auto simp: holds_slot_def split: prod.splits)
  next
    case False
    with on_queue_idle [OF m _ rel(1) [unfolded release_def]] have "events = [] \<and> c' = c" by auto
    with False Some im rel(2) show ?thesis by (auto simp: holds_slot_def)
  qed
qed

lemma released_inv:
  assumes "tokens_ok s" and "reservations_ok s" and "scf_mode (ccs_config (ax_control s)) = ''regular''"
    and q: "production_queue (ax_control s) = Some q" "queued q s"
    and slots: "ccs_isEnabled (ax_control s) \<Longrightarrow> slots q s + (if holds_slot r then 1 else 0) = limit"
    and r: "reservation_ok r" "release_reservation l r (ax_control s) = Inr (r', events, c')"
  shows "ax_inv limit (resume_events events (s\<lparr>ax_control := c'\<rparr>))"
proof -
  have control: "tokens_ok (s\<lparr>ax_control := c'\<rparr>)" "reservations_ok (s\<lparr>ax_control := c'\<rparr>)" "queued q (s\<lparr>ax_control := c'\<rparr>)"
    "slots q (s\<lparr>ax_control := c'\<rparr>) = slots q s"
    using assms(1,2) q(2)
    by (auto simp: tokens_ok_def reservations_ok_def queued_ok_def slots_def held_slots_def)
  from release_reservation_cases [OF r q(1)]
  consider (dequeued) q' where "ccs_isEnabled (ax_control s)" "holds_slot r" "dequeue q = (events, q')"
      "c' = put_queue production q' (ax_control s)"
    | (idle) "\<not> (ccs_isEnabled (ax_control s) \<and> holds_slot r)" "events = []" "c' = ax_control s"
    by blast
  then show ?thesis
  proof cases
    case dequeued
    note keeps = dequeue_keeps [OF control(1-3) dequeued(3)]
    show ?thesis
      by (rule ax_invI [where q = q'], use keeps control(4) assms(3) q(1) dequeued slots in simp_all)
  next
    case idle
    then show ?thesis
      using control assms(3) q(1) slots by (intro ax_invI [where q = q]) (auto simp: resume_events_def)
  qed
qed

text \<open>A call that begins: it waits in the queue, or takes a slot, or needs none.\<close>

lemma begin_inv:
  assumes inv: "ax_inv limit s" and ret: "add_begin l request maybeId createdId s = Inr t"
  shows "ax_inv limit t"
proof -
  from inv obtain q where q: "tokens_ok s" "reservations_ok s" "scf_mode (ccs_config (ax_control s)) = ''regular''"
    "production_queue (ax_control s) = Some q" "queued q s" "ccs_isEnabled (ax_control s) \<Longrightarrow> slots q s = limit"
    by (rule ax_invE) blast
  have fresh: "ax_next s \<notin> fst ` set (ax_pending s) \<union> fst ` set (ax_objects s)"
    using q(1) unfolding tokens_ok_def by blast
  then have look: "map_of (ax_pending s) (ax_next s) = None" by (simp add: map_of_eq_None_iff)
  define added where "added c p = s\<lparr>ax_control := c, ax_next := Suc (ax_next s), ax_pending := ax_pending s @ [(ax_next s, p)]\<rparr>" for c p
  have tokens: "tokens_ok (added c p)" for c p
  proof -
    have "\<forall>k \<in> fst ` set (ax_pending s) \<union> fst ` set (ax_objects s). k < Suc (ax_next s)"
      using q(1) unfolding tokens_ok_def by (blast intro: less_SucI)
    with q(1) fresh show ?thesis
      by (simp add: tokens_ok_def added_def ball_Un)
  qed
  have res: "reservations_ok (added c p)" if "reservation_ok (pa_reservation p)" for c p
    using q(2) that by (simp add: reservations_ok_def added_def)
  have old: "queued q (added c p)" for c p
    using q(5) look by (fastforce simp: queued_ok_def added_def map_add_def split: option.split)
  have held: "held_slots (added c p) = held_slots s + (if holds_slot (pa_reservation p) then 1 else 0)" for c p
    by (simp add: held_slots_def added_def)
  let ?id = "case maybeId of None \<Rightarrow> createdId | Some i \<Rightarrow> i"
  let ?p = "\<lparr>pa_id = ?id, pa_request = request, pa_resumes = (maybeId \<noteq> None), pa_waits = False, pa_reservation = no_reservation\<rparr>"
  have none: "reservation_ok no_reservation" "\<not> holds_slot no_reservation"
    by (simp_all add: reservation_ok_def holds_slot_def)
  show ?thesis
  proof (cases "rq_mode request = evaluation")
    case True
    with ret have "t = added (ax_control s) ?p" by (simp add: add_begin_def added_def Let_def split: if_splits)
    then show ?thesis
      using tokens res old held none q(3,4,6)
      by (intro ax_invI [where q = q]) (simp_all add: slots_def, simp_all add: added_def)
  next
    case False
    with ret obtain waits events c where thr: "throttle l (rq_mode request) ?id (ax_next s) (ax_control s) = Inr ((waits, events), c)"
      and t: "t = added c (if waits then ?p\<lparr>pa_waits := True\<rparr> else ?p\<lparr>pa_reservation := reserved (?id, rq_mode request) no_reservation\<rparr>)"
      by (auto simp: add_begin_def added_def Let_def reserve_def js_simps split: if_splits)
    have got: "reservation_ok (reserved (?id, rq_mode request) no_reservation)"
      "holds_slot (reserved (?id, rq_mode request) no_reservation) \<longleftrightarrow> rq_mode request \<in> set production_modes"
      using False by (auto simp: reservation_ok_def holds_slot_def reserved_def)
    show ?thesis
    proof (cases "ccs_isEnabled (ax_control s) \<and> rq_mode request \<in> set production_modes")
      case True
      obtain w es q' where enq: "enqueue ?id (ax_next s) q = (w, es, q')" by (cases "enqueue ?id (ax_next s) q") auto
      with thr True q(4) have c: "c = put_queue production q' (ax_control s)" "waits = w"
        by (auto simp: throttle_def on_queue_production)
      show ?thesis
      proof (cases waits)
        case True
        with enq c have q': "cq_capacity q' = cq_capacity q - 1"
          "cq_queue q' = cq_queue q @ [\<lparr>qi_executionId = ?id, qi_resolve = ax_next s\<rparr>]"
          by (auto simp: enqueue_def Let_def split: if_splits)
        have "ax_next s \<notin> set (map qi_resolve (cq_queue q))"
          using q(5) look unfolding queued_ok_def by auto
        with old [of c "?p\<lparr>pa_waits := True\<rparr>"] have "queued q' (added c (?p\<lparr>pa_waits := True\<rparr>))"
          using \<open>ccs_isEnabled (ax_control s) \<and> rq_mode request \<in> set production_modes\<close> look
          by (auto simp: queued_ok_def q' added_def map_add_def)
        then show ?thesis
          unfolding t if_P [OF True] using tokens res held none q(3,4,6) q' c
          by (intro ax_invI [where q = q']) (simp_all add: slots_def, simp_all add: added_def)
      next
        case False
        with enq c have q': "q' = q\<lparr>cq_capacity := cq_capacity q - 1\<rparr>"
          by (auto simp: enqueue_def Let_def split: if_splits)
        show ?thesis
          unfolding t if_not_P [OF False] using tokens res old held got q(3,4,6) q' c True
          by (intro ax_invI [where q = q']) (simp_all add: slots_def, simp_all add: added_def)
      qed
    next
      case idle: False
      from thr idle have "(waits, events) = (False, []) \<and> c = ax_control s"
        unfolding throttle_def by (intro on_queue_idle [OF False]) auto
      then have c: "\<not> waits" "c = ax_control s" by auto
      show ?thesis
        unfolding t if_not_P [OF c(1)] using tokens res old held got q(3,4,6) c idle
        by (intro ax_invI [where q = q]) (simp_all add: slots_def, simp_all add: added_def)
    qed
  qed
qed

text \<open>A call that fails, an object whose promise is settled: the reservation is given back.\<close>

lemma fail_inv:
  assumes inv: "ax_inv limit s" and p: "map_of (ax_pending s) tok = Some p" "\<not> pa_waits p"
    and ret: "add_fail l tok s = Inr t"
  shows "ax_inv limit t"
proof -
  from inv obtain q where q: "tokens_ok s" "reservations_ok s" "scf_mode (ccs_config (ax_control s)) = ''regular''"
    "production_queue (ax_control s) = Some q" "queued q s" "ccs_isEnabled (ax_control s) \<Longrightarrow> slots q s = limit"
    by (rule ax_invE) blast
  let ?s = "s\<lparr>ax_pending := map_delete tok (ax_pending s)\<rparr>"
  from ret p(1) obtain r events c where rel: "release_reservation l (pa_reservation p) (ax_control s) = Inr (r, events, c)"
    "t = resume_events events (s\<lparr>ax_control := c, ax_pending := map_delete tok (ax_pending s)\<rparr>)"
    by (auto simp: add_fail_def js_simps)
  have t: "t = resume_events events (?s\<lparr>ax_control := c\<rparr>)" unfolding rel(2) by (cases s) simp
  have d: "distinct (map fst (ax_pending s))" using q(1) by (simp add: tokens_ok_def)
  have sub: "set (map_delete tok (ax_pending s)) \<subseteq> set (ax_pending s)" by (auto simp: entries_map_delete)
  have keys: "fst ` set (map_delete tok (ax_pending s)) \<subseteq> fst ` set (ax_pending s)" using sub by (rule image_mono)
  have "distinct (map fst (map_delete tok (ax_pending s)))" using d by (rule distinct_map_delete)
  moreover have "\<forall>k \<in> fst ` set (map_delete tok (ax_pending s)) \<union> fst ` set (ax_objects s). k < ax_next s"
    using q(1) keys unfolding tokens_ok_def by blast
  moreover have "distinct (map fst (map_delete tok (ax_pending s)) @ map fst (ax_objects s))"
    using q(1) keys calculation(1) unfolding tokens_ok_def distinct_append set_map by blast
  ultimately have "tokens_ok ?s"
    using q(1) unfolding tokens_ok_def by simp
  moreover have "reservations_ok ?s" using q(2) sub by (auto simp: reservations_ok_def)
  moreover have "queued q ?s" using q(5) p by (force simp: queued_ok_def map_of_map_delete)
  moreover have "held_slots ?s + (if holds_slot (pa_reservation p) then 1 else 0) = held_slots s"
    using count_delete [OF d p(1), of "\<lambda>p. holds_slot (pa_reservation p)"] by (simp add: held_slots_def)
  moreover have "reservation_ok (pa_reservation p)"
    using q(2) p(1) unfolding reservations_ok_def by (force dest: map_of_SomeD)
  ultimately show ?thesis
    unfolding t using rel(1) q(3,4,6)
    by (intro released_inv [where q = q and r = "pa_reservation p"]) (auto simp: slots_def)
qed

lemma resume_update_object: "resume_pending k (update_object tok f s) = update_object tok f (resume_pending k s)"
  by (cases s) (simp add: resume_pending_def update_object_def)

lemma handle_inv:
  assumes inv: "ax_inv limit s" and e: "map_of (ax_objects s) tok = Some e" and ret: "after_settled l tok s = Inr t"
  shows "ax_inv limit t"
proof -
  from inv obtain q where q: "tokens_ok s" "reservations_ok s" "scf_mode (ccs_config (ax_control s)) = ''regular''"
    "production_queue (ax_control s) = Some q" "queued q s" "ccs_isEnabled (ax_control s) \<Longrightarrow> slots q s = limit"
    by (rule ax_invE) blast
  from ret e obtain r events c where rel: "release_reservation l (re_reservation e) (ax_control s) = Inr (r, events, c)"
    and t: "t = (let s = update_object tok (\<lambda>e. e\<lparr>re_handled := True, re_reservation := r\<rparr>) (resume_events events (s\<lparr>ax_control := c\<rparr>))
      in if re_status e = ''waiting'' then update_object tok (\<lambda>e. e\<lparr>re_workflowExecution := None\<rparr>) s
         else s\<lparr>ax_active := map_delete (re_id e) (ax_active s), ax_responseModes := map_delete (re_id e) (ax_responseModes s)\<rparr>)"
    by (auto simp: after_settled_def js_simps Let_def)
  let ?f = "\<lambda>e. e\<lparr>re_handled := True, re_reservation := r\<rparr>"
  let ?s = "update_object tok ?f s"
  have ok: "reservation_ok (re_reservation e)"
    using q(2) e unfolding reservations_ok_def by (force dest: map_of_SomeD)
  have none: "acquiredReservation r = None" using release_reservation_cases [OF ok rel q(4)] by simp
  have "tokens_ok ?s"
    using q(1) by (simp add: tokens_ok_def active_refers_update)
  moreover have "reservations_ok ?s"
    using q(2) values_update_entry [of "ax_objects s" "\<lambda>e. reservation_ok (re_reservation e)" ?f tok] none
    unfolding reservations_ok_def by (simp add: reservation_ok_def)
  moreover have "queued q ?s" using q(5) unfolding queued_ok_def update_object_frame .
  moreover have "held_slots ?s + (if holds_slot (re_reservation e) then 1 else 0) = held_slots s"
    using count_update_entry [of "ax_objects s" tok e "\<lambda>e. holds_slot (re_reservation e)" ?f] e q(1) none
    by (simp add: held_slots_def tokens_ok_def holds_slot_def)
  ultimately have "ax_inv limit (resume_events events (?s\<lparr>ax_control := c\<rparr>))"
    using rel ok q(3,4,6)
    by (intro released_inv [where q = q and r = "re_reservation e"]) (auto simp: slots_def)
  moreover have "resume_events events (?s\<lparr>ax_control := c\<rparr>) = update_object tok ?f (resume_events events (s\<lparr>ax_control := c\<rparr>))"
  proof -
    have "fold resume_pending toks (update_object tok ?f s') = update_object tok ?f (fold resume_pending toks s')" for toks s'
      by (induction toks arbitrary: s') (simp_all add: resume_update_object)
    moreover have "?s\<lparr>ax_control := c\<rparr> = update_object tok ?f (s\<lparr>ax_control := c\<rparr>)"
      by (cases s) (simp add: update_object_def)
    ultimately show ?thesis by (simp add: resume_events_def)
  qed
  ultimately have inv': "ax_inv limit (update_object tok ?f (resume_events events (s\<lparr>ax_control := c\<rparr>)))" by simp
  show ?thesis
  proof (cases "re_status e = ''waiting''")
    case True
    show ?thesis unfolding t Let_def if_P [OF True] by (rule update_object_inv [OF inv']) simp_all
  next
    case False
    show ?thesis unfolding t Let_def if_not_P [OF False] by (rule active_delete_inv(1) [OF inv'])
  qed
qed

text \<open>Registering moves the reservation from the call to the new object.\<close>

lemma register_inv:
  assumes inv: "ax_inv limit s" and p: "map_of (ax_pending s) tok = Some p" "\<not> pa_waits p"
  shows "ax_inv limit (add_register now tok s)"
proof -
  from inv obtain q where q: "tokens_ok s" "reservations_ok s" "scf_mode (ccs_config (ax_control s)) = ''regular''"
    "production_queue (ax_control s) = Some q" "queued q s" "ccs_isEnabled (ax_control s) \<Longrightarrow> slots q s = limit"
    by (rule ax_invE) blast
  have "\<exists>e. add_register now tok s = s\<lparr>ax_pending := map_delete tok (ax_pending s),
        ax_objects := ax_objects s @ [(tok, e)], ax_active := obj_put (pa_id p) tok (ax_active s)\<rparr>
      \<and> re_id e = pa_id p \<and> re_reservation e = pa_reservation p"
    unfolding add_register_def Let_def p(1) option.case by (rule exI, rule conjI, rule refl) simp
  then obtain e where e: "re_id e = pa_id p" "re_reservation e = pa_reservation p"
    and t: "add_register now tok s = s\<lparr>ax_pending := map_delete tok (ax_pending s),
        ax_objects := ax_objects s @ [(tok, e)], ax_active := obj_put (pa_id p) tok (ax_active s)\<rparr>" by blast
  have d: "distinct (map fst (ax_pending s))" using q(1) by (simp add: tokens_ok_def)
  have tok: "tok \<in> fst ` set (ax_pending s)" using p(1) by (force dest: map_of_SomeD)
  then have fresh: "tok \<notin> fst ` set (ax_objects s)" using q(1) by (auto simp: tokens_ok_def)
  have sub: "set (map_delete tok (ax_pending s)) \<subseteq> set (ax_pending s)" "tok \<notin> fst ` set (map_delete tok (ax_pending s))"
    by (auto simp: entries_map_delete)
  have look: "map_of (ax_objects s @ [(tok, e)]) k = (if k = tok then Some e else map_of (ax_objects s) k)" for k
  proof -
    have "map_of (ax_objects s) tok = None" using fresh by (simp add: map_of_eq_None_iff)
    then show ?thesis by (simp add: map_add_def split: option.split)
  qed
  have "active_refers (ax_objects s @ [(tok, e)]) (obj_put (pa_id p) tok (ax_active s))"
  proof (rule active_refersI)
    fix i k assume "(i, k) \<in> set (obj_put (pa_id p) tok (ax_active s))"
    moreover have "distinct (map fst (ax_active s))" using q(1) by (simp add: tokens_ok_def)
    ultimately consider "i = pa_id p" "k = tok" | "(i, k) \<in> set (ax_active s)"
      by (auto simp: js_obj.entries_put)
    then show "\<exists>e'. map_of (ax_objects s @ [(tok, e)]) k = Some e' \<and> re_id e' = i"
    proof cases
      case 2
      with q(1) obtain e' where "map_of (ax_objects s) k = Some e'" "re_id e' = i"
        unfolding tokens_ok_def by (blast dest: active_refersD)
      moreover from this fresh have "k \<noteq> tok" by (metis map_of_eq_None_iff option.distinct(1))
      ultimately show ?thesis unfolding look by simp
    qed (simp add: look e del: map_of_append)
  qed
  moreover have "distinct (map fst (obj_put (pa_id p) tok (ax_active s)))"
    using q(1) by (simp add: tokens_ok_def js_obj.distinct_put)
  moreover have keys: "fst ` set (map_delete tok (ax_pending s)) \<subseteq> fst ` set (ax_pending s)"
    using sub(1) by (rule image_mono)
  moreover have "\<forall>k \<in> fst ` set (map_delete tok (ax_pending s)) \<union> fst ` set (ax_objects s @ [(tok, e)]). k < ax_next s"
  proof -
    have "fst ` set (map_delete tok (ax_pending s)) \<union> fst ` set (ax_objects s @ [(tok, e)])
      \<subseteq> fst ` set (ax_pending s) \<union> fst ` set (ax_objects s)"
      unfolding set_append image_Un list.set image_insert image_empty fst_conv
      using keys tok by (intro Un_least) (simp_all only: le_supI1 le_supI2 insert_subset empty_subsetI UnI1 order_refl)
    with q(1) show ?thesis unfolding tokens_ok_def by blast
  qed
  moreover have "distinct (map fst (map_delete tok (ax_pending s)) @ map fst (ax_objects s @ [(tok, e)]))"
  proof -
    have "fst ` set (ax_pending s) \<inter> fst ` set (ax_objects s) = {}" "distinct (map fst (ax_objects s))"
      using q(1) unfolding tokens_ok_def distinct_append set_map by blast+
    with keys have "fst ` set (map_delete tok (ax_pending s)) \<inter> fst ` set (ax_objects s) = {}"
      and o: "distinct (map fst (ax_objects s))" by blast+
    then have "fst ` set (map_delete tok (ax_pending s)) \<inter> insert tok (fst ` set (ax_objects s)) = {}"
      unfolding Int_insert_right using sub(2) by simp
    with o fresh distinct_map_delete [OF d, of tok] show ?thesis
      by (simp add: Int_insert_right insert_commute del: disjoint_insert)
  qed
  ultimately have "tokens_ok (add_register now tok s)"
    unfolding t using q(1) by (simp add: tokens_ok_def)
  moreover have "reservations_ok (add_register now tok s)"
    unfolding t using q(2) sub(1) map_of_SomeD [OF p(1)] e(2) by (auto simp: reservations_ok_def)
  moreover have "queued q (add_register now tok s)"
    unfolding t using q(5) p by (force simp: queued_ok_def map_of_map_delete)
  moreover have "held_slots (add_register now tok s) = held_slots s"
    unfolding t using count_delete [OF d p(1), of "\<lambda>p. holds_slot (pa_reservation p)"] e(2)
    by (simp add: held_slots_def split: if_splits)
  ultimately show ?thesis
    using q(3,4,6) by (intro ax_invI [where q = q]) (simp_all add: t slots_def)
qed


text \<open>Taking a waiting call out of the queue.\<close>

lemma control_inv:
  assumes "tokens_ok s" and "reservations_ok s" and "scf_mode (ccs_config c) = ''regular''"
    and "production_queue c = Some q" and "queued q s" and "ccs_isEnabled c \<Longrightarrow> slots q s = limit"
  shows "ax_inv limit (s\<lparr>ax_control := c\<rparr>)"
  using assms by (intro ax_invI [where q = q])
    (auto simp: tokens_ok_def reservations_ok_def queued_ok_def slots_def held_slots_def)

lemma remove_inv:
  assumes inv: "ax_inv limit s" and mode: "mode \<noteq> evaluation" and ret: "remove_waiting_add l mode i s = Inr t"
  shows "ax_inv limit t"
proof -
  from inv obtain q where q: "tokens_ok s" "reservations_ok s" "scf_mode (ccs_config (ax_control s)) = ''regular''"
    "production_queue (ax_control s) = Some q" "queued q s" "ccs_isEnabled (ax_control s) \<Longrightarrow> slots q s = limit"
    by (rule ax_invE) blast
  from ret obtain events c where rem: "remove_execution l mode i (ax_control s) = Inr (events, c)"
    and t: "t = resume_events events (s\<lparr>ax_control := c\<rparr>)"
    by (auto simp: remove_waiting_add_def js_simps)
  show ?thesis
  proof (cases "ccs_isEnabled (ax_control s) \<and> mode \<in> set production_modes")
    case True
    obtain q' where q': "queue_remove i q = (events, q')" "c = put_queue production q' (ax_control s)"
      using rem True q(4) by (auto simp: remove_execution_def on_queue_production split: prod.splits)
    have c: "tokens_ok (s\<lparr>ax_control := c\<rparr>)" "reservations_ok (s\<lparr>ax_control := c\<rparr>)" "queued q (s\<lparr>ax_control := c\<rparr>)"
      "slots q (s\<lparr>ax_control := c\<rparr>) = slots q s"
      using q(1,2,5) by (auto simp: tokens_ok_def reservations_ok_def queued_ok_def slots_def held_slots_def)
    note keeps = remove_keeps [OF c(1-3) q'(1)]
    show ?thesis unfolding t
      by (rule ax_invI [where q = q'], use keeps c(4) q(3,4,6) q'(2) in simp_all)
  next
    case False
    have "events = [] \<and> c = ax_control s"
      by (rule on_queue_idle [OF mode _ rem [unfolded remove_execution_def]]) (use False in blast)
    with inv t show ?thesis by (simp add: resume_events_def)
  qed
qed

text \<open>
  Shutting down: in regular mode the service is off first, so the calls in its queues are left
  alone, and no slot is given back from then on.
\<close>

lemma shutdown_one_inv:
  "ax_inv limit s \<Longrightarrow> ax_inv limit (snd (snd (shutdown_one stopAll i (effects, toCancel, s))))"
  using stop_inv [of limit s i]
  by (auto simp: active_delete_inv split: option.split prod.split)

lemma shutdown_fold_inv:
  "ax_inv limit s \<Longrightarrow> ax_inv limit (snd (snd (fold (shutdown_one stopAll) ids (effects, toCancel, s))))"
proof (induction ids arbitrary: effects toCancel s)
  case (Cons i ids)
  show ?case
    using Cons.IH shutdown_one_inv [OF Cons.prems, of stopAll i effects toCancel]
    by (cases "shutdown_one stopAll i (effects, toCancel, s)") simp
qed simp

lemma shutdown_one_control: "ax_control (snd (snd (shutdown_one stopAll i (effects, toCancel, s)))) = ax_control s"
  by (auto simp: stopExecution_def settle_def Let_def split: option.split)

lemma shutdown_fold_control:
  "ax_control (snd (snd (fold (shutdown_one stopAll) ids (effects, toCancel, s)))) = ax_control s"
proof (induction ids arbitrary: effects toCancel s)
  case (Cons i ids)
  show ?case
    using Cons.IH shutdown_one_control [of stopAll i effects toCancel s]
    by (cases "shutdown_one stopAll i (effects, toCancel, s)") simp
qed simp

lemma disable_inv: "ax_inv limit s \<Longrightarrow> ax_inv limit (s\<lparr>ax_control := disable (ax_control s)\<rparr>)"
  by (erule ax_invE, rule control_inv) (simp_all add: disable_def production_queue_def)

lemma shutdown_inv:
  assumes inv: "ax_inv limit s" and ret: "ax_shutdown cancelAll s = Inr (effects, cancelled, t)"
  shows "ax_inv limit t"
proof -
  let ?s = "s\<lparr>ax_control := disable (ax_control s)\<rparr>"
  have "is_regular s" using inv by (auto simp: is_regular_def elim: ax_invE)
  obtain fs ids s' where f: "fold (shutdown_one cancelAll) (map fst (ax_active s)) ([], [], ?s) = (fs, ids, s')"
    by (metis prod_cases3)
  have inv': "ax_inv limit s'"
    using shutdown_fold_inv [OF disable_inv [OF inv], of cancelAll "map fst (ax_active s)" "[]" "[]"] f by simp
  have "ax_control s' = disable (ax_control s)"
    using shutdown_fold_control [of cancelAll "map fst (ax_active s)" "[]" "[]" ?s] f by simp
  then have "removeAll ids (ax_control s') = Inr ([], [], ax_control s')"
    by (simp add: removeAll_def disable_def)
  with ret f \<open>is_regular s\<close> have "t = s'" by (simp add: ax_shutdown_def Let_def resume_events_def)
  with inv' show ?thesis by simp
qed

lemma object_step_inv:
  assumes "ax_inv limit s" and "res_bind (getExecutionOrFail i s) (\<lambda>(tok, _). Inr (update_object tok f s)) = Inr t"
    and "\<And>e. re_id (f e) = re_id e" "\<And>e. re_reservation (f e) = re_reservation e"
  shows "ax_inv limit t"
  using assms(2) update_object_inv [OF assms(1), of f] assms(3,4) by (auto simp: js_simps)

lemma ax_step_inv:
  assumes inv: "ax_inv limit s" and step: "ax_step l s t"
  shows "ax_inv limit t"
  using step
proof (cases rule: ax_step.cases)
  case begins
  with inv show ?thesis by (auto intro: begin_inv)
next
  case fails
  with inv show ?thesis by (auto intro: fail_inv)
next
  case registers
  with inv show ?thesis by (auto intro: register_inv)
next
  case handles
  with inv show ?thesis by (auto intro: handle_inv)
next
  case sets_status
  from inv this [unfolded ax_setStatus_def] show ?thesis by (rule object_step_inv) simp_all
next
  case attaches_run
  from inv this [unfolded attachWorkflowExecution_def] show ?thesis by (rule object_step_inv) simp_all
next
  case attaches_response
  from inv this [unfolded attachResponsePromise_def] show ?thesis by (rule object_step_inv) simp_all
next
  case removes
  with inv show ?thesis by (auto intro: remove_inv)
next
  case shuts_down
  with inv show ?thesis by (auto intro: shutdown_inv)
qed (simp_all add: inv stop_inv finalize_inv)

end
