(* ===== verification/Executions_Properties.thy ===== *)
theory Executions_Properties
  imports Executions_Invariant
begin

text \<open>
  The properties of the active executions of a process: every slot of the production queue is
  accounted for, an execution that ends hands its slot on, and one that is stopped while its run is
  about to wait never gives its slot back.
\<close>

section \<open>The start\<close>

lemma new_active_inv:
  assumes "new_service cfg = Inr c" and "scf_mode cfg = ''regular''" and "0 < scf_productionLimit cfg"
  shows "ax_inv (scf_productionLimit cfg) (new_active c)"
proof -
  from assms(1,3) obtain ev where "normaliseLimit (scf_evaluationLimit cfg) = Inr ev"
    by (auto simp: new_service_def js_simps)
  with assms have "production_queue c = Some (new_queue (scf_productionLimit cfg))"
    "scf_mode (ccs_config c) = ''regular''"
    by (auto simp: new_service_def normaliseLimit_def production_queue_def Let_def)
  then show ?thesis
    by (auto simp: ax_inv_def tokens_ok_def active_refers_def reservations_ok_def queued_ok_def held_slots_def
        new_active_def new_queue_def)
qed

definition started :: "service_config \<Rightarrow> active_executions \<Rightarrow> bool" where
  "started cfg s \<longleftrightarrow> scf_mode cfg = ''regular'' \<and> 0 < scf_productionLimit cfg
     \<and> (case new_service cfg of Inl _ \<Rightarrow> False | Inr c \<Rightarrow> s = new_active c)"

interpretation active: invariant_system "started cfg" "ax_step l" "ax_inv (scf_productionLimit cfg)"
  by unfold_locales (auto simp: started_def new_active_inv split: sum.splits intro: ax_step_inv)

section \<open>Objects out of reach\<close>

text \<open>An object that is not settled and that the registry does not refer to, with its reservation.\<close>

definition orphan :: "nat \<Rightarrow> reservation \<Rightarrow> active_executions \<Rightarrow> bool" where
  "orphan tok r s \<longleftrightarrow> tok \<notin> snd ` set (ax_active s)
     \<and> (\<exists>e. map_of (ax_objects s) tok = Some e \<and> \<not> re_settled e \<and> re_reservation e = r)"

text \<open>Resumed calls and changes of other objects.\<close>

lemma orphan_cong:
  "ax_objects t = ax_objects s \<Longrightarrow> set (ax_active t) \<subseteq> set (ax_active s) \<Longrightarrow> orphan tok r s \<Longrightarrow> orphan tok r t"
  unfolding orphan_def by auto

lemma resume_events_frame [simp]:
  "ax_objects (resume_events events s) = ax_objects s" "ax_active (resume_events events s) = ax_active s"
  "ax_control (resume_events events s) = ax_control s"
proof -
  have "ax_objects (fold resume_pending toks s) = ax_objects s \<and> ax_active (fold resume_pending toks s) = ax_active s
    \<and> ax_control (fold resume_pending toks s) = ax_control s" for toks
    by (induction toks arbitrary: s) simp_all
  then show "ax_objects (resume_events events s) = ax_objects s" "ax_active (resume_events events s) = ax_active s"
    "ax_control (resume_events events s) = ax_control s"
    by (simp_all add: resume_events_def)
qed

lemma orphan_update_other: "k \<noteq> tok \<Longrightarrow> orphan tok r (update_object k f s) \<longleftrightarrow> orphan tok r s"
  by (simp add: orphan_def)

lemma ax_find_other:
  "orphan tok r s \<Longrightarrow> ax_find i s = Some (k, e) \<Longrightarrow> k \<noteq> tok"
  unfolding orphan_def ax_find_def by (force split: option.splits dest: map_of_SomeD)

lemma orphan_object_step:
  assumes "orphan tok r s" and "res_bind (getExecutionOrFail i s) (\<lambda>(k, _). Inr (update_object k f s)) = Inr t"
  shows "orphan tok r t"
  using assms ax_find_other [OF assms(1), of i]
  by (auto simp: getExecutionOrFail_def js_simps orphan_update_other split: option.splits)

lemma delete_subset: "set (map_delete i m) \<subseteq> set m"
  by (auto simp: entries_map_delete)

lemma orphan_stop: "orphan tok r s \<Longrightarrow> orphan tok r (snd (stopExecution i s))"
  using ax_find_other [of tok r s i] orphan_cong [of "s\<lparr>ax_active := map_delete i (ax_active s),
    ax_responseModes := map_delete i (ax_responseModes s)\<rparr>" s]
  by (auto simp: stopExecution_def Let_def settle_def orphan_update_other delete_subset split: option.split)

lemma orphan_finalize: "orphan tok r s \<Longrightarrow> orphan tok r (snd (finalizeExecution i s))"
  using ax_find_other [of tok r s i]
  by (auto simp: finalizeExecution_def settle_def orphan_update_other split: option.split)

lemma orphan_shutdown_fold:
  "orphan tok r s \<Longrightarrow> orphan tok r (snd (snd (fold (shutdown_one stopAll) ids (effects, toCancel, s))))"
proof (induction ids arbitrary: effects toCancel s)
  case (Cons i ids)
  have "orphan tok r (snd (snd (shutdown_one stopAll i (effects, toCancel, s))))"
    using orphan_stop [OF Cons.prems, of i] Cons.prems
      orphan_cong [of "s\<lparr>ax_active := map_delete i (ax_active s)\<rparr>" s, OF _ _ Cons.prems]
    by (auto simp: delete_subset split: option.split prod.split)
  with Cons.IH show ?case by (cases "shutdown_one stopAll i (effects, toCancel, s)") simp
qed simp

lemma orphan_shutdown:
  assumes "orphan tok r s" and "ax_shutdown cancelAll s = Inr (effects, cancelled, t)"
  shows "orphan tok r t"
proof -
  define s0 where "s0 = (if is_regular s then s\<lparr>ax_control := disable (ax_control s)\<rparr> else s)"
  have "orphan tok r s0" using assms(1) by (simp add: s0_def orphan_def)
  obtain fs ids s' where f: "fold (shutdown_one (is_regular s \<and> cancelAll)) (map fst (ax_active s0)) ([], [], s0) = (fs, ids, s')"
    by (metis prod_cases3)
  with orphan_shutdown_fold [OF \<open>orphan tok r s0\<close>, of "is_regular s \<and> cancelAll" "map fst (ax_active s0)" "[]" "[]"]
  have "orphan tok r s'" by simp
  moreover from assms(2) f [unfolded s0_def] obtain events c where "t = resume_events events (s'\<lparr>ax_control := c\<rparr>)"
    by (auto simp: ax_shutdown_def Let_def js_simps)
  ultimately show ?thesis by (simp add: orphan_def)
qed

lemma orphan_register:
  assumes inv: "ax_inv limit s" and o: "orphan tok r s" and p: "map_of (ax_pending s) k = Some p"
  shows "orphan tok r (add_register now k s)"
proof -
  have t: "\<exists>e. add_register now k s = s\<lparr>ax_pending := map_delete k (ax_pending s),
        ax_objects := ax_objects s @ [(k, e)], ax_active := obj_put (pa_id p) k (ax_active s)\<rparr>"
    unfolding add_register_def Let_def p option.case by (rule exI, rule refl)
  have d: "distinct (map fst (ax_active s))" using inv by (rule ax_inv_active_keys)
  from inv have "fst ` set (ax_pending s) \<inter> fst ` set (ax_objects s) = {}"
    by (auto simp: ax_inv_def tokens_ok_def)
  moreover from o have "tok \<in> fst ` set (ax_objects s)" by (force simp: orphan_def dest: map_of_SomeD)
  moreover from p have "k \<in> fst ` set (ax_pending s)" by (force dest: map_of_SomeD)
  ultimately have k: "k \<noteq> tok" by blast
  have "tok \<notin> snd ` set (obj_put (pa_id p) k (ax_active s))"
    using o k d by (auto simp: orphan_def js_obj.entries_put)
  with t o show ?thesis by (auto simp: orphan_def map_add_def split: option.split)
qed

lemma orphan_step:
  assumes inv: "ax_inv limit s" and o: "orphan tok r s" and step: "ax_step l s t"
  shows "orphan tok r t"
  using step
proof (cases rule: ax_step.cases)
  case begins
  then show ?thesis
    by (intro orphan_cong [OF _ _ o]) (auto simp: add_begin_def Let_def js_simps split: if_splits)
next
  case (fails k p)
  then show ?thesis
    by (intro orphan_cong [OF _ _ o]) (auto simp: add_fail_def js_simps)
next
  case (registers k p now)
  with orphan_register [OF inv o] show ?thesis by simp
next
  case (handles k e)
  with o have k: "k \<noteq> tok" by (auto simp: orphan_def)
  from handles obtain res events c where t: "t = (let s = update_object k (\<lambda>e. e\<lparr>re_handled := True, re_reservation := res\<rparr>) (resume_events events (s\<lparr>ax_control := c\<rparr>))
      in if re_status e = ''waiting'' then update_object k (\<lambda>e. e\<lparr>re_workflowExecution := None\<rparr>) s
         else s\<lparr>ax_active := map_delete (re_id e) (ax_active s), ax_responseModes := map_delete (re_id e) (ax_responseModes s)\<rparr>)"
    by (auto simp: after_settled_def js_simps Let_def)
  from k o delete_subset [of "re_id e" "ax_active s"] show ?thesis
    unfolding t Let_def by (auto simp: orphan_def)
next
  case sets_status
  from o this [unfolded ax_setStatus_def] show ?thesis by (rule orphan_object_step)
next
  case attaches_run
  from o this [unfolded attachWorkflowExecution_def] show ?thesis by (rule orphan_object_step)
next
  case attaches_response
  from o this [unfolded attachResponsePromise_def] show ?thesis by (rule orphan_object_step)
next
  case removes
  then show ?thesis
    by (intro orphan_cong [OF _ _ o]) (auto simp: remove_waiting_add_def js_simps)
next
  case shuts_down
  then show ?thesis by (rule orphan_shutdown [OF o])
qed (simp_all add: o orphan_stop orphan_finalize)

text \<open>Stopping a waiting execution whose promise is not settled makes an orphan of it.\<close>

lemma stop_orphans:
  assumes inv: "ax_inv limit s" and find: "ax_find i s = Some (tok, e)"
    and e: "re_status e = ''waiting''" "\<not> re_settled e"
  shows "orphan tok (re_reservation e) (snd (stopExecution i s))"
proof -
  from inv have refers: "active_refers (ax_objects s) (ax_active s)" by (simp add: ax_inv_def tokens_ok_def)
  from find have obj: "map_of (ax_objects s) tok = Some e" and "map_of (ax_active s) i = Some tok"
    by (auto simp: ax_find_def split: option.splits)
  then have "re_id e = i" using active_refersD [OF refers] by (force dest: map_of_SomeD)
  with obj have "j = i" if "(j, tok) \<in> set (ax_active s)" for j
    using active_refersD [OF refers that] by auto
  then have "tok \<notin> snd ` set (map_delete i (ax_active s))" by (auto simp: entries_map_delete)
  with find e obj show ?thesis by (simp add: stopExecution_def Let_def orphan_def)
qed

lemma orphan_slots:
  assumes "ax_inv limit s" and "orphan tok r s" and "holds_slot r"
  shows "0 < held_slots s"
proof -
  from assms(2) obtain e where "map_of (ax_objects s) tok = Some e" "re_reservation e = r" by (auto simp: orphan_def)
  with assms(3) have "e \<in> set (filter (\<lambda>e. holds_slot (re_reservation e)) (map_values (ax_objects s)))"
    by (force dest: map_of_SomeD)
  then show ?thesis unfolding held_slots_def by (metis add_is_0 gr0I length_0_conv list.set(1) empty_iff)
qed

section \<open>The callback of a settled promise\<close>




section \<open>A run with a limit of one\<close>

definition one_config :: service_config where
  "one_config = \<lparr>scf_mode = ''regular'', scf_productionLimit = 1, scf_evaluationLimit = -1,
     scf_deployment = ''default'', scf_evaluationEnvSet = True\<rparr>"

definition one_service :: "int \<Rightarrow> nat queue_item list \<Rightarrow> nat control_service" where
  "one_service capacity items = \<lparr>ccs_config = one_config, ccs_isEnabled = True,
     ccs_limits = [(production, 1), (evaluation, -1)],
     ccs_queues = Some [(production, \<lparr>cq_capacity = capacity, cq_queue = items\<rparr>)], ccs_evalQueueResolved = False\<rparr>"

definition one_license :: license where
  "one_license = \<lparr>lic_quota = None, lic_planName = ''Community''\<rparr>"

definition one_request :: execution_request where
  "one_request = \<lparr>rq_mode = ''webhook'', rq_workflowId = Some ''w'', rq_retryOf = None, rq_httpResponse = False\<rparr>"

definition one_call :: "string \<Rightarrow> bool \<Rightarrow> reservation \<Rightarrow> pending_add" where
  "one_call i waits r = \<lparr>pa_id = i, pa_request = one_request, pa_resumes = False, pa_waits = waits, pa_reservation = r\<rparr>"

definition one_object :: "string \<Rightarrow> running_execution" where
  "one_object status = \<lparr>re_id = ''a'', re_request = one_request, re_startedAt = 7, re_status = status,
     re_responsePromise = None, re_workflowExecution = None, re_settled = False, re_handled = False,
     re_reservation = \<lparr>acquiredReservation = Some (''a'', ''webhook'')\<rparr>\<rparr>"

text \<open>The first call takes the slot and is registered, its run is put to wait; a second call waits.\<close>

definition one_begun :: active_executions where
  "one_begun = \<lparr>ax_control = one_service 0 [],
     ax_pending = [(0, one_call ''a'' False \<lparr>acquiredReservation = Some (''a'', ''webhook'')\<rparr>)],
     ax_objects = [], ax_active = [], ax_responseModes = [], ax_next = 1\<rparr>"

definition one_running :: "string \<Rightarrow> active_executions" where
  "one_running status = \<lparr>ax_control = one_service 0 [], ax_pending = [], ax_objects = [(0, one_object status)],
     ax_active = [(''a'', 0)], ax_responseModes = [], ax_next = 1\<rparr>"

definition one_waiting :: active_executions where
  "one_waiting = \<lparr>ax_control = one_service (-1) [\<lparr>qi_executionId = ''b'', qi_resolve = 1\<rparr>],
     ax_pending = [(1, one_call ''b'' True no_reservation)], ax_objects = [(0, one_object ''waiting'')],
     ax_active = [(''a'', 0)], ax_responseModes = [], ax_next = 2\<rparr>"

lemmas one_defs = one_config_def one_service_def one_license_def one_request_def one_call_def one_object_def
  one_begun_def one_running_def one_waiting_def

lemma one_new: "new_service one_config = Inr (one_service 1 [])"
  by code_simp

lemma one_first: "add_begin one_license one_request None ''a'' (new_active (one_service 1 [])) = Inr one_begun"
  by code_simp

lemma one_registered: "add_register 7 0 one_begun = one_running ''running''"
  by code_simp

lemma one_status: "ax_setStatus ''a'' ''waiting'' (one_running ''running'') = Inr (one_running ''waiting'')"
  by code_simp

lemma one_second: "add_begin one_license one_request None ''b'' (one_running ''waiting'') = Inr one_waiting"
  by code_simp

lemma one_reached: "(ax_step one_license)\<^sup>*\<^sup>* (new_active (one_service 1 [])) one_waiting"
proof -
  have "ax_step one_license (new_active (one_service 1 [])) one_begun" by (rule begins [OF one_first])
  moreover have "map_of (ax_pending one_begun) 0 = Some (one_call ''a'' False \<lparr>acquiredReservation = Some (''a'', ''webhook'')\<rparr>)"
    by (simp add: one_begun_def)
  then have "ax_step one_license one_begun (add_register 7 0 one_begun)"
    by (rule registers) (simp add: one_call_def)
  moreover have "ax_step one_license (one_running ''running'') (one_running ''waiting'')" by (rule sets_status [OF one_status])
  moreover have "ax_step one_license (one_running ''waiting'') one_waiting" by (rule begins [OF one_second])
  ultimately show ?thesis unfolding one_registered by (meson rtranclp.rtrancl_refl rtranclp.rtrancl_into_rtrancl)
qed


lemma one_entry: "map_of (ax_objects one_waiting) 0 = Some (one_object ''waiting'')"
  "holds_slot (re_reservation (one_object ''waiting''))"
  "ax_find ''a'' one_waiting = Some (0, one_object ''waiting'')"
  "re_status (one_object ''waiting'') = ''waiting''" "\<not> re_settled (one_object ''waiting'')"
  by (simp_all add: one_defs holds_slot_def production_modes_def ax_find_def)

lemma one_stopped: "ccs_isEnabled (ax_control (snd (stopExecution ''a'' one_waiting)))"
  by (simp add: one_defs stopExecution_def ax_find_def)

lemma one_limits: "scf_mode one_config = ''regular''" "0 < scf_productionLimit one_config"
  "ccs_isEnabled (ax_control one_waiting)" "scf_productionLimit one_config = 1"
  by (simp_all add: one_defs)

section \<open>The properties\<close>

text \<open>
  C26: No slot is lost or handed out twice: in every state that the active executions of a process
  reach in regular mode by any sequence of calls added, failing, registered, stopped, ended, resumed,
  cancelled while waiting or shut down, as long as the service is on, the capacity of the production
  queue is the limit less the waiting calls and the reservations held by the calls under way and
  by the execution objects; and a call waits only if it holds no reservation.
\<close>

theorem slots_of_active_executions:
  assumes "new_service cfg = Inr c" and "scf_mode cfg = ''regular''" and "0 < scf_productionLimit cfg"
    and "(ax_step l)\<^sup>*\<^sup>* (new_active c) s" and "ccs_isEnabled (ax_control s)"
  shows "\<exists>q. production_queue (ax_control s) = Some q
    \<and> cq_capacity q = scf_productionLimit cfg - int (length (cq_queue q)) - int (held_slots s)
    \<and> (\<forall>tok \<in> qi_resolve ` set (cq_queue q). \<exists>p. map_of (ax_pending s) tok = Some p \<and> pa_waits p
          \<and> pa_reservation p = no_reservation)"
proof -
  have "started cfg (new_active c)" using assms(1-3) by (simp add: started_def)
  from active.reachable_ok [OF this assms(4)] obtain q where q: "production_queue (ax_control s) = Some q"
    "queued q s" and "ccs_isEnabled (ax_control s) \<Longrightarrow> slots q s = scf_productionLimit cfg"
    by (rule ax_invE) blast
  with assms(5) have "cq_capacity q = scf_productionLimit cfg - int (length (cq_queue q)) - int (held_slots s)"
    by (simp add: slots_def)
  moreover have "\<forall>tok \<in> qi_resolve ` set (cq_queue q). \<exists>p. map_of (ax_pending s) tok = Some p \<and> pa_waits p
          \<and> pa_reservation p = no_reservation"
    using q(2) unfolding queued_ok_def set_map by meson
  ultimately show ?thesis using q(1) by blast
qed

theorem slots_of_active_executions_witness:
  "\<exists>q. production_queue (ax_control one_waiting) = Some q
    \<and> cq_capacity q = 1 - int (length (cq_queue q)) - int (held_slots one_waiting)"
  using slots_of_active_executions [OF one_new one_limits(1,2) one_reached one_limits(3)]
  unfolding one_limits(4) by blast



text \<open>
  C29: Stopping an execution whose run has just been put to wait loses its slot for good: the entry is
  taken out of the registry and the promise stays unsettled, so in every later state the object
  still holds its reservation, and the capacity with the waiting calls stays below the limit while the
  service is on. With a limit of one no further execution can begin without waiting.
\<close>

theorem stopped_waiting_run_keeps_its_slot:
  assumes "new_service cfg = Inr c" and "scf_mode cfg = ''regular''" and "0 < scf_productionLimit cfg"
    and "(ax_step l)\<^sup>*\<^sup>* (new_active c) s" and "ax_find i s = Some (tok, e)"
    and "re_status e = ''waiting''" and "\<not> re_settled e" and "holds_slot (re_reservation e)"
    and "(ax_step l)\<^sup>*\<^sup>* (snd (stopExecution i s)) t"
  shows "(\<exists>e'. map_of (ax_objects t) tok = Some e' \<and> \<not> re_settled e' \<and> re_reservation e' = re_reservation e)
    \<and> tok \<notin> snd ` set (ax_active t)
    \<and> (\<exists>q. production_queue (ax_control t) = Some q
        \<and> (\<not> ccs_isEnabled (ax_control t) \<or> cq_capacity q + int (length (cq_queue q)) < scf_productionLimit cfg))"
proof -
  have "started cfg (new_active c)" using assms(1-3) by (simp add: started_def)
  from active.reachable_ok [OF this assms(4)] have inv: "ax_inv (scf_productionLimit cfg) s" .
  from stop_orphans [OF inv assms(5-7)] have o: "orphan tok (re_reservation e) (snd (stopExecution i s))" .
  from assms(9) have "ax_inv (scf_productionLimit cfg) t \<and> orphan tok (re_reservation e) t"
  proof (induction rule: rtranclp_induct)
    case base
    from stop_inv [OF inv] o show ?case by blast
  next
    case (step u v)
    then show ?case by (blast intro: ax_step_inv orphan_step)
  qed
  then have t: "ax_inv (scf_productionLimit cfg) t" "orphan tok (re_reservation e) t" by blast+
  from orphan_slots [OF t assms(8)] have "0 < held_slots t" .
  moreover from t(1) obtain q where "production_queue (ax_control t) = Some q"
    "ccs_isEnabled (ax_control t) \<Longrightarrow> slots q t = scf_productionLimit cfg"
    by (rule ax_invE) blast
  ultimately have "\<exists>q. production_queue (ax_control t) = Some q
        \<and> (\<not> ccs_isEnabled (ax_control t) \<or> cq_capacity q + int (length (cq_queue q)) < scf_productionLimit cfg)"
    by (auto simp: slots_def)
  with t(2) show ?thesis unfolding orphan_def by blast
qed

theorem stopped_waiting_run_witness:
  "\<exists>q. production_queue (ax_control (snd (stopExecution ''a'' one_waiting))) = Some q
    \<and> cq_capacity q + int (length (cq_queue q)) < 1"
  using stopped_waiting_run_keeps_its_slot [OF one_new one_limits(1,2) one_reached one_entry(3-5,2) rtranclp.rtrancl_refl]
  unfolding one_limits(4) using one_stopped by blast

end
