(* ===== verification/Process_Lock.thy ===== *)
theory Process_Lock
  imports Prelude Transitions
begin

text \<open>
  The lock service of a single process, from
  \<^verbatim>\<open>packages/@n8n/backend-common/src/locking/in-process-lock.service.ts\<close>. Lock states are objects
  that release functions and waiters keep a reference to after the service forgot them, so they
  live in a heap; ownership tokens and references are fresh numbers. A waiter is the resolver
  that \<^verbatim>\<open>acquireLock\<close> pushes onto the queue, named by a number.
\<close>

section \<open>The service\<close>

record lock_state =
  ls_held :: "nat option"
  ls_queue :: "nat list"

record lock_service =
  lk_locks :: "(string, nat) jsmap"
  lk_heap :: "nat \<Rightarrow> lock_state"
  lk_next :: nat

definition free_lock :: lock_state where
  "free_lock = \<lparr>ls_held = None, ls_queue = []\<rparr>"

definition empty_lock_service :: lock_service where
  "empty_lock_service = \<lparr>lk_locks = [], lk_heap = (\<lambda>_. free_lock), lk_next = 0\<rparr>"

definition put_lock :: "nat \<Rightarrow> lock_state \<Rightarrow> lock_service \<Rightarrow> lock_service" where
  "put_lock ref st s = s\<lparr>lk_heap := (lk_heap s)(ref := st)\<rparr>"

definition getOrCreateLockState :: "string \<Rightarrow> lock_service \<Rightarrow> nat \<times> lock_service" where
  "getOrCreateLockState lockId s =
     (case map_of (lk_locks s) lockId of
        Some ref \<Rightarrow> (ref, s)
      | None \<Rightarrow> (let ref = lk_next s
          in (ref, (put_lock ref free_lock s)\<lparr>lk_locks := map_set lockId ref (lk_locks s), lk_next := Suc ref\<rparr>)))"

text \<open>
  A release function is the triple it closes over: the lock id, the state object and the token.
  Calling it gives the waiter whose promise it resolves, with the new token.
\<close>

type_synonym release_fn = "string \<times> nat \<times> nat"

fun call_release :: "release_fn \<Rightarrow> lock_service \<Rightarrow> (nat \<times> nat) option \<times> lock_service" where
  "call_release (lockId, ref, tok) s =
     (let st = lk_heap s ref
      in if ls_held st \<noteq> Some tok then (None, s)
         else case ls_queue st of
             next # rest \<Rightarrow> (let nextToken = lk_next s
               in (Some (next, nextToken),
                   (put_lock ref \<lparr>ls_held = Some nextToken, ls_queue = rest\<rparr> s)\<lparr>lk_next := Suc nextToken\<rparr>))
           | [] \<Rightarrow> (None, (put_lock ref (st\<lparr>ls_held := None\<rparr>) s)\<lparr>lk_locks := map_delete lockId (lk_locks s)\<rparr>))"

datatype acquisition = Acquired release_fn | Waits nat

definition acquireLock :: "string \<Rightarrow> nat \<Rightarrow> lock_service \<Rightarrow> acquisition \<times> lock_service" where
  "acquireLock lockId waiter s =
     (let (ref, s) = getOrCreateLockState lockId s; st = lk_heap s ref
      in if ls_held st = None
         then (let tok = lk_next s
           in (Acquired (lockId, ref, tok), (put_lock ref (st\<lparr>ls_held := Some tok\<rparr>) s)\<lparr>lk_next := Suc tok\<rparr>))
         else (Waits ref, put_lock ref (st\<lparr>ls_queue := ls_queue st @ [waiter]\<rparr>) s))"

text \<open>The timer of a waiter fires: it leaves the queue and its promise is rejected.\<close>

definition acquire_timeout :: "string \<Rightarrow> nat \<Rightarrow> nat \<Rightarrow> lock_service \<Rightarrow> js_error \<times> lock_service" where
  "acquire_timeout lockId ref waiter s =
     (OperationalError (''Timed out waiting for lock '' @ lockId),
      let st = lk_heap s ref
      in if waiter \<in> set (ls_queue st) then put_lock ref (st\<lparr>ls_queue := remove1 waiter (ls_queue st)\<rparr>) s else s)"

definition buildLockKey :: "nat \<Rightarrow> string \<Rightarrow> string" where
  "buildLockKey ns key = show_nat ns @ '':'' @ key"

text \<open>
  \<^verbatim>\<open>withLease\<close> up to the acquisition, and from the moment its function settles, with a value or an
  error: the lease is released in both cases.
\<close>

definition lease_begin :: "nat \<Rightarrow> string \<Rightarrow> nat \<Rightarrow> lock_service \<Rightarrow> acquisition \<times> lock_service" where
  "lease_begin ns key = acquireLock (buildLockKey ns key)"

definition lease_end :: "release_fn \<Rightarrow> 'a result \<Rightarrow> lock_service \<Rightarrow> 'a result \<times> (nat \<times> nat) option \<times> lock_service" where
  "lease_end h outcome s = (outcome, call_release h s)"

lemma colon_not_in_show_nat: "CHR '':'' \<notin> set (show_nat n)"
  using show_nat_digits [of "CHR '':''" n] by auto

lemma buildLockKey_inject: "buildLockKey ns key = buildLockKey ns' key' \<longleftrightarrow> ns = ns' \<and> key = key'"
proof
  assume "buildLockKey ns key = buildLockKey ns' key'"
  then have e: "show_nat ns @ CHR '':'' # key = show_nat ns' @ CHR '':'' # key'"
    by (simp add: buildLockKey_def)
  have split: "takeWhile (\<lambda>c. c \<noteq> CHR '':'') (show_nat n @ CHR '':'' # k) = show_nat n"
    "dropWhile (\<lambda>c. c \<noteq> CHR '':'') (show_nat n @ CHR '':'' # k) = CHR '':'' # k" for n k
    using colon_not_in_show_nat [of n] by (auto simp: takeWhile_append dropWhile_append)
  from e split show "ns = ns' \<and> key = key'" by (metis list.inject show_nat_inject)
qed simp

section \<open>Leases over the service\<close>

text \<open>
  The service in use: clients ask for a lock, hold a lease, end it; a waiter may time out; and any
  release function that was ever created may be called once more. The leases are the release
  functions whose client is between acquisition and release.
\<close>

record lease_system =
  sys_locks :: lock_service
  sys_created :: "release_fn set"
  sys_leases :: "release_fn set"

definition empty_lease_system :: lease_system where
  "empty_lease_system = \<lparr>sys_locks = empty_lock_service, sys_created = {}, sys_leases = {}\<rparr>"

definition lease_ask :: "string \<Rightarrow> nat \<Rightarrow> lease_system \<Rightarrow> lease_system" where
  "lease_ask lockId waiter s =
     (case acquireLock lockId waiter (sys_locks s) of
        (Acquired h, l) \<Rightarrow> s\<lparr>sys_locks := l, sys_created := insert h (sys_created s), sys_leases := insert h (sys_leases s)\<rparr>
      | (Waits _, l) \<Rightarrow> s\<lparr>sys_locks := l\<rparr>)"

fun lease_release :: "release_fn \<Rightarrow> lease_system \<Rightarrow> lease_system" where
  "lease_release (lockId, ref, tok) s =
     (case call_release (lockId, ref, tok) (sys_locks s) of
        (None, l) \<Rightarrow> s\<lparr>sys_locks := l, sys_leases := sys_leases s - {(lockId, ref, tok)}\<rparr>
      | (Some (_, nextToken), l) \<Rightarrow> s\<lparr>sys_locks := l, sys_created := insert (lockId, ref, nextToken) (sys_created s),
          sys_leases := insert (lockId, ref, nextToken) (sys_leases s - {(lockId, ref, tok)})\<rparr>)"

definition lease_timeout :: "string \<Rightarrow> nat \<Rightarrow> nat \<Rightarrow> lease_system \<Rightarrow> lease_system" where
  "lease_timeout lockId ref waiter s = s\<lparr>sys_locks := snd (acquire_timeout lockId ref waiter (sys_locks s))\<rparr>"

inductive lease_step :: "lease_system \<Rightarrow> lease_system \<Rightarrow> bool" where
  asks: "lease_step s (lease_ask lockId waiter s)"
| releases: "h \<in> sys_created s \<Longrightarrow> lease_step s (lease_release h s)"
| times_out: "lease_step s (lease_timeout lockId ref waiter s)"

inductive_cases lease_stepE: "lease_step s t"

text \<open>
  The invariant: the map and the heap agree with the leases, an unheld lock has no waiters, and
  references and tokens are fresh.
\<close>

definition lease_inv :: "lease_system \<Rightarrow> bool" where
  "lease_inv s \<longleftrightarrow> (let l = sys_locks s in
     (\<forall>lockId ref tok. (lockId, ref, tok) \<in> sys_leases s \<longrightarrow>
        map_of (lk_locks l) lockId = Some ref \<and> ls_held (lk_heap l ref) = Some tok)
   \<and> (\<forall>lockId ref. map_of (lk_locks l) lockId = Some ref \<longrightarrow> ref < lk_next l \<and> (\<exists>tok. (lockId, ref, tok) \<in> sys_leases s))
   \<and> (\<forall>ref tok. ls_held (lk_heap l ref) = Some tok \<longrightarrow> (\<exists>lockId. (lockId, ref, tok) \<in> sys_leases s))
   \<and> (\<forall>ref. ls_held (lk_heap l ref) = None \<longrightarrow> ls_queue (lk_heap l ref) = [])
   \<and> sys_leases s \<subseteq> sys_created s
   \<and> (\<forall>lockId ref tok. (lockId, ref, tok) \<in> sys_created s \<longrightarrow> tok < lk_next l \<and> ref < lk_next l)
   \<and> (\<forall>lockId ref tok lockId' ref' tok'. (lockId, ref, tok) \<in> sys_created s \<longrightarrow> (lockId', ref', tok') \<in> sys_created s \<longrightarrow>
        ref = ref' \<or> tok = tok' \<longrightarrow> lockId = lockId' \<and> ref = ref')
   \<and> distinct (map fst (lk_locks l)))"

lemma lease_invD:
  assumes "lease_inv s"
  shows "(lockId, ref, tok) \<in> sys_leases s \<Longrightarrow> map_of (lk_locks (sys_locks s)) lockId = Some ref"
    "(lockId, ref, tok) \<in> sys_leases s \<Longrightarrow> ls_held (lk_heap (sys_locks s) ref) = Some tok"
    "map_of (lk_locks (sys_locks s)) lockId = Some ref \<Longrightarrow> ref < lk_next (sys_locks s)"
    "map_of (lk_locks (sys_locks s)) lockId = Some ref \<Longrightarrow> \<exists>tok. (lockId, ref, tok) \<in> sys_leases s"
    "ls_held (lk_heap (sys_locks s) ref) = Some tok \<Longrightarrow> \<exists>lockId. (lockId, ref, tok) \<in> sys_leases s"
    "ls_held (lk_heap (sys_locks s) ref) = None \<Longrightarrow> ls_queue (lk_heap (sys_locks s) ref) = []"
    "(lockId, ref, tok) \<in> sys_leases s \<Longrightarrow> (lockId, ref, tok) \<in> sys_created s"
    "(lockId, ref, tok) \<in> sys_created s \<Longrightarrow> tok < lk_next (sys_locks s)"
    "(lockId, ref, tok) \<in> sys_created s \<Longrightarrow> ref < lk_next (sys_locks s)"
    "(lockId, ref, tok) \<in> sys_created s \<Longrightarrow> (lockId', ref', tok') \<in> sys_created s \<Longrightarrow> ref = ref' \<or> tok = tok'
       \<Longrightarrow> lockId = lockId' \<and> ref = ref'"
    "distinct (map fst (lk_locks (sys_locks s)))"
  using assms unfolding lease_inv_def Let_def by blast+

lemma empty_lease_inv: "lease_inv empty_lease_system"
  by (simp add: lease_inv_def empty_lease_system_def empty_lock_service_def free_lock_def)

lemma ask_known:
  assumes "map_of (lk_locks (sys_locks s)) lockId = Some ref" and "ls_held (lk_heap (sys_locks s) ref) \<noteq> None"
  shows "lease_ask lockId waiter s = s\<lparr>sys_locks := put_lock ref
     ((lk_heap (sys_locks s) ref)\<lparr>ls_queue := ls_queue (lk_heap (sys_locks s) ref) @ [waiter]\<rparr>) (sys_locks s)\<rparr>"
  using assms by (auto simp: lease_ask_def acquireLock_def getOrCreateLockState_def Let_def)

lemma ask_new:
  assumes "map_of (lk_locks (sys_locks s)) lockId = None"
  shows "lease_ask lockId waiter s = (let n = lk_next (sys_locks s); h = (lockId, n, Suc n)
    in \<lparr>sys_locks = \<lparr>lk_locks = map_set lockId n (lk_locks (sys_locks s)),
          lk_heap = (lk_heap (sys_locks s))(n := \<lparr>ls_held = Some (Suc n), ls_queue = []\<rparr>), lk_next = Suc (Suc n)\<rparr>,
        sys_created = insert h (sys_created s), sys_leases = insert h (sys_leases s)\<rparr>)"
  using assms
  by (auto simp: lease_ask_def acquireLock_def getOrCreateLockState_def Let_def put_lock_def free_lock_def)

lemma lease_invI:
  assumes "\<And>lockId ref tok. (lockId, ref, tok) \<in> sys_leases s \<Longrightarrow>
      map_of (lk_locks (sys_locks s)) lockId = Some ref \<and> ls_held (lk_heap (sys_locks s) ref) = Some tok"
    and "\<And>lockId ref. map_of (lk_locks (sys_locks s)) lockId = Some ref \<Longrightarrow>
      ref < lk_next (sys_locks s) \<and> (\<exists>tok. (lockId, ref, tok) \<in> sys_leases s)"
    and "\<And>ref tok. ls_held (lk_heap (sys_locks s) ref) = Some tok \<Longrightarrow> \<exists>lockId. (lockId, ref, tok) \<in> sys_leases s"
    and "\<And>ref. ls_held (lk_heap (sys_locks s) ref) = None \<Longrightarrow> ls_queue (lk_heap (sys_locks s) ref) = []"
    and "sys_leases s \<subseteq> sys_created s"
    and "\<And>lockId ref tok. (lockId, ref, tok) \<in> sys_created s \<Longrightarrow> tok < lk_next (sys_locks s) \<and> ref < lk_next (sys_locks s)"
    and "\<And>lockId ref tok lockId' ref' tok'. (lockId, ref, tok) \<in> sys_created s \<Longrightarrow> (lockId', ref', tok') \<in> sys_created s
      \<Longrightarrow> ref = ref' \<or> tok = tok' \<Longrightarrow> lockId = lockId' \<and> ref = ref'"
    and "distinct (map fst (lk_locks (sys_locks s)))"
  shows "lease_inv s"
  unfolding lease_inv_def Let_def
  using assms by blast

lemma ask_inv:
  assumes i: "lease_inv s"
  shows "lease_inv (lease_ask lockId waiter s)"
proof (cases "map_of (lk_locks (sys_locks s)) lockId")
  case (Some ref)
  note d = lease_invD [OF i]
  from Some have held: "ls_held (lk_heap (sys_locks s) ref) \<noteq> None" using d(2,4) by blast
  show ?thesis unfolding ask_known [OF Some held] put_lock_def
    by (rule lease_invI) (use d held in \<open>auto split: if_splits\<close>)
next
  case None
  note d = lease_invD [OF i]
  let ?n = "lk_next (sys_locks s)"
  have old: "lockId' \<noteq> lockId" "ref \<noteq> ?n" if "(lockId', ref, tok) \<in> sys_leases s" for lockId' ref tok
    using d(1) [OF that] d(3) [OF d(1) [OF that]] None by auto
  have fresh: "tok \<noteq> Suc ?n" "ref \<noteq> ?n" if "(lockId', ref, tok) \<in> sys_created s" for lockId' ref tok
    using d(8,9) [OF that] by auto
  show ?thesis unfolding ask_new [OF None] Let_def
  proof (rule lease_invI, goal_cases)
    case (1 lockId' ref tok)
    then show ?case by (auto simp: update_conv' d(1,2) dest: old)
  next
    case (2 lockId' ref)
    then show ?case using d(3,4) by (auto simp: update_conv' less_SucI split: if_splits)
  next
    case (3 ref tok)
    then show ?case using d(5) by (auto split: if_splits)
  next
    case (4 ref)
    then show ?case using d(6) by (auto split: if_splits)
  next
    case 5
    then show ?case using d(7) by auto
  next
    case (6 lockId' ref tok)
    then show ?case by (fastforce dest: d(8) d(9))
  next
    case (7 lockId1 ref1 tok1 lockId2 ref2 tok2)
    then show ?case by (auto dest: fresh d(10))
  next
    case 8
    then show ?case using d(11) by (simp add: distinct_update)
  qed
qed

text \<open>
  What a release does: nothing with a token that is not the current one, a hand-over to the first
  waiter, or the end of the lock.
\<close>

lemma stale_release:
  assumes i: "lease_inv s" and stale: "ls_held (lk_heap (sys_locks s) ref) \<noteq> Some tok"
  shows "lease_release (lockId, ref, tok) s = s"
proof -
  from stale have "(lockId, ref, tok) \<notin> sys_leases s" using lease_invD(2) [OF i] by blast
  with stale show ?thesis by (simp add: Let_def)
qed

lemma release_hands_over:
  assumes "ls_held (lk_heap (sys_locks s) ref) = Some tok" and "ls_queue (lk_heap (sys_locks s) ref) = w # rest"
  shows "lease_release (lockId, ref, tok) s = (let n = lk_next (sys_locks s)
    in \<lparr>sys_locks = \<lparr>lk_locks = lk_locks (sys_locks s),
          lk_heap = (lk_heap (sys_locks s))(ref := \<lparr>ls_held = Some n, ls_queue = rest\<rparr>), lk_next = Suc n\<rparr>,
        sys_created = insert (lockId, ref, n) (sys_created s),
        sys_leases = insert (lockId, ref, n) (sys_leases s - {(lockId, ref, tok)})\<rparr>)"
  using assms by (simp add: Let_def put_lock_def)

lemma release_frees:
  assumes "ls_held (lk_heap (sys_locks s) ref) = Some tok" and "ls_queue (lk_heap (sys_locks s) ref) = []"
  shows "lease_release (lockId, ref, tok) s =
    s\<lparr>sys_locks := \<lparr>lk_locks = map_delete lockId (lk_locks (sys_locks s)),
          lk_heap = (lk_heap (sys_locks s))(ref := free_lock), lk_next = lk_next (sys_locks s)\<rparr>,
      sys_leases := sys_leases s - {(lockId, ref, tok)}\<rparr>"
proof -
  have "(lk_heap (sys_locks s) ref)\<lparr>ls_held := None\<rparr> = free_lock"
    using assms(2) by (cases "lk_heap (sys_locks s) ref") (simp add: free_lock_def)
  with assms show ?thesis by (simp add: Let_def put_lock_def)
qed

lemma held_lease:
  assumes i: "lease_inv s" and "(lockId, ref, tok) \<in> sys_created s"
    and "ls_held (lk_heap (sys_locks s) ref) = Some tok"
  shows "(lockId, ref, tok) \<in> sys_leases s"
proof -
  obtain lockId' where l: "(lockId', ref, tok) \<in> sys_leases s" using lease_invD(5) [OF i assms(3)] by blast
  with lease_invD(10) [OF i assms(2) lease_invD(7) [OF i l]] show ?thesis by simp
qed

lemma release_inv:
  assumes i: "lease_inv s" and h: "h \<in> sys_created s"
  shows "lease_inv (lease_release h s)"
proof -
  note d = lease_invD [OF i]
  obtain lockId ref tok where h': "h = (lockId, ref, tok)" by (cases h)
  show ?thesis
  proof (cases "ls_held (lk_heap (sys_locks s) ref) = Some tok")
    case False
    from stale_release [OF i this] i show ?thesis unfolding h' by (simp only:)
  next
    case True
    have mine: "(lockId, ref, tok) \<in> sys_leases s" using held_lease [OF i] h True unfolding h' by blast
    have same_lock: "lockId' = lockId \<longleftrightarrow> ref' = ref" if "(lockId', ref', tok') \<in> sys_leases s" for lockId' ref' tok'
      using d(10) [OF d(7) [OF that] d(7) [OF mine]] d(1) [OF that] d(1) [OF mine] by auto
    have same_tok: "tok' = tok" if "(lockId', ref, tok') \<in> sys_leases s" for lockId' tok'
      using d(2) [OF that] True by simp
    show ?thesis
    proof (cases "ls_queue (lk_heap (sys_locks s) ref)")
      case Nil
      show ?thesis unfolding h' release_frees [OF True Nil]
      proof (rule lease_invI, goal_cases)
        case (1 lockId' ref' tok')
        then have l: "(lockId', ref', tok') \<in> sys_leases s" "(lockId', ref', tok') \<noteq> (lockId, ref, tok)" by auto
        with same_lock [OF l(1)] same_tok have "ref' \<noteq> ref" "lockId' \<noteq> lockId" by auto
        with d(1,2) [OF l(1)] show ?case by (simp add: delete_conv')
      next
        case (2 lockId' ref')
        then have m: "map_of (lk_locks (sys_locks s)) lockId' = Some ref'" "lockId' \<noteq> lockId"
          by (auto simp: delete_conv' split: if_splits)
        with d(3,4) [OF m(1)] show ?case by auto
      next
        case (3 ref' tok')
        then have m: "ls_held (lk_heap (sys_locks s) ref') = Some tok'" "ref' \<noteq> ref"
          by (auto simp: free_lock_def split: if_splits)
        with d(5) [OF m(1)] show ?case by auto
      next
        case (4 ref')
        then show ?case using d(6) by (auto simp: free_lock_def split: if_splits)
      qed (use d in \<open>auto simp: distinct_map_delete\<close>)
    next
      case (Cons w rest)
      let ?n = "lk_next (sys_locks s)"
      have fresh: "tok' \<noteq> ?n" if "(lockId', ref', tok') \<in> sys_created s" for lockId' ref' tok'
        using d(8) [OF that] by simp
      show ?thesis unfolding h' release_hands_over [OF True Cons] Let_def
      proof (rule lease_invI, goal_cases)
        case (1 lockId' ref' tok')
        show ?case
        proof (cases "(lockId', ref', tok') = (lockId, ref, ?n)")
          case True
          then show ?thesis using d(1) [OF mine] by simp
        next
          case False
          with 1 have l: "(lockId', ref', tok') \<in> sys_leases s" "(lockId', ref', tok') \<noteq> (lockId, ref, tok)" by auto
          with same_lock [OF l(1)] same_tok have "ref' \<noteq> ref" "lockId' \<noteq> lockId" by auto
          with d(1,2) [OF l(1)] show ?thesis by simp
        qed
      next
        case (2 lockId' ref')
        then have m: "map_of (lk_locks (sys_locks s)) lockId' = Some ref'" by simp
        from d(4) [OF m] obtain tok' where l: "(lockId', ref', tok') \<in> sys_leases s" by blast
        have "\<exists>t. (lockId', ref', t) \<in> insert (lockId, ref, ?n) (sys_leases s - {(lockId, ref, tok)})"
        proof (cases "(lockId', ref', tok') = (lockId, ref, tok)")
          case True
          then show ?thesis by blast
        next
          case False
          with l show ?thesis by blast
        qed
        with d(3) [OF m] show ?case by simp
      next
        case (3 ref' tok')
        then show ?case using d(5) by (auto split: if_splits)
      next
        case (4 ref')
        then show ?case using d(6) by (auto split: if_splits)
      next
        case 5
        then show ?case using d(7) by auto
      next
        case (6 lockId' ref' tok')
        then show ?case using d(9) [OF d(7) [OF mine]] by (fastforce dest: d(8) d(9))
      next
        case (7 lockId1 ref1 tok1 lockId2 ref2 tok2)
        then show ?case using d(7) [OF mine] by (auto dest: fresh d(10))
      next
        case 8
        then show ?case using d(11) by simp
      qed
    qed
  qed
qed

lemma timeout_inv:
  assumes i: "lease_inv s"
  shows "lease_inv (lease_timeout lockId ref waiter s)"
proof (cases "waiter \<in> set (ls_queue (lk_heap (sys_locks s) ref))")
  case False
  with i show ?thesis by (simp add: lease_timeout_def acquire_timeout_def)
next
  case True
  note d = lease_invD [OF i]
  from True have "ls_held (lk_heap (sys_locks s) ref) \<noteq> None" using d(6) by fastforce
  with True show ?thesis unfolding lease_timeout_def acquire_timeout_def Let_def put_lock_def
    by (auto intro!: lease_invI) (use d in \<open>auto split: if_splits\<close>)
qed

interpretation leases: invariant_system "\<lambda>s. s = empty_lease_system" lease_step lease_inv
proof unfold_locales
  fix s t
  assume i: "lease_inv s" and "lease_step s t"
  from this(2) show "lease_inv t"
    by (cases rule: lease_stepE) (use i in \<open>auto intro: ask_inv release_inv timeout_inv simp del: lease_release.simps\<close>)
qed (simp add: empty_lease_inv)

end
