(* ===== verification/Lock_Properties.thy ===== *)
theory Lock_Properties
  imports Process_Lock
begin

text \<open>
  The properties of the in-process lock: mutual exclusion on the states that any sequence of
  acquisitions, releases and timeouts reaches, and the harmlessness of stale release functions.
\<close>

text \<open>
  C32: Mutual exclusion: after any acquisitions, releases (repeated ones included) and timeouts two
  leases of one lock are the same lease, and a lock on which clients wait is leased, so that its
  release will serve the first of them.
\<close>

theorem leases_exclude_each_other:
  assumes "lease_step\<^sup>*\<^sup>* empty_lease_system s"
  shows "((lockId, ref, tok) \<in> sys_leases s \<and> (lockId, ref', tok') \<in> sys_leases s \<longrightarrow> ref = ref' \<and> tok = tok')
    \<and> (ls_queue (lk_heap (sys_locks s) ref) \<noteq> [] \<longrightarrow> (\<exists>lockId tok. (lockId, ref, tok) \<in> sys_leases s))"
proof -
  note d = lease_invD [OF leases.reachable_ok [OF refl assms]]
  have "ref = ref' \<and> tok = tok'" if "(lockId, ref, tok) \<in> sys_leases s" "(lockId, ref', tok') \<in> sys_leases s"
    using d(1,2) [OF that(1)] d(1,2) [OF that(2)] by simp
  moreover have "\<exists>lockId tok. (lockId, ref, tok) \<in> sys_leases s" if "ls_queue (lk_heap (sys_locks s) ref) \<noteq> []"
    using d(5,6) that by (cases "ls_held (lk_heap (sys_locks s) ref)") blast+
  ultimately show ?thesis by blast
qed

text \<open>Two clients ask for one lock, the first ends its lease and the second takes over.\<close>

definition asked_twice :: lease_system where
  "asked_twice = lease_ask ''k'' 11 (lease_ask ''k'' 10 empty_lease_system)"

definition handed_over :: lease_system where
  "handed_over = lease_release (''k'', 0, 1) asked_twice"

lemma asked_twice_reachable: "lease_step\<^sup>*\<^sup>* empty_lease_system asked_twice"
  unfolding asked_twice_def by (meson asks rtranclp.rtrancl_into_rtrancl rtranclp.rtrancl_refl)

lemma handed_over_reachable: "lease_step\<^sup>*\<^sup>* empty_lease_system handed_over"
proof -
  have "(''k'', 0, 1) \<in> sys_created asked_twice"
    by (simp add: asked_twice_def lease_ask_def acquireLock_def getOrCreateLockState_def empty_lease_system_def
        empty_lock_service_def put_lock_def free_lock_def Let_def)
  with asked_twice_reachable show ?thesis unfolding handed_over_def by (meson releases rtranclp.rtrancl_into_rtrancl)
qed

lemma handed_over_created: "(''k'', 0, 1) \<in> sys_created handed_over" "(''k'', 0, 1) \<notin> sys_leases handed_over"
  by (simp_all add: handed_over_def asked_twice_def lease_ask_def acquireLock_def getOrCreateLockState_def empty_lease_system_def
      empty_lock_service_def put_lock_def free_lock_def Let_def)

theorem leases_witness:
  "ls_queue (lk_heap (sys_locks asked_twice) 0) \<noteq> [] \<and> (\<exists>lockId tok. (lockId, 0, tok) \<in> sys_leases asked_twice)"
proof -
  have "ls_queue (lk_heap (sys_locks asked_twice) 0) \<noteq> []"
    by (simp add: asked_twice_def lease_ask_def acquireLock_def getOrCreateLockState_def empty_lease_system_def
        empty_lock_service_def put_lock_def free_lock_def Let_def)
  with leases_exclude_each_other [OF asked_twice_reachable, of "''k''" 0 1 0 1] show ?thesis by blast
qed

text \<open>
  Stale releases: calling a release function whose lease has ended changes nothing, neither the
  lock nor the leases, even if the lock was acquired anew since.
\<close>

theorem stale_releases_change_nothing:
  assumes "lease_step\<^sup>*\<^sup>* empty_lease_system s" and "h \<in> sys_created s" and "h \<notin> sys_leases s"
  shows "lease_release h s = s"
proof -
  note i = leases.reachable_ok [OF refl assms(1)]
  obtain lockId ref tok where h: "h = (lockId, ref, tok)" by (cases h)
  have "ls_held (lk_heap (sys_locks s) ref) \<noteq> Some tok"
    using held_lease [OF i, of lockId ref tok] assms(2,3) unfolding h by blast
  then show ?thesis unfolding h by (rule stale_release [OF i])
qed

theorem stale_release_witness: "lease_release (''k'', 0, 1) handed_over = handed_over"
  by (rule stale_releases_change_nothing [OF handed_over_reachable handed_over_created])

text \<open>Lock keys are unambiguous: namespace and key can be read back from the lock id.\<close>

theorem lock_keys_are_unambiguous:
  "buildLockKey ns key = buildLockKey ns' key' \<longleftrightarrow> ns = ns' \<and> key = key'"
  by (rule buildLockKey_inject)

end
