(* ===== verification/Task_Messages.thy ===== *)
theory Task_Messages
  imports Workflow_Types
begin

text \<open>
  The messages between the task broker, the task runners and the task requesters, from
  \<^verbatim>\<open>packages/@n8n/task-runner/src/message-types.ts\<close>: one datatype per direction, one constructor per
  message type, with the fields in the order of the interface. Payloads that the broker passes
  on unread are JSON values.
\<close>

type_synonym task_id = string

datatype to_runner =
    InfoRequest
  | RunnerRegistered
  | TaskOfferAccept (toa_taskId: task_id) (toa_offerId: string)
  | RunnerTaskCancel task_id string
  | RunnerTaskSettings task_id json
  | RunnerRPCResponse string task_id bool json
  | RunnerTaskDataResponse task_id string json
  | RunnerNodeTypes task_id string json
  | Drain

datatype to_requester =
    TaskReady string task_id
  | RequesterTaskDone task_id json
  | RequesterTaskError task_id json
  | RequestExpired string string
  | RequesterTaskDataRequest task_id string json
  | RequesterNodeTypesRequest task_id string json
  | RequesterRPC string task_id string json

datatype from_requester =
    TaskSettings task_id json
  | TaskCancel task_id string
  | RPCResponse task_id string bool json
  | TaskDataResponse task_id string json
  | NodeTypesResponse task_id string json
  | TaskRequestMsg string string

datatype from_runner =
    Info string "string list"
  | TaskAccepted task_id
  | TaskRejected task_id string
  | TaskDeferred task_id
  | TaskDone task_id json
  | TaskErrorMsg task_id json
  | TaskOfferMsg string string int
  | TaskDataRequest task_id string json
  | NodeTypesRequest task_id string json
  | RunnerRPC string task_id string json

end
