(* ===== verification/Task_Broker.thy ===== *)
theory Task_Broker
  imports Task_Messages Transitions
begin

text \<open>
  The task broker, from \<^verbatim>\<open>packages/cli/src/task-runners/task-broker/task-broker.service.ts\<close>: it matches
  the requests of task requesters with the offers of task runners and passes messages between
  the two while a task runs.

  What the broker does to the outside (messages, timers, telemetry, errors that a handler throws)
  is appended to the log \<open>tb_log\<close>. A request is an object that pending lists and suspended calls
  share, so requests live in a heap. A call of \<^verbatim>\<open>acceptOffer\<close> that waits for a promise is an entry
  of \<open>tb_accepting\<close> (waiting for the runner) or \<open>tb_settling\<close> (waiting for the requester) with the outcome
  its promise has been settled with, if any: the first settlement wins, as for every promise.
  Code between two awaits runs in one step; what follows an await of a message callback, when no
  other handler can have interfered, belongs to the same step. Time and fresh ids are arguments.
\<close>

section \<open>State\<close>

record task_runner =
  tr_id :: string
  tr_name :: "string option"
  tr_taskTypes :: "string list"

record task =
  task_id :: task_id
  task_runnerId :: string
  task_requesterId :: string
  task_taskType :: string
  task_timeout :: "nat option"

record task_offer =
  of_offerId :: string
  of_runnerId :: string
  of_taskType :: string
  of_validFor :: int
  of_validUntil :: int

record task_request =
  rq_requestId :: string
  rq_requesterId :: string
  rq_taskType :: string
  rq_timeout :: "nat option"
  rq_acceptInProgress :: bool

datatype broker_output =
    ToRunner string to_runner
  | ToRequester string to_requester
  | StartRequestTimer nat string
  | StartTaskTimer nat task_id
  | StartAcceptTimer task_id
  | StartSettingsTimer task_id
  | ClearTimer "nat option"
  | RunnerTimedOut
  | Raised js_error

datatype accept_outcome = RunnerAccepted | RunnerRejected string | RunnerDeferred | RunnerAcceptTimeout

datatype settings_outcome = SettingsGiven json | RequesterRejected string | RequesterTimedOut

record acceptance =
  ac_offer :: task_offer
  ac_request :: nat
  ac_outcome :: "accept_outcome option"

record broker =
  tb_knownRunners :: "(string, task_runner) jsmap"
  tb_requesters :: "string list"
  tb_tasks :: "(task_id, task) jsmap"
  tb_isDraining :: bool
  tb_runnerAcceptRejects :: "task_id list"
  tb_requesterAcceptRejects :: "task_id list"
  tb_pendingTaskOffers :: "task_offer list"
  tb_pendingTaskRequests :: "nat list"
  tb_mismatchWarned :: "string list"
  tb_requests :: "nat \<Rightarrow> task_request"
  tb_accepting :: "(task_id, acceptance) jsmap"
  tb_settling :: "(task_id, settings_outcome option) jsmap"
  tb_next :: nat
  tb_log :: "broker_output list"

record broker_config =
  bc_taskTimeout :: int
  bc_mode :: string

definition no_request :: task_request where
  "no_request = \<lparr>rq_requestId = [], rq_requesterId = [], rq_taskType = [], rq_timeout = None, rq_acceptInProgress = False\<rparr>"

definition new_broker :: "broker_config \<Rightarrow> broker result" where
  "new_broker cfg =
     (if bc_taskTimeout cfg \<le> 0 then Inl (UserError ''Task timeout must be greater than 0'')
      else Inr \<lparr>tb_knownRunners = [], tb_requesters = [], tb_tasks = [], tb_isDraining = False,
        tb_runnerAcceptRejects = [], tb_requesterAcceptRejects = [], tb_pendingTaskOffers = [],
        tb_pendingTaskRequests = [], tb_mismatchWarned = [], tb_requests = (\<lambda>_. no_request),
        tb_accepting = [], tb_settling = [], tb_next = 0, tb_log = []\<rparr>)"

definition emit :: "broker_output \<Rightarrow> broker \<Rightarrow> broker" where
  "emit out b = b\<lparr>tb_log := tb_log b @ [out]\<rparr>"

definition messageRunner :: "string \<Rightarrow> to_runner \<Rightarrow> broker \<Rightarrow> broker" where
  "messageRunner runnerId message b =
     (if map_of (tb_knownRunners b) runnerId = None then b else emit (ToRunner runnerId message) b)"

definition messageRequester :: "string \<Rightarrow> to_requester \<Rightarrow> broker \<Rightarrow> broker" where
  "messageRequester requesterId message b =
     (if requesterId \<in> set (tb_requesters b) then emit (ToRequester requesterId message) b else b)"

definition createRequestTimeout :: "string \<Rightarrow> broker \<Rightarrow> nat \<times> broker" where
  "createRequestTimeout requestId b =
     (tb_next b, emit (StartRequestTimer (tb_next b) requestId) (b\<lparr>tb_next := Suc (tb_next b)\<rparr>))"

definition find_request :: "string \<Rightarrow> broker \<Rightarrow> nat option" where
  "find_request requestId b = find (\<lambda>r. rq_requestId (tb_requests b r) = requestId) (tb_pendingTaskRequests b)"

definition drop_request :: "nat \<Rightarrow> broker \<Rightarrow> broker" where
  "drop_request r b = b\<lparr>tb_pendingTaskRequests := remove1 r (tb_pendingTaskRequests b)\<rparr>"

definition handleRequestTimeout :: "string \<Rightarrow> broker \<Rightarrow> broker" where
  "handleRequestTimeout requestId b =
     (case find_request requestId b of
        None \<Rightarrow> b
      | Some r \<Rightarrow>
          let request = tb_requests b r;
              b = (drop_request r b)\<lparr>tb_mismatchWarned := set_remove requestId (tb_mismatchWarned b)\<rparr>;
              b = emit (ClearTimer (rq_timeout request)) b
          in messageRequester (rq_requesterId request) (RequestExpired (rq_requestId request) ''timeout'') b)"

definition expireTasks :: "int \<Rightarrow> broker \<Rightarrow> broker" where
  "expireTasks now b = b\<lparr>tb_pendingTaskOffers :=
     filter (\<lambda>offer. of_validFor offer = -1 \<or> \<not> of_validUntil offer < now) (tb_pendingTaskOffers b)\<rparr>"

section \<open>Promises of an acceptance\<close>

definition settle_runner :: "task_id \<Rightarrow> accept_outcome \<Rightarrow> broker \<Rightarrow> broker" where
  "settle_runner taskId out b =
     (case map_of (tb_accepting b) taskId of
        Some a \<Rightarrow> (if ac_outcome a = None
          then b\<lparr>tb_accepting := map_set taskId (a\<lparr>ac_outcome := Some out\<rparr>) (tb_accepting b)\<rparr> else b)
      | None \<Rightarrow> b)"

definition settle_requester :: "task_id \<Rightarrow> settings_outcome \<Rightarrow> broker \<Rightarrow> broker" where
  "settle_requester taskId out b =
     (if map_of (tb_settling b) taskId = Some None
      then b\<lparr>tb_settling := map_set taskId (Some out) (tb_settling b)\<rparr> else b)"

definition runner_answer :: "task_id \<Rightarrow> accept_outcome \<Rightarrow> broker \<Rightarrow> broker" where
  "runner_answer taskId out b =
     (if taskId \<in> set (tb_runnerAcceptRejects b)
      then (settle_runner taskId out b)\<lparr>tb_runnerAcceptRejects := set_remove taskId (tb_runnerAcceptRejects b)\<rparr>
      else b)"

definition handleRunnerAccept :: "task_id \<Rightarrow> broker \<Rightarrow> broker" where
  "handleRunnerAccept taskId = runner_answer taskId RunnerAccepted"

definition handleRunnerReject :: "task_id \<Rightarrow> string \<Rightarrow> broker \<Rightarrow> broker" where
  "handleRunnerReject taskId reason = runner_answer taskId (RunnerRejected reason)"

definition handleRunnerDeferred :: "task_id \<Rightarrow> broker \<Rightarrow> broker" where
  "handleRunnerDeferred taskId = runner_answer taskId RunnerDeferred"

definition requester_answer :: "task_id \<Rightarrow> settings_outcome \<Rightarrow> broker \<Rightarrow> broker" where
  "requester_answer taskId out b =
     (if taskId \<in> set (tb_requesterAcceptRejects b)
      then (settle_requester taskId out b)\<lparr>tb_requesterAcceptRejects := set_remove taskId (tb_requesterAcceptRejects b)\<rparr>
      else b)"

definition handleRequesterAccept :: "task_id \<Rightarrow> json \<Rightarrow> broker \<Rightarrow> broker" where
  "handleRequesterAccept taskId settings = requester_answer taskId (SettingsGiven settings)"

definition handleRequesterReject :: "task_id \<Rightarrow> string \<Rightarrow> broker \<Rightarrow> broker" where
  "handleRequesterReject taskId reason = requester_answer taskId (RequesterRejected reason)"

section \<open>Tasks\<close>

definition cancelTask :: "task_id \<Rightarrow> string \<Rightarrow> broker \<Rightarrow> broker" where
  "cancelTask taskId reason b =
     (case map_of (tb_tasks b) taskId of
        None \<Rightarrow> b
      | Some t \<Rightarrow> messageRunner (task_runnerId t) (RunnerTaskCancel taskId reason)
                   (b\<lparr>tb_tasks := map_delete taskId (tb_tasks b)\<rparr>))"

definition failTask :: "task_id \<Rightarrow> json \<Rightarrow> broker \<Rightarrow> broker" where
  "failTask taskId err b =
     (case map_of (tb_tasks b) taskId of
        None \<Rightarrow> b
      | Some t \<Rightarrow> messageRequester (task_requesterId t) (RequesterTaskError taskId err)
                   (b\<lparr>tb_tasks := map_delete taskId (tb_tasks b)\<rparr>))"

text \<open>The runner of a task, or the task failed and the error that is thrown.\<close>

definition getRunnerOrFailTask :: "task_id \<Rightarrow> broker \<Rightarrow> task_runner result \<times> broker" where
  "getRunnerOrFailTask taskId b =
     (case map_of (tb_tasks b) taskId of
        None \<Rightarrow> (Inl (UnexpectedError ''Cannot find runner, failed to find task''), b)
      | Some t \<Rightarrow> (case map_of (tb_knownRunners b) (task_runnerId t) of
            None \<Rightarrow> (Inl (UnexpectedError ''Cannot find runner, failed to find runner''),
                     failTask taskId (JStr ''Cannot find runner, failed to find runner'') b)
          | Some r \<Rightarrow> (Inr r, b)))"

definition to_runner_of :: "task_id \<Rightarrow> to_runner \<Rightarrow> broker \<Rightarrow> broker" where
  "to_runner_of taskId message b =
     (if map_of (tb_tasks b) taskId = None then b
      else case getRunnerOrFailTask taskId b of
          (Inl e, b) \<Rightarrow> emit (Raised e) b
        | (Inr r, b) \<Rightarrow> messageRunner (tr_id r) message b)"

definition handleRequesterRpcResponse :: "task_id \<Rightarrow> string \<Rightarrow> bool \<Rightarrow> json \<Rightarrow> broker \<Rightarrow> broker" where
  "handleRequesterRpcResponse taskId callId status data = to_runner_of taskId (RunnerRPCResponse callId taskId status data)"

definition handleRequesterDataResponse :: "task_id \<Rightarrow> string \<Rightarrow> json \<Rightarrow> broker \<Rightarrow> broker" where
  "handleRequesterDataResponse taskId requestId data = to_runner_of taskId (RunnerTaskDataResponse taskId requestId data)"

definition handleRequesterNodeTypesResponse :: "task_id \<Rightarrow> string \<Rightarrow> json \<Rightarrow> broker \<Rightarrow> broker" where
  "handleRequesterNodeTypesResponse taskId requestId nodeTypes = to_runner_of taskId (RunnerNodeTypes taskId requestId nodeTypes)"

text \<open>
  Settings arrive: the task's timer is started and the runner gets the settings. The first
  component is the error, if one is thrown.
\<close>

definition sendTaskSettings :: "task_id \<Rightarrow> json \<Rightarrow> broker \<Rightarrow> js_error option \<times> broker" where
  "sendTaskSettings taskId settings b =
     (if map_of (tb_tasks b) taskId = None then (None, b)
      else case getRunnerOrFailTask taskId b of
          (Inl e, b) \<Rightarrow> (Some e, b)
        | (Inr r, b) \<Rightarrow> (case map_of (tb_tasks b) taskId of
              None \<Rightarrow> (None, b)
            | Some t \<Rightarrow>
                let timer = tb_next b;
                    b = b\<lparr>tb_next := Suc timer, tb_tasks := map_set taskId (t\<lparr>task_timeout := Some timer\<rparr>) (tb_tasks b)\<rparr>
                in (None, messageRunner (tr_id r) (RunnerTaskSettings taskId settings) (emit (StartTaskTimer timer taskId) b))))"

text \<open>
  Both handlers tell the requester first and forget the task when that message is through: the
  second step is \<open>task_ended\<close>.
\<close>

definition task_ended :: "task_id \<Rightarrow> broker \<Rightarrow> broker" where
  "task_ended taskId b = b\<lparr>tb_tasks := map_delete taskId (tb_tasks b)\<rparr>"

definition taskDoneHandler :: "task_id \<Rightarrow> json \<Rightarrow> broker \<Rightarrow> broker" where
  "taskDoneHandler taskId data b =
     (case map_of (tb_tasks b) taskId of
        None \<Rightarrow> b
      | Some t \<Rightarrow> task_ended (task_id t) (messageRequester (task_requesterId t) (RequesterTaskDone (task_id t) data)
                   (emit (ClearTimer (task_timeout t)) b)))"

definition taskErrorHandler :: "task_id \<Rightarrow> json \<Rightarrow> broker \<Rightarrow> broker" where
  "taskErrorHandler taskId err b =
     (case map_of (tb_tasks b) taskId of
        None \<Rightarrow> b
      | Some t \<Rightarrow> task_ended (task_id t) (messageRequester (task_requesterId t) (RequesterTaskError (task_id t) err)
                   (emit (ClearTimer (task_timeout t)) b)))"

definition handleTaskTimeout :: "broker_config \<Rightarrow> task_id \<Rightarrow> broker \<Rightarrow> broker" where
  "handleTaskTimeout cfg taskId b =
     (case map_of (tb_tasks b) taskId of
        None \<Rightarrow> b
      | Some t \<Rightarrow> taskErrorHandler taskId (JStr ''Task execution timed out'')
           (if bc_mode cfg = ''internal'' then emit RunnerTimedOut b
            else if bc_mode cfg = ''external''
              then messageRunner (task_runnerId t) (RunnerTaskCancel taskId ''Task execution timed out'') b
            else b))"

definition handleRpcRequest :: "task_id \<Rightarrow> string \<Rightarrow> string \<Rightarrow> json \<Rightarrow> broker \<Rightarrow> broker" where
  "handleRpcRequest taskId callId nm params b =
     (case map_of (tb_tasks b) taskId of
        None \<Rightarrow> b
      | Some t \<Rightarrow> messageRequester (task_requesterId t) (RequesterRPC callId taskId nm params) b)"

definition handleDataRequest :: "task_id \<Rightarrow> string \<Rightarrow> json \<Rightarrow> broker \<Rightarrow> broker" where
  "handleDataRequest taskId requestId requestParams b =
     (case map_of (tb_tasks b) taskId of
        None \<Rightarrow> b
      | Some t \<Rightarrow> messageRequester (task_requesterId t) (RequesterTaskDataRequest taskId requestId requestParams) b)"

definition handleNodeTypesRequest :: "task_id \<Rightarrow> string \<Rightarrow> json \<Rightarrow> broker \<Rightarrow> broker" where
  "handleNodeTypesRequest taskId requestId requestParams b =
     (case map_of (tb_tasks b) taskId of
        None \<Rightarrow> b
      | Some t \<Rightarrow> messageRequester (task_requesterId t) (RequesterNodeTypesRequest taskId requestId requestParams) b)"

text \<open>The code addresses a runner by the id of the task's requester here.\<close>

definition handleResponse :: "task_id \<Rightarrow> string \<Rightarrow> json \<Rightarrow> broker \<Rightarrow> broker" where
  "handleResponse taskId requestId data b =
     (case map_of (tb_tasks b) taskId of
        None \<Rightarrow> b
      | Some t \<Rightarrow> messageRunner (task_requesterId t) (RunnerTaskDataResponse taskId requestId data) b)"

section \<open>Matching offers and requests\<close>

definition set_progress :: "nat \<Rightarrow> bool \<Rightarrow> broker \<Rightarrow> broker" where
  "set_progress r flag b = b\<lparr>tb_requests := (tb_requests b)(r := (tb_requests b r)\<lparr>rq_acceptInProgress := flag\<rparr>)\<rparr>"

text \<open>
  The call up to its first await; \<open>nanoid\<close> gives the id of the task from a fresh number.
\<close>

definition acceptOffer :: "(nat \<Rightarrow> task_id) \<Rightarrow> task_offer \<Rightarrow> nat \<Rightarrow> broker \<Rightarrow> broker" where
  "acceptOffer nanoid offer r b =
     (let taskId = nanoid (tb_next b);
          b = b\<lparr>tb_next := Suc (tb_next b),
                tb_runnerAcceptRejects := set_add taskId (tb_runnerAcceptRejects b),
                tb_accepting := map_set taskId \<lparr>ac_offer = offer, ac_request = r, ac_outcome = None\<rparr> (tb_accepting b)\<rparr>
      in messageRunner (of_runnerId offer) (TaskOfferAccept taskId (of_offerId offer)) (emit (StartAcceptTimer taskId) b))"

text \<open>The call resumed after the runner's answer, a deferral or the timer.\<close>

definition accept_failed :: "accept_outcome \<Rightarrow> nat \<Rightarrow> broker \<Rightarrow> broker" where
  "accept_failed out r b =
     (let b = set_progress r False b
      in if out = RunnerDeferred
         then (let b = emit (ClearTimer (rq_timeout (tb_requests b r))) b;
                   (timer, b) = createRequestTimeout (rq_requestId (tb_requests b r)) b
               in b\<lparr>tb_requests := (tb_requests b)(r := (tb_requests b r)\<lparr>rq_timeout := Some timer\<rparr>)\<rparr>)
         else b)"

definition accept_succeeded :: "task_id \<Rightarrow> task_offer \<Rightarrow> nat \<Rightarrow> broker \<Rightarrow> broker" where
  "accept_succeeded taskId offer r b =
     (let request = tb_requests b r;
          b = emit (ClearTimer (rq_timeout request)) b;
          b = b\<lparr>tb_tasks := map_set taskId \<lparr>task_id = taskId, task_runnerId = of_runnerId offer,
                  task_requesterId = rq_requesterId request, task_taskType = of_taskType offer, task_timeout = None\<rparr> (tb_tasks b)\<rparr>
      in case find_request (rq_requestId request) b of
           None \<Rightarrow> b
         | Some r' \<Rightarrow>
             let b = drop_request r' b;
                 b = b\<lparr>tb_requesterAcceptRejects := set_add taskId (tb_requesterAcceptRejects b),
                       tb_settling := map_set taskId None (tb_settling b)\<rparr>
             in messageRequester (rq_requesterId request) (TaskReady (rq_requestId request) taskId)
                  (emit (StartSettingsTimer taskId) b))"

definition resume_accept :: "task_id \<Rightarrow> broker \<Rightarrow> broker" where
  "resume_accept taskId b =
     (case map_of (tb_accepting b) taskId of
        Some a \<Rightarrow> (case ac_outcome a of
            None \<Rightarrow> b
          | Some out \<Rightarrow>
              let b = b\<lparr>tb_accepting := map_delete taskId (tb_accepting b)\<rparr>
              in if out = RunnerAccepted then accept_succeeded taskId (ac_offer a) (ac_request a) b
                 else accept_failed out (ac_request a) b)
      | None \<Rightarrow> b)"

definition resume_settings :: "task_id \<Rightarrow> broker \<Rightarrow> broker" where
  "resume_settings taskId b =
     (case map_of (tb_settling b) taskId of
        Some (Some out) \<Rightarrow>
          let b = b\<lparr>tb_settling := map_delete taskId (tb_settling b)\<rparr>
          in (case out of
                SettingsGiven settings \<Rightarrow> (case sendTaskSettings taskId settings b of
                    (None, b) \<Rightarrow> b
                  | (Some e, b) \<Rightarrow> emit (Raised e) (cancelTask taskId ''Unknown reason'' b))
              | RequesterRejected reason \<Rightarrow> cancelTask taskId reason b
              | RequesterTimedOut \<Rightarrow> emit (Raised (OperationalError ''Requester timed out'')) (cancelTask taskId ''Unknown reason'' b))
      | _ \<Rightarrow> b)"

definition accept_timer_fired :: "task_id \<Rightarrow> broker \<Rightarrow> broker" where
  "accept_timer_fired taskId = settle_runner taskId RunnerAcceptTimeout"

definition settings_timer_fired :: "task_id \<Rightarrow> broker \<Rightarrow> broker" where
  "settings_timer_fired taskId = settle_requester taskId RequesterTimedOut"

definition warnOnTaskTypeMismatch :: "nat \<Rightarrow> broker \<Rightarrow> broker" where
  "warnOnTaskTypeMismatch r b =
     (let requestId = rq_requestId (tb_requests b r)
      in if tb_pendingTaskOffers b = [] then b
         else b\<lparr>tb_mismatchWarned := set_add requestId (tb_mismatchWarned b)\<rparr>)"

definition offer_for :: "nat \<Rightarrow> broker \<Rightarrow> task_offer option" where
  "offer_for r b = find (\<lambda>offer. of_taskType offer = rq_taskType (tb_requests b r)) (tb_pendingTaskOffers b)"

definition settle_request :: "(nat \<Rightarrow> task_id) \<Rightarrow> nat \<Rightarrow> broker \<Rightarrow> broker" where
  "settle_request nanoid r b =
     (if rq_acceptInProgress (tb_requests b r) then b
      else case offer_for r b of
          None \<Rightarrow> warnOnTaskTypeMismatch r b
        | Some offer \<Rightarrow>
            let b = set_progress r True b;
                b = b\<lparr>tb_pendingTaskOffers := remove1 offer (tb_pendingTaskOffers b),
                      tb_mismatchWarned := set_remove (rq_requestId (tb_requests b r)) (tb_mismatchWarned b)\<rparr>
            in acceptOffer nanoid offer r b)"

definition settleTasks :: "(nat \<Rightarrow> task_id) \<Rightarrow> int \<Rightarrow> broker \<Rightarrow> broker" where
  "settleTasks nanoid now b =
     (let b = expireTasks now b in fold (settle_request nanoid) (tb_pendingTaskRequests b) b)"

text \<open>
  A request comes with its requester id and with the timer that was started for it; the object
  gets the next free place of the heap.
\<close>

definition taskRequested :: "(nat \<Rightarrow> task_id) \<Rightarrow> int \<Rightarrow> task_request \<Rightarrow> broker \<Rightarrow> broker" where
  "taskRequested nanoid now request b =
     (if tb_isDraining b
      then messageRequester (rq_requesterId request) (RequestExpired (rq_requestId request) ''draining'')
             (emit (ClearTimer (rq_timeout request)) b)
      else let r = tb_next b
        in settleTasks nanoid now (b\<lparr>tb_next := Suc r, tb_requests := (tb_requests b)(r := request),
             tb_pendingTaskRequests := tb_pendingTaskRequests b @ [r]\<rparr>))"

definition taskOffered :: "(nat \<Rightarrow> task_id) \<Rightarrow> int \<Rightarrow> task_offer \<Rightarrow> broker \<Rightarrow> broker" where
  "taskOffered nanoid now offer b =
     settleTasks nanoid now (b\<lparr>tb_pendingTaskOffers := tb_pendingTaskOffers b @ [offer]\<rparr>)"

definition startDraining :: "broker \<Rightarrow> broker" where
  "startDraining b = b\<lparr>tb_isDraining := True\<rparr>"

definition hasActiveTasks :: "broker \<Rightarrow> bool" where
  "hasActiveTasks b \<longleftrightarrow> 0 < length (tb_tasks b)"

section \<open>Registration and dispatch\<close>

definition registerRunner :: "task_runner \<Rightarrow> broker \<Rightarrow> broker" where
  "registerRunner runner b =
     messageRunner (tr_id runner) RunnerRegistered
       (b\<lparr>tb_knownRunners := map_set (tr_id runner) runner (tb_knownRunners b)\<rparr>)"

definition runner_lost :: "string \<Rightarrow> string \<Rightarrow> task \<Rightarrow> broker \<Rightarrow> broker" where
  "runner_lost runnerId err t b =
     (if task_runnerId t = runnerId
      then handleRunnerReject (task_id t) (''The Task Runner ('' @ runnerId @ '') has disconnected: '' @ err)
             (failTask (task_id t) (JStr err) b)
      else b)"

definition deregisterRunner :: "string \<Rightarrow> string \<Rightarrow> broker \<Rightarrow> broker" where
  "deregisterRunner runnerId err b =
     (let b = b\<lparr>tb_knownRunners := map_delete runnerId (tb_knownRunners b),
                tb_pendingTaskOffers := filter (\<lambda>offer. of_runnerId offer \<noteq> runnerId) (tb_pendingTaskOffers b)\<rparr>
      in fold (runner_lost runnerId err) (map_values (tb_tasks b)) b)"

definition registerRequester :: "string \<Rightarrow> broker \<Rightarrow> broker" where
  "registerRequester requesterId b = b\<lparr>tb_requesters := set_add requesterId (tb_requesters b)\<rparr>"

definition deregisterRequester :: "string \<Rightarrow> broker \<Rightarrow> broker" where
  "deregisterRequester requesterId b = b\<lparr>tb_requesters := set_remove requesterId (tb_requesters b)\<rparr>"

fun onRunnerMessage :: "(nat \<Rightarrow> task_id) \<Rightarrow> int \<Rightarrow> string \<Rightarrow> from_runner \<Rightarrow> broker \<Rightarrow> broker" where
  "onRunnerMessage nanoid now runnerId message b =
     (if map_of (tb_knownRunners b) runnerId = None then b
      else case message of
          TaskAccepted taskId \<Rightarrow> handleRunnerAccept taskId b
        | TaskRejected taskId reason \<Rightarrow> handleRunnerReject taskId reason b
        | TaskDeferred taskId \<Rightarrow> handleRunnerDeferred taskId b
        | TaskOfferMsg offerId taskType validFor \<Rightarrow> taskOffered nanoid now
            \<lparr>of_offerId = offerId, of_runnerId = runnerId, of_taskType = taskType, of_validFor = validFor,
             of_validUntil = (if validFor = -1 then 0 else now + validFor * 1000000)\<rparr> b
        | TaskDone taskId data \<Rightarrow> taskDoneHandler taskId data b
        | TaskErrorMsg taskId err \<Rightarrow> taskErrorHandler taskId err b
        | TaskDataRequest taskId requestId requestParams \<Rightarrow> handleDataRequest taskId requestId requestParams b
        | NodeTypesRequest taskId requestId requestParams \<Rightarrow> handleNodeTypesRequest taskId requestId requestParams b
        | RunnerRPC callId taskId nm params \<Rightarrow> handleRpcRequest taskId callId nm params b
        | Info _ _ \<Rightarrow> b)"

fun onRequesterMessage :: "(nat \<Rightarrow> task_id) \<Rightarrow> int \<Rightarrow> string \<Rightarrow> from_requester \<Rightarrow> broker \<Rightarrow> broker" where
  "onRequesterMessage nanoid now requesterId message b =
     (case message of
        TaskSettings taskId settings \<Rightarrow> handleRequesterAccept taskId settings b
      | TaskCancel taskId reason \<Rightarrow> cancelTask taskId reason b
      | TaskRequestMsg requestId taskType \<Rightarrow>
          (let (timer, b) = createRequestTimeout requestId b
           in taskRequested nanoid now \<lparr>rq_requestId = requestId, rq_requesterId = requesterId, rq_taskType = taskType,
                rq_timeout = Some timer, rq_acceptInProgress = False\<rparr> b)
      | TaskDataResponse taskId requestId data \<Rightarrow> handleRequesterDataResponse taskId requestId data b
      | NodeTypesResponse taskId requestId nodeTypes \<Rightarrow> handleRequesterNodeTypesResponse taskId requestId nodeTypes b
      | RPCResponse taskId callId status data \<Rightarrow> handleRequesterRpcResponse taskId callId status data b)"

end
