(* ===== verification/Broker_Invariant.thy ===== *)
theory Broker_Invariant
  imports Task_Broker
begin

text \<open>
  The task broker as a transition system: messages, timers and resumed calls in any order. The
  invariant ties the pending requests, their progress flags and the suspended acceptances
  together, and keeps the ids of acceptances, tasks and reject handlers apart.
\<close>

section \<open>Steps\<close>

text \<open>
  The id of a request is new: the requesters draw them at random, like the broker its task ids.
\<close>

inductive broker_step :: "broker_config \<Rightarrow> (nat \<Rightarrow> task_id) \<Rightarrow> broker \<Rightarrow> broker \<Rightarrow> bool" for cfg nanoid where
  runner_message: "broker_step cfg nanoid b (onRunnerMessage nanoid now runnerId message b)"
| requester_message: "(\<And>requestId taskType. message = TaskRequestMsg requestId taskType \<Longrightarrow>
      \<forall>r. rq_requestId (tb_requests b r) \<noteq> requestId) \<Longrightarrow>
    broker_step cfg nanoid b (onRequesterMessage nanoid now requesterId message b)"
| runner_registers: "broker_step cfg nanoid b (registerRunner runner b)"
| runner_leaves: "broker_step cfg nanoid b (deregisterRunner runnerId err b)"
| requester_registers: "broker_step cfg nanoid b (registerRequester requesterId b)"
| requester_leaves: "broker_step cfg nanoid b (deregisterRequester requesterId b)"
| request_timer: "broker_step cfg nanoid b (handleRequestTimeout requestId b)"
| accept_timer: "broker_step cfg nanoid b (accept_timer_fired taskId b)"
| settings_timer: "broker_step cfg nanoid b (settings_timer_fired taskId b)"
| task_timer: "broker_step cfg nanoid b (handleTaskTimeout cfg taskId b)"
| acceptance_resumes: "broker_step cfg nanoid b (resume_accept taskId b)"
| settings_resume: "broker_step cfg nanoid b (resume_settings taskId b)"
| drains: "broker_step cfg nanoid b (startDraining b)"

inductive_cases broker_stepE: "broker_step cfg nanoid b c"

section \<open>The invariant\<close>

abbreviation in_progress :: "broker \<Rightarrow> nat \<Rightarrow> bool" where
  "in_progress b r \<equiv> rq_acceptInProgress (tb_requests b r)"

text \<open>Of an acceptance the matching only concerns the id, the offer and the request.\<close>

definition acceptances :: "broker \<Rightarrow> (task_id \<times> task_offer \<times> nat) list" where
  "acceptances b = map (\<lambda>(i, a). (i, ac_offer a, ac_request a)) (tb_accepting b)"

definition accepted_requests :: "broker \<Rightarrow> nat set" where
  "accepted_requests b = (snd \<circ> snd) ` set (acceptances b)"

definition matching_inv :: "broker \<Rightarrow> bool" where
  "matching_inv b \<longleftrightarrow>
     distinct (tb_pendingTaskRequests b)
   \<and> (\<forall>r \<in> set (tb_pendingTaskRequests b) \<union> accepted_requests b. r < tb_next b)
   \<and> distinct (map fst (acceptances b))
   \<and> distinct (map (snd \<circ> snd) (acceptances b))
   \<and> (\<forall>(i, offer, r) \<in> set (acceptances b). in_progress b r \<and> of_taskType offer = rq_taskType (tb_requests b r))
   \<and> (\<forall>r \<in> set (tb_pendingTaskRequests b). in_progress b r \<longrightarrow> r \<in> accepted_requests b)
   \<and> inj_on (\<lambda>r. rq_requestId (tb_requests b r)) (set (tb_pendingTaskRequests b) \<union> accepted_requests b)"

definition tasks_ok :: "(task_id, task) jsmap \<Rightarrow> bool" where
  "tasks_ok ts \<longleftrightarrow> distinct (map fst ts) \<and> (\<forall>(i, t) \<in> set ts. task_id t = i)"

definition ids_inv :: "(nat \<Rightarrow> task_id) \<Rightarrow> broker \<Rightarrow> bool" where
  "ids_inv nanoid b \<longleftrightarrow>
     fst ` set (tb_accepting b) \<union> fst ` set (tb_tasks b) \<union> set (tb_runnerAcceptRejects b) \<subseteq> nanoid ` {n. n < tb_next b}
   \<and> tasks_ok (tb_tasks b)
   \<and> fst ` set (tb_tasks b) \<inter> fst ` set (tb_accepting b) = {}
   \<and> fst ` set (tb_tasks b) \<inter> set (tb_runnerAcceptRejects b) = {}
   \<and> (\<forall>(i, a) \<in> set (tb_accepting b). ac_outcome a = Some RunnerAccepted \<longrightarrow> i \<notin> set (tb_runnerAcceptRejects b))"

definition broker_inv :: "(nat \<Rightarrow> task_id) \<Rightarrow> broker \<Rightarrow> bool" where
  "broker_inv nanoid b \<longleftrightarrow> matching_inv b \<and> ids_inv nanoid b"

lemma new_broker_inv: "new_broker cfg = Inr b \<Longrightarrow> broker_inv nanoid b"
  by (auto simp: new_broker_def broker_inv_def matching_inv_def ids_inv_def acceptances_def accepted_requests_def tasks_ok_def split: if_splits)

text \<open>Steps that leave the requests and the acceptances alone.\<close>

definition quiet :: "broker \<Rightarrow> broker \<Rightarrow> bool" where
  "quiet b c \<longleftrightarrow> tb_pendingTaskRequests c = tb_pendingTaskRequests b \<and> tb_requests c = tb_requests b
     \<and> tb_accepting c = tb_accepting b \<and> tb_next b \<le> tb_next c
     \<and> set (tb_runnerAcceptRejects c) \<subseteq> set (tb_runnerAcceptRejects b)
     \<and> fst ` set (tb_tasks c) \<subseteq> fst ` set (tb_tasks b)
     \<and> (tasks_ok (tb_tasks b) \<longrightarrow> tasks_ok (tb_tasks c))"

lemma quiet_refl [simp]: "quiet b b"
  by (simp add: quiet_def)

lemma quiet_trans [trans]: "quiet b c \<Longrightarrow> quiet c d \<Longrightarrow> quiet b d"
  unfolding quiet_def
  by (elim conjE, intro conjI) (simp only:, simp only:, simp only:, erule (1) le_trans, erule (1) subset_trans [rotated],
      erule (1) subset_trans [rotated], iprover)

lemma quiet_matching:
  assumes q: "quiet b c" and m: "matching_inv b"
  shows "matching_inv c"
proof -
  from q have e: "tb_pendingTaskRequests c = tb_pendingTaskRequests b" "tb_requests c = tb_requests b"
    "tb_accepting c = tb_accepting b" and n: "tb_next b \<le> tb_next c" by (simp_all add: quiet_def)
  from m n have "\<forall>r \<in> set (tb_pendingTaskRequests b) \<union> accepted_requests b. r < tb_next c"
    unfolding matching_inv_def by (meson less_le_trans)
  with m show ?thesis unfolding matching_inv_def accepted_requests_def acceptances_def e by blast
qed

lemma quiet_ids:
  assumes q: "quiet b c" and i: "ids_inv nanoid b"
  shows "ids_inv nanoid c"
proof -
  from q have e: "tb_accepting c = tb_accepting b" and n: "tb_next b \<le> tb_next c"
    and s: "set (tb_runnerAcceptRejects c) \<subseteq> set (tb_runnerAcceptRejects b)"
      "fst ` set (tb_tasks c) \<subseteq> fst ` set (tb_tasks b)"
    and t: "tasks_ok (tb_tasks b) \<longrightarrow> tasks_ok (tb_tasks c)" by (simp_all add: quiet_def)
  from n have m: "nanoid ` {n. n < tb_next b} \<subseteq> nanoid ` {n. n < tb_next c}" by auto
  from i have u: "fst ` set (tb_accepting b) \<union> fst ` set (tb_tasks b) \<union> set (tb_runnerAcceptRejects b) \<subseteq> nanoid ` {n. n < tb_next b}"
    and k: "tasks_ok (tb_tasks b)" and x: "fst ` set (tb_tasks b) \<inter> fst ` set (tb_accepting b) = {}"
    and y: "fst ` set (tb_tasks b) \<inter> set (tb_runnerAcceptRejects b) = {}"
    and a: "\<forall>(i, a) \<in> set (tb_accepting b). ac_outcome a = Some RunnerAccepted \<longrightarrow> i \<notin> set (tb_runnerAcceptRejects b)"
    unfolding ids_inv_def by blast+
  show ?thesis unfolding ids_inv_def e
  proof (intro conjI)
    show "fst ` set (tb_accepting b) \<union> fst ` set (tb_tasks c) \<union> set (tb_runnerAcceptRejects c) \<subseteq> nanoid ` {n. n < tb_next c}"
      using subset_trans [OF _ m] u s by (meson Un_least Un_subset_iff subset_trans)
    show "tasks_ok (tb_tasks c)" using t k by blast
    show "fst ` set (tb_tasks c) \<inter> fst ` set (tb_accepting b) = {}" using x s(2) by (meson disjoint_iff subsetD)
    show "fst ` set (tb_tasks c) \<inter> set (tb_runnerAcceptRejects c) = {}" using y s by (meson disjoint_iff subsetD)
    show "\<forall>(i, a) \<in> set (tb_accepting b). ac_outcome a = Some RunnerAccepted \<longrightarrow> i \<notin> set (tb_runnerAcceptRejects c)"
      using a s(1) by blast
  qed
qed

lemma quiet_inv: "quiet b c \<Longrightarrow> broker_inv nanoid b \<Longrightarrow> broker_inv nanoid c"
  unfolding broker_inv_def using quiet_matching quiet_ids by blast

lemma quiet_emit [simp]: "quiet b (emit out b)"
  by (simp add: quiet_def emit_def)

lemma quiet_messages [simp]:
  "quiet b (messageRunner runnerId m b)" "quiet b (messageRequester requesterId m' b)"
  by (simp_all add: messageRunner_def messageRequester_def)

lemma quiet_emit_to: "quiet b c \<Longrightarrow> quiet b (emit out c)"
  using quiet_trans quiet_emit by blast

lemma quiet_messages_to: "quiet b c \<Longrightarrow> quiet b (messageRunner runnerId m c)"
  "quiet b c \<Longrightarrow> quiet b (messageRequester requesterId m' c)"
  using quiet_trans quiet_messages by blast+

lemmas quiet_out = quiet_emit_to quiet_messages_to

lemma quiet_drop_task: "quiet b (b\<lparr>tb_tasks := map_delete taskId (tb_tasks b)\<rparr>)"
  by (auto simp: quiet_def tasks_ok_def entries_map_delete distinct_map_delete)

section \<open>Quiet steps\<close>

lemma in_map_set: "(i, x) \<in> set (map_set k v m) \<Longrightarrow> i = k \<and> x = v \<or> (i, x) \<in> set m"
  by (induction m) (auto split: if_splits)

lemma quiet_update_task:
  assumes "map_of (tb_tasks b) taskId = Some t"
  shows "quiet b (b\<lparr>tb_tasks := map_set taskId (t\<lparr>task_timeout := w\<rparr>) (tb_tasks b)\<rparr>)"
proof -
  from assms have "(taskId, t) \<in> set (tb_tasks b)" by (rule map_of_SomeD)
  then show ?thesis
    unfolding quiet_def tasks_ok_def by (auto simp: distinct_update dest!: in_map_set intro: rev_image_eqI)
qed

lemma quiet_cancelTask: "quiet b (cancelTask taskId reason b)"
  unfolding cancelTask_def by (auto split: option.splits intro: quiet_out quiet_drop_task)

lemma quiet_failTask: "quiet b (failTask taskId err b)"
  unfolding failTask_def by (auto split: option.splits intro: quiet_out quiet_drop_task)

lemma quiet_getRunner: "quiet b (snd (getRunnerOrFailTask taskId b))"
  unfolding getRunnerOrFailTask_def by (auto split: option.splits intro: quiet_failTask)

lemma getRunner_Inr: "getRunnerOrFailTask taskId b = (Inr r, c) \<Longrightarrow> c = b"
  unfolding getRunnerOrFailTask_def by (auto split: option.splits)

lemma quiet_to_runner_of: "quiet b (to_runner_of taskId m b)"
  using quiet_getRunner [of b taskId] getRunner_Inr [of taskId b]
  unfolding to_runner_of_def by (auto split: prod.splits sum.splits intro: quiet_out)

lemma quiet_sendTaskSettings: "quiet b (snd (sendTaskSettings taskId settings b))"
proof (cases "getRunnerOrFailTask taskId b")
  case (Pair res c)
  show ?thesis
  proof (cases res)
    case (Inl e)
    with Pair quiet_getRunner [of b taskId] show ?thesis unfolding sendTaskSettings_def by simp
  next
    case (Inr r)
    with Pair have c: "c = b" using getRunner_Inr by simp
    show ?thesis
    proof (cases "map_of (tb_tasks b) taskId")
      case None
      then show ?thesis unfolding sendTaskSettings_def by simp
    next
      case (Some t)
      let ?c = "b\<lparr>tb_tasks := map_set taskId (t\<lparr>task_timeout := Some (tb_next b)\<rparr>) (tb_tasks b)\<rparr>"
      have "quiet b (b\<lparr>tb_next := Suc (tb_next b), tb_tasks := tb_tasks ?c\<rparr>)"
        using quiet_update_task [OF Some, of "Some (tb_next b)"] by (simp add: quiet_def)
      with Some Pair Inr c show ?thesis unfolding sendTaskSettings_def Let_def
        by (auto intro!: quiet_out)
    qed
  qed
qed

lemma quiet_done: "quiet b (taskDoneHandler taskId data b)" "quiet b (taskErrorHandler taskId err b)"
proof -
  have ended: "quiet b (task_ended i c)" if "quiet b c" for i c
    unfolding task_ended_def by (rule quiet_trans [OF that quiet_drop_task])
  show "quiet b (taskDoneHandler taskId data b)" "quiet b (taskErrorHandler taskId err b)"
    unfolding taskDoneHandler_def taskErrorHandler_def by (auto split: option.splits intro!: ended quiet_out)
qed

lemma quiet_handleTaskTimeout: "quiet b (handleTaskTimeout cfg taskId b)"
  unfolding handleTaskTimeout_def
  by (auto split: option.splits intro: quiet_done quiet_trans [OF _ quiet_done(2)])

lemma quiet_passing:
  "quiet b (handleRpcRequest taskId callId nm params b)"
  "quiet b (handleDataRequest taskId requestId params b)"
  "quiet b (handleNodeTypesRequest taskId requestId params b)"
  "quiet b (handleRequesterRpcResponse taskId callId status params b)"
  "quiet b (handleRequesterDataResponse taskId requestId params b)"
  "quiet b (handleRequesterNodeTypesResponse taskId requestId params b)"
  unfolding handleRpcRequest_def handleDataRequest_def handleNodeTypesRequest_def handleRequesterRpcResponse_def
    handleRequesterDataResponse_def handleRequesterNodeTypesResponse_def
  by (auto split: option.splits intro: quiet_to_runner_of)

lemma quiet_requester_answer: "quiet b (requester_answer taskId out b)" "quiet b (settle_requester taskId out b)"
  by (auto simp: requester_answer_def settle_requester_def quiet_def)

lemma quiet_resume_settings: "quiet b (resume_settings taskId b)"
proof (cases "map_of (tb_settling b) taskId")
  case (Some oo)
  let ?b = "b\<lparr>tb_settling := map_delete taskId (tb_settling b)\<rparr>"
  have q: "quiet b ?b" by (simp add: quiet_def)
  have q': "quiet b c" if "quiet ?b c" for c using quiet_trans [OF q that] .
  have send: "quiet b c" if "sendTaskSettings taskId settings ?b = (res, c)" for settings res c
    using q' [OF quiet_sendTaskSettings [of ?b taskId settings]] that by simp
  have cancel: "quiet b (cancelTask taskId reason c)" if "quiet b c" for reason c
    using quiet_trans [OF that quiet_cancelTask] .
  show ?thesis using Some unfolding resume_settings_def Let_def
    by (auto split: option.splits settings_outcome.splits prod.splits
        intro: send intro!: cancel [OF q] cancel [OF send] quiet_emit_to q)
qed (simp add: resume_settings_def)

lemma quiet_registration:
  "quiet b (registerRunner runner b)" "quiet b (registerRequester requesterId b)"
  "quiet b (deregisterRequester requesterId b)" "quiet b (startDraining b)"
  unfolding registerRunner_def registerRequester_def deregisterRequester_def startDraining_def
  by ((rule quiet_out)?, simp add: quiet_def)+

section \<open>Steps on requests and acceptances\<close>

lemma matching_invD:
  assumes "matching_inv b"
  shows "distinct (tb_pendingTaskRequests b)"
    "r \<in> set (tb_pendingTaskRequests b) \<or> r \<in> accepted_requests b \<Longrightarrow> r < tb_next b"
    "distinct (map fst (acceptances b))" "distinct (map (snd \<circ> snd) (acceptances b))"
    "(i, offer, r) \<in> set (acceptances b) \<Longrightarrow> in_progress b r"
    "(i, offer, r) \<in> set (acceptances b) \<Longrightarrow> of_taskType offer = rq_taskType (tb_requests b r)"
    "r \<in> set (tb_pendingTaskRequests b) \<Longrightarrow> in_progress b r \<Longrightarrow> r \<in> accepted_requests b"
    "inj_on (\<lambda>r. rq_requestId (tb_requests b r)) (set (tb_pendingTaskRequests b) \<union> accepted_requests b)"
    "r \<in> accepted_requests b \<Longrightarrow> in_progress b r"
  using assms unfolding matching_inv_def accepted_requests_def by (blast, blast, blast, blast, blast, blast, blast, blast, fastforce)

lemma matching_invI:
  assumes "distinct (tb_pendingTaskRequests b)"
    "\<And>r. r \<in> set (tb_pendingTaskRequests b) \<union> accepted_requests b \<Longrightarrow> r < tb_next b"
    "distinct (map fst (acceptances b))" "distinct (map (snd \<circ> snd) (acceptances b))"
    "\<And>i offer r. (i, offer, r) \<in> set (acceptances b) \<Longrightarrow> in_progress b r \<and> of_taskType offer = rq_taskType (tb_requests b r)"
    "\<And>r. r \<in> set (tb_pendingTaskRequests b) \<Longrightarrow> in_progress b r \<Longrightarrow> r \<in> accepted_requests b"
    "inj_on (\<lambda>r. rq_requestId (tb_requests b r)) (set (tb_pendingTaskRequests b) \<union> accepted_requests b)"
  shows "matching_inv b"
  using assms unfolding matching_inv_def by blast

text \<open>Settling a promise changes the outcome only.\<close>

lemma map_map_set_same:
  "map_of m k = Some v \<Longrightarrow> f (k, w) = f (k, v) \<Longrightarrow> map f (map_set k w m) = map f m"
  by (induction m) auto

lemma settle_runner_matching:
  assumes "matching_inv b"
  shows "matching_inv (settle_runner taskId out b)"
proof -
  have v: "acceptances (settle_runner taskId out b) = acceptances b"
    unfolding settle_runner_def acceptances_def by (auto split: option.splits intro: map_map_set_same)
  have f: "tb_pendingTaskRequests (settle_runner taskId out b) = tb_pendingTaskRequests b"
    "tb_requests (settle_runner taskId out b) = tb_requests b" "tb_next (settle_runner taskId out b) = tb_next b"
    unfolding settle_runner_def by (auto split: option.splits)
  show ?thesis using assms unfolding matching_inv_def accepted_requests_def v f .
qed

lemma ids_invD:
  assumes "ids_inv nanoid b"
  shows "fst ` set (tb_accepting b) \<union> fst ` set (tb_tasks b) \<union> set (tb_runnerAcceptRejects b) \<subseteq> nanoid ` {n. n < tb_next b}"
    "tasks_ok (tb_tasks b)" "fst ` set (tb_tasks b) \<inter> fst ` set (tb_accepting b) = {}"
    "fst ` set (tb_tasks b) \<inter> set (tb_runnerAcceptRejects b) = {}"
    "(i, a) \<in> set (tb_accepting b) \<Longrightarrow> ac_outcome a = Some RunnerAccepted \<Longrightarrow> i \<notin> set (tb_runnerAcceptRejects b)"
  using assms unfolding ids_inv_def by blast+

lemma settle_runner_fields:
  "tb_tasks (settle_runner taskId out b) = tb_tasks b"
  "tb_runnerAcceptRejects (settle_runner taskId out b) = tb_runnerAcceptRejects b"
  "tb_next (settle_runner taskId out b) = tb_next b"
  "fst ` set (tb_accepting (settle_runner taskId out b)) = fst ` set (tb_accepting b)"
  "(i, a) \<in> set (tb_accepting (settle_runner taskId out b)) \<Longrightarrow> i = taskId \<and> ac_outcome a = Some out \<or> (i, a) \<in> set (tb_accepting b)"
  unfolding settle_runner_def
  by (auto split: option.splits if_splits dest: in_map_set map_of_SomeD simp: dom_update image_iff intro: rev_image_eqI)

lemma ids_invI:
  assumes "fst ` set (tb_accepting b) \<union> fst ` set (tb_tasks b) \<union> set (tb_runnerAcceptRejects b) \<subseteq> nanoid ` {n. n < tb_next b}"
    "tasks_ok (tb_tasks b)" "fst ` set (tb_tasks b) \<inter> fst ` set (tb_accepting b) = {}"
    "fst ` set (tb_tasks b) \<inter> set (tb_runnerAcceptRejects b) = {}"
    "\<And>i a. (i, a) \<in> set (tb_accepting b) \<Longrightarrow> ac_outcome a = Some RunnerAccepted \<Longrightarrow> i \<notin> set (tb_runnerAcceptRejects b)"
  shows "ids_inv nanoid b"
  using assms unfolding ids_inv_def by blast

lemma settle_runner_inv:
  assumes i: "broker_inv nanoid b" and out: "out \<noteq> RunnerAccepted"
  shows "broker_inv nanoid (settle_runner taskId out b)"
proof -
  from i have m: "matching_inv b" and d: "ids_inv nanoid b" by (simp_all add: broker_inv_def)
  note d = ids_invD [OF d]
  have "ids_inv nanoid (settle_runner taskId out b)"
  proof (rule ids_invI)
    show "i \<notin> set (tb_runnerAcceptRejects (settle_runner taskId out b))"
      if "(i, a) \<in> set (tb_accepting (settle_runner taskId out b))" "ac_outcome a = Some RunnerAccepted" for i a
      using settle_runner_fields(5) [OF that(1)] that(2) out d(5) unfolding settle_runner_fields(2) by auto
  qed (use d(1-4) in \<open>simp_all add: settle_runner_fields(1-4)\<close>)
  with settle_runner_matching [OF m] show ?thesis by (simp add: broker_inv_def)
qed

lemma runner_answer_inv:
  assumes i: "broker_inv nanoid b"
  shows "broker_inv nanoid (runner_answer taskId out b)"
proof (cases "taskId \<in> set (tb_runnerAcceptRejects b)")
  case False
  with i show ?thesis by (simp add: runner_answer_def)
next
  case True
  let ?c = "settle_runner taskId out b"
  let ?d = "?c\<lparr>tb_runnerAcceptRejects := set_remove taskId (tb_runnerAcceptRejects ?c)\<rparr>"
  from i have m: "matching_inv b" and d: "ids_inv nanoid b" by (simp_all add: broker_inv_def)
  note d = ids_invD [OF d]
  have e: "runner_answer taskId out b = ?d" using True by (simp add: runner_answer_def settle_runner_fields(2))
  have "matching_inv ?d" using settle_runner_matching [OF m, of taskId out]
    by (simp add: matching_inv_def accepted_requests_def acceptances_def)
  moreover have "ids_inv nanoid ?d"
  proof (rule ids_invI)
    show "fst ` set (tb_accepting ?d) \<union> fst ` set (tb_tasks ?d) \<union> set (tb_runnerAcceptRejects ?d) \<subseteq> nanoid ` {n. n < tb_next ?d}"
      using d(1) by (simp add: settle_runner_fields(1-4)) blast
    show "tasks_ok (tb_tasks ?d)" using d(2) by (simp add: settle_runner_fields)
    show "fst ` set (tb_tasks ?d) \<inter> fst ` set (tb_accepting ?d) = {}"
      using d(3) by (simp add: settle_runner_fields(1-4))
    show "fst ` set (tb_tasks ?d) \<inter> set (tb_runnerAcceptRejects ?d) = {}"
      using d(4) by (simp add: settle_runner_fields(1-4)) blast
    show "i \<notin> set (tb_runnerAcceptRejects ?d)"
      if "(i, a) \<in> set (tb_accepting ?d)" "ac_outcome a = Some RunnerAccepted" for i a
      using that settle_runner_fields(5) [of i a taskId out b] d(5) by (auto simp: settle_runner_fields(2))
  qed
  ultimately show ?thesis unfolding e by (simp add: broker_inv_def)
qed

lemma request_timeout_inv:
  assumes i: "broker_inv nanoid b"
  shows "broker_inv nanoid (handleRequestTimeout requestId b)"
proof (cases "find_request requestId b")
  case None
  with i show ?thesis by (simp add: handleRequestTimeout_def)
next
  case (Some r)
  let ?c = "drop_request r b"
  from i have m: "matching_inv b" by (simp add: broker_inv_def)
  have v: "acceptances ?c = acceptances b" "accepted_requests ?c = accepted_requests b" "tb_requests ?c = tb_requests b"
    "tb_next ?c = tb_next b" and sub: "set (tb_pendingTaskRequests ?c) \<subseteq> set (tb_pendingTaskRequests b)"
    by (simp_all add: acceptances_def accepted_requests_def drop_request_def set_remove1_subset)
  note f = matching_invD [OF m]
  have "matching_inv ?c"
  proof (rule matching_invI, unfold v, goal_cases)
    case 1
    then show ?case using f(1) by (simp add: drop_request_def)
  next
    case 7
    then show ?case by (rule inj_on_subset [OF f(8)]) (use sub in blast)
  qed (use f sub in blast)+
  moreover from i have "ids_inv nanoid ?c" by (simp add: broker_inv_def ids_inv_def drop_request_def)
  ultimately have c: "broker_inv nanoid ?c" by (simp add: broker_inv_def)
  have "quiet ?c (?c\<lparr>tb_mismatchWarned := set_remove requestId (tb_mismatchWarned b)\<rparr>)"
    by (simp add: quiet_def)
  then have "quiet ?c (handleRequestTimeout requestId b)"
    using Some unfolding handleRequestTimeout_def Let_def by (auto intro!: quiet_out)
  with c show ?thesis by (rule quiet_inv [rotated])
qed

text \<open>Starting an acceptance for a pending request that has none.\<close>

lemma start_acceptance_inv:
  assumes i: "broker_inv nanoid b" and nano: "inj nanoid"
    and r: "r \<in> set (tb_pendingTaskRequests b)" "\<not> in_progress b r"
    and ty: "of_taskType offer = rq_taskType (tb_requests b r)"
  shows "broker_inv nanoid (acceptOffer nanoid offer r (set_progress r True b))"
proof -
  let ?id = "nanoid (tb_next b)"
  let ?c = "(set_progress r True b)\<lparr>tb_next := Suc (tb_next b),
    tb_runnerAcceptRejects := set_add ?id (tb_runnerAcceptRejects b),
    tb_accepting := map_set ?id \<lparr>ac_offer = offer, ac_request = r, ac_outcome = None\<rparr> (tb_accepting b)\<rparr>"
  from i have m: "matching_inv b" and d: "ids_inv nanoid b" by (simp_all add: broker_inv_def)
  note f = matching_invD [OF m] and g = ids_invD [OF d]
  have "?id \<notin> nanoid ` {n. n < tb_next b}" using nano by (auto dest: injD)
  then have new: "?id \<notin> fst ` set (tb_accepting b)" "?id \<notin> fst ` set (tb_tasks b)" using g(1) by blast+
  have acc: "tb_accepting ?c = tb_accepting b @ [(?id, \<lparr>ac_offer = offer, ac_request = r, ac_outcome = None\<rparr>)]"
    using new(1) by (simp add: update_fresh)
  have v: "acceptances ?c = acceptances b @ [(?id, offer, r)]" "tb_pendingTaskRequests ?c = tb_pendingTaskRequests b"
    "tb_next ?c = Suc (tb_next b)"
    unfolding acceptances_def acc by (simp_all add: set_progress_def)
  have a: "accepted_requests ?c = insert r (accepted_requests b)" unfolding accepted_requests_def v by auto
  have q: "rq_requestId (tb_requests ?c r') = rq_requestId (tb_requests b r')"
    "rq_taskType (tb_requests ?c r') = rq_taskType (tb_requests b r')"
    "in_progress ?c r' \<longleftrightarrow> r' = r \<or> in_progress b r'" for r' by (auto simp: set_progress_def)
  have fresh: "r \<notin> accepted_requests b" using f(9) r(2) by blast
  have "matching_inv ?c"
  proof (rule matching_invI, unfold v a q, goal_cases)
    case 1
    then show ?case by (rule f(1))
  next
    case (2 r')
    with r(1) have "r' \<in> set (tb_pendingTaskRequests b) \<or> r' \<in> accepted_requests b" by blast
    from f(2) [OF this] show ?case by (rule less_SucI)
  next
    case 3
    have "fst ` set (acceptances b) = fst ` set (tb_accepting b)" unfolding acceptances_def by force
    then show ?case using f(3) new(1) by auto
  next
    case 4
    then show ?case using f(4) fresh unfolding accepted_requests_def by auto
  next
    case (5 j offer' r')
    then show ?case using f(5,6) ty by auto
  next
    case (6 r')
    then show ?case using f(7) by blast
  next
    case 7
    have "set (tb_pendingTaskRequests b) \<union> insert r (accepted_requests b) = set (tb_pendingTaskRequests b) \<union> accepted_requests b"
      using r(1) by blast
    then show ?case using f(8) by simp
  qed
  moreover have "ids_inv nanoid ?c"
  proof (rule ids_invI)
    have "nanoid ` {n. n < Suc (tb_next b)} = insert ?id (nanoid ` {n. n < tb_next b})" by (auto simp: less_Suc_eq)
    then show "fst ` set (tb_accepting ?c) \<union> fst ` set (tb_tasks ?c) \<union> set (tb_runnerAcceptRejects ?c) \<subseteq> nanoid ` {n. n < tb_next ?c}"
      unfolding acc v using g(1) by (auto simp: set_progress_def)
    show "tasks_ok (tb_tasks ?c)" using g(2) by (simp add: set_progress_def)
    show "fst ` set (tb_tasks ?c) \<inter> fst ` set (tb_accepting ?c) = {}"
      unfolding acc using g(3) new(2) by (simp add: set_progress_def)
    show "fst ` set (tb_tasks ?c) \<inter> set (tb_runnerAcceptRejects ?c) = {}"
      using g(4) new(2) by (simp add: set_progress_def)
    show "j \<notin> set (tb_runnerAcceptRejects ?c)" if "(j, x) \<in> set (tb_accepting ?c)" "ac_outcome x = Some RunnerAccepted" for j x
    proof -
      from that have j: "(j, x) \<in> set (tb_accepting b)" unfolding acc by auto
      then have "j \<noteq> ?id" using new(1) by force
      with g(5) [OF j that(2)] show ?thesis by simp
    qed
  qed
  ultimately have "broker_inv nanoid ?c" by (simp add: broker_inv_def)
  moreover have "quiet ?c (acceptOffer nanoid offer r (set_progress r True b))"
    unfolding acceptOffer_def Let_def by (intro quiet_out) (simp add: set_progress_def)
  ultimately show ?thesis by (rule quiet_inv [rotated])
qed

text \<open>One request of the matching loop.\<close>

definition without_offer :: "task_offer \<Rightarrow> nat \<Rightarrow> broker \<Rightarrow> broker" where
  "without_offer offer r b = b\<lparr>tb_pendingTaskOffers := remove1 offer (tb_pendingTaskOffers b),
     tb_mismatchWarned := set_remove (rq_requestId (tb_requests b r)) (tb_mismatchWarned b)\<rparr>"

lemma settle_request_cases:
  obtains (busy) "in_progress b r" "settle_request nanoid r b = b"
  | (unmatched) "\<not> in_progress b r" "offer_for r b = None" "settle_request nanoid r b = warnOnTaskTypeMismatch r b"
  | (matched) offer where "\<not> in_progress b r" "offer_for r b = Some offer"
      "settle_request nanoid r b = acceptOffer nanoid offer r (set_progress r True (without_offer offer r b))"
proof (cases "in_progress b r")
  case True
  with busy show thesis by (simp add: settle_request_def)
next
  case False
  have "(set_progress r True b)\<lparr>tb_pendingTaskOffers := remove1 offer (tb_pendingTaskOffers (set_progress r True b)),
      tb_mismatchWarned := set_remove (rq_requestId (tb_requests (set_progress r True b) r)) (tb_mismatchWarned (set_progress r True b))\<rparr>
    = set_progress r True (without_offer offer r b)" for offer
    by (simp add: set_progress_def without_offer_def)
  with False unmatched matched show thesis
    by (cases "offer_for r b") (auto simp: settle_request_def Let_def)
qed

lemma offer_for_type: "offer_for r b = Some offer \<Longrightarrow> of_taskType offer = rq_taskType (tb_requests b r) \<and> offer \<in> set (tb_pendingTaskOffers b)"
  by (auto simp: offer_for_def find_Some_iff)

lemma offer_for_None: "offer_for r b = None \<longleftrightarrow> (\<forall>offer \<in> set (tb_pendingTaskOffers b). of_taskType offer \<noteq> rq_taskType (tb_requests b r))"
  by (auto simp: offer_for_def find_None_iff)

lemma accept_fields:
  "tb_pendingTaskRequests (acceptOffer nanoid offer r b) = tb_pendingTaskRequests b"
  "tb_requests (acceptOffer nanoid offer r b) = tb_requests b"
  "tb_pendingTaskOffers (acceptOffer nanoid offer r b) = tb_pendingTaskOffers b"
  "tb_accepting (acceptOffer nanoid offer r b)
     = map_set (nanoid (tb_next b)) \<lparr>ac_offer = offer, ac_request = r, ac_outcome = None\<rparr> (tb_accepting b)"
  by (simp_all add: acceptOffer_def messageRunner_def emit_def Let_def)

lemma settle_request_frame:
  "tb_pendingTaskRequests (settle_request nanoid r b) = tb_pendingTaskRequests b
   \<and> rq_taskType (tb_requests (settle_request nanoid r b) r') = rq_taskType (tb_requests b r')
   \<and> (in_progress b r' \<longrightarrow> in_progress (settle_request nanoid r b) r')
   \<and> set (tb_pendingTaskOffers (settle_request nanoid r b)) \<subseteq> set (tb_pendingTaskOffers b)"
proof (cases rule: settle_request_cases [where b = b and r = r and nanoid = nanoid])
  case busy
  then show ?thesis by simp
next
  case unmatched
  show ?thesis unfolding unmatched(3) by (simp add: warnOnTaskTypeMismatch_def Let_def)
next
  case (matched offer)
  show ?thesis unfolding matched(3) accept_fields
    by (simp add: set_progress_def without_offer_def set_remove1_subset)
qed

lemmas settle_request_frames = settle_request_frame [THEN conjunct1] settle_request_frame [THEN conjunct2, THEN conjunct1]
  settle_request_frame [THEN conjunct2, THEN conjunct2, THEN conjunct1, rule_format]
  settle_request_frame [THEN conjunct2, THEN conjunct2, THEN conjunct2]

lemma settle_request_inv:
  assumes i: "broker_inv nanoid b" and nano: "inj nanoid" and r: "r \<in> set (tb_pendingTaskRequests b)"
  shows "broker_inv nanoid (settle_request nanoid r b)"
proof (cases rule: settle_request_cases [where b = b and r = r and nanoid = nanoid])
  case busy
  with i show ?thesis by simp
next
  case unmatched
  have "quiet b (warnOnTaskTypeMismatch r b)" by (simp add: warnOnTaskTypeMismatch_def quiet_def Let_def)
  with i show ?thesis unfolding unmatched by (rule quiet_inv [rotated])
next
  case (matched offer)
  let ?b = "without_offer offer r b"
  have "quiet b ?b" by (simp add: quiet_def without_offer_def)
  then have "broker_inv nanoid ?b" using i by (rule quiet_inv)
  then show ?thesis unfolding matched(3)
    by (rule start_acceptance_inv) (use nano r matched(1) offer_for_type [OF matched(2)] in \<open>auto simp: without_offer_def\<close>)
qed

lemma settle_loop:
  assumes "broker_inv nanoid b" and "inj nanoid" and "set rs \<subseteq> set (tb_pendingTaskRequests b)"
  shows "broker_inv nanoid (fold (settle_request nanoid) rs b)
    \<and> tb_pendingTaskRequests (fold (settle_request nanoid) rs b) = tb_pendingTaskRequests b"
  using assms
proof (induction rs arbitrary: b)
  case Nil
  then show ?case by simp
next
  case (Cons r rs)
  then have "broker_inv nanoid (settle_request nanoid r b)" by (intro settle_request_inv) auto
  with Cons settle_request_frames(1) [of nanoid r b] show ?case by simp
qed

lemma settleTasks_inv:
  assumes "broker_inv nanoid b" and "inj nanoid"
  shows "broker_inv nanoid (settleTasks nanoid now b)"
proof -
  have "quiet b (expireTasks now b)" by (simp add: quiet_def expireTasks_def)
  then have "broker_inv nanoid (expireTasks now b)" using assms(1) by (rule quiet_inv)
  from settle_loop [OF this assms(2)] show ?thesis by (simp add: settleTasks_def Let_def)
qed

lemma taskOffered_inv:
  assumes "broker_inv nanoid b" and "inj nanoid"
  shows "broker_inv nanoid (taskOffered nanoid now offer b)"
proof -
  have "quiet b (b\<lparr>tb_pendingTaskOffers := tb_pendingTaskOffers b @ [offer]\<rparr>)" by (simp add: quiet_def)
  then have "broker_inv nanoid (b\<lparr>tb_pendingTaskOffers := tb_pendingTaskOffers b @ [offer]\<rparr>)" using assms(1) by (rule quiet_inv)
  from settleTasks_inv [OF this assms(2)] show ?thesis by (simp add: taskOffered_def)
qed

lemma taskRequested_inv:
  assumes i: "broker_inv nanoid b" and nano: "inj nanoid"
    and new: "\<forall>r. rq_requestId (tb_requests b r) \<noteq> rq_requestId request" and idle: "\<not> rq_acceptInProgress request"
  shows "broker_inv nanoid (taskRequested nanoid now request b)"
proof (cases "tb_isDraining b")
  case True
  have "quiet b (taskRequested nanoid now request b)"
    using True by (simp add: taskRequested_def quiet_out)
  then show ?thesis using i by (rule quiet_inv)
next
  case False
  let ?r = "tb_next b"
  let ?c = "b\<lparr>tb_next := Suc ?r, tb_requests := (tb_requests b)(?r := request),
    tb_pendingTaskRequests := tb_pendingTaskRequests b @ [?r]\<rparr>"
  from i have m: "matching_inv b" and d: "ids_inv nanoid b" by (simp_all add: broker_inv_def)
  note f = matching_invD [OF m] and g = ids_invD [OF d]
  have v: "acceptances ?c = acceptances b" "accepted_requests ?c = accepted_requests b"
    by (simp_all add: acceptances_def accepted_requests_def)
  have old: "r \<noteq> ?r" if "r \<in> set (tb_pendingTaskRequests b) \<or> r \<in> accepted_requests b" for r
    using f(2) [OF that] by simp
  have "matching_inv ?c"
  proof (rule matching_invI, unfold v, goal_cases)
    case 1
    then show ?case using f(1) old by auto
  next
    case (2 r)
    then have "r = ?r \<or> r \<in> set (tb_pendingTaskRequests b) \<or> r \<in> accepted_requests b" by auto
    then show ?case using f(2) [of r] by auto
  next
    case 3
    then show ?case by (rule f(3))
  next
    case 4
    then show ?case by (rule f(4))
  next
    case (5 j offer r)
    then have "r \<in> accepted_requests b" unfolding accepted_requests_def by force
    with old have "r \<noteq> ?r" by blast
    with f(5,6) [OF 5] show ?case by simp
  next
    case (6 r)
    then show ?case using f(7) [of r] idle by (auto split: if_splits)
  next
    case 7
    have eq: "set (tb_pendingTaskRequests ?c) \<union> accepted_requests b
        = insert ?r (set (tb_pendingTaskRequests b) \<union> accepted_requests b)" by auto
    have "inj_on (\<lambda>r. rq_requestId (tb_requests ?c r)) (set (tb_pendingTaskRequests b) \<union> accepted_requests b)"
      using f(8) by (rule inj_on_cong [THEN iffD1, rotated]) (use old in auto)
    then show ?case unfolding eq inj_on_insert using new old by (auto simp: image_iff)
  qed
  moreover have "ids_inv nanoid ?c" using d by (auto simp: ids_inv_def intro: less_SucI)
  ultimately have "broker_inv nanoid ?c" by (simp add: broker_inv_def)
  from settleTasks_inv [OF this nano] False show ?thesis by (simp add: taskRequested_def Let_def)
qed

text \<open>Ending an acceptance: the request is open again, or a task has been made of it.\<close>

lemma acceptances_delete:
  "acceptances (b\<lparr>tb_accepting := map_delete taskId (tb_accepting b)\<rparr>) = filter (\<lambda>(i, _). i \<noteq> taskId) (acceptances b)"
  by (simp add: acceptances_def AList.delete_eq filter_map comp_def case_prod_unfold eq_commute)

lemma accept_failed_quiet:
  "\<exists>t. quiet (b\<lparr>tb_requests := (tb_requests b)(r := (tb_requests b r)\<lparr>rq_acceptInProgress := False, rq_timeout := t\<rparr>)\<rparr>)
       (accept_failed out r b)"
proof (cases "out = RunnerDeferred")
  case True
  then show ?thesis
    by (intro exI [of _ "Some (tb_next b)"])
      (simp add: accept_failed_def set_progress_def emit_def createRequestTimeout_def Let_def quiet_def)
next
  case False
  then show ?thesis
    by (intro exI [of _ "rq_timeout (tb_requests b r)"]) (simp add: accept_failed_def set_progress_def)
qed

lemma reopened_inv:
  assumes i: "broker_inv nanoid b" and a: "map_of (tb_accepting b) taskId = Some a"
  shows "broker_inv nanoid (b\<lparr>tb_accepting := map_delete taskId (tb_accepting b),
    tb_requests := (tb_requests b)(ac_request a := (tb_requests b (ac_request a))\<lparr>rq_acceptInProgress := False, rq_timeout := t\<rparr>)\<rparr>)"
    (is "broker_inv nanoid ?c")
proof -
  let ?r = "ac_request a"
  from i have m: "matching_inv b" and d: "ids_inv nanoid b" by (simp_all add: broker_inv_def)
  note f = matching_invD [OF m] and g = ids_invD [OF d]
  have mine: "(taskId, ac_offer a, ?r) \<in> set (acceptances b)"
    using map_of_SomeD [OF a] by (force simp: acceptances_def)
  have v: "acceptances ?c = filter (\<lambda>(i, _). i \<noteq> taskId) (acceptances b)"
    using acceptances_delete [where b = b and taskId = taskId] by (simp add: acceptances_def)
  have others: "r \<noteq> ?r \<and> (i, offer, r) \<in> set (acceptances b)" if "(i, offer, r) \<in> set (acceptances ?c)" for i offer r
  proof -
    from that have o: "(i, offer, r) \<in> set (acceptances b)" "i \<noteq> taskId" unfolding v by auto
    with f(4) mine have "r \<noteq> ?r" unfolding distinct_map inj_on_def by fastforce
    with o(1) show ?thesis by blast
  qed
  have kept: "r \<in> accepted_requests ?c" if "r \<in> accepted_requests b" "r \<noteq> ?r" for r
  proof -
    from that(1) obtain i offer where o: "(i, offer, r) \<in> set (acceptances b)" unfolding accepted_requests_def by force
    with f(3) mine that(2) have "i \<noteq> taskId" unfolding distinct_map inj_on_def by fastforce
    with o show ?thesis unfolding accepted_requests_def v by force
  qed
  have sub: "accepted_requests ?c \<subseteq> accepted_requests b" unfolding accepted_requests_def v by force
  have id: "rq_requestId (tb_requests ?c r) = rq_requestId (tb_requests b r)" for r by simp
  have "matching_inv ?c"
  proof (rule matching_invI, goal_cases)
    case 1
    then show ?case using f(1) by simp
  next
    case (2 r)
    then have "r \<in> set (tb_pendingTaskRequests b) \<or> r \<in> accepted_requests b" using sub by auto
    from f(2) [OF this] show ?case by simp
  next
    case 3
    then show ?case unfolding v by (rule distinct_map_filter [OF f(3)])
  next
    case 4
    then show ?case unfolding v by (rule distinct_map_filter [OF f(4)])
  next
    case (5 j offer r)
    with others [OF 5] f(5,6) [of j offer r] show ?case by simp
  next
    case (6 r)
    then show ?case using f(7) [of r] kept by (auto split: if_splits)
  next
    case 7
    then show ?case unfolding id by (rule inj_on_subset [OF f(8)]) (use sub in auto)
  qed
  moreover have "ids_inv nanoid ?c"
    by (rule ids_invI) (use g in \<open>auto simp: entries_map_delete\<close>)
  ultimately show ?thesis by (simp add: broker_inv_def)
qed

lemma find_request_pending:
  assumes m: "matching_inv b" and r: "r \<in> accepted_requests b"
  shows "find_request (rq_requestId (tb_requests b r)) b = (if r \<in> set (tb_pendingTaskRequests b) then Some r else None)"
proof -
  have uniq: "r' = r" if "r' \<in> set (tb_pendingTaskRequests b)" "rq_requestId (tb_requests b r') = rq_requestId (tb_requests b r)" for r'
    using inj_onD [OF matching_invD(8) [OF m] that(2)] that(1) r by blast
  show ?thesis
  proof (cases "find_request (rq_requestId (tb_requests b r)) b")
    case None
    then show ?thesis by (auto simp: find_request_def find_None_iff)
  next
    case (Some r')
    then have "r' \<in> set (tb_pendingTaskRequests b)" "rq_requestId (tb_requests b r') = rq_requestId (tb_requests b r)"
      by (auto simp: find_request_def find_Some_iff)
    with uniq Some show ?thesis by auto
  qed
qed

lemma accepted_inv:
  assumes i: "broker_inv nanoid b" and a: "map_of (tb_accepting b) taskId = Some a"
    and yes: "ac_outcome a = Some RunnerAccepted" and t: "task_id t = taskId"
  shows "broker_inv nanoid (b\<lparr>tb_accepting := map_delete taskId (tb_accepting b),
    tb_tasks := map_set taskId t (tb_tasks b),
    tb_pendingTaskRequests := remove1 (ac_request a) (tb_pendingTaskRequests b)\<rparr>)" (is "broker_inv nanoid ?c")
proof -
  let ?r = "ac_request a"
  from i have m: "matching_inv b" and d: "ids_inv nanoid b" by (simp_all add: broker_inv_def)
  note f = matching_invD [OF m] and g = ids_invD [OF d]
  have mine: "(taskId, ac_offer a, ?r) \<in> set (acceptances b)"
    using map_of_SomeD [OF a] by (force simp: acceptances_def)
  have v: "acceptances ?c = filter (\<lambda>(i, _). i \<noteq> taskId) (acceptances b)"
    using acceptances_delete [where b = b and taskId = taskId] by (simp add: acceptances_def)
  have kept: "r \<in> accepted_requests ?c" if "r \<in> accepted_requests b" "r \<noteq> ?r" for r
  proof -
    from that(1) obtain i offer where o: "(i, offer, r) \<in> set (acceptances b)" unfolding accepted_requests_def by force
    with f(3) mine that(2) have "i \<noteq> taskId" unfolding distinct_map inj_on_def by fastforce
    with o show ?thesis unfolding accepted_requests_def v by force
  qed
  have sub: "accepted_requests ?c \<subseteq> accepted_requests b" unfolding accepted_requests_def v by force
  have pend: "set (tb_pendingTaskRequests ?c) = set (tb_pendingTaskRequests b) - {?r}" using f(1) by simp
  have "matching_inv ?c"
  proof (rule matching_invI, goal_cases)
    case 1
    then show ?case using f(1) by simp
  next
    case (2 r)
    then have "r \<in> set (tb_pendingTaskRequests b) \<or> r \<in> accepted_requests b" using sub pend by auto
    from f(2) [OF this] show ?case by simp
  next
    case 3
    then show ?case unfolding v by (rule distinct_map_filter [OF f(3)])
  next
    case 4
    then show ?case unfolding v by (rule distinct_map_filter [OF f(4)])
  next
    case (5 j offer r)
    then have "(j, offer, r) \<in> set (acceptances b)" unfolding v by auto
    with f(5,6) [of j offer r] show ?case by simp
  next
    case (6 r)
    then have "r \<in> set (tb_pendingTaskRequests b)" "r \<noteq> ?r" "in_progress b r" using pend by auto
    with f(7) kept show ?case by blast
  next
    case 7
    have "inj_on (\<lambda>r. rq_requestId (tb_requests b r)) (set (tb_pendingTaskRequests ?c) \<union> accepted_requests ?c)"
      by (rule inj_on_subset [OF f(8)]) (use sub pend in blast)
    then show ?case by simp
  qed
  moreover have "ids_inv nanoid ?c"
  proof (rule ids_invI)
    have mine': "(taskId, a) \<in> set (tb_accepting b)" using a by (rule map_of_SomeD)
    then have k: "taskId \<in> fst ` set (tb_accepting b)" by force
    have ts: "fst ` set (tb_tasks ?c) = insert taskId (fst ` set (tb_tasks b))" by (simp add: dom_update)
    have as: "fst ` set (tb_accepting ?c) \<subseteq> fst ` set (tb_accepting b)" by (auto simp: entries_map_delete)
    have rs: "tb_runnerAcceptRejects ?c = tb_runnerAcceptRejects b" "tb_next ?c = tb_next b" by simp_all
    show "fst ` set (tb_accepting ?c) \<union> fst ` set (tb_tasks ?c) \<union> set (tb_runnerAcceptRejects ?c) \<subseteq> nanoid ` {n. n < tb_next ?c}"
      unfolding ts rs using g(1) k as by blast
    show "tasks_ok (tb_tasks ?c)" using g(2) t by (auto simp: tasks_ok_def distinct_update dest!: in_map_set)
    show "fst ` set (tb_tasks ?c) \<inter> fst ` set (tb_accepting ?c) = {}"
      using g(3) by (auto simp: dom_update entries_map_delete)
    show "fst ` set (tb_tasks ?c) \<inter> set (tb_runnerAcceptRejects ?c) = {}"
      using g(4) g(5) [OF mine' yes] by (auto simp: dom_update)
    show "j \<notin> set (tb_runnerAcceptRejects ?c)" if "(j, x) \<in> set (tb_accepting ?c)" "ac_outcome x = Some RunnerAccepted" for j x
      using that g(5) by (auto simp: entries_map_delete)
  qed
  ultimately show ?thesis by (simp add: broker_inv_def)
qed

lemma accept_succeeded_quiet:
  assumes found: "find_request (rq_requestId (tb_requests b r)) b = (if r \<in> set (tb_pendingTaskRequests b) then Some r else None)"
  shows "quiet (b\<lparr>tb_tasks := map_set taskId \<lparr>task_id = taskId, task_runnerId = of_runnerId offer,
        task_requesterId = rq_requesterId (tb_requests b r), task_taskType = of_taskType offer, task_timeout = None\<rparr> (tb_tasks b),
      tb_pendingTaskRequests := remove1 r (tb_pendingTaskRequests b)\<rparr>) (accept_succeeded taskId offer r b)"
    (is "quiet ?c _")
proof -
  define t where "t = \<lparr>task_id = taskId, task_runnerId = of_runnerId offer,
    task_requesterId = rq_requesterId (tb_requests b r), task_taskType = of_taskType offer, task_timeout = None\<rparr>"
  define b1 where "b1 = (emit (ClearTimer (rq_timeout (tb_requests b r))) b)\<lparr>tb_tasks := map_set taskId t (tb_tasks b)\<rparr>"
  have same: "find_request j b1 = find_request j b" for j by (simp add: b1_def find_request_def emit_def)
  have e: "accept_succeeded taskId offer r b = (case find_request (rq_requestId (tb_requests b r)) b1 of
      None \<Rightarrow> b1
    | Some r' \<Rightarrow> messageRequester (rq_requesterId (tb_requests b r)) (TaskReady (rq_requestId (tb_requests b r)) taskId)
        (emit (StartSettingsTimer taskId) ((drop_request r' b1)\<lparr>
          tb_requesterAcceptRejects := set_add taskId (tb_requesterAcceptRejects b1),
          tb_settling := map_set taskId None (tb_settling b1)\<rparr>)))"
    unfolding accept_succeeded_def Let_def b1_def t_def by (simp add: emit_def drop_request_def cong: option.case_cong)
  show ?thesis
  proof (cases "r \<in> set (tb_pendingTaskRequests b)")
    case True
    have "quiet ?c ((drop_request r b1)\<lparr>tb_requesterAcceptRejects := set_add taskId (tb_requesterAcceptRejects b1),
        tb_settling := map_set taskId None (tb_settling b1)\<rparr>)"
      unfolding t_def [symmetric] by (simp add: quiet_def drop_request_def b1_def emit_def)
    then show ?thesis unfolding e same found using True by (simp add: quiet_out)
  next
    case False
    have "quiet ?c b1" unfolding t_def [symmetric] using False by (simp add: quiet_def b1_def emit_def remove1_idem)
    then show ?thesis unfolding e same found using False by simp
  qed
qed

lemma resume_accept_inv:
  assumes i: "broker_inv nanoid b"
  shows "broker_inv nanoid (resume_accept taskId b)"
proof (cases "map_of (tb_accepting b) taskId")
  case None
  with i show ?thesis by (simp add: resume_accept_def)
next
  case (Some a)
  let ?b = "b\<lparr>tb_accepting := map_delete taskId (tb_accepting b)\<rparr>"
  consider (pending) "ac_outcome a = None" | (accepted) "ac_outcome a = Some RunnerAccepted"
    | (failed) out where "ac_outcome a = Some out" "out \<noteq> RunnerAccepted" by (cases "ac_outcome a") auto
  then show ?thesis
  proof cases
    case pending
    with Some i show ?thesis by (simp add: resume_accept_def)
  next
    case (failed out)
    obtain w where "quiet (?b\<lparr>tb_requests := (tb_requests ?b)(ac_request a := (tb_requests ?b (ac_request a))\<lparr>rq_acceptInProgress := False, rq_timeout := w\<rparr>)\<rparr>)
        (accept_failed out (ac_request a) ?b)"
      using accept_failed_quiet by blast
    moreover have "broker_inv nanoid (?b\<lparr>tb_requests := (tb_requests ?b)(ac_request a := (tb_requests ?b (ac_request a))\<lparr>rq_acceptInProgress := False, rq_timeout := w\<rparr>)\<rparr>)"
      using reopened_inv [OF i Some, of w] by simp
    moreover have "resume_accept taskId b = accept_failed out (ac_request a) ?b"
      using Some failed by (simp add: resume_accept_def)
    ultimately show ?thesis by (simp only: quiet_inv)
  next
    case accepted
    from i have m: "matching_inv b" by (simp add: broker_inv_def)
    let ?r = "ac_request a"
    have r: "?r \<in> accepted_requests b" using map_of_SomeD [OF Some]
      by (force simp: accepted_requests_def acceptances_def)
    let ?t = "\<lparr>task_id = taskId, task_runnerId = of_runnerId (ac_offer a), task_requesterId = rq_requesterId (tb_requests b ?r),
      task_taskType = of_taskType (ac_offer a), task_timeout = None\<rparr>"
    let ?c = "b\<lparr>tb_accepting := map_delete taskId (tb_accepting b), tb_tasks := map_set taskId ?t (tb_tasks b),
      tb_pendingTaskRequests := remove1 ?r (tb_pendingTaskRequests b)\<rparr>"
    have c: "broker_inv nanoid ?c" by (rule accepted_inv [OF i Some accepted]) simp
    have e: "resume_accept taskId b = accept_succeeded taskId (ac_offer a) ?r ?b"
      using Some accepted by (simp add: resume_accept_def)
    have "find_request (rq_requestId (tb_requests ?b ?r)) ?b = (if ?r \<in> set (tb_pendingTaskRequests ?b) then Some ?r else None)"
      using find_request_pending [OF m r] by (simp add: find_request_def)
    from accept_succeeded_quiet [OF this, of taskId "ac_offer a"]
    have "quiet ?c (accept_succeeded taskId (ac_offer a) ?r ?b)" by simp
    then show ?thesis unfolding e using c by (rule quiet_inv)
  qed
qed

lemma deregisterRunner_inv:
  assumes "broker_inv nanoid b"
  shows "broker_inv nanoid (deregisterRunner runnerId err b)"
proof -
  have step: "broker_inv nanoid (runner_lost runnerId err t c)" if "broker_inv nanoid c" for t c
    using that runner_answer_inv quiet_inv [OF quiet_failTask that]
    by (simp add: runner_lost_def handleRunnerReject_def)
  have fold: "broker_inv nanoid (fold (runner_lost runnerId err) ts c)" if "broker_inv nanoid c" for ts c
    using that by (induction ts arbitrary: c) (auto intro: step)
  show ?thesis unfolding deregisterRunner_def Let_def
    by (rule fold, rule quiet_inv [OF _ assms]) (simp add: quiet_def)
qed

lemma broker_step_inv:
  assumes i: "broker_inv nanoid b" and nano: "inj nanoid" and "broker_step cfg nanoid b c"
  shows "broker_inv nanoid c"
  using assms(3)
proof cases
  case (runner_message now runnerId message)
  note quiets = quiet_inv [OF quiet_done(1) i] quiet_inv [OF quiet_done(2) i]
    quiet_inv [OF quiet_passing(1) i] quiet_inv [OF quiet_passing(2) i] quiet_inv [OF quiet_passing(3) i]
  show ?thesis unfolding runner_message
    by (cases message) (auto simp: i runner_answer_inv taskOffered_inv nano quiets handleRunnerAccept_def handleRunnerReject_def
        handleRunnerDeferred_def)
next
  case (requester_message message now requesterId)
  note quiets = quiet_inv [OF quiet_requester_answer(1) i] quiet_inv [OF quiet_cancelTask i]
    quiet_inv [OF quiet_passing(4) i] quiet_inv [OF quiet_passing(5) i] quiet_inv [OF quiet_passing(6) i]
  show ?thesis
  proof (cases message)
    case (TaskRequestMsg requestId taskType)
    let ?b = "snd (createRequestTimeout requestId b)"
    have q: "quiet b ?b" by (simp add: createRequestTimeout_def quiet_def emit_def)
    then have "broker_inv nanoid ?b" using i by (rule quiet_inv)
    moreover have "\<forall>r. rq_requestId (tb_requests ?b r) \<noteq> requestId"
      using requester_message(2) [OF TaskRequestMsg] by (simp add: createRequestTimeout_def emit_def)
    ultimately show ?thesis unfolding requester_message TaskRequestMsg
      by (auto simp: createRequestTimeout_def intro!: taskRequested_inv nano)
  qed (simp_all add: requester_message(1) quiets handleRequesterAccept_def)
qed (use i in \<open>auto intro: quiet_inv [OF _ i] quiet_registration deregisterRunner_inv request_timeout_inv
    resume_accept_inv quiet_resume_settings quiet_handleTaskTimeout quiet_requester_answer settle_runner_inv
    simp: accept_timer_fired_def settings_timer_fired_def\<close>)

interpretation brokers: invariant_system
  "\<lambda>b. new_broker cfg = Inr b" "broker_step cfg nanoid" "\<lambda>b. inj nanoid \<longrightarrow> broker_inv nanoid b"
  by unfold_locales (auto intro: new_broker_inv broker_step_inv)

section \<open>What the matching achieves\<close>

lemma settle_request_done:
  "in_progress (settle_request nanoid r b) r \<or> offer_for r (settle_request nanoid r b) = None"
proof (cases rule: settle_request_cases [where b = b and r = r and nanoid = nanoid])
  case busy
  then show ?thesis by simp
next
  case unmatched
  then show ?thesis by (simp add: warnOnTaskTypeMismatch_def offer_for_def Let_def)
next
  case (matched offer)
  then show ?thesis by (simp add: accept_fields set_progress_def)
qed

lemma settled_stays:
  assumes "in_progress b r \<or> offer_for r b = None"
  shows "in_progress (fold (settle_request nanoid) rs b) r \<or> offer_for r (fold (settle_request nanoid) rs b) = None"
  using assms
proof (induction rs arbitrary: b)
  case Nil
  then show ?case by simp
next
  case (Cons q rs)
  have "in_progress (settle_request nanoid q b) r \<or> offer_for r (settle_request nanoid q b) = None"
    using Cons.prems settle_request_frames(2) [of nanoid q b r] settle_request_frames(3) [of b r nanoid q]
      settle_request_frames(4) [of nanoid q b] unfolding offer_for_None by auto
  from Cons.IH [OF this] show ?case by simp
qed

lemma settle_loop_done:
  "r \<in> set rs \<Longrightarrow> in_progress (fold (settle_request nanoid) rs b) r \<or> offer_for r (fold (settle_request nanoid) rs b) = None"
proof (induction rs arbitrary: b)
  case Nil
  then show ?case by simp
next
  case (Cons q rs)
  show ?case
  proof (cases "r = q")
    case True
    from settled_stays [OF settle_request_done, of nanoid rs] show ?thesis unfolding True by simp
  next
    case False
    with Cons show ?thesis by simp
  qed
qed

text \<open>No offer is lost or used twice: it stays pending or is the offer of one acceptance.\<close>

definition offers_in_hand :: "broker \<Rightarrow> task_offer multiset" where
  "offers_in_hand b = mset (tb_pendingTaskOffers b) + mset (map (fst \<circ> snd) (acceptances b))"

lemma settle_request_offers:
  assumes i: "broker_inv nanoid b" and nano: "inj nanoid"
  shows "offers_in_hand (settle_request nanoid r b) = offers_in_hand b"
proof (cases rule: settle_request_cases [where b = b and r = r and nanoid = nanoid])
  case busy
  then show ?thesis by simp
next
  case unmatched
  then show ?thesis by (simp add: warnOnTaskTypeMismatch_def offers_in_hand_def acceptances_def Let_def)
next
  case (matched offer)
  from i have "fst ` set (tb_accepting b) \<subseteq> nanoid ` {n. n < tb_next b}"
    unfolding broker_inv_def ids_inv_def by blast
  moreover have "nanoid (tb_next b) \<notin> nanoid ` {n. n < tb_next b}" using nano by (auto dest: injD)
  ultimately have "nanoid (tb_next b) \<notin> fst ` set (tb_accepting b)" by blast
  with offer_for_type [OF matched(2)] show ?thesis
    unfolding matched(3) offers_in_hand_def acceptances_def accept_fields
    by (simp add: set_progress_def without_offer_def update_fresh)
qed

lemma settle_loop_offers:
  assumes "broker_inv nanoid b" and "inj nanoid" and "set rs \<subseteq> set (tb_pendingTaskRequests b)"
  shows "offers_in_hand (fold (settle_request nanoid) rs b) = offers_in_hand b"
  using assms
proof (induction rs arbitrary: b)
  case Nil
  then show ?case by simp
next
  case (Cons r rs)
  then have "broker_inv nanoid (settle_request nanoid r b)" by (intro settle_request_inv) auto
  with Cons settle_request_frames(1) [of nanoid r b] show ?case by (simp add: settle_request_offers)
qed

lemma settleTasks_correct:
  assumes "broker_inv nanoid b" and "inj nanoid"
  shows "r \<in> set (tb_pendingTaskRequests (settleTasks nanoid now b)) \<Longrightarrow>
      in_progress (settleTasks nanoid now b) r \<or> offer_for r (settleTasks nanoid now b) = None"
    and "offers_in_hand (settleTasks nanoid now b) = offers_in_hand (expireTasks now b)"
    and "tb_pendingTaskRequests (settleTasks nanoid now b) = tb_pendingTaskRequests b"
proof -
  have "quiet b (expireTasks now b)" by (simp add: quiet_def expireTasks_def)
  then have e: "broker_inv nanoid (expireTasks now b)" using assms(1) by (rule quiet_inv)
  have p: "tb_pendingTaskRequests (expireTasks now b) = tb_pendingTaskRequests b" by (simp add: expireTasks_def)
  show "offers_in_hand (settleTasks nanoid now b) = offers_in_hand (expireTasks now b)"
    using settle_loop_offers [OF e assms(2)] p by (simp add: settleTasks_def Let_def)
  show pend: "tb_pendingTaskRequests (settleTasks nanoid now b) = tb_pendingTaskRequests b"
    using settle_loop [OF e assms(2)] p by (simp add: settleTasks_def Let_def)
  show "in_progress (settleTasks nanoid now b) r \<or> offer_for r (settleTasks nanoid now b) = None"
    if "r \<in> set (tb_pendingTaskRequests (settleTasks nanoid now b))"
    using settle_loop_done that p unfolding pend by (simp add: settleTasks_def Let_def)
qed

section \<open>A runner that leaves\<close>

lemma runner_lost_tasks:
  "tb_tasks (runner_lost runnerId err t b) = (if task_runnerId t = runnerId then map_delete (task_id t) (tb_tasks b) else tb_tasks b)"
proof -
  have f: "tb_tasks (failTask i e b) = map_delete i (tb_tasks b)" for i e
    by (cases "map_of (tb_tasks b) i") (simp_all add: failTask_def messageRequester_def emit_def,
        simp add: map_of_eq_None_iff)
  show ?thesis unfolding runner_lost_def
    by (simp add: handleRunnerReject_def runner_answer_def settle_runner_fields(1) f)
qed

lemma runners_lost_tasks:
  "set (tb_tasks (fold (runner_lost runnerId err) ts b))
     = {(i, t) \<in> set (tb_tasks b). \<not> (\<exists>x \<in> set ts. task_runnerId x = runnerId \<and> task_id x = i)}"
  by (induction ts arbitrary: b) (auto simp: runner_lost_tasks entries_map_delete)

lemma deregisterRunner_tasks:
  assumes "broker_inv nanoid b"
  shows "set (tb_tasks (deregisterRunner runnerId err b)) = {(i, t) \<in> set (tb_tasks b). task_runnerId t \<noteq> runnerId}"
proof -
  from assms have ok: "tasks_ok (tb_tasks b)" by (simp add: broker_inv_def ids_inv_def)
  have same: "t = x" if "(i, t) \<in> set (tb_tasks b)" "x \<in> snd ` set (tb_tasks b)" "task_id x = i" for i t x
    using that ok unfolding tasks_ok_def by (auto dest: eq_key_imp_eq_value)
  have self: "t \<in> snd ` set (tb_tasks b) \<and> task_id t = i" if "(i, t) \<in> set (tb_tasks b)" for i t
    using that ok unfolding tasks_ok_def by force
  have "{(i, t) \<in> set (tb_tasks b). \<not> (\<exists>x \<in> snd ` set (tb_tasks b). task_runnerId x = runnerId \<and> task_id x = i)}
      = {(i, t) \<in> set (tb_tasks b). task_runnerId t \<noteq> runnerId}"
    using same self by blast
  then show ?thesis unfolding deregisterRunner_def Let_def runners_lost_tasks by simp
qed

lemma deregisterRunner_offers:
  "tb_pendingTaskOffers (deregisterRunner runnerId err b) = filter (\<lambda>offer. of_runnerId offer \<noteq> runnerId) (tb_pendingTaskOffers b)"
proof -
  have "tb_pendingTaskOffers (runner_lost runnerId err t c) = tb_pendingTaskOffers c" for t c
    unfolding runner_lost_def handleRunnerReject_def runner_answer_def settle_runner_def failTask_def messageRequester_def emit_def
    by (auto split: option.splits)
  then have "tb_pendingTaskOffers (fold (runner_lost runnerId err) ts c) = tb_pendingTaskOffers c" for ts c
    by (induction ts arbitrary: c) auto
  then show ?thesis by (simp add: deregisterRunner_def Let_def)
qed

text \<open>A task has been accepted, so its reject handler is gone: the rejections find nothing.\<close>

lemma runners_lost_accepting:
  assumes "\<And>t. t \<in> set ts \<Longrightarrow> task_id t \<notin> set (tb_runnerAcceptRejects b)"
  shows "tb_accepting (fold (runner_lost runnerId err) ts b) = tb_accepting b"
  using assms
proof (induction ts arbitrary: b)
  case Nil
  then show ?case by simp
next
  case (Cons t ts)
  have f: "tb_runnerAcceptRejects (failTask i e c) = tb_runnerAcceptRejects c \<and> tb_accepting (failTask i e c) = tb_accepting c" for i e c
    by (cases "map_of (tb_tasks c) i") (simp_all add: failTask_def messageRequester_def emit_def)
  have "task_id t \<notin> set (tb_runnerAcceptRejects b)" using Cons.prems by simp
  then have r: "tb_runnerAcceptRejects (runner_lost runnerId err t b) = tb_runnerAcceptRejects b"
    "tb_accepting (runner_lost runnerId err t b) = tb_accepting b"
    by (simp_all add: runner_lost_def handleRunnerReject_def runner_answer_def f)
  have "tb_accepting (fold (runner_lost runnerId err) ts (runner_lost runnerId err t b)) = tb_accepting (runner_lost runnerId err t b)"
    by (rule Cons.IH) (use Cons.prems r(1) in simp)
  with r(2) show ?case by simp
qed

lemma deregisterRunner_accepting:
  assumes "broker_inv nanoid b"
  shows "tb_accepting (deregisterRunner runnerId err b) = tb_accepting b"
proof -
  from assms have ok: "tasks_ok (tb_tasks b)" "fst ` set (tb_tasks b) \<inter> set (tb_runnerAcceptRejects b) = {}"
    by (simp_all add: broker_inv_def ids_inv_def)
  have "task_id t \<notin> set (tb_runnerAcceptRejects b)" if "t \<in> set (map_values (tb_tasks b))" for t
    using that ok unfolding tasks_ok_def by force
  then show ?thesis unfolding deregisterRunner_def Let_def by (subst runners_lost_accepting) auto
qed

end
