(* ===== verification/Broker_Properties.thy ===== *)
theory Broker_Properties
  imports Broker_Invariant
begin

text \<open>
  The properties of the task broker: at most one acceptance per request on every reachable state,
  the matching of offers and requests, the loss of a runner, and a request that expires while it
  is being accepted.
\<close>

section \<open>A run of the broker\<close>

definition sample_broker_config :: broker_config where
  "sample_broker_config = \<lparr>bc_taskTimeout = 60, bc_mode = ''internal''\<rparr>"

definition broker0 :: broker where
  "broker0 = \<lparr>tb_knownRunners = [], tb_requesters = [], tb_tasks = [], tb_isDraining = False,
     tb_runnerAcceptRejects = [], tb_requesterAcceptRejects = [], tb_pendingTaskOffers = [],
     tb_pendingTaskRequests = [], tb_mismatchWarned = [], tb_requests = (\<lambda>_. no_request),
     tb_accepting = [], tb_settling = [], tb_next = 0, tb_log = []\<rparr>"

lemma broker0_new: "new_broker sample_broker_config = Inr broker0"
  by (simp add: new_broker_def sample_broker_config_def broker0_def)

definition broker1 :: broker where
  "broker1 = registerRunner \<lparr>tr_id = ''r'', tr_name = None, tr_taskTypes = [''js'']\<rparr> (registerRequester ''q'' broker0)"

definition broker2 :: broker where
  "broker2 = onRequesterMessage show_nat 0 ''q'' (TaskRequestMsg ''req'' ''js'') broker1"

definition broker3 :: broker where
  "broker3 = onRunnerMessage show_nat 0 ''r'' (TaskOfferMsg ''o'' ''js'' (-1)) broker2"

text \<open>The request expires, then the runner accepts, and the call resumes.\<close>

definition broker4 :: broker where
  "broker4 = resume_accept (show_nat 2)
     (onRunnerMessage show_nat 0 ''r'' (TaskAccepted (show_nat 2)) (handleRequestTimeout ''req'' broker3))"

abbreviation sample_step :: "broker \<Rightarrow> broker \<Rightarrow> bool" where
  "sample_step \<equiv> broker_step sample_broker_config show_nat"

lemma sample_steps: "sample_step\<^sup>*\<^sup>* broker0 broker3" "sample_step\<^sup>*\<^sup>* broker3 broker4" "sample_step\<^sup>*\<^sup>* broker0 broker4"
proof -
  have "sample_step\<^sup>*\<^sup>* broker0 broker1"
    unfolding broker1_def by (meson requester_registers runner_registers rtranclp.rtrancl_into_rtrancl rtranclp.rtrancl_refl)
  moreover have "sample_step broker1 broker2" unfolding broker2_def
    by (rule requester_message) (simp add: broker1_def broker0_def registerRunner_def registerRequester_def messageRunner_def
        emit_def no_request_def)
  moreover have "sample_step broker2 broker3" unfolding broker3_def by (rule runner_message)
  ultimately show 3: "sample_step\<^sup>*\<^sup>* broker0 broker3" by (meson rtranclp.rtrancl_into_rtrancl)
  show 4: "sample_step\<^sup>*\<^sup>* broker3 broker4" unfolding broker4_def
    by (meson request_timer runner_message acceptance_resumes rtranclp.rtrancl_into_rtrancl rtranclp.rtrancl_refl)
  from 3 4 show "sample_step\<^sup>*\<^sup>* broker0 broker4" by (rule rtranclp_trans)
qed

lemma broker_reachable_inv:
  assumes "new_broker cfg = Inr b0" and "inj nanoid" and "(broker_step cfg nanoid)\<^sup>*\<^sup>* b0 b"
  shows "broker_inv nanoid b"
  using brokers.reachable_ok [OF assms(1,3)] assms(2) by blast

lemma inj_show_nat: "inj show_nat"
  by (simp add: inj_on_def)

definition ready_sent :: "task_id \<Rightarrow> broker_output list \<Rightarrow> bool" where
  "ready_sent taskId = list_ex (\<lambda>out. case out of ToRequester _ (TaskReady _ i) \<Rightarrow> i = taskId | _ \<Rightarrow> False)"

section \<open>Properties\<close>

text \<open>
  C30: One acceptance per request: in every state that messages, timers and resumed calls reach, a
  pending request is marked as in progress exactly if an acceptance is under way for it, no two
  acceptances are for one request, each is for an offer of the request's task type, and accepted
  tasks and running acceptances have different ids.
\<close>

theorem requests_have_one_acceptance:
  assumes "new_broker cfg = Inr b0" and "inj nanoid" and "(broker_step cfg nanoid)\<^sup>*\<^sup>* b0 b"
  shows "(\<forall>r \<in> set (tb_pendingTaskRequests b). in_progress b r \<longleftrightarrow> r \<in> accepted_requests b)
    \<and> distinct (map (snd \<circ> snd) (acceptances b))
    \<and> (\<forall>(i, offer, r) \<in> set (acceptances b). of_taskType offer = rq_taskType (tb_requests b r))
    \<and> fst ` set (tb_tasks b) \<inter> fst ` set (acceptances b) = {}"
proof -
  from broker_reachable_inv [OF assms] have m: "matching_inv b" and d: "ids_inv nanoid b"
    by (simp_all add: broker_inv_def)
  have "fst ` set (acceptances b) = fst ` set (tb_accepting b)" unfolding acceptances_def by force
  then show ?thesis using matching_invD(4,6,7,9) [OF m] ids_invD(3) [OF d] by blast
qed

theorem one_acceptance_witness:
  "(in_progress broker3 1 \<longleftrightarrow> 1 \<in> accepted_requests broker3)
    \<and> distinct (map (snd \<circ> snd) (acceptances broker3))
    \<and> fst ` set (tb_tasks broker3) \<inter> fst ` set (acceptances broker3) = {}"
proof -
  have "1 \<in> set (tb_pendingTaskRequests broker3)" by code_simp
  with requests_have_one_acceptance [OF broker0_new inj_show_nat sample_steps(1)] show ?thesis by blast
qed

text \<open>
  C31: Matching: after it no pending request without acceptance has an offer of its type left, and
  every offer that has not expired is either still pending or used by exactly one acceptance.
\<close>

theorem matching_is_complete:
  assumes "new_broker cfg = Inr b0" and "inj nanoid" and "(broker_step cfg nanoid)\<^sup>*\<^sup>* b0 b"
  shows "(\<forall>r \<in> set (tb_pendingTaskRequests (settleTasks nanoid now b)).
      in_progress (settleTasks nanoid now b) r \<or> offer_for r (settleTasks nanoid now b) = None)
    \<and> offers_in_hand (settleTasks nanoid now b) = offers_in_hand (expireTasks now b)
    \<and> tb_pendingTaskRequests (settleTasks nanoid now b) = tb_pendingTaskRequests b"
  by (intro conjI ballI settleTasks_correct [OF broker_reachable_inv [OF assms] assms(2)])

theorem matching_witness:
  "(in_progress (settleTasks show_nat 0 broker3) 1 \<or> offer_for 1 (settleTasks show_nat 0 broker3) = None)
    \<and> offers_in_hand (settleTasks show_nat 0 broker3) = offers_in_hand (expireTasks 0 broker3)
    \<and> tb_pendingTaskRequests (settleTasks show_nat 0 broker3) = tb_pendingTaskRequests broker3"
proof -
  note t = matching_is_complete [OF broker0_new inj_show_nat sample_steps(1), of 0]
  have "1 \<in> set (tb_pendingTaskRequests (settleTasks show_nat 0 broker3))" by code_simp
  from t [THEN conjunct1, THEN bspec, OF this] t [THEN conjunct2] show ?thesis by (rule conjI)
qed

text \<open>
  A runner that leaves: its offers and its tasks are gone and those of other runners stay; the
  acceptances under way with it are not rejected, although the code means to, and wait for their
  timer.
\<close>

theorem leaving_runner_is_forgotten:
  assumes "new_broker cfg = Inr b0" and "inj nanoid" and "(broker_step cfg nanoid)\<^sup>*\<^sup>* b0 b"
  shows "set (tb_tasks (deregisterRunner runnerId err b)) = {(i, t) \<in> set (tb_tasks b). task_runnerId t \<noteq> runnerId}
    \<and> tb_pendingTaskOffers (deregisterRunner runnerId err b)
        = filter (\<lambda>offer. of_runnerId offer \<noteq> runnerId) (tb_pendingTaskOffers b)
    \<and> tb_accepting (deregisterRunner runnerId err b) = tb_accepting b"
  using deregisterRunner_tasks deregisterRunner_offers deregisterRunner_accepting broker_reachable_inv [OF assms] by blast

theorem leaving_runner_witness:
  "set (tb_tasks (deregisterRunner ''r'' ''gone'' broker3)) = {(i, t) \<in> set (tb_tasks broker3). task_runnerId t \<noteq> ''r''}
    \<and> tb_pendingTaskOffers (deregisterRunner ''r'' ''gone'' broker3)
        = filter (\<lambda>offer. of_runnerId offer \<noteq> ''r'') (tb_pendingTaskOffers broker3)
    \<and> tb_accepting (deregisterRunner ''r'' ''gone'' broker3) = tb_accepting broker3"
  by (rule leaving_runner_is_forgotten [OF broker0_new inj_show_nat sample_steps(1)])

text \<open>
  C39: A request can expire while it is being accepted: the requester is told that it expired, the
  runner accepts all the same, and a task is left that no settings will ever be asked for.
\<close>

theorem expired_request_leaves_a_task:
  "\<exists>b taskId. sample_step\<^sup>*\<^sup>* broker0 b \<and> map_of (tb_tasks b) taskId \<noteq> None
    \<and> ToRequester ''q'' (RequestExpired ''req'' ''timeout'') \<in> set (tb_log b)
    \<and> map_of (tb_settling b) taskId = None \<and> \<not> ready_sent taskId (tb_log b)"
proof (intro exI conjI)
  show "sample_step\<^sup>*\<^sup>* broker0 broker4" by (rule sample_steps(3))
  show "map_of (tb_tasks broker4) (show_nat 2) \<noteq> None" by code_simp
  show "ToRequester ''q'' (RequestExpired ''req'' ''timeout'') \<in> set (tb_log broker4)" by code_simp
  show "map_of (tb_settling broker4) (show_nat 2) = None" by code_simp
  show "\<not> ready_sent (show_nat 2) (tb_log broker4)" by code_simp
qed

end
