(* ===== verification/Connections_Diff.thy ===== *)
theory Connections_Diff
  imports Workflow_Types Connected_Nodes
begin

text \<open>
  The difference of two connection objects, from \<^verbatim>\<open>packages/workflow/src/connections-diff.ts\<close>. The
  code compares connections by their JSON text; a connection is here a record of the three fields
  it is written with, and two connections have the same text if the records are equal.
\<close>

record connection_entry =
  ce_sourceIndex :: nat
  ce_index :: nat
  ce_connection :: iconnection

type_synonym node_connections_diff = "(string \<times> connection_entry list) list"
type_synonym connections_diff = "(string \<times> node_connections_diff) list"

text \<open>Reads with the fallbacks of the code: \<^verbatim>\<open>prev[nodeName] ?? {}\<close>, \<^verbatim>\<open>... ?? []\<close>.\<close>

definition input_connections :: "iconnections \<Rightarrow> string \<Rightarrow> string \<Rightarrow> conn_bucket list" where
  "input_connections cs nodeName inputName = entry_or [] (entry_or [] cs nodeName) inputName"

definition connections_at :: "conn_bucket list \<Rightarrow> nat \<Rightarrow> iconnection list" where
  "connections_at bs i = (if i < length bs then case bs ! i of None \<Rightarrow> [] | Some cs \<Rightarrow> cs else [])"

text \<open>\<^verbatim>\<open>new Map(connections.map((conn, idx) => ...))\<close>: of equal connections the last index counts.\<close>

definition connection_map :: "iconnection list \<Rightarrow> (iconnection, nat) jsmap" where
  "connection_map cs = fold (\<lambda>(idx, conn). map_set conn idx) (enumerate 0 cs) []"

text \<open>The entries of one map that the other one lacks.\<close>

definition fresh_entries :: "nat \<Rightarrow> (iconnection, nat) jsmap \<Rightarrow> (iconnection, nat) jsmap \<Rightarrow> connection_entry list" where
  "fresh_entries sourceIndex old new_map =
     map (\<lambda>(conn, idx). \<lparr>ce_sourceIndex = sourceIndex, ce_index = idx, ce_connection = conn\<rparr>)
       (filter (\<lambda>(conn, _). map_of old conn = None) new_map)"

definition push_entry :: "string \<Rightarrow> string \<Rightarrow> connection_entry \<Rightarrow> connections_diff \<Rightarrow> connections_diff" where
  "push_entry nodeName inputName e d =
     (let inputs = entry_or [] d nodeName
      in obj_put nodeName (obj_put inputName (entry_or [] inputs inputName @ [e]) inputs) d)"

text \<open>The three nested loops visit these positions in this order.\<close>

definition diff_positions :: "iconnections \<Rightarrow> iconnections \<Rightarrow> (string \<times> string \<times> nat) list" where
  "diff_positions prev next_conns =
     concat (map (\<lambda>nodeName.
       concat (map (\<lambda>inputName.
         map (\<lambda>i. (nodeName, inputName, i))
           [0..<max (length (input_connections prev nodeName inputName))
                    (length (input_connections next_conns nodeName inputName))])
         (set_of (map fst (entry_or [] prev nodeName) @ map fst (entry_or [] next_conns nodeName)))))
       (set_of (map fst prev @ map fst next_conns)))"

fun compare_position ::
    "iconnections \<Rightarrow> iconnections \<Rightarrow> string \<times> string \<times> nat \<Rightarrow> connections_diff \<times> connections_diff
      \<Rightarrow> connections_diff \<times> connections_diff" where
  "compare_position prev next_conns (nodeName, inputName, sourceIndex) (added, removed) =
     (let prevMap = connection_map (connections_at (input_connections prev nodeName inputName) sourceIndex);
          nextMap = connection_map (connections_at (input_connections next_conns nodeName inputName) sourceIndex)
      in (fold (push_entry nodeName inputName) (fresh_entries sourceIndex prevMap nextMap) added,
          fold (push_entry nodeName inputName) (fresh_entries sourceIndex nextMap prevMap) removed))"

definition compareConnections :: "iconnections \<Rightarrow> iconnections \<Rightarrow> connections_diff \<times> connections_diff" where
  "compareConnections prev next_conns =
     fold (compare_position prev next_conns) (diff_positions prev next_conns) ([], [])"

section \<open>What a difference holds\<close>

definition diff_at :: "connections_diff \<Rightarrow> string \<Rightarrow> string \<Rightarrow> nat \<Rightarrow> iconnection set" where
  "diff_at d nm ty i =
     {ce_connection e | e. e \<in> set (entry_or [] (entry_or [] d nm) ty) \<and> ce_sourceIndex e = i}"

definition conns_at :: "iconnections \<Rightarrow> string \<Rightarrow> string \<Rightarrow> nat \<Rightarrow> iconnection set" where
  "conns_at cs nm ty i = set (connections_at (input_connections cs nm ty) i)"

lemma entry_or_put [js_simps]: "entry_or d (obj_put k v m) x = (if x = k then v else entry_or d m x)"
  by (simp add: entry_or_def js_obj.lookup_put)

lemma diff_at_Nil: "diff_at [] nm ty i = {}"
  by (simp add: diff_at_def entry_or_def)

lemma diff_at_push:
  "diff_at (push_entry n t e d) nm ty i =
     diff_at d nm ty i \<union> (if n = nm \<and> t = ty \<and> ce_sourceIndex e = i then {ce_connection e} else {})"
  by (auto simp: diff_at_def push_entry_def Let_def entry_or_put)

lemma diff_at_pushes:
  "diff_at (fold (push_entry n t) es d) nm ty i =
     diff_at d nm ty i \<union> (if n = nm \<and> t = ty then {ce_connection e | e. e \<in> set es \<and> ce_sourceIndex e = i} else {})"
  by (induction es arbitrary: d) (auto simp: diff_at_push)

lemma dom_connection_map: "dom (map_of (connection_map cs)) = set cs"
proof -
  have "dom (map_of (fold (\<lambda>(idx, conn). map_set conn idx) (enumerate k cs) m)) = set cs \<union> dom (map_of m)" for k m
    by (induction cs arbitrary: k m) (auto simp: update_conv')
  then show ?thesis by (simp add: connection_map_def)
qed

lemma fresh_entries_connections:
  "{ce_connection e | e. e \<in> set (fresh_entries j old new_map) \<and> ce_sourceIndex e = i} =
     (if i = j then dom (map_of new_map) - dom (map_of old) else {})"
proof -
  have mem: "e \<in> set (fresh_entries j old new_map) \<longleftrightarrow> (\<exists>c idx. (c, idx) \<in> set new_map \<and> map_of old c = None \<and>
      e = \<lparr>ce_sourceIndex = j, ce_index = idx, ce_connection = c\<rparr>)" for e
    by (force simp: fresh_entries_def)
  have dom: "c \<in> dom (map_of new_map) \<longleftrightarrow> (\<exists>idx. (c, idx) \<in> set new_map)" for c
    by (force simp: dom_map_of_conv_image_fst)
  have "c \<in> {ce_connection e | e. e \<in> set (fresh_entries j old new_map) \<and> ce_sourceIndex e = i} \<longleftrightarrow>
      i = j \<and> map_of old c = None \<and> (\<exists>idx. (c, idx) \<in> set new_map)" (is "?L \<longleftrightarrow> ?R") for c
  proof
    assume ?L
    then obtain e where e: "c = ce_connection e" "e \<in> set (fresh_entries j old new_map)" "ce_sourceIndex e = i"
      by blast
    then obtain c' idx where "(c', idx) \<in> set new_map" "map_of old c' = None"
      "e = \<lparr>ce_sourceIndex = j, ce_index = idx, ce_connection = c'\<rparr>" by (auto simp: mem)
    with e(1,3) show ?R by auto
  next
    assume ?R
    then obtain idx where "(c, idx) \<in> set new_map" "map_of old c = None" "i = j" by blast
    then have "\<lparr>ce_sourceIndex = j, ce_index = idx, ce_connection = c\<rparr> \<in> set (fresh_entries j old new_map)"
      by (simp add: mem)
    with \<open>i = j\<close> show ?L by force
  qed
  then show ?thesis by (auto simp: dom [symmetric] domIff)
qed

lemma fold_compare_position:
  assumes "fold (compare_position prev nxt) ps (added, removed) = (added', removed')"
  shows "diff_at added' nm ty i = diff_at added nm ty i \<union>
      (if (nm, ty, i) \<in> set ps then conns_at nxt nm ty i - conns_at prev nm ty i else {})"
    and "diff_at removed' nm ty i = diff_at removed nm ty i \<union>
      (if (nm, ty, i) \<in> set ps then conns_at prev nm ty i - conns_at nxt nm ty i else {})"
proof -
  have "diff_at added' nm ty i = diff_at added nm ty i \<union>
      (if (nm, ty, i) \<in> set ps then conns_at nxt nm ty i - conns_at prev nm ty i else {})
    \<and> diff_at removed' nm ty i = diff_at removed nm ty i \<union>
      (if (nm, ty, i) \<in> set ps then conns_at prev nm ty i - conns_at nxt nm ty i else {})"
    using assms
  proof (induction ps arbitrary: added removed)
    case (Cons p ps)
    obtain n t j where p: "p = (n, t, j)" by (cases p)
    obtain a r where ar: "compare_position prev nxt p (added, removed) = (a, r)" by fastforce
    from ar have step: "diff_at a nm ty i = diff_at added nm ty i \<union>
        (if (n, t, j) = (nm, ty, i) then conns_at nxt nm ty i - conns_at prev nm ty i else {})"
      "diff_at r nm ty i = diff_at removed nm ty i \<union>
        (if (n, t, j) = (nm, ty, i) then conns_at prev nm ty i - conns_at nxt nm ty i else {})"
      by (auto simp: p Let_def diff_at_pushes fresh_entries_connections dom_connection_map conns_at_def split: if_splits)
    from Cons.prems ar have "fold (compare_position prev nxt) ps (a, r) = (added', removed')" by simp
    from Cons.IH [OF this] show ?case unfolding step by (auto simp: p)
  qed simp
  then show "diff_at added' nm ty i = diff_at added nm ty i \<union>
      (if (nm, ty, i) \<in> set ps then conns_at nxt nm ty i - conns_at prev nm ty i else {})"
    "diff_at removed' nm ty i = diff_at removed nm ty i \<union>
      (if (nm, ty, i) \<in> set ps then conns_at prev nm ty i - conns_at nxt nm ty i else {})" by auto
qed

lemma in_diff_positions:
  "(nm, ty, i) \<in> set (diff_positions prev nxt) \<longleftrightarrow>
     nm \<in> set (map fst prev @ map fst nxt)
     \<and> ty \<in> set (map fst (entry_or [] prev nm) @ map fst (entry_or [] nxt nm))
     \<and> i < max (length (input_connections prev nm ty)) (length (input_connections nxt nm ty))"
proof -
  have loop: "x \<in> set (concat (map f xs)) \<longleftrightarrow> (\<exists>y \<in> set xs. x \<in> set (f y))" for x :: "string \<times> string \<times> nat" and f xs
    by auto
  have last: "(nm, ty, i) \<in> set (map (\<lambda>j. (n, t, j)) [0..<k]) \<longleftrightarrow> nm = n \<and> ty = t \<and> i < k" for n t k
    by auto
  show ?thesis unfolding diff_positions_def loop last set_set_of by blast
qed

lemma conns_at_position:
  assumes "c \<in> conns_at prev nm ty i \<union> conns_at nxt nm ty i"
  shows "(nm, ty, i) \<in> set (diff_positions prev nxt)"
proof -
  have keys: "nm \<in> fst ` set cs \<and> ty \<in> fst ` set (entry_or [] cs nm) \<and> i < length (input_connections cs nm ty)"
    if "c \<in> conns_at cs nm ty i" for cs
  proof -
    have len: "i < length (input_connections cs nm ty)"
      using that unfolding conns_at_def connections_at_def by (metis empty_iff list.set(1))
    then have "entry_or [] (entry_or [] cs nm) ty \<noteq> []" unfolding input_connections_def by (metis less_zeroE list.size(3))
    then have "map_of (entry_or [] cs nm) ty \<noteq> None" unfolding entry_or_def [of "[]" _ ty] by (metis option.simps(4))
    then have ty: "ty \<in> fst ` set (entry_or [] cs nm)" by (metis map_of_eq_None_iff)
    then have "map_of cs nm \<noteq> None" by (cases "map_of cs nm") (simp_all add: entry_or_def)
    then have "nm \<in> fst ` set cs" by (metis map_of_eq_None_iff)
    with ty len show ?thesis by simp
  qed
  from assms keys [of prev] keys [of nxt] show ?thesis
    unfolding in_diff_positions by auto
qed

lemma compareConnections_exact:
  assumes "compareConnections prev nxt = (added, removed)"
  shows "diff_at added nm ty i = conns_at nxt nm ty i - conns_at prev nm ty i"
    and "diff_at removed nm ty i = conns_at prev nm ty i - conns_at nxt nm ty i"
proof -
  from fold_compare_position [OF assms [unfolded compareConnections_def], of nm ty i]
    conns_at_position [of _ prev nm ty i nxt]
  show "diff_at added nm ty i = conns_at nxt nm ty i - conns_at prev nm ty i"
    "diff_at removed nm ty i = conns_at prev nm ty i - conns_at nxt nm ty i"
    by (auto simp: diff_at_Nil split: if_splits)
qed

text \<open>A difference object without keys holds nothing, and one that holds nothing has no keys.\<close>

definition no_empty_keys :: "connections_diff \<Rightarrow> bool" where
  "no_empty_keys d \<longleftrightarrow> d = [] \<or> (\<exists>nm ty i. diff_at d nm ty i \<noteq> {})"

lemma no_empty_keys_push: "no_empty_keys (push_entry n t e d)"
  unfolding no_empty_keys_def diff_at_push by (rule disjI2) auto

lemma no_empty_keys_pushes: "no_empty_keys d \<Longrightarrow> no_empty_keys (fold (push_entry n t) es d)"
  by (induction es arbitrary: d) (auto simp: no_empty_keys_push)

lemma compareConnections_keys:
  assumes "compareConnections prev nxt = (added, removed)"
  shows "no_empty_keys added" and "no_empty_keys removed"
proof -
  have "no_empty_keys (fst (fold (compare_position prev nxt) ps s)) \<and> no_empty_keys (snd (fold (compare_position prev nxt) ps s))"
    if "no_empty_keys (fst s) \<and> no_empty_keys (snd s)" for ps s
    using that
  proof (induction ps arbitrary: s)
    case (Cons p ps)
    obtain n t j where p: "p = (n, t, j)" by (cases p)
    obtain a r where s: "s = (a, r)" by (cases s)
    from Cons show ?case by (simp add: p s Let_def no_empty_keys_pushes)
  qed simp
  from this [of "([], [])" "diff_positions prev nxt"] assms
  show "no_empty_keys added" "no_empty_keys removed"
    by (simp_all add: compareConnections_def no_empty_keys_def [of "[]"])
qed

lemma nothing_removed_iff:
  assumes "compareConnections prev nxt = (added, removed)"
  shows "length removed = 0 \<longleftrightarrow> (\<forall>nm ty i. conns_at prev nm ty i \<subseteq> conns_at nxt nm ty i)"
proof -
  have "removed = [] \<longleftrightarrow> (\<forall>nm ty i. diff_at removed nm ty i = {})"
    using compareConnections_keys(2) [OF assms]
    by (auto simp: no_empty_keys_def diff_at_Nil)
  then show ?thesis unfolding compareConnections_exact [OF assms] by auto
qed

end
