(* ===== verification/Graph_Selection.thy ===== *)
theory Graph_Selection
  imports Workflow_Types Connected_Nodes
begin

text \<open>
  Which nodes of a workflow can be extracted into a workflow of their own, from
  \<^verbatim>\<open>packages/workflow/src/graph/graph-utils.ts\<close>: edges into and out of a selection, its root and
  leaf nodes, the search for a path, and the check of a selection with its errors. A \<^verbatim>\<open>Set\<close> of
  names is a list without repetition in insertion order. A \<^verbatim>\<open>Set\<close> of connections compares by
  reference, and every connection of a connection object is an object of its own, so it is the
  list of its elements.
\<close>

section \<open>Sets and adjacency lists\<close>

type_synonym adjacency_list = "(string, iconnection list) jsmap"

definition set_intersection :: "'a list \<Rightarrow> 'a list \<Rightarrow> 'a list" where
  "set_intersection a b = set_of (filter (\<lambda>x. x \<in> set b) a)"

definition set_union :: "'a list \<Rightarrow> 'a list \<Rightarrow> 'a list" where
  "set_union a b = set_add_all b (set_add_all a [])"

definition set_difference :: "'a list \<Rightarrow> 'a list \<Rightarrow> 'a list" where
  "set_difference minuend subtrahend = fold removeAll subtrahend (set_of minuend)"

fun addOrCreate :: "string \<Rightarrow> iconnection \<Rightarrow> adjacency_list \<Rightarrow> adjacency_list" where
  "addOrCreate k v result = map_set k (entry_or [] result k @ [v]) result"

definition buildAdjacencyList :: "iconnections \<Rightarrow> adjacency_list" where
  "buildAdjacencyList connectionsBySourceNode =
     fold (\<lambda>(sourceNode, _, _, connection). addOrCreate sourceNode connection)
       (conn_entries connectionsBySourceNode) []"

definition getInputEdges :: "string list \<Rightarrow> adjacency_list \<Rightarrow> (string \<times> iconnection) list" where
  "getInputEdges graphIds adjacencyList =
     concat (map (\<lambda>(from_node, tos).
         if from_node \<in> set graphIds then []
         else map (Pair from_node) (filter (\<lambda>to. conn_node to \<in> set graphIds) tos))
       adjacencyList)"

definition getOutputEdges :: "string list \<Rightarrow> adjacency_list \<Rightarrow> (string \<times> iconnection) list" where
  "getOutputEdges graphIds adjacencyList =
     concat (map (\<lambda>(from_node, tos).
         if from_node \<notin> set graphIds then []
         else map (Pair from_node) (filter (\<lambda>to. conn_node to \<notin> set graphIds) tos))
       adjacencyList)"

text \<open>The set of the main targets of a node other than itself, which both functions below build.\<close>

definition other_targets :: "adjacency_list \<Rightarrow> string \<Rightarrow> string list" where
  "other_targets adjacencyList nodeId =
     set_of (map conn_node (filter (\<lambda>x. conn_type x = Main_type \<and> conn_node x \<noteq> nodeId)
       (entry_or [] adjacencyList nodeId)))"

definition getRootNodes :: "string list \<Rightarrow> adjacency_list \<Rightarrow> string list" where
  "getRootNodes graphIds adjacencyList =
     set_difference graphIds
       (fold (\<lambda>nodeId innerNodes. set_union innerNodes (other_targets adjacencyList nodeId)) graphIds [])"

definition getLeafNodes :: "string list \<Rightarrow> adjacency_list \<Rightarrow> string list" where
  "getLeafNodes graphIds adjacencyList =
     fold (\<lambda>nodeId result.
         if set_intersection (other_targets adjacencyList nodeId) graphIds = [] then set_add nodeId result else result)
       graphIds []"

lemma set_set_intersection [simp]: "set (set_intersection a b) = set a \<inter> set b"
  by (auto simp: set_intersection_def)

lemma set_set_union [simp]: "set (set_union a b) = set a \<union> set b"
  by (auto simp: set_union_def)

lemma set_fold_removeAll [simp]: "set (fold removeAll xs ys) = set ys - set xs"
  by (induction xs arbitrary: ys) auto

lemma distinct_fold_removeAll: "distinct ys \<Longrightarrow> distinct (fold removeAll xs ys)"
  by (induction xs arbitrary: ys) (auto simp: distinct_removeAll)

lemma set_set_difference [simp]: "set (set_difference a b) = set a - set b"
  by (simp add: set_difference_def)

lemma distinct_set_intersection [simp]: "distinct (set_intersection a b)"
  by (simp add: set_intersection_def)

lemma distinct_set_difference [simp]: "distinct (set_difference a b)"
  by (simp add: set_difference_def distinct_fold_removeAll)

section \<open>The search for a path\<close>

definition next_names :: "adjacency_list \<Rightarrow> string \<Rightarrow> string list" where
  "next_names adjacencyList nm =
     set_of (map conn_node (filter (\<lambda>x. conn_type x = Main_type) (entry_or [] adjacencyList nm)))"

definition all_targets :: "adjacency_list \<Rightarrow> string set" where
  "all_targets adjacencyList = (\<Union>(nm, tos) \<in> set adjacencyList. conn_node ` set tos)"

lemma finite_all_targets [simp]: "finite (all_targets adj)"
  by (auto simp: all_targets_def)

lemma next_names_all: "set (next_names adj nm) \<subseteq> all_targets adj"
proof
  fix x assume "x \<in> set (next_names adj nm)"
  then obtain tos c where "map_of adj nm = Some tos" "c \<in> set tos" "x = conn_node c"
    by (cases "map_of adj nm") (auto simp: next_names_def entry_or_def)
  then show "x \<in> all_targets adj" by (auto simp: all_targets_def dest: map_of_SomeD)
qed

text \<open>
  The loop of \<^verbatim>\<open>hasPath\<close>: \<open>paths\<close> is the stack with its top first. A name can be on the stack
  several times, so a name that was seen can be popped again; it then pushes unseen names only.
\<close>

function path_loop :: "string \<Rightarrow> adjacency_list \<Rightarrow> string list \<Rightarrow> string list \<Rightarrow> bool" where
  "path_loop end_node adjacencyList seen [] = False"
| "path_loop end_node adjacencyList seen (next_node # paths) =
     (if next_node = end_node then True
      else let seen' = set_add next_node seen
           in path_loop end_node adjacencyList seen'
                (rev (set_difference (next_names adjacencyList next_node) seen') @ paths))"
  by pat_completeness auto

text \<open>
  It ends: an unseen name leaves fewer unseen ones, and a name seen before leaves fewer seen
  names on the stack.
\<close>

definition unseen_names :: "adjacency_list \<Rightarrow> string list \<Rightarrow> string list \<Rightarrow> string set" where
  "unseen_names adj seen paths = (all_targets adj \<union> set paths) - set seen"

termination path_loop
proof (relation "inv_image (less_than <*lex*> less_than)
      (\<lambda>(end_node, adj, seen, paths). (card (unseen_names adj seen paths), length (filter (\<lambda>p. p \<in> set seen) paths)))",
    goal_cases)
  case 1
  show ?case by (intro wf_inv_image wf_lex_prod wf_less_than)
next
  case (2 end_node adj seen next_node paths seen')
  have fin: "finite (unseen_names adj seen (next_node # paths))"
    by (simp add: unseen_names_def)
  let ?new = "rev (set_difference (next_names adj next_node) seen') @ paths"
  have sub: "unseen_names adj seen' ?new \<subseteq> unseen_names adj seen (next_node # paths)"
    using next_names_all [of adj next_node] 2(2) by (auto simp: unseen_names_def)
  show ?case
  proof (cases "next_node \<in> set seen")
    case True
    with 2(2) have same: "seen' = seen" by (simp add: set_add_def)
    have "filter (\<lambda>p. p \<in> set seen) (rev (set_difference (next_names adj next_node) seen)) = []"
      by (auto simp: filter_empty_conv)
    moreover have "card (unseen_names adj seen' ?new) \<le> card (unseen_names adj seen (next_node # paths))"
      using fin sub by (rule card_mono)
    ultimately show ?thesis using True same by (auto simp: filter_empty_conv)
  next
    case False
    have "next_node \<in> unseen_names adj seen (next_node # paths)" "next_node \<notin> unseen_names adj seen' ?new"
      using False 2(2) by (auto simp: unseen_names_def)
    with sub have "unseen_names adj seen' ?new \<subset> unseen_names adj seen (next_node # paths)" by blast
    with fin have "card (unseen_names adj seen' ?new) < card (unseen_names adj seen (next_node # paths))"
      by (rule psubset_card_mono)
    then show ?thesis by simp
  qed
qed

definition hasPath :: "string \<Rightarrow> string \<Rightarrow> adjacency_list \<Rightarrow> bool" where
  "hasPath start_node end_node adjacencyList = path_loop end_node adjacencyList [] [start_node]"

definition adjacent :: "adjacency_list \<Rightarrow> (string \<times> string) set" where
  "adjacent adjacencyList = {(a, b). b \<in> set (next_names adjacencyList a)}"

lemma path_loop_sound: "path_loop e adj seen paths \<Longrightarrow> \<exists>p \<in> set paths. (p, e) \<in> (adjacent adj)\<^sup>*"
proof (induction e adj seen paths rule: path_loop.induct)
  case (2 e adj seen x paths)
  show ?case
  proof (cases "x = e")
    case False
    with 2 obtain p where p: "p \<in> set (next_names adj x) \<union> set paths" "(p, e) \<in> (adjacent adj)\<^sup>*"
      by (auto simp: Let_def)
    show ?thesis
    proof (cases "p \<in> set paths")
      case False
      with p have "(x, p) \<in> adjacent adj" by (auto simp: adjacent_def)
      with p(2) have "(x, e) \<in> (adjacent adj)\<^sup>*" by (rule converse_rtrancl_into_rtrancl [rotated])
      then show ?thesis by simp
    qed (use p in auto)
  qed simp
qed simp

lemma path_loop_complete:
  assumes "\<not> path_loop e adj seen paths"
    and "\<forall>a \<in> set seen. a \<noteq> e \<and> set (next_names adj a) \<subseteq> set seen \<union> set paths"
  shows "\<forall>a \<in> set seen \<union> set paths. (a, e) \<notin> (adjacent adj)\<^sup>*"
  using assms
proof (induction e adj seen paths rule: path_loop.induct)
  case (1 e adj seen)
  have "b \<in> set seen" if "(a, b) \<in> (adjacent adj)\<^sup>*" "a \<in> set seen" for a b
    using that by (induction rule: rtrancl_induct) (use 1 in \<open>auto simp: adjacent_def\<close>)
  with 1 show ?case by fastforce
next
  case (2 e adj seen x paths)
  from 2(2) have x: "x \<noteq> e" by auto
  let ?seen = "set_add x seen"
  let ?paths = "rev (set_difference (next_names adj x) ?seen) @ paths"
  have "\<forall>a \<in> set ?seen \<union> set ?paths. (a, e) \<notin> (adjacent adj)\<^sup>*"
    using 2(2,3) x by (intro 2(1)) (auto simp: Let_def)
  then show ?case by auto
qed

lemma hasPath_iff: "hasPath s e adj \<longleftrightarrow> (s, e) \<in> (adjacent adj)\<^sup>*"
  using path_loop_sound [of e adj "[]" "[s]"] path_loop_complete [of e adj "[]" "[s]"]
  by (auto simp: hasPath_def simp del: path_loop.simps)

section \<open>The check of a selection\<close>

datatype extract_error =
    MultipleInputNodes "string list"
  | MultipleOutputNodes "string list"
  | InputEdgeToNonRootNode string
  | OutputEdgeFromNonLeafNode string
  | NoContinuousPathFromRootToLeaf string string

text \<open>\<^verbatim>\<open>set.values().next().value\<close>, and a name as a condition: not undefined and not empty.\<close>

definition first_value :: "'a list \<Rightarrow> 'a option" where
  "first_value xs = (case xs of [] \<Rightarrow> None | x # _ \<Rightarrow> Some x)"

definition truthy_name :: "string option \<Rightarrow> bool" where
  "truthy_name nm \<longleftrightarrow> nm \<noteq> None \<and> nm \<noteq> Some []"

definition parseExtractableSubgraphSelection ::
    "string list \<Rightarrow> adjacency_list \<Rightarrow> extract_error list + (string option \<times> string option)" where
  "parseExtractableSubgraphSelection graphIds adjacencyList =
     (let inputEdges = getInputEdges graphIds adjacencyList;
          inputNodes = set_of (map (\<lambda>x. conn_node (snd x)) (filter (\<lambda>x. conn_type (snd x) = Main_type) inputEdges));
          rootNodes = getRootNodes graphIds adjacencyList;
          rootNodes = (if length rootNodes = 0 \<and> length inputNodes = 1 then inputNodes else rootNodes);
          errors = map InputEdgeToNonRootNode (set_difference inputNodes rootNodes);
          rootInputNodes = set_intersection rootNodes inputNodes;
          errors = (if 1 < length rootInputNodes then errors @ [MultipleInputNodes rootInputNodes] else errors);
          outputEdges = getOutputEdges graphIds adjacencyList;
          outputNodes = set_of (map fst (filter (\<lambda>x. conn_type (snd x) = Main_type) outputEdges));
          leafNodes = getLeafNodes graphIds adjacencyList;
          leafNodes = (if length leafNodes = 0 \<and> length outputNodes = 1 then outputNodes else leafNodes);
          errors = errors @ map OutputEdgeFromNonLeafNode (set_difference outputNodes leafNodes);
          leafOutputNodes = set_intersection leafNodes outputNodes;
          errors = (if 1 < length leafOutputNodes then errors @ [MultipleOutputNodes leafOutputNodes] else errors);
          start_node = first_value rootInputNodes;
          end_node = first_value leafOutputNodes;
          errors = (if truthy_name start_node \<and> truthy_name end_node
                       \<and> \<not> hasPath (the start_node) (the end_node) adjacencyList
                    then errors @ [NoContinuousPathFromRootToLeaf (the start_node) (the end_node)] else errors)
      in if 0 < length errors then Inl errors else Inr (start_node, end_node))"

text \<open>
  The specification: the nodes of the selection that main connections enter from outside, the
  nodes they leave from, the nodes that a selected node other than themselves feeds, and the
  nodes that feed one.
\<close>

definition entries_of :: "string set \<Rightarrow> (string \<times> string) set \<Rightarrow> string set" where
  "entries_of S E = {b \<in> S. \<exists>a. a \<notin> S \<and> (a, b) \<in> E}"

definition exits_of :: "string set \<Rightarrow> (string \<times> string) set \<Rightarrow> string set" where
  "exits_of S E = {a \<in> S. \<exists>b. b \<notin> S \<and> (a, b) \<in> E}"

definition fed_inside :: "string set \<Rightarrow> (string \<times> string) set \<Rightarrow> string set" where
  "fed_inside S E = {b \<in> S. \<exists>a \<in> S. a \<noteq> b \<and> (a, b) \<in> E}"

definition feeds_inside :: "string set \<Rightarrow> (string \<times> string) set \<Rightarrow> string set" where
  "feeds_inside S E = {a \<in> S. \<exists>b \<in> S. a \<noteq> b \<and> (a, b) \<in> E}"

definition adjacency_ok :: "adjacency_list \<Rightarrow> bool" where
  "adjacency_ok adj \<longleftrightarrow> distinct (map fst adj)"

lemma adjacent_entry:
  assumes "adjacency_ok adj"
  shows "(a, b) \<in> adjacent adj \<longleftrightarrow> (\<exists>tos c. (a, tos) \<in> set adj \<and> c \<in> set tos \<and> conn_type c = Main_type \<and> conn_node c = b)"
proof (cases "map_of adj a")
  case None
  then have "\<nexists>tos. (a, tos) \<in> set adj" by (force simp: map_of_eq_None_iff)
  with None show ?thesis by (auto simp: adjacent_def next_names_def entry_or_def)
next
  case (Some tos)
  with assms have "(a, ts) \<in> set adj \<longleftrightarrow> ts = tos" for ts
    unfolding adjacency_ok_def by (metis map_of_SomeD map_of_is_SomeI option.inject)
  with Some show ?thesis by (auto simp: adjacent_def next_names_def entry_or_def)
qed

lemma other_targets_iff: "b \<in> set (other_targets adj a) \<longleftrightarrow> a \<noteq> b \<and> (a, b) \<in> adjacent adj"
  by (auto simp: other_targets_def adjacent_def next_names_def)

lemma set_fold_union: "set (fold (\<lambda>n inner. set_union inner (f n)) ns inner) = set inner \<union> (\<Union>n \<in> set ns. set (f n))"
  by (induction ns arbitrary: inner) auto

lemma set_getRootNodes: "set (getRootNodes ids adj) = set ids - fed_inside (set ids) (adjacent adj)"
  by (auto simp: getRootNodes_def set_fold_union other_targets_iff fed_inside_def)

lemma set_fold_if_add:
  "set (fold (\<lambda>n r. if p n then set_add n r else r) ns r) = set r \<union> {n \<in> set ns. p n}"
  by (induction ns arbitrary: r) auto

lemma set_intersection_Nil: "set_intersection a b = [] \<longleftrightarrow> set a \<inter> set b = {}"
  by (metis set_set_intersection set_empty)

lemma set_getLeafNodes: "set (getLeafNodes ids adj) = set ids - feeds_inside (set ids) (adjacent adj)"
  by (auto simp: getLeafNodes_def set_fold_if_add set_intersection_Nil other_targets_iff feeds_inside_def disjoint_iff)

lemma input_nodes_are_entries:
  assumes "adjacency_ok adj"
  shows "set (map (\<lambda>x. conn_node (snd x)) (filter (\<lambda>x. conn_type (snd x) = Main_type) (getInputEdges ids adj)))
    = entries_of (set ids) (adjacent adj)"
  by (force simp: getInputEdges_def entries_of_def adjacent_entry [OF assms] split: if_splits)

lemma output_nodes_are_exits:
  assumes "adjacency_ok adj"
  shows "set (map fst (filter (\<lambda>x. conn_type (snd x) = Main_type) (getOutputEdges ids adj)))
    = exits_of (set ids) (adjacent adj)"
  by (force simp: getOutputEdges_def exits_of_def adjacent_entry [OF assms] split: if_splits)

text \<open>The adjacency list of a connection object holds its connections.\<close>

lemma adjacency_add:
  assumes "adjacency_ok adj"
  shows "adjacency_ok (addOrCreate k v adj)"
    and "(\<exists>tos. (a, tos) \<in> set (addOrCreate k v adj) \<and> c \<in> set tos)
      \<longleftrightarrow> (a = k \<and> c = v) \<or> (\<exists>tos. (a, tos) \<in> set adj \<and> c \<in> set tos)"
proof -
  show "adjacency_ok (addOrCreate k v adj)"
    using assms by (simp add: adjacency_ok_def js_map.distinct_put)
  have "set (addOrCreate k v adj) = insert (k, entry_or [] adj k @ [v]) {e \<in> set adj. fst e \<noteq> k}"
    using assms by (simp add: adjacency_ok_def js_map.entries_put)
  moreover have "c \<in> set (entry_or [] adj k) \<longleftrightarrow> (\<exists>tos. (k, tos) \<in> set adj \<and> c \<in> set tos)"
  proof (cases "map_of adj k")
    case None
    then have "(k, tos) \<notin> set adj" for tos by (force simp: map_of_eq_None_iff)
    with None show ?thesis by (simp add: entry_or_def)
  next
    case (Some tos)
    with assms have "(k, ts) \<in> set adj \<longleftrightarrow> ts = tos" for ts
      unfolding adjacency_ok_def by (metis map_of_eq_Some_iff option.inject)
    with Some show ?thesis by (simp add: entry_or_def)
  qed
  ultimately show "(\<exists>tos. (a, tos) \<in> set (addOrCreate k v adj) \<and> c \<in> set tos)
      \<longleftrightarrow> (a = k \<and> c = v) \<or> (\<exists>tos. (a, tos) \<in> set adj \<and> c \<in> set tos)"
    by (cases "a = k") auto
qed

lemma buildAdjacencyList_holds:
  "adjacency_ok (buildAdjacencyList cs)
   \<and> ((\<exists>tos. (a, tos) \<in> set (buildAdjacencyList cs) \<and> c \<in> set tos) \<longleftrightarrow> (\<exists>t i. (a, t, i, c) \<in> set (conn_entries cs)))"
proof -
  have "adjacency_ok (fold (\<lambda>(n, _, _, c). addOrCreate n c) es adj) \<and>
    ((\<exists>tos. (a, tos) \<in> set (fold (\<lambda>(n, _, _, c). addOrCreate n c) es adj) \<and> c \<in> set tos)
      \<longleftrightarrow> (\<exists>t i. (a, t, i, c) \<in> set es) \<or> (\<exists>tos. (a, tos) \<in> set adj \<and> c \<in> set tos))"
    if "adjacency_ok adj" for es adj
    using that
  proof (induction es arbitrary: adj)
    case (Cons e es)
    obtain n t i d where e: "e = (n, t, i, d)" by (cases e)
    from Cons.IH [OF adjacency_add(1) [OF Cons.prems, of n d]]
    show ?case unfolding e by (auto simp: adjacency_add(2) [OF Cons.prems] simp del: addOrCreate.simps)
  qed simp
  from this [of "[]" "conn_entries cs"] show ?thesis
    by (auto simp: buildAdjacencyList_def adjacency_ok_def)
qed

lemmas buildAdjacencyList_ok = buildAdjacencyList_holds [THEN conjunct1]
lemmas in_buildAdjacencyList = buildAdjacencyList_holds [THEN conjunct2]

text \<open>The main connections of a connection object, between nodes.\<close>

definition main_connected :: "iconnections \<Rightarrow> (string \<times> string) set" where
  "main_connected cs = {(a, b). \<exists>t i c. (a, t, i, c) \<in> set (conn_entries cs) \<and> conn_type c = Main_type \<and> conn_node c = b}"

lemma adjacent_of_connections: "adjacent (buildAdjacencyList cs) = main_connected cs"
proof -
  have "(a, b) \<in> adjacent (buildAdjacencyList cs) \<longleftrightarrow>
      (\<exists>c. (\<exists>tos. (a, tos) \<in> set (buildAdjacencyList cs) \<and> c \<in> set tos) \<and> conn_type c = Main_type \<and> conn_node c = b)" for a b
    by (auto simp: adjacent_entry [OF buildAdjacencyList_ok])
  then have "(a, b) \<in> adjacent (buildAdjacencyList cs) \<longleftrightarrow> (a, b) \<in> main_connected cs" for a b
    unfolding in_buildAdjacencyList main_connected_def by blast
  then show ?thesis by auto
qed

text \<open>
  A selection is extractable: at most one entry and one exit; an entry is not fed inside, unless
  all selected nodes are; an exit feeds nothing inside, unless all do; and a path inside the
  selection joins the two (the code asks this of non-empty names).
\<close>

definition single :: "string set \<Rightarrow> bool" where
  "single A \<longleftrightarrow> (\<forall>a \<in> A. \<forall>b \<in> A. a = b)"

definition extractable :: "string set \<Rightarrow> (string \<times> string) set \<Rightarrow> bool" where
  "extractable S E \<longleftrightarrow>
     single (entries_of S E) \<and> (fed_inside S E \<noteq> S \<longrightarrow> entries_of S E \<inter> fed_inside S E = {})
     \<and> single (exits_of S E) \<and> (feeds_inside S E \<noteq> S \<longrightarrow> exits_of S E \<inter> feeds_inside S E = {})
     \<and> (\<forall>s \<in> entries_of S E - {[]}. \<forall>e \<in> exits_of S E - {[]}. (s, e) \<in> (E \<inter> S \<times> S)\<^sup>*)"

lemma path_stays_inside:
  assumes "exits_of S E \<subseteq> {e}" and "s \<in> S" and "(s, e) \<in> E\<^sup>*"
  shows "(s, e) \<in> (E \<inter> S \<times> S)\<^sup>*"
  using assms(3,2)
proof (induction rule: converse_rtrancl_induct)
  case (step a b)
  show ?case
  proof (cases "a = e")
    case False
    with step assms(1) have "b \<in> S" by (auto simp: exits_of_def)
    with step show ?thesis by (meson IntI SigmaI converse_rtrancl_into_rtrancl)
  qed simp
qed simp

lemma set_difference_Nil: "set_difference a b = [] \<longleftrightarrow> set a \<subseteq> set b"
  by (metis Diff_eq_empty_iff set_empty set_set_difference)

lemma single_distinct:
  assumes "distinct xs"
  shows "1 < length xs \<longleftrightarrow> \<not> single (set xs)"
proof (cases xs rule: remdups_adj.cases)
  case (3 x y zs)
  with assms show ?thesis by (auto simp: single_def)
qed (auto simp: single_def)

lemma first_value_single: "single (set xs) \<Longrightarrow> set_option (first_value xs) = set xs"
  by (cases xs) (auto simp: first_value_def single_def)

text \<open>Both halves of the check, of the entries with the roots and of the exits with the leaves.\<close>

lemma boundary_check:
  assumes "distinct I" and A: "set I = A" and R: "set R = S - F" and "A \<subseteq> S" and "F \<subseteq> S"
    and R': "R' = (if length R = 0 \<and> length I = 1 then I else R)"
  shows "set_difference I R' = [] \<and> \<not> 1 < length (set_intersection R' I)
      \<longleftrightarrow> single A \<and> (F \<noteq> S \<longrightarrow> A \<inter> F = {})"
    and "set_difference I R' = [] \<Longrightarrow> \<not> 1 < length (set_intersection R' I)
      \<Longrightarrow> set_option (first_value (set_intersection R' I)) = A"
proof -
  have len: "1 < length (set_intersection R' I) \<longleftrightarrow> \<not> single (set R' \<inter> A)"
    using single_distinct [of "set_intersection R' I"] A by simp
  have empty: "R = [] \<longleftrightarrow> F = S" using R \<open>F \<subseteq> S\<close> by (auto simp: set_empty [symmetric] simp del: set_empty)
  have one: "length I = 1 \<Longrightarrow> single A"
    using A by (cases I) (auto simp: single_def)
  have none: "single A \<Longrightarrow> length I \<noteq> 1 \<Longrightarrow> A = {}"
    using single_distinct [OF \<open>distinct I\<close>] A by (cases I) auto
  show "set_difference I R' = [] \<and> \<not> 1 < length (set_intersection R' I)
      \<longleftrightarrow> single A \<and> (F \<noteq> S \<longrightarrow> A \<inter> F = {})"
  proof (cases "F = S")
    case True
    with empty have "R = []" by simp
    with R' one none A show ?thesis
      unfolding len set_difference_Nil using True by (cases "length I = 1") (auto simp: single_def)
  next
    case False
    with empty R' have "R' = R" by simp
    moreover have "set R \<inter> A = A \<longleftrightarrow> A \<inter> F = {}" "A \<subseteq> set R \<longleftrightarrow> A \<inter> F = {}"
      using R \<open>A \<subseteq> S\<close> by blast+
    ultimately show ?thesis
      unfolding len set_difference_Nil A using False by auto
  qed
  assume "set_difference I R' = []" "\<not> 1 < length (set_intersection R' I)"
  then have "A \<subseteq> set R'" "single (set (set_intersection R' I))"
    using A single_distinct [of "set_intersection R' I"] by (simp_all add: set_difference_Nil)
  then show "set_option (first_value (set_intersection R' I)) = A"
    using A by (auto simp: first_value_single)
qed

lemma truthy_name_iff: "truthy_name nm \<longleftrightarrow> (\<exists>x. nm = Some x \<and> x \<noteq> [])"
  by (cases nm) (auto simp: truthy_name_def)

theorem parse_selection_spec:
  fixes adj :: adjacency_list and ids :: "string list"
  defines "S \<equiv> set ids" and "E \<equiv> adjacent adj"
  assumes ok: "adjacency_ok adj"
  shows "(\<exists>s e. parseExtractableSubgraphSelection ids adj = Inr (s, e)) \<longleftrightarrow> extractable S E"
    and "parseExtractableSubgraphSelection ids adj = Inr (s, e) \<Longrightarrow>
      set_option s = entries_of S E \<and> set_option e = exits_of S E"
proof -
  let ?I = "set_of (map (\<lambda>x. conn_node (snd x)) (filter (\<lambda>x. conn_type (snd x) = Main_type) (getInputEdges ids adj)))"
  let ?O = "set_of (map fst (filter (\<lambda>x. conn_type (snd x) = Main_type) (getOutputEdges ids adj)))"
  define R where "R = (if length (getRootNodes ids adj) = 0 \<and> length ?I = 1 then ?I else getRootNodes ids adj)"
  define L where "L = (if length (getLeafNodes ids adj) = 0 \<and> length ?O = 1 then ?O else getLeafNodes ids adj)"
  define st where "st = first_value (set_intersection R ?I)"
  define en where "en = first_value (set_intersection L ?O)"
  have I: "set ?I = entries_of S E" and O: "set ?O = exits_of S E"
    using input_nodes_are_entries [OF ok] output_nodes_are_exits [OF ok] by (simp_all add: S_def E_def)
  have R: "set (getRootNodes ids adj) = S - fed_inside S E" and L: "set (getLeafNodes ids adj) = S - feeds_inside S E"
    by (simp_all add: S_def E_def set_getRootNodes set_getLeafNodes)
  let ?in_ok = "set_difference ?I R = [] \<and> \<not> 1 < length (set_intersection R ?I)"
  let ?out_ok = "set_difference ?O L = [] \<and> \<not> 1 < length (set_intersection L ?O)"
  let ?broken = "truthy_name st \<and> truthy_name en \<and> \<not> hasPath (the st) (the en) adj"
  have ins: "?in_ok \<longleftrightarrow> single (entries_of S E) \<and> (fed_inside S E \<noteq> S \<longrightarrow> entries_of S E \<inter> fed_inside S E = {})"
    "set_difference ?I R = [] \<Longrightarrow> \<not> 1 < length (set_intersection R ?I) \<Longrightarrow> set_option st = entries_of S E"
    using boundary_check [OF distinct_set_of I R _ _ R_def]
    by (simp_all add: entries_of_def fed_inside_def subset_eq st_def)
  have outs: "?out_ok \<longleftrightarrow> single (exits_of S E) \<and> (feeds_inside S E \<noteq> S \<longrightarrow> exits_of S E \<inter> feeds_inside S E = {})"
    "set_difference ?O L = [] \<Longrightarrow> \<not> 1 < length (set_intersection L ?O) \<Longrightarrow> set_option en = exits_of S E"
    using boundary_check [OF distinct_set_of O L _ _ L_def]
    by (simp_all add: exits_of_def feeds_inside_def subset_eq en_def)
  have accepted: "parseExtractableSubgraphSelection ids adj = Inr r \<longleftrightarrow> ?in_ok \<and> ?out_ok \<and> \<not> ?broken \<and> r = (st, en)" for r
    unfolding parseExtractableSubgraphSelection_def Let_def R_def [symmetric] L_def [symmetric]
      st_def [symmetric] en_def [symmetric]
    by auto
  have path: "\<not> ?broken \<longleftrightarrow> (\<forall>s \<in> entries_of S E - {[]}. \<forall>e \<in> exits_of S E - {[]}. (s, e) \<in> (E \<inter> S \<times> S)\<^sup>*)"
    if "?in_ok" "?out_ok"
  proof -
    have st: "set_option st = entries_of S E" and en: "set_option en = exits_of S E"
      using that ins(2) outs(2) by blast+
    have "(s, e) \<in> E\<^sup>* \<longleftrightarrow> (s, e) \<in> (E \<inter> S \<times> S)\<^sup>*" if "st = Some s" "en = Some e" for s e
    proof
      have "exits_of S E \<subseteq> {e}" "s \<in> S"
        using that st en by (auto simp: entries_of_def)
      then show "(s, e) \<in> (E \<inter> S \<times> S)\<^sup>*" if "(s, e) \<in> E\<^sup>*"
        using that by (rule path_stays_inside)
      show "(s, e) \<in> E\<^sup>*" if "(s, e) \<in> (E \<inter> S \<times> S)\<^sup>*"
        using that rtrancl_mono [of "E \<inter> S \<times> S" E] by blast
    qed
    then show ?thesis
      unfolding st [symmetric] en [symmetric] truthy_name_iff hasPath_iff E_def [symmetric]
      by (cases st; cases en) auto
  qed
  show "(\<exists>s e. parseExtractableSubgraphSelection ids adj = Inr (s, e)) \<longleftrightarrow> extractable S E"
  proof (cases "?in_ok \<and> ?out_ok")
    case True
    with path accepted [of "(st, en)"] ins(1) outs(1) accepted show ?thesis
      unfolding extractable_def by metis
  next
    case False
    then have "\<not> extractable S E"
      unfolding extractable_def using ins(1) outs(1) by argo
    with False show ?thesis using accepted by metis
  qed
  assume "parseExtractableSubgraphSelection ids adj = Inr (s, e)"
  with accepted [of "(s, e)"] have acc: "?in_ok" "?out_ok" "(s, e) = (st, en)" by argo+
  from acc(3) have se: "s = st" "e = en" by simp_all
  show "set_option s = entries_of S E \<and> set_option e = exits_of S E"
    unfolding se using ins(2) outs(2) acc(1,2) by argo
qed

end
