(* ===== verification/Node_Grouping.thy ===== *)
theory Node_Grouping
  imports Graph_Selection
begin

text \<open>
  When a selection of nodes can become a group or a workflow of its own, from
  \<^verbatim>\<open>packages/workflow/src/node-grouping-validation.ts\<close>: no trigger, an extractable subgraph, one
  connected piece, no node in another group, only main connections over the boundary. The
  functions \<^verbatim>\<open>getNodeType\<close>, \<^verbatim>\<open>getNodeInputs\<close> and \<^verbatim>\<open>getNodeOutputs\<close> are arguments, as in the code.
\<close>

section \<open>The input and the results\<close>

text \<open>
  An input or output is declared by its type or by a configuration with one; a declaration that is
  no array (an expression) is \<open>None\<close>.
\<close>

datatype node_io = IoType string | IoConfiguration string

record type_description =
  td_group :: "string list"
  td_inputs :: "node_io list option"
  td_outputs :: "node_io list option"

record workflow_group =
  wg_id :: string
  wg_name :: string
  wg_nodeIds :: "string list"

record grouping_input =
  gi_nodes :: "inode list"
  gi_connectionsBySourceNode :: iconnections
  gi_getNodeType :: "inode \<Rightarrow> type_description option"
  gi_existingNodeGroups :: "workflow_group list option"
  gi_getNodeInputs :: "(inode \<Rightarrow> type_description \<Rightarrow> node_io list) option"
  gi_getNodeOutputs :: "(inode \<Rightarrow> type_description \<Rightarrow> node_io list) option"

datatype selection_result =
    ValidSelection "inode list" "string option \<times> string option"
  | TriggerSelected "string list"
  | InvalidSubgraph "extract_error list"
  | MultipleInputBranches string
  | MultipleOutputBranches string
  | NodeAlreadyGrouped "string list"
  | NonMainBoundary string string string

section \<open>A connected selection\<close>

definition add_neighbor :: "string \<Rightarrow> string \<Rightarrow> (string, string list) jsmap \<Rightarrow> (string, string list) jsmap" where
  "add_neighbor k v m = (case map_of m k of None \<Rightarrow> m | Some s \<Rightarrow> map_set k (set_add v s) m)"

fun link_connection :: "string list \<Rightarrow> string \<Rightarrow> iconnection \<Rightarrow> (string, string list) jsmap \<Rightarrow> (string, string list) jsmap" where
  "link_connection nodeNames source connection m =
     (if conn_node connection \<notin> set nodeNames \<or> conn_node connection = source then m
      else add_neighbor (conn_node connection) source (add_neighbor source (conn_node connection) m))"

fun link_entry :: "string list \<Rightarrow> string \<times> iconnection list \<Rightarrow> (string, string list) jsmap \<Rightarrow> (string, string list) jsmap" where
  "link_entry nodeNames (source, connections) m =
     (if source \<notin> set nodeNames then m else fold (link_connection nodeNames source) connections m)"

definition neighborsByNodeName :: "string list \<Rightarrow> adjacency_list \<Rightarrow> (string, string list) jsmap" where
  "neighborsByNodeName nodeNames adjacencyList =
     fold (link_entry nodeNames) adjacencyList (map (\<lambda>n. (n, [])) nodeNames)"

fun visit_neighbor :: "string \<Rightarrow> string list \<times> string list \<Rightarrow> string list \<times> string list" where
  "visit_neighbor n (visited, queue) =
     (if n \<in> set visited then (visited, queue) else (set_add n visited, queue @ [n]))"

lemma fold_visit_neighbor:
  "\<exists>new. fold visit_neighbor ns (visited, queue) = (visited @ new, queue @ new)
     \<and> set new = set ns - set visited \<and> distinct new"
proof (induction ns arbitrary: visited queue)
  case (Cons n ns)
  show ?case
  proof (cases "n \<in> set visited")
    case True
    with Cons.IH [of visited queue] show ?thesis by auto
  next
    case False
    obtain new where "fold visit_neighbor ns (visited @ [n], queue @ [n]) = ((visited @ [n]) @ new, (queue @ [n]) @ new)"
      "set new = set ns - set (visited @ [n])" "distinct new"
      using Cons.IH by blast
    with False show ?thesis by (intro exI [of _ "n # new"]) (auto simp: set_add_def)
  qed
qed simp

text \<open>The queue grows by what is visited first; an entry is taken from its front.\<close>

function visit_queue :: "(string, string list) jsmap \<Rightarrow> string list \<Rightarrow> string list \<Rightarrow> string list" where
  "visit_queue neighbors visited [] = visited"
| "visit_queue neighbors visited (x # queue) =
     (if x = [] then visit_queue neighbors visited queue
      else case fold visit_neighbor (entry_or [] neighbors x) (visited, queue) of
        (visited', queue') \<Rightarrow> visit_queue neighbors visited' queue')"
  by pat_completeness auto

definition all_neighbors :: "(string, string list) jsmap \<Rightarrow> string set" where
  "all_neighbors m = (\<Union>(k, ns) \<in> set m. set ns)"

lemma finite_all_neighbors [simp]: "finite (all_neighbors m)"
  by (auto simp: all_neighbors_def)

lemma entry_or_neighbors: "set (entry_or [] m x) \<subseteq> all_neighbors m"
  by (cases "map_of m x") (force simp: entry_or_def all_neighbors_def dest: map_of_SomeD)+

termination visit_queue
proof (relation "inv_image (less_than <*lex*> less_than)
      (\<lambda>(m, visited, queue). (card (all_neighbors m - set visited), length queue))", goal_cases)
  case 1
  show ?case by (intro wf_inv_image wf_lex_prod wf_less_than)
next
  case (2 m visited x queue)
  then show ?case by simp
next
  case (3 m visited x queue visited' queue')
  obtain new where new: "fold visit_neighbor (entry_or [] m x) (visited, queue) = (visited @ new, queue @ new)"
    "set new = set (entry_or [] m x) - set visited"
    using fold_visit_neighbor by blast
  with 3 have eq: "visited' = visited @ new" "queue' = queue @ new" by auto
  show ?case
  proof (cases new)
    case (Cons y ys)
    have "all_neighbors m - set visited' \<subset> all_neighbors m - set visited"
      using entry_or_neighbors [of m x] new(2) eq Cons by auto
    then show ?thesis by (simp add: psubset_card_mono)
  qed (simp add: eq)
qed

definition findDisconnectedSelectionError :: "string list \<Rightarrow> adjacency_list \<Rightarrow> extract_error option" where
  "findDisconnectedSelectionError nodeNames adjacencyList =
     (if length nodeNames \<le> 1 then None
      else let neighbors = neighborsByNodeName nodeNames adjacencyList;
               firstNodeName = hd nodeNames
        in if firstNodeName = [] then None
           else let visited = visit_queue neighbors [firstNodeName] [firstNodeName]
             in if length visited = length nodeNames then None
                else case find (\<lambda>nodeName. nodeName \<notin> set visited) nodeNames of
                  None \<Rightarrow> None
                | Some d \<Rightarrow> if d = [] then None else Some (NoContinuousPathFromRootToLeaf firstNodeName d))"

section \<open>The checks\<close>

definition is_trigger_description :: "type_description \<Rightarrow> bool" where
  "is_trigger_description t \<longleftrightarrow> ''trigger'' \<in> set (td_group t)"

definition findAlreadyGroupedNodeIds :: "string list \<Rightarrow> workflow_group list \<Rightarrow> string list" where
  "findAlreadyGroupedNodeIds selectionNodeIds existingNodeGroups =
     (let groupedNodeIds = set_of (concat (map wg_nodeIds existingNodeGroups))
      in filter (\<lambda>nodeId. nodeId \<in> set groupedNodeIds) selectionNodeIds)"

fun isMainIo :: "node_io \<Rightarrow> bool" where
  "isMainIo (IoType t) \<longleftrightarrow> t = Main_type"
| "isMainIo (IoConfiguration t) \<longleftrightarrow> t = Main_type"

text \<open>The declared inputs or outputs of a node: the getter's, if there is one, or the description's.\<close>

definition hasSingleMainIO ::
    "string \<Rightarrow> (inode \<Rightarrow> type_description \<Rightarrow> node_io list) option \<Rightarrow> (type_description \<Rightarrow> node_io list option)
      \<Rightarrow> (string, inode) jsmap \<Rightarrow> (inode \<Rightarrow> type_description option) \<Rightarrow> bool" where
  "hasSingleMainIO nodeName getter declared nodesByName getNodeType =
     (case map_of nodesByName nodeName of
        None \<Rightarrow> True
      | Some node \<Rightarrow>
          (case getNodeType node of
             None \<Rightarrow> True
           | Some nodeType \<Rightarrow>
               (case (case getter of Some g \<Rightarrow> Some (g node nodeType) | None \<Rightarrow> declared nodeType) of
                  None \<Rightarrow> True
                | Some ios \<Rightarrow> length (filter isMainIo ios) \<le> 1)))"

definition findNonMainBoundaryConnection :: "string list \<Rightarrow> iconnections \<Rightarrow> (string \<times> string \<times> string) option" where
  "findNonMainBoundaryConnection nodeNames connectionsBySourceNode =
     map_option (\<lambda>(source, type, _, connection). (source, conn_node connection, type))
       (find (\<lambda>(source, type, _, connection).
           type \<noteq> Main_type \<and> (source \<in> set nodeNames) \<noteq> (conn_node connection \<in> set nodeNames))
         (conn_entries connectionsBySourceNode))"

definition validateNodeSelectionSubgraph :: "grouping_input \<Rightarrow> selection_result" where
  "validateNodeSelectionSubgraph input =
     (let nodes = gi_nodes input;
          triggers = filter (\<lambda>node. case gi_getNodeType input node of
              None \<Rightarrow> False | Some t \<Rightarrow> is_trigger_description t) nodes
      in if 0 < length triggers then TriggerSelected (map node_name triggers)
         else let adjacencyList = buildAdjacencyList (gi_connectionsBySourceNode input);
                  selectedNodeNames = set_of (map node_name nodes)
           in case parseExtractableSubgraphSelection selectedNodeNames adjacencyList of
                Inl errors \<Rightarrow> InvalidSubgraph errors
              | Inr selection \<Rightarrow>
                  (case findDisconnectedSelectionError selectedNodeNames adjacencyList of
                     Some err \<Rightarrow> InvalidSubgraph [err]
                   | None \<Rightarrow> ValidSelection nodes selection))"

definition validateNodeSelectionForExtraction :: "grouping_input \<Rightarrow> selection_result" where
  "validateNodeSelectionForExtraction input =
     (case validateNodeSelectionSubgraph input of
        ValidSelection subGraph (start_node, end_node) \<Rightarrow>
          (let nodesByName = fold (\<lambda>node. map_set (node_name node) node) (gi_nodes input) []
           in if truthy_name start_node \<and>
                 \<not> hasSingleMainIO (the start_node) (gi_getNodeInputs input) td_inputs nodesByName (gi_getNodeType input)
              then MultipleInputBranches (the start_node)
              else if truthy_name end_node \<and>
                 \<not> hasSingleMainIO (the end_node) (gi_getNodeOutputs input) td_outputs nodesByName (gi_getNodeType input)
              then MultipleOutputBranches (the end_node)
              else ValidSelection subGraph (start_node, end_node))
      | subgraphResult \<Rightarrow> subgraphResult)"

definition validateNodeSelectionForGrouping :: "grouping_input \<Rightarrow> selection_result" where
  "validateNodeSelectionForGrouping input =
     (let alreadyGroupedNodeIds =
            findAlreadyGroupedNodeIds (map node_id (gi_nodes input))
              (case gi_existingNodeGroups input of None \<Rightarrow> [] | Some gs \<Rightarrow> gs)
      in if 0 < length alreadyGroupedNodeIds then NodeAlreadyGrouped alreadyGroupedNodeIds
         else case validateNodeSelectionSubgraph input of
           ValidSelection subGraph subGraphData \<Rightarrow>
             (case findNonMainBoundaryConnection (set_of (map node_name subGraph)) (gi_connectionsBySourceNode input) of
                Some (source, target, type) \<Rightarrow> NonMainBoundary source target type
              | None \<Rightarrow> ValidSelection subGraph subGraphData)
         | extractableResult \<Rightarrow> extractableResult)"

section \<open>The neighbours are the links inside the selection\<close>

definition neighbor_rel :: "(string, string list) jsmap \<Rightarrow> (string \<times> string) set" where
  "neighbor_rel m = {(a, b). b \<in> set (entry_or [] m a)}"

text \<open>Two selected nodes are linked if a connection of any type joins them, in either direction.\<close>

definition links :: "string set \<Rightarrow> adjacency_list \<Rightarrow> (string \<times> string) set" where
  "links S adj = {(a, b). a \<in> S \<and> b \<in> S \<and> a \<noteq> b \<and>
     (\<exists>s tos c. (s, tos) \<in> set adj \<and> c \<in> set tos \<and> (s, conn_node c) \<in> {(a, b), (b, a)})}"

lemma neighbor_rel_add:
  "neighbor_rel (add_neighbor k v m) = neighbor_rel m \<union> (if k \<in> fst ` set m then {(k, v)} else {})"
  by (cases "map_of m k")
     (auto simp: add_neighbor_def neighbor_rel_def entry_or_def map_of_eq_None_iff update_conv dest: map_of_SomeD
       intro: rev_image_eqI split: if_splits option.splits)

lemma dom_add_neighbor: "fst ` set (add_neighbor k v m) = fst ` set m"
  by (cases "map_of m k")
     (auto simp: add_neighbor_def js_map.keys_put dest: map_of_SomeD intro: rev_image_eqI)

lemma fold_link_connection:
  assumes "fst ` set m = set ns" and "source \<in> set ns"
  shows "fst ` set (fold (link_connection ns source) cs m) = set ns"
    and "neighbor_rel (fold (link_connection ns source) cs m) = neighbor_rel m \<union>
      {(a, b). a \<noteq> b \<and> a \<in> set ns \<and> b \<in> set ns \<and> (\<exists>c \<in> set cs. (source, conn_node c) \<in> {(a, b), (b, a)})}"
  using assms
  by (induction cs arbitrary: m) (auto simp: dom_add_neighbor neighbor_rel_add)

lemma links_Cons:
  "links S ((source, cs) # adj) = links S adj \<union>
     {(a, b). a \<noteq> b \<and> a \<in> S \<and> b \<in> S \<and> (\<exists>c \<in> set cs. (source, conn_node c) \<in> {(a, b), (b, a)})}"
  unfolding links_def by auto

lemma fold_link_entry:
  "fst ` set m = set ns \<Longrightarrow> neighbor_rel (fold (link_entry ns) adj m) = neighbor_rel m \<union> links (set ns) adj"
proof (induction adj arbitrary: m)
  case Nil
  then show ?case by (simp add: links_def)
next
  case (Cons e adj)
  obtain source cs where e: "e = (source, cs)" by (cases e)
  show ?case
  proof (cases "source \<in> set ns")
    case True
    with Cons.IH [OF fold_link_connection(1) [OF Cons.prems True]] fold_link_connection(2) [OF Cons.prems True]
    show ?thesis unfolding e links_Cons by (simp add: Un_ac)
  next
    case False
    with Cons show ?thesis by (auto simp: e links_Cons)
  qed
qed

lemma neighbors_are_links: "neighbor_rel (neighborsByNodeName ns adj) = links (set ns) adj"
proof -
  have "neighbor_rel (map (\<lambda>n. (n, [])) ns) = {}"
    by (auto simp: neighbor_rel_def entry_or_def map_of_map_restrict restrict_map_def split: option.splits)
  then show ?thesis
    unfolding neighborsByNodeName_def by (subst fold_link_entry) (auto simp: image_image)
qed

section \<open>The search visits what is linked to the first node\<close>

lemma visit_queue_correct:
  assumes "set queue \<subseteq> set visited"
    and "\<And>v w. v \<in> set visited \<Longrightarrow> v \<notin> set queue \<Longrightarrow> (v, w) \<in> neighbor_rel m \<Longrightarrow> w \<in> set visited"
    and "[] \<notin> set visited" and "\<And>v. (v, []) \<notin> neighbor_rel m" and "distinct visited"
  shows "set visited \<subseteq> set (visit_queue m visited queue)
     \<and> set (visit_queue m visited queue) \<subseteq> (neighbor_rel m)\<^sup>* `` set visited
     \<and> neighbor_rel m `` set (visit_queue m visited queue) \<subseteq> set (visit_queue m visited queue)
     \<and> distinct (visit_queue m visited queue)"
  using assms
proof (induction m visited queue rule: visit_queue.induct)
  case (1 m visited)
  then show ?case by auto
next
  case (2 m visited x queue)
  obtain new where new: "fold visit_neighbor (entry_or [] m x) (visited, queue) = (visited @ new, queue @ new)"
    "set new = set (entry_or [] m x) - set visited" "distinct new"
    using fold_visit_neighbor by blast
  have x: "x \<noteq> []" "x \<in> set visited" using 2(3,5) by auto
  have rel: "(x, w) \<in> neighbor_rel m \<longleftrightarrow> w \<in> set (entry_or [] m x)" for w
    by (simp add: neighbor_rel_def)
  have "[] \<notin> set new" using new(2) rel 2(6) by auto
  then have "set (visited @ new) \<subseteq> set (visit_queue m (visited @ new) (queue @ new))
     \<and> set (visit_queue m (visited @ new) (queue @ new)) \<subseteq> (neighbor_rel m)\<^sup>* `` set (visited @ new)
     \<and> neighbor_rel m `` set (visit_queue m (visited @ new) (queue @ new)) \<subseteq> set (visit_queue m (visited @ new) (queue @ new))
     \<and> distinct (visit_queue m (visited @ new) (queue @ new))"
  proof (intro 2(2) [OF x(1) new(1) [symmetric]], goal_cases)
    case 1
    then show ?case using 2(3) by auto
  next
    case (2 v w)
    show ?case
    proof (cases "v = x")
      case True
      then show ?thesis using 2 rel new(2) by auto
    next
      case False
      with 2 show ?thesis using "2.prems"(2) [of v w] by auto
    qed
  next
    case 3
    then show ?case using 2(5) by auto
  next
    case (4 v)
    then show ?case using 2(6) by auto
  next
    case 5
    then show ?case using 2(7) new(2,3) by auto
  qed
  moreover have "set new \<subseteq> (neighbor_rel m)\<^sup>* `` set visited"
    using new(2) rel x(2) by blast
  then have "(neighbor_rel m)\<^sup>* `` set (visited @ new) \<subseteq> (neighbor_rel m)\<^sup>* `` set visited"
    by (auto intro: rtrancl_trans)
  ultimately show ?case using x(1) new(1) by auto
qed

text \<open>The specification: any two nodes of the selection are linked by a chain inside it.\<close>

definition connected_selection :: "string set \<Rightarrow> adjacency_list \<Rightarrow> bool" where
  "connected_selection S adj \<longleftrightarrow> S \<times> S \<subseteq> (links S adj)\<^sup>*"

lemma sym_links: "sym (links S adj)"
  unfolding sym_def links_def by blast

lemma connected_selection_from:
  assumes "x \<in> S"
  shows "connected_selection S adj \<longleftrightarrow> S \<subseteq> (links S adj)\<^sup>* `` {x}"
proof -
  have "(a, b) \<in> (links S adj)\<^sup>*" if "(x, a) \<in> (links S adj)\<^sup>*" "(x, b) \<in> (links S adj)\<^sup>*" for a b
    using that sym_rtrancl [OF sym_links] by (meson rtrancl_trans symD)
  with assms show ?thesis unfolding connected_selection_def by blast
qed

lemma findDisconnectedSelectionError_iff:
  assumes d: "distinct ns" and ne: "[] \<notin> set ns"
  shows "findDisconnectedSelectionError ns adj = None \<longleftrightarrow> connected_selection (set ns) adj"
proof (cases "length ns \<le> 1")
  case True
  then have "connected_selection (set ns) adj"
    by (cases ns) (auto simp: connected_selection_def)
  with True show ?thesis by (simp add: findDisconnectedSelectionError_def)
next
  case False
  then obtain x xs where ns: "ns = x # xs" by (cases ns) auto
  let ?S = "set ns" and ?V = "visit_queue (neighborsByNodeName ns adj) [x] [x]"
  have inside: "links ?S adj \<subseteq> ?S \<times> ?S" by (auto simp: links_def)
  with ne ns have "x \<noteq> []" "\<And>v. (v, []) \<notin> links ?S adj" by auto
  then have V: "{x} \<subseteq> set ?V" "set ?V \<subseteq> (links ?S adj)\<^sup>* `` {x}" "links ?S adj `` set ?V \<subseteq> set ?V" "distinct ?V"
    using visit_queue_correct [of "[x]" "[x]" "neighborsByNodeName ns adj"] by (simp_all add: neighbors_are_links)
  have "set ?V = (links ?S adj)\<^sup>* `` {x}"
    using V(1-3) Image_closed_trancl [of "links ?S adj" "set ?V"] Image_mono [of "(links ?S adj)\<^sup>*" "(links ?S adj)\<^sup>*" "{x}" "set ?V"]
    by auto
  moreover have "(links ?S adj)\<^sup>* `` {x} \<subseteq> ?S"
    using inside ns by (auto elim: rtranclE)
  moreover have "length ?V = length ns \<longleftrightarrow> card (set ?V) = card ?S"
    using V(4) d by (simp add: distinct_card)
  ultimately have len: "length ?V = length ns \<longleftrightarrow> ?S \<subseteq> (links ?S adj)\<^sup>* `` {x}"
    by (metis List.finite_set card_subset_eq subset_antisym order_refl)
  define V where "V = ?V"
  have "findDisconnectedSelectionError ns adj =
      (if length V = length ns then None
       else case find (\<lambda>n. n \<notin> set V) ns of
         None \<Rightarrow> None | Some d \<Rightarrow> if d = [] then None else Some (NoContinuousPathFromRootToLeaf x d))"
    using False \<open>x \<noteq> []\<close> ns
    by (simp add: findDisconnectedSelectionError_def Let_def V_def del: visit_queue.simps)
  moreover have "d \<noteq> []" if "find (\<lambda>n. n \<notin> set V) ns = Some d" for d
    using that ne by (metis find_Some_iff nth_mem)
  ultimately have "findDisconnectedSelectionError ns adj = None \<longleftrightarrow>
      length V = length ns \<or> find (\<lambda>n. n \<notin> set V) ns = None"
    by (auto split: option.split)
  also have "\<dots> \<longleftrightarrow> ?S \<subseteq> (links ?S adj)\<^sup>* `` {x}"
    using len V(2) unfolding V_def by (auto simp: find_None_iff simp del: visit_queue.simps)
  finally show ?thesis using connected_selection_from [of x ?S] ns by simp
qed

section \<open>What is accepted\<close>

definition selection_names :: "grouping_input \<Rightarrow> string set" where
  "selection_names input = node_name ` set (gi_nodes input)"

text \<open>Two selected nodes are joined by a connection of any type, in either direction.\<close>

definition joined_by :: "string set \<Rightarrow> iconnections \<Rightarrow> (string \<times> string) set" where
  "joined_by S cs = {(a, b). a \<in> S \<and> b \<in> S \<and> a \<noteq> b \<and>
     (\<exists>s t i c. (s, t, i, c) \<in> set (conn_entries cs) \<and> (s, conn_node c) \<in> {(a, b), (b, a)})}"

lemma links_of_connections: "links S (buildAdjacencyList cs) = joined_by S cs"
proof -
  have "(\<exists>s tos c. (s, tos) \<in> set (buildAdjacencyList cs) \<and> c \<in> set tos \<and> (s, conn_node c) \<in> {(a, b), (b, a)})
      \<longleftrightarrow> (\<exists>s t i c. (s, t, i, c) \<in> set (conn_entries cs) \<and> (s, conn_node c) \<in> {(a, b), (b, a)})" for a b
    using in_buildAdjacencyList [of _ cs] by blast
  then show ?thesis by (simp only: links_def joined_by_def)
qed

definition subgraph_selectable :: "grouping_input \<Rightarrow> bool" where
  "subgraph_selectable input \<longleftrightarrow>
     (\<forall>n \<in> set (gi_nodes input). \<forall>t. gi_getNodeType input n = Some t \<longrightarrow> \<not> is_trigger_description t)
     \<and> extractable (selection_names input) (main_connected (gi_connectionsBySourceNode input))
     \<and> selection_names input \<times> selection_names input
         \<subseteq> (joined_by (selection_names input) (gi_connectionsBySourceNode input))\<^sup>*"

lemma validate_subgraph_iff:
  assumes ne: "[] \<notin> selection_names input"
  shows "(\<exists>ns s e. validateNodeSelectionSubgraph input = ValidSelection ns (s, e)) \<longleftrightarrow> subgraph_selectable input"
    and "validateNodeSelectionSubgraph input = ValidSelection ns (s, e) \<Longrightarrow> ns = gi_nodes input
      \<and> set_option s = entries_of (selection_names input) (main_connected (gi_connectionsBySourceNode input))
      \<and> set_option e = exits_of (selection_names input) (main_connected (gi_connectionsBySourceNode input))"
proof -
  let ?ids = "set_of (map node_name (gi_nodes input))" and ?cs = "gi_connectionsBySourceNode input"
  let ?adj = "buildAdjacencyList ?cs"
  let ?trig = "filter (\<lambda>node. case gi_getNodeType input node of None \<Rightarrow> False | Some t \<Rightarrow> is_trigger_description t) (gi_nodes input)"
  have S: "set ?ids = selection_names input" by (simp add: selection_names_def)
  have trig: "?trig = [] \<longleftrightarrow> (\<forall>n \<in> set (gi_nodes input). \<forall>t. gi_getNodeType input n = Some t \<longrightarrow> \<not> is_trigger_description t)"
    by (auto simp: filter_empty_conv split: option.splits)
  have connected: "findDisconnectedSelectionError ?ids ?adj = None \<longleftrightarrow>
      selection_names input \<times> selection_names input \<subseteq> (joined_by (selection_names input) ?cs)\<^sup>*"
    using findDisconnectedSelectionError_iff [of ?ids ?adj] ne
    by (simp only: S distinct_set_of connected_selection_def links_of_connections simp_thms)
  have parse: "(\<exists>s e. parseExtractableSubgraphSelection ?ids ?adj = Inr (s, e))
      \<longleftrightarrow> extractable (selection_names input) (main_connected ?cs)"
    using parse_selection_spec(1) [OF buildAdjacencyList_ok, of ?ids ?cs] by (simp only: S adjacent_of_connections)
  have valid: "validateNodeSelectionSubgraph input = ValidSelection ns (s, e) \<longleftrightarrow>
      ?trig = [] \<and> ns = gi_nodes input \<and> parseExtractableSubgraphSelection ?ids ?adj = Inr (s, e)
      \<and> findDisconnectedSelectionError ?ids ?adj = None" for ns s e
    by (auto simp: validateNodeSelectionSubgraph_def Let_def split: sum.split option.split)
  show "(\<exists>ns s e. validateNodeSelectionSubgraph input = ValidSelection ns (s, e)) \<longleftrightarrow> subgraph_selectable input"
    unfolding valid subgraph_selectable_def trig [symmetric] connected [symmetric] parse [symmetric] by blast
  assume "validateNodeSelectionSubgraph input = ValidSelection ns (s, e)"
  with parse_selection_spec(2) [OF buildAdjacencyList_ok, of ?ids ?cs s e]
  show "ns = gi_nodes input
      \<and> set_option s = entries_of (selection_names input) (main_connected ?cs)
      \<and> set_option e = exits_of (selection_names input) (main_connected ?cs)"
    unfolding valid S adjacent_of_connections by blast
qed

definition already_grouped :: "grouping_input \<Rightarrow> bool" where
  "already_grouped input \<longleftrightarrow> (\<exists>gs. gi_existingNodeGroups input = Some gs \<and>
     (\<exists>g \<in> set gs. \<exists>n \<in> set (gi_nodes input). node_id n \<in> set (wg_nodeIds g)))"

lemma findAlreadyGrouped_Nil:
  "findAlreadyGroupedNodeIds (map node_id (gi_nodes input))
     (case gi_existingNodeGroups input of None \<Rightarrow> [] | Some gs \<Rightarrow> gs) = [] \<longleftrightarrow> \<not> already_grouped input"
  by (cases "gi_existingNodeGroups input")
     (auto simp: findAlreadyGroupedNodeIds_def already_grouped_def filter_empty_conv)

definition main_boundary :: "string set \<Rightarrow> iconnections \<Rightarrow> bool" where
  "main_boundary S cs \<longleftrightarrow> (\<forall>(a, t, i, c) \<in> set (conn_entries cs). (a \<in> S) \<noteq> (conn_node c \<in> S) \<longrightarrow> t = Main_type)"

lemma findNonMainBoundaryConnection_None:
  "findNonMainBoundaryConnection ns cs = None \<longleftrightarrow> main_boundary (set ns) cs"
  by (auto simp: findNonMainBoundaryConnection_def find_None_iff main_boundary_def)

lemma grouping_iff:
  assumes ne: "[] \<notin> selection_names input"
  shows "(\<exists>ns s e. validateNodeSelectionForGrouping input = ValidSelection ns (s, e)) \<longleftrightarrow>
     \<not> already_grouped input \<and> subgraph_selectable input
     \<and> main_boundary (selection_names input) (gi_connectionsBySourceNode input)"
    and "validateNodeSelectionForGrouping input = ValidSelection ns (s, e) \<Longrightarrow>
      validateNodeSelectionSubgraph input = ValidSelection ns (s, e)"
proof -
  have valid: "validateNodeSelectionForGrouping input = ValidSelection ns (s, e) \<longleftrightarrow>
      \<not> already_grouped input \<and> validateNodeSelectionSubgraph input = ValidSelection ns (s, e)
      \<and> main_boundary (selection_names input) (gi_connectionsBySourceNode input)" for ns s e
  proof (cases "validateNodeSelectionSubgraph input = ValidSelection ns (s, e)")
    case True
    with validate_subgraph_iff(2) [OF ne True]
    have "set (set_of (map node_name ns)) = selection_names input" by (simp add: selection_names_def)
    with True findNonMainBoundaryConnection_None [of "set_of (map node_name ns)" "gi_connectionsBySourceNode input"]
    show ?thesis
      by (auto simp: validateNodeSelectionForGrouping_def Let_def findAlreadyGrouped_Nil split: option.split)
  next
    case False
    then show ?thesis
      by (auto simp: validateNodeSelectionForGrouping_def Let_def split: option.splits selection_result.splits)
  qed
  show "(\<exists>ns s e. validateNodeSelectionForGrouping input = ValidSelection ns (s, e)) \<longleftrightarrow>
     \<not> already_grouped input \<and> subgraph_selectable input
     \<and> main_boundary (selection_names input) (gi_connectionsBySourceNode input)"
    unfolding valid validate_subgraph_iff(1) [OF ne, symmetric] by blast
  show "validateNodeSelectionForGrouping input = ValidSelection ns (s, e) \<Longrightarrow>
      validateNodeSelectionSubgraph input = ValidSelection ns (s, e)"
    unfolding valid by blast
qed

end
