(* ===== verification/Workflow_Diff.thy ===== *)
theory Workflow_Diff
  imports Connections_Diff Node_Grouping "HOL-Library.Sublist"
begin

text \<open>
  The difference of two versions of a workflow and the thinning of a version history, from
  \<^verbatim>\<open>packages/workflow/src/workflow-diff.ts\<close>. The functions \<^verbatim>\<open>isEqual\<close> and \<^verbatim>\<open>pick\<close> of lodash are
  arguments. A workflow is an object the constructor of a change set compares by reference: its
  identity is the field \<open>dw_ref\<close>.
\<close>

section \<open>Nodes and workflows\<close>

text \<open>
  A node: its id, its parameters and every other field (name, type, version, ...).
  \<open>node_object\<close> is the object that lodash sees.
\<close>

record diffable_node =
  dn_id :: string
  dn_parameters :: json
  dn_fields :: data_object

definition node_object :: "diffable_node \<Rightarrow> data_object" where
  "node_object n = (''id'', JStr (dn_id n)) # (''parameters'', dn_parameters n) # dn_fields n"

record diffable_workflow =
  dw_ref :: nat
  dw_nodes :: "diffable_node list"
  dw_connections :: iconnections
  dw_createdAt :: int
  dw_authors :: "string option"
  dw_nodeGroups :: "workflow_group list option"

record lodash =
  isEqual :: "data_object \<Rightarrow> data_object \<Rightarrow> bool"
  pick :: "data_object option \<Rightarrow> string list \<Rightarrow> data_object"

datatype node_diff_status = Eq | Modified | Added | Deleted

type_synonym workflow_nodes_diff = "(string, node_diff_status \<times> diffable_node) jsmap"

definition propsToCompare :: "string list" where
  "propsToCompare = [''name'', ''type'', ''typeVersion'', ''webhookId'', ''credentials'', ''parameters'']"

definition compareNodes :: "lodash \<Rightarrow> diffable_node option \<Rightarrow> diffable_node option \<Rightarrow> bool" where
  "compareNodes lo base target =
     isEqual lo (pick lo (map_option node_object base) propsToCompare)
       (pick lo (map_option node_object target) propsToCompare)"

definition nodes_by_id :: "diffable_node list \<Rightarrow> (string, diffable_node) jsmap" where
  "nodes_by_id nodes = fold (\<lambda>node. map_set (dn_id node) node) nodes []"

definition compareWorkflowsNodes ::
    "(diffable_node option \<Rightarrow> diffable_node option \<Rightarrow> bool) \<Rightarrow> diffable_node list \<Rightarrow> diffable_node list \<Rightarrow> workflow_nodes_diff" where
  "compareWorkflowsNodes nodesEqual base target =
     (let baseNodes = nodes_by_id base;
          targetNodes = nodes_by_id target;
          diff = fold (\<lambda>(id, node). map_set id
              (if map_of targetNodes id = None then (Deleted, node)
               else if \<not> nodesEqual (map_of baseNodes id) (map_of targetNodes id) then (Modified, node)
               else (Eq, node))) baseNodes []
      in fold (\<lambda>(id, node) diff. if map_of baseNodes id = None then map_set id (Added, node) diff else diff)
           targetNodes diff)"

record change_set =
  cs_nodes :: workflow_nodes_diff
  cs_added :: connections_diff
  cs_removed :: connections_diff

definition WorkflowChangeSet :: "lodash \<Rightarrow> diffable_workflow \<Rightarrow> diffable_workflow \<Rightarrow> change_set" where
  "WorkflowChangeSet lo old_version to =
     (if dw_ref old_version = dw_ref to
      then \<lparr>cs_nodes = fold (\<lambda>node. map_set (dn_id node) (Eq, node)) (dw_nodes old_version) [],
             cs_added = [], cs_removed = []\<rparr>
      else let (added, removed) = compareConnections (dw_connections old_version) (dw_connections to)
        in \<lparr>cs_nodes = compareWorkflowsNodes (compareNodes lo) (dw_nodes old_version) (dw_nodes to),
             cs_added = added, cs_removed = removed\<rparr>)"

section \<open>Supersets of strings and parameters\<close>

text \<open>The loop over the characters of the longer string; \<open>i\<close> and \<open>marker\<close> as in the code.\<close>

fun parts_loop :: "string \<Rightarrow> int \<Rightarrow> nat \<Rightarrow> nat \<Rightarrow> string \<Rightarrow> bool" where
  "parts_loop substr diffSize i marker [] \<longleftrightarrow> length substr \<le> marker"
| "parts_loop substr diffSize i marker (c # cs) \<longleftrightarrow>
     (let marker' = (if marker < length substr \<and> substr ! marker = c then marker + 1 else marker)
      in if diffSize < int i - int marker' then False else parts_loop substr diffSize (i + 1) marker' cs)"

definition stringContainsParts :: "string \<Rightarrow> string \<Rightarrow> bool" where
  "stringContainsParts s substr \<longleftrightarrow>
     (if length s < length substr then False
      else parts_loop substr (int (length s) - int (length substr)) 0 0 s)"

lemma parts_loop_subseq:
  assumes "marker \<le> length substr" and "diffSize = int (i + length cs) - int (length substr)"
  shows "parts_loop substr diffSize i marker cs \<longleftrightarrow> subseq (drop marker substr) cs"
  using assms
proof (induction substr diffSize i marker cs rule: parts_loop.induct)
  case (1 substr diffSize i marker)
  then show ?case by (auto dest: list_emb_Nil2)
next
  case (2 substr diffSize i marker c cs)
  let ?m = "if marker < length substr \<and> substr ! marker = c then marker + 1 else marker"
  have rest: "subseq (drop marker substr) (c # cs) \<longleftrightarrow> subseq (drop ?m substr) cs"
  proof (cases "marker < length substr")
    case True
    then have "drop marker substr = substr ! marker # drop (Suc marker) substr" by (simp add: Cons_nth_drop_Suc)
    then show ?thesis using True by (simp add: subseq_Cons2_iff)
  qed (use 2 in simp)
  show ?case
  proof (cases "diffSize < int i - int ?m")
    case True
    with 2(3) have "length cs < length (drop ?m substr)" by auto
    then have "\<not> subseq (drop ?m substr) cs" using list_emb_length by force
    with True rest show ?thesis by (simp add: Let_def)
  next
    case False
    from 2(2) have "?m \<le> length substr" by auto
    moreover have "diffSize = int (i + 1 + length cs) - int (length substr)" using 2(3) by simp
    ultimately have "parts_loop substr diffSize (i + 1) ?m cs \<longleftrightarrow> subseq (drop ?m substr) cs"
      using 2(1) [OF refl False] by blast
    with False rest show ?thesis by (simp add: Let_def)
  qed
qed

lemma stringContainsParts_subseq: "stringContainsParts s substr \<longleftrightarrow> subseq substr s"
proof (cases "length s < length substr")
  case True
  then have "\<not> subseq substr s" using list_emb_length by force
  with True show ?thesis by (simp add: stringContainsParts_def)
next
  case False
  then show ?thesis
    using parts_loop_subseq [of 0 substr "int (length s) - int (length substr)" 0 s]
    by (simp add: stringContainsParts_def)
qed

fun js_typeof :: "json \<Rightarrow> string" where
  "js_typeof (JBool _) = ''boolean''"
| "js_typeof (JNum _) = ''number''"
| "js_typeof (JStr _) = ''string''"
| "js_typeof JNull = ''object''"
| "js_typeof (JArr _) = ''object''"
| "js_typeof (JObj _) = ''object''"

text \<open>
  The own properties of an object: the keys of a plain object; of an array its indices, which are
  its enumerable keys, and \<^verbatim>\<open>length\<close>.
\<close>

fun own_property :: "json \<Rightarrow> string \<Rightarrow> json option" where
  "own_property (JObj ps) k = map_of ps k"
| "own_property (JArr xs) k =
     (case index_key k of
        Some i \<Rightarrow> if i < length xs then Some (xs ! i) else None
      | None \<Rightarrow> if k = ''length'' then Some (JNum (int (length xs))) else None)"
| "own_property _ k = None"

fun keys_length :: "json \<Rightarrow> nat" where
  "keys_length (JObj ps) = length ps"
| "keys_length (JArr xs) = length xs"
| "keys_length _ = 0"

text \<open>
  \<open>prev\<close> decreases. The keys of an object are distinct, so that the loop over them is the loop over
  its entries; a value of \<^verbatim>\<open>next\<close> is read once its key is known to be there.
\<close>

function parametersAreSuperset :: "json \<Rightarrow> json \<Rightarrow> bool" where
  "parametersAreSuperset prev nxt \<longleftrightarrow>
     (if js_typeof prev \<noteq> js_typeof nxt then False
      else case prev of
        JStr p \<Rightarrow> (case nxt of JStr n \<Rightarrow> stringContainsParts n p | _ \<Rightarrow> False)
      | JNull \<Rightarrow> prev = nxt
      | JBool _ \<Rightarrow> prev = nxt
      | JNum _ \<Rightarrow> prev = nxt
      | JArr ps \<Rightarrow>
          (case nxt of
             JArr ns \<Rightarrow> length ps = length ns \<and> list_all (\<lambda>(v, w). parametersAreSuperset v w) (zip ps ns)
           | _ \<Rightarrow> False)
      | JObj ps \<Rightarrow>
          (if nxt = JNull then False
           else if length ps \<noteq> keys_length nxt then False
           else if list_ex (\<lambda>k. own_property nxt k = None) (map fst ps) then False
           else list_all (\<lambda>(k, v). parametersAreSuperset v (the (own_property nxt k))) ps))"
  by pat_completeness auto

lemma size_json_zip: "(v, w) \<in> set (zip ps ns) \<Longrightarrow> size v < size (JArr ps)"
  using size_list_estimation' [of v ps "size v" size] by (auto dest!: set_zip_leftD)

lemma size_json_entry: "(k, v) \<in> set ps \<Longrightarrow> size v < size (JObj ps)"
proof -
  assume "(k, v) \<in> set ps"
  then have "size_prod (\<lambda>_. 0) size (k, v) \<le> size_list (size_prod (\<lambda>_. 0) size) ps"
    by (rule size_list_estimation') simp
  then show ?thesis by simp
qed

termination parametersAreSuperset
  by (relation "measure (size \<circ> fst)") (auto dest: size_json_zip size_json_entry)

declare parametersAreSuperset.simps [simp del]

text \<open>Walking down a value along a path of property names.\<close>

primrec json_at :: "json \<Rightarrow> string list \<Rightarrow> json option" where
  "json_at v [] = Some v"
| "json_at v (k # ks) = (case own_property v k of None \<Rightarrow> None | Some w \<Rightarrow> json_at w ks)"

text \<open>Nothing is lost in one value: strings keep their characters in order, other primitives are kept.\<close>

fun kept_in :: "json \<Rightarrow> json \<Rightarrow> bool" where
  "kept_in (JStr p) w \<longleftrightarrow> (\<exists>n. w = JStr n \<and> subseq p n)"
| "kept_in (JArr ps) w \<longleftrightarrow> (\<exists>ns. w = JArr ns \<and> length ns = length ps)"
| "kept_in (JObj ps) w \<longleftrightarrow> js_typeof w = ''object'' \<and> w \<noteq> JNull \<and> keys_length w = length ps"
| "kept_in v w \<longleftrightarrow> w = v"

lemma typeof_object: "js_typeof v = ''object'' \<longleftrightarrow> v = JNull \<or> (\<exists>xs. v = JArr xs) \<or> (\<exists>ps. v = JObj ps)"
  by (cases v) auto

lemma superset_kept: "parametersAreSuperset prev nxt \<Longrightarrow> kept_in prev nxt"
  by (cases prev; cases nxt) (auto simp: parametersAreSuperset.simps stringContainsParts_subseq split: if_splits)

lemma superset_JArr:
  "parametersAreSuperset (JArr ps) w \<longleftrightarrow>
     (\<exists>ns. w = JArr ns \<and> length ps = length ns \<and> list_all (\<lambda>(v, w). parametersAreSuperset v w) (zip ps ns))"
  by (subst parametersAreSuperset.simps) (cases w; simp)

lemma superset_JNum: "parametersAreSuperset (JNum n) w \<longleftrightarrow> w = JNum n"
  by (subst parametersAreSuperset.simps) (cases w; auto)

lemma superset_JObj:
  "parametersAreSuperset (JObj ps) w \<longleftrightarrow> js_typeof w = ''object'' \<and> w \<noteq> JNull \<and> length ps = keys_length w
     \<and> (\<forall>(k, v) \<in> set ps. \<exists>u. own_property w k = Some u \<and> parametersAreSuperset v u)"
proof -
  have "(\<not> list_ex (\<lambda>k. own_property w k = None) (map fst ps)
        \<and> list_all (\<lambda>(k, v). parametersAreSuperset v (the (own_property w k))) ps) \<longleftrightarrow>
      (\<forall>(k, v) \<in> set ps. \<exists>u. own_property w k = Some u \<and> parametersAreSuperset v u)"
    unfolding list_ex_iff list_all_iff by fastforce
  note keys = this [symmetric]
  show ?thesis
    unfolding parametersAreSuperset.simps [of "JObj ps"] keys js_typeof.simps json.case by argo
qed

lemma superset_JStr: "parametersAreSuperset (JStr s) w \<longleftrightarrow> (\<exists>n. w = JStr n \<and> subseq s n)"
  by (subst parametersAreSuperset.simps) (cases w; auto simp: stringContainsParts_subseq)

text \<open>The equations by which it is evaluated, one per kind of \<open>prev\<close>.\<close>

lemma parametersAreSuperset_code [code]:
  "parametersAreSuperset JNull w = (case w of JNull \<Rightarrow> True | _ \<Rightarrow> False)"
  "parametersAreSuperset (JBool b) w = (case w of JBool c \<Rightarrow> b = c | _ \<Rightarrow> False)"
  "parametersAreSuperset (JNum n) w = (case w of JNum m \<Rightarrow> n = m | _ \<Rightarrow> False)"
  "parametersAreSuperset (JStr s) w = (case w of JStr n \<Rightarrow> stringContainsParts n s | _ \<Rightarrow> False)"
  "parametersAreSuperset (JArr ps) w =
     (case w of JArr ns \<Rightarrow> length ps = length ns \<and> list_all (\<lambda>(v, w). parametersAreSuperset v w) (zip ps ns) | _ \<Rightarrow> False)"
  "parametersAreSuperset (JObj es) w =
     (js_typeof w = ''object'' \<and> (case w of JNull \<Rightarrow> False | _ \<Rightarrow> True) \<and> length es = keys_length w
      \<and> list_all (\<lambda>(k, v). case own_property w k of None \<Rightarrow> False | Some u \<Rightarrow> parametersAreSuperset v u) es)"
proof -
  have "(\<forall>(k, v) \<in> set es. \<exists>u. own_property w k = Some u \<and> parametersAreSuperset v u) \<longleftrightarrow>
      list_all (\<lambda>(k, v). case own_property w k of None \<Rightarrow> False | Some u \<Rightarrow> parametersAreSuperset v u) es"
    unfolding list_all_iff by (intro ball_cong refl) (auto split: option.splits)
  then show "parametersAreSuperset (JObj es) w =
     (js_typeof w = ''object'' \<and> (case w of JNull \<Rightarrow> False | _ \<Rightarrow> True) \<and> length es = keys_length w
      \<and> list_all (\<lambda>(k, v). case own_property w k of None \<Rightarrow> False | Some u \<Rightarrow> parametersAreSuperset v u) es)"
    unfolding superset_JObj by (cases w) simp_all
qed (subst parametersAreSuperset.simps; cases w; auto)+

lemma superset_property:
  assumes "parametersAreSuperset prev nxt" and "own_property prev k = Some v"
  shows "\<exists>w. own_property nxt k = Some w \<and> parametersAreSuperset v w"
proof (cases prev)
  case (JArr ps)
  with assms(1) obtain ns where ns: "nxt = JArr ns" "length ps = length ns"
    "list_all (\<lambda>(v, w). parametersAreSuperset v w) (zip ps ns)"
    by (auto simp: superset_JArr)
  then show ?thesis
    using assms(2) JArr
    by (cases "index_key k") (auto simp: superset_JNum list_all_length split: if_splits)
next
  case (JObj ps)
  with assms(2) have in_ps: "(k, v) \<in> set ps" by (simp add: map_of_SomeD)
  with assms(1) JObj show ?thesis by (auto simp: superset_JObj)
qed (use assms(2) in auto)

lemma superset_at:
  assumes "parametersAreSuperset prev nxt" and "json_at prev path = Some v"
  shows "\<exists>w. json_at nxt path = Some w \<and> parametersAreSuperset v w"
  using assms
proof (induction path arbitrary: prev nxt)
  case (Cons k ks)
  then obtain u where u: "own_property prev k = Some u" "json_at u ks = Some v"
    by (auto split: option.splits)
  from superset_property [OF Cons.prems(1) u(1)] Cons.IH u(2) show ?case by auto
qed simp

lemma superset_keeps:
  assumes "parametersAreSuperset prev nxt" and "json_at prev path = Some v"
  shows "\<exists>w. json_at nxt path = Some w \<and> kept_in v w"
  using superset_at [OF assms] superset_kept by blast

text \<open>A value contains itself, if no object in it has a key twice.\<close>

inductive json_ok :: "json \<Rightarrow> bool" where
  "json_ok JNull" | "json_ok (JBool b)" | "json_ok (JNum n)" | "json_ok (JStr s)"
| "\<forall>x \<in> set xs. json_ok x \<Longrightarrow> json_ok (JArr xs)"
| "distinct (map fst ps) \<Longrightarrow> \<forall>(k, v) \<in> set ps. json_ok v \<Longrightarrow> json_ok (JObj ps)"

lemma superset_refl: "json_ok v \<Longrightarrow> parametersAreSuperset v v"
proof (induction v rule: json_ok.induct)
  case (5 xs)
  then show ?case by (auto simp: superset_JArr list_all_length)
next
  case (6 ps)
  then show ?case by (force simp: superset_JObj)
qed (simp_all add: parametersAreSuperset.simps stringContainsParts_subseq)

section \<open>Additive changes\<close>

definition nodeIsSuperset :: "lodash \<Rightarrow> diffable_node \<Rightarrow> diffable_node \<Rightarrow> bool" where
  "nodeIsSuperset lo prevNode nextNode \<longleftrightarrow>
     (if \<not> compareNodes lo (Some (prevNode\<lparr>dn_parameters := JObj []\<rparr>)) (Some (nextNode\<lparr>dn_parameters := JObj []\<rparr>))
      then False
      else parametersAreSuperset (dn_parameters prevNode) (dn_parameters nextNode))"

definition groups_of :: "diffable_workflow \<Rightarrow> workflow_group list" where
  "groups_of w = (case dw_nodeGroups w of None \<Rightarrow> [] | Some gs \<Rightarrow> gs)"

definition nodeGroupChangesAreAdditive :: "diffable_workflow \<Rightarrow> diffable_workflow \<Rightarrow> bool" where
  "nodeGroupChangesAreAdditive prev nxt \<longleftrightarrow>
     (let nextGroupsById = fold (\<lambda>g. map_set (wg_id g) g) (groups_of nxt) []
      in list_all (\<lambda>prevGroup.
           case map_of nextGroupsById (wg_id prevGroup) of
             None \<Rightarrow> False
           | Some nextGroup \<Rightarrow>
               wg_name nextGroup = wg_name prevGroup
               \<and> (let nextNodeIds = set_of (wg_nodeIds nextGroup)
                  in list_all (\<lambda>i. i \<in> set nextNodeIds) (wg_nodeIds prevGroup)))
         (groups_of prev))"

text \<open>The loop over the changed nodes with its early returns.\<close>

primrec additive_nodes :: "lodash \<Rightarrow> diffable_workflow \<Rightarrow> (node_diff_status \<times> diffable_node) list \<Rightarrow> bool result" where
  "additive_nodes lo nxt [] = Inr True"
| "additive_nodes lo nxt (d # ds) =
     (if fst d = Deleted then Inr False
      else if fst d = Added then additive_nodes lo nxt ds
      else case find (\<lambda>x. dn_id x = dn_id (snd d)) (dw_nodes nxt) of
        None \<Rightarrow> Inl (JsError ''invariant broken - no next node'')
      | Some nextNode \<Rightarrow>
          if fst d = Modified \<and> \<not> nodeIsSuperset lo (snd d) nextNode then Inr False
          else additive_nodes lo nxt ds)"

definition mergeAdditiveChanges :: "lodash \<Rightarrow> diffable_workflow \<Rightarrow> diffable_workflow \<Rightarrow> change_set \<Rightarrow> bool result" where
  "mergeAdditiveChanges lo prev nxt diff =
     res_bind (additive_nodes lo nxt (map_values (cs_nodes diff))) (\<lambda>additive.
       if \<not> additive then Inr False
       else if 0 < length (cs_removed diff) then Inr False
       else if \<not> nodeGroupChangesAreAdditive prev nxt then Inr False
       else Inr True)"

section \<open>Rules by time, size and author\<close>

text \<open>A rule sees both versions, their difference and the score of the workflow's size, if requested.\<close>

type_synonym diff_rule = "diffable_workflow \<Rightarrow> diffable_workflow \<Rightarrow> change_set \<Rightarrow> int option \<Rightarrow> bool result"

definition time_difference :: "diffable_workflow \<Rightarrow> diffable_workflow \<Rightarrow> int" where
  "time_difference prev nxt = dw_createdAt nxt - dw_createdAt prev"

definition makeSkipTimeDifference :: "int \<Rightarrow> diff_rule" where
  "makeSkipTimeDifference timeDiffMs prev nxt _ _ = Inr (timeDiffMs < \<bar>time_difference prev nxt\<bar>)"

definition makeMergeShortTimeSpan :: "int \<Rightarrow> diffable_workflow \<Rightarrow> diffable_workflow \<Rightarrow> bool" where
  "makeMergeShortTimeSpan timeDiffMs prev nxt \<longleftrightarrow> \<bar>time_difference prev nxt\<bar> < timeDiffMs"

definition makeMergeDependingOnSizeRule :: "(int, int) jsmap \<Rightarrow> diff_rule" where
  "makeMergeDependingOnSizeRule mapping =
     (let pairs = sort_key (\<lambda>(count, _). - count) mapping
      in (\<lambda>prev nxt wcs metaData.
        case metaData of
          None \<Rightarrow> Inr False
        | Some score \<Rightarrow>
            (case find (\<lambda>(count, _). count < score) pairs of
               Some (_, time) \<Rightarrow> Inr (makeMergeShortTimeSpan time prev nxt)
             | None \<Rightarrow> Inr False)))"

definition skipDifferentUsers :: diff_rule where
  "skipDifferentUsers prev nxt _ _ = Inr (dw_authors nxt \<noteq> dw_authors prev)"

fun determineNodeSize :: "json \<Rightarrow> int" where
  "determineNodeSize JNull = 1"
| "determineNodeSize (JBool b) = 1"
| "determineNodeSize (JNum n) = 1"
| "determineNodeSize (JStr s) = (if s = [] then 1 else int (length s))"
| "determineNodeSize (JArr xs) = foldl (\<lambda>acc v. acc + determineNodeSize v) 1 xs"
| "determineNodeSize (JObj ps) = foldl (\<lambda>acc (_, v). acc + determineNodeSize v) 1 ps"

definition determineNodeParametersSize :: "diffable_workflow \<Rightarrow> int" where
  "determineNodeParametersSize workflow =
     foldl (\<lambda>acc x. acc + determineNodeSize (dn_parameters x)) 0 (dw_nodes workflow)"

section \<open>Thinning a history\<close>

primrec any_rule :: "diff_rule list \<Rightarrow> diffable_workflow \<Rightarrow> diffable_workflow \<Rightarrow> change_set \<Rightarrow> int option \<Rightarrow> bool result" where
  "any_rule [] prev nxt wcs metaData = Inr False"
| "any_rule (rule # rules) prev nxt wcs metaData =
     res_bind (rule prev nxt wcs metaData) (\<lambda>b. if b then Inr True else any_rule rules prev nxt wcs metaData)"

text \<open>
  The loop from the newest version down. It compares positions \<open>i\<close> and \<open>i - 1\<close> of what remains and
  takes out the older one; both positions are in range, as \<open>thin_loop_compacts\<close> shows.
\<close>

primrec thin_loop ::
    "lodash \<Rightarrow> diff_rule list \<Rightarrow> diff_rule list \<Rightarrow> int option \<Rightarrow> nat \<Rightarrow> diffable_workflow list \<times> diffable_workflow list
      \<Rightarrow> (diffable_workflow list \<times> diffable_workflow list) result" where
  "thin_loop lo rules skipRules metaData 0 st = Inr st"
| "thin_loop lo rules skipRules metaData (Suc j) st =
     (case st of (remaining, removed) \<Rightarrow>
       let older = remaining ! j;
           newer = remaining ! Suc j;
           wcs = WorkflowChangeSet lo older newer
       in res_bind (any_rule skipRules older newer wcs metaData) (\<lambda>skip.
            if skip then thin_loop lo rules skipRules metaData j (remaining, removed)
            else res_bind (any_rule rules older newer wcs metaData) (\<lambda>shouldMerge.
              if shouldMerge
              then thin_loop lo rules skipRules metaData j (take j remaining @ drop (Suc j) remaining, removed @ [older])
              else thin_loop lo rules skipRules metaData j (remaining, removed))))"

definition size_score :: "bool \<Rightarrow> diffable_workflow list \<Rightarrow> int option" where
  "size_score wanted workflows =
     (if wanted
      then Some (max (determineNodeParametersSize (workflows ! (length workflows div 2)))
                     (determineNodeParametersSize (workflows ! (length workflows - 1))))
      else None)"

text \<open>The result is the pair of the removed and the remaining versions.\<close>

definition groupWorkflows ::
    "lodash \<Rightarrow> diffable_workflow list \<Rightarrow> diff_rule list \<Rightarrow> diff_rule list \<Rightarrow> bool
      \<Rightarrow> (diffable_workflow list \<times> diffable_workflow list) result" where
  "groupWorkflows lo workflows rules skipRules wantScore =
     (if length workflows = 0 then Inr ([], [])
      else if length workflows = 1 then Inr ([], workflows)
      else res_bind (thin_loop lo rules skipRules (size_score wantScore workflows) (length workflows - 1) (workflows, []))
        (\<lambda>(remaining, removed). Inr (removed, remaining)))"

section \<open>Changes other than positions, changes of credentials\<close>

text \<open>\<open>isEqual\<close> of two connection objects is an argument of its own.\<close>

definition hasNonPositionalChanges ::
    "lodash \<Rightarrow> (iconnections \<Rightarrow> iconnections \<Rightarrow> bool) \<Rightarrow> diffable_node list \<Rightarrow> diffable_node list
      \<Rightarrow> iconnections \<Rightarrow> iconnections \<Rightarrow> bool" where
  "hasNonPositionalChanges lo equalConnections oldNodes newNodes oldConnections newConnections \<longleftrightarrow>
     (if list_ex (\<lambda>(status, _). status \<noteq> Eq) (map_values (compareWorkflowsNodes (compareNodes lo) oldNodes newNodes))
      then True
      else if \<not> equalConnections oldConnections newConnections then True
      else False)"

text \<open>The credentials of a node: per credential type the id, which can be null.\<close>

record credential_node =
  cn_id :: string
  cn_credentials :: "(string \<times> string option) list option"

definition credentials_of :: "credential_node \<Rightarrow> (string \<times> string option) list" where
  "credentials_of n = (case cn_credentials n of None \<Rightarrow> [] | Some cs \<Rightarrow> cs)"

definition hasCredentialChanges :: "credential_node list \<Rightarrow> credential_node list \<Rightarrow> bool" where
  "hasCredentialChanges oldNodes newNodes \<longleftrightarrow>
     (let newNodesMap = fold (\<lambda>node. map_set (cn_id node) node) newNodes []
      in list_ex (\<lambda>oldNode.
           case map_of newNodesMap (cn_id oldNode) of
             None \<Rightarrow> False
           | Some newNode \<Rightarrow>
               (let oldCreds = credentials_of oldNode; newCreds = credentials_of newNode
                in list_ex (\<lambda>credType. map_of newCreds credType = None
                       \<or> map_of oldCreds credType \<noteq> map_of newCreds credType) (map fst oldCreds)
                   \<or> list_ex (\<lambda>credType. map_of oldCreds credType = None) (map fst newCreds)))
         oldNodes)"

section \<open>The loop compacts the history\<close>

text \<open>
  What the loop computes, from the newest version back: a version is dropped if it merges into the
  next one that is kept.
\<close>

fun compact :: "('w \<Rightarrow> 'w \<Rightarrow> bool) \<Rightarrow> 'w list \<Rightarrow> 'w list \<times> 'w list" where
  "compact M [] = ([], [])"
| "compact M [w] = ([w], [])"
| "compact M (w # v # ws) =
     (case compact M (v # ws) of (kept, removed) \<Rightarrow>
       if M w (hd kept) then (kept, removed @ [w]) else (w # kept, removed))"

text \<open>A rule that returns on the versions of a history, and the decision on a pair of them.\<close>

definition rule_returns :: "lodash \<Rightarrow> diffable_workflow set \<Rightarrow> diff_rule \<Rightarrow> bool" where
  "rule_returns lo W rule \<longleftrightarrow>
     (\<forall>older \<in> W. \<forall>newer \<in> W. \<forall>metaData. \<exists>b. rule older newer (WorkflowChangeSet lo older newer) metaData = Inr b)"

definition rule_holds :: "lodash \<Rightarrow> int option \<Rightarrow> diff_rule \<Rightarrow> diffable_workflow \<Rightarrow> diffable_workflow \<Rightarrow> bool" where
  "rule_holds lo metaData rule older newer \<longleftrightarrow> rule older newer (WorkflowChangeSet lo older newer) metaData = Inr True"

definition merges ::
    "lodash \<Rightarrow> diff_rule list \<Rightarrow> diff_rule list \<Rightarrow> int option \<Rightarrow> diffable_workflow \<Rightarrow> diffable_workflow \<Rightarrow> bool" where
  "merges lo rules skipRules metaData older newer \<longleftrightarrow>
     (\<exists>rule \<in> set rules. rule_holds lo metaData rule older newer)
     \<and> (\<forall>skip \<in> set skipRules. \<not> rule_holds lo metaData skip older newer)"

lemma any_rule_iff:
  assumes "\<forall>rule \<in> set rules. rule_returns lo W rule" and "older \<in> W" and "newer \<in> W"
  shows "any_rule rules older newer (WorkflowChangeSet lo older newer) metaData
    = Inr (\<exists>rule \<in> set rules. rule_holds lo metaData rule older newer)"
  using assms(1)
proof (induction rules)
  case (Cons rule rules)
  then have "rule_returns lo W rule" by simp
  with assms(2,3) obtain b where "rule older newer (WorkflowChangeSet lo older newer) metaData = Inr b"
    unfolding rule_returns_def by blast
  with Cons show ?case by (cases b) (auto simp: rule_holds_def)
qed simp

lemma compact_nonempty: "ws \<noteq> [] \<Longrightarrow> fst (compact M ws) \<noteq> []"
  by (induction M ws rule: compact.induct) (auto split: prod.split)

lemma compact_subseq: "subseq (fst (compact M ws)) ws"
  by (induction M ws rule: compact.induct) (auto split: prod.split)

lemma thin_loop_compacts:
  assumes rules: "\<forall>rule \<in> set rules. rule_returns lo (set ws) rule"
    and skips: "\<forall>rule \<in> set skipRules. rule_returns lo (set ws) rule"
    and "j < length ws"
  shows "thin_loop lo rules skipRules metaData j
      (take j ws @ fst (compact (merges lo rules skipRules metaData) (drop j ws)),
       snd (compact (merges lo rules skipRules metaData) (drop j ws)))
    = Inr (compact (merges lo rules skipRules metaData) ws)"
  using assms(3)
proof (induction j)
  case (Suc j)
  let ?M = "merges lo rules skipRules metaData"
  obtain kept removed where c: "compact ?M (drop (Suc j) ws) = (kept, removed)" by fastforce
  have "kept \<noteq> []" using compact_nonempty [of "drop (Suc j) ws" ?M] Suc.prems by (simp add: c)
  then obtain k ks where kept: "kept = k # ks" by (cases kept) auto
  have "set kept \<subseteq> set (drop (Suc j) ws)"
    using list_emb_set [OF compact_subseq [of ?M "drop (Suc j) ws"]] by (auto simp: c)
  then have "k \<in> set ws" "ws ! j \<in> set ws"
    using Suc.prems set_drop_subset [of "Suc j" ws] by (auto simp: kept)
  note decide = any_rule_iff [OF rules this(2,1)] any_rule_iff [OF skips this(2,1)]
  let ?r = "take (Suc j) ws @ kept"
  have reads: "?r ! j = ws ! j" "?r ! Suc j = k" "take j ?r @ drop (Suc j) ?r = take j ws @ kept"
    "?r = take j ws @ ws ! j # kept"
    using Suc.prems by (auto simp: kept nth_append take_Suc_conv_app_nth)
  obtain v vs where "drop (Suc j) ws = v # vs" using Suc.prems by (cases "drop (Suc j) ws") auto
  with Suc.prems have "drop j ws = ws ! j # v # vs" by (metis Cons_nth_drop_Suc Suc_lessD)
  with c \<open>drop (Suc j) ws = v # vs\<close> have step: "compact ?M (drop j ws) =
      (if ?M (ws ! j) k then (kept, removed @ [ws ! j]) else (ws ! j # kept, removed))"
    by (simp add: kept)
  have IH: "thin_loop lo rules skipRules metaData j
      (take j ws @ fst (compact ?M (drop j ws)), snd (compact ?M (drop j ws))) = Inr (compact ?M ws)"
    using Suc by simp
  let ?skip = "\<exists>skip \<in> set skipRules. rule_holds lo metaData skip (ws ! j) k"
  let ?rule = "\<exists>rule \<in> set rules. rule_holds lo metaData rule (ws ! j) k"
  have "?M (ws ! j) k \<longleftrightarrow> ?rule \<and> \<not> ?skip" by (auto simp: merges_def)
  then have "thin_loop lo rules skipRules metaData (Suc j) (?r, removed) =
      thin_loop lo rules skipRules metaData j (take j ws @ fst (compact ?M (drop j ws)), snd (compact ?M (drop j ws)))"
    unfolding thin_loop.simps split Let_def reads(1-3) decide step res_bind_Inr
    by (cases ?skip; cases ?rule) (simp_all add: reads(4) del: take_Suc)
  with IH show ?case unfolding c fst_conv snd_conv by simp
qed simp

lemma groupWorkflows_compacts:
  assumes "\<forall>rule \<in> set rules. rule_returns lo (set ws) rule"
    and "\<forall>rule \<in> set skipRules. rule_returns lo (set ws) rule"
  shows "groupWorkflows lo ws rules skipRules wantScore =
    Inr (prod.swap (compact (merges lo rules skipRules (size_score wantScore ws)) ws))"
proof (cases "length ws \<le> 1")
  case True
  then show ?thesis by (cases ws) (auto simp: groupWorkflows_def)
next
  case False
  then have ws: "length ws \<noteq> 0" "length ws \<noteq> 1" "length ws - 1 < length ws" by auto
  have last: "drop (length ws - 1) ws = [last ws]" "take (length ws - 1) ws @ [last ws] = ws"
    using ws by (cases ws rule: rev_cases; simp)+
  from thin_loop_compacts [OF assms ws(3), of "size_score wantScore ws"] ws last
  show ?thesis by (simp add: groupWorkflows_def split: prod.split)
qed

text \<open>What a compacted history is.\<close>

lemma compact_mset: "mset (fst (compact M ws)) + mset (snd (compact M ws)) = mset ws"
  by (induction M ws rule: compact.induct) (auto split: prod.split)

lemma compact_last: "ws \<noteq> [] \<Longrightarrow> last (fst (compact M ws)) = last ws"
proof (induction M ws rule: compact.induct)
  case (3 M w v ws)
  then show ?case using compact_nonempty [of "v # ws" M] by (auto split: prod.split)
qed auto

lemma compact_merged: "w \<in> set (snd (compact M ws)) \<Longrightarrow> \<exists>r \<in> set (fst (compact M ws)). M w r"
proof (induction M ws rule: compact.induct)
  case (3 M w' v ws)
  then show ?case
    using compact_nonempty [of "v # ws" M] by (auto split: prod.splits if_splits intro: bexI [of _ "hd _"])
qed auto

lemma compact_maximal: "successively (\<lambda>a b. \<not> M a b) (fst (compact M ws))"
proof (induction M ws rule: compact.induct)
  case (3 M w v ws)
  then show ?case
    using compact_nonempty [of "v # ws" M] by (auto simp: successively_Cons split: prod.split)
qed auto

section \<open>What the difference of two versions says\<close>

text \<open>A map built from values by a key: what a lookup finds, and the entries if the keys differ.\<close>

lemma lookup_by_key:
  "map_of (fold (\<lambda>v. map_set (f v) v) vs []) k = find (\<lambda>v. f v = k) (rev vs)"
proof -
  have "map_of (fold (\<lambda>v. map_set (f v) v) vs m) k =
      (case find (\<lambda>v. f v = k) (rev vs) of Some v \<Rightarrow> Some v | None \<Rightarrow> map_of m k)" for m
  proof (induction vs arbitrary: m)
    case (Cons v vs)
    have app: "find P (xs @ [x]) = (case find P xs of Some y \<Rightarrow> Some y | None \<Rightarrow> if P x then Some x else None)"
      for P :: "'a \<Rightarrow> bool" and xs x
      by (induction xs) auto
    show ?case by (simp add: Cons update_conv' app split: option.split)
  qed simp
  from this [of "[]"] show ?thesis by (simp split: option.split)
qed

lemma lookup_by_key_Some:
  "map_of (fold (\<lambda>v. map_set (f v) v) vs []) k = Some v \<Longrightarrow> v \<in> set vs \<and> f v = k"
  unfolding lookup_by_key find_Some_iff by (metis length_rev nth_mem set_rev)

lemma lookup_by_key_None:
  "map_of (fold (\<lambda>v. map_set (f v) v) vs []) k = None \<longleftrightarrow> k \<notin> f ` set vs"
  unfolding lookup_by_key find_None_iff by auto

lemma lookup_by_key_distinct:
  assumes "distinct (map f vs)"
  shows "map_of (fold (\<lambda>v. map_set (f v) v) vs []) k = Some v \<longleftrightarrow> v \<in> set vs \<and> f v = k"
proof
  assume v: "v \<in> set vs \<and> f v = k"
  then obtain u where u: "map_of (fold (\<lambda>v. map_set (f v) v) vs []) k = Some u"
    using lookup_by_key_None [of f vs k] by (metis imageI option.exhaust)
  from lookup_by_key_Some [OF u] v assms have "u = v" by (auto simp: distinct_map dest: inj_onD)
  with u show "map_of (fold (\<lambda>v. map_set (f v) v) vs []) k = Some v" by simp
qed (rule lookup_by_key_Some)

lemma find_by_key_distinct:
  assumes "distinct (map f vs)" and "v \<in> set vs"
  shows "find (\<lambda>u. f u = f v) vs = Some v"
proof (cases "find (\<lambda>u. f u = f v) vs")
  case None
  with assms(2) show ?thesis by (auto simp: find_None_iff)
next
  case (Some u)
  then have "u \<in> set vs" "f u = f v" by (auto simp: find_Some_iff)
  then have "u = v" using assms by (auto simp: distinct_map dest: inj_onD)
  with Some show ?thesis by simp
qed

text \<open>The status of every node, by its id.\<close>

lemma fold_set_entries:
  "map_of (fold (\<lambda>(i, n). map_set i (g i n)) es m) k =
     (case map_of (rev es) k of Some n \<Rightarrow> Some (g k n) | None \<Rightarrow> map_of m k)"
proof (induction es arbitrary: m)
  case (Cons e es)
  show ?case by (cases e) (simp add: Cons update_conv' map_add_def split: option.split)
qed simp

lemma fold_set_some_entries:
  "map_of (fold (\<lambda>(i, n) m. if p i then map_set i (g n) m else m) es m) k =
     (case map_of (rev es) k of
        Some n \<Rightarrow> if p k then Some (g n) else map_of m k
      | None \<Rightarrow> map_of m k)"
proof (induction es arbitrary: m)
  case (Cons e es)
  show ?case by (cases e) (simp add: Cons update_conv' map_add_def split: option.split)
qed simp

lemma map_of_rev_distinct: "distinct (map fst m) \<Longrightarrow> map_of (rev m) = map_of m"
proof
  fix k assume d: "distinct (map fst m)"
  then have "map_of (rev m) k = Some v \<longleftrightarrow> map_of m k = Some v" for v
    using map_of_eq_Some_iff [of m k v] map_of_eq_Some_iff [of "rev m" k v] by (simp add: rev_map [symmetric])
  then show "map_of (rev m) k = map_of m k"
    by (cases "map_of m k"; cases "map_of (rev m) k") auto
qed

lemma distinct_nodes_by_id: "distinct (map fst (nodes_by_id ns))"
  unfolding nodes_by_id_def by (rule js_map.distinct_puts) simp

lemma lookup_compareWorkflowsNodes:
  "map_of (compareWorkflowsNodes nodesEqual base target) i =
     (case (map_of (nodes_by_id base) i, map_of (nodes_by_id target) i) of
        (Some n, None) \<Rightarrow> Some (Deleted, n)
      | (Some n, Some t) \<Rightarrow> Some (if nodesEqual (Some n) (Some t) then Eq else Modified, n)
      | (None, Some t) \<Rightarrow> Some (Added, t)
      | (None, None) \<Rightarrow> None)"
  unfolding compareWorkflowsNodes_def Let_def fold_set_some_entries fold_set_entries
    map_of_rev_distinct [OF distinct_nodes_by_id]
  by (simp split: option.split)

lemma distinct_compareWorkflowsNodes: "distinct (map fst (compareWorkflowsNodes nodesEqual base target))"
proof -
  have all: "distinct (map fst (fold (\<lambda>(i, n). map_set i (g i n)) es m))" if "distinct (map fst m)"
    for g :: "string \<Rightarrow> diffable_node \<Rightarrow> node_diff_status \<times> diffable_node" and es m
    using that by (induction es arbitrary: m) (auto intro!: distinct_update split: prod.split)
  have some: "distinct (map fst (fold (\<lambda>(i, n) m. if p i then map_set i (h n) m else m) es m))"
    if "distinct (map fst m)" for p and h :: "diffable_node \<Rightarrow> node_diff_status \<times> diffable_node" and es m
    using that by (induction es arbitrary: m) (auto intro!: distinct_update split: prod.split)
  show ?thesis unfolding compareWorkflowsNodes_def Let_def
    by (rule some, rule all) simp
qed

lemma in_compareWorkflowsNodes:
  "d \<in> set (map_values (compareWorkflowsNodes nodesEqual base target)) \<longleftrightarrow>
     (\<exists>i. map_of (compareWorkflowsNodes nodesEqual base target) i = Some d)"
  unfolding map_of_eq_Some_iff [OF distinct_compareWorkflowsNodes] by force

section \<open>Additive changes lose nothing\<close>

definition find_node :: "diffable_workflow \<Rightarrow> diffable_node \<Rightarrow> diffable_node option" where
  "find_node w n = find (\<lambda>x. dn_id x = dn_id n) (dw_nodes w)"

lemma additive_nodes_returns:
  assumes "\<forall>d \<in> set ds. fst d \<in> {Eq, Modified} \<longrightarrow> find_node nxt (snd d) \<noteq> None"
  shows "additive_nodes lo nxt ds = Inr (\<forall>d \<in> set ds. fst d \<noteq> Deleted
     \<and> (fst d = Modified \<longrightarrow> nodeIsSuperset lo (snd d) (the (find_node nxt (snd d)))))"
  using assms
proof (induction ds)
  case (Cons d ds)
  then show ?case by (cases "fst d"; cases "find_node nxt (snd d)") (auto simp: find_node_def)
qed simp

text \<open>Every node of the difference that is in both versions is found in the newer one.\<close>

lemma changed_nodes_found:
  assumes "d \<in> set (map_values (compareWorkflowsNodes nodesEqual base (dw_nodes nxt)))" and "fst d \<in> {Eq, Modified}"
  shows "find_node nxt (snd d) \<noteq> None"
proof -
  from assms(1) obtain i where i: "map_of (compareWorkflowsNodes nodesEqual base (dw_nodes nxt)) i = Some d"
    unfolding in_compareWorkflowsNodes by blast
  with assms(2) obtain n t where nt: "map_of (nodes_by_id base) i = Some n" "map_of (nodes_by_id (dw_nodes nxt)) i = Some t" "snd d = n"
    unfolding lookup_compareWorkflowsNodes by (auto split: option.splits if_splits)
  then have "dn_id n = i" "t \<in> set (dw_nodes nxt)" "dn_id t = i"
    unfolding nodes_by_id_def by (auto dest: lookup_by_key_Some)
  then show ?thesis unfolding find_node_def nt(3) by (auto simp: find_None_iff)
qed

lemma mergeAdditiveChanges_returns:
  assumes "dw_ref prev = dw_ref nxt \<Longrightarrow> prev = nxt"
  shows "\<exists>b. mergeAdditiveChanges lo prev nxt (WorkflowChangeSet lo prev nxt) = Inr b"
proof -
  have "\<forall>d \<in> set (map_values (cs_nodes (WorkflowChangeSet lo prev nxt))).
      fst d \<in> {Eq, Modified} \<longrightarrow> find_node nxt (snd d) \<noteq> None"
  proof (cases "dw_ref prev = dw_ref nxt")
    case True
    have "\<forall>d \<in> set (map_values (fold (\<lambda>node. map_set (dn_id node) (Eq, node)) ns [])). snd d \<in> set ns" for ns :: "diffable_node list"
    proof -
      have "\<forall>d \<in> set (map_values (fold (\<lambda>node. map_set (dn_id node) (Eq, node)) ns m)). snd d \<in> set ns \<union> snd ` set (map_values m)"
        for m :: workflow_nodes_diff
      proof (induction ns arbitrary: m)
        case (Cons n ns)
        have "set (map_values (map_set (dn_id n) (Eq, n) m)) \<subseteq> insert (Eq, n) (set (map_values m))"
          by (induction m) auto
        from image_mono [OF this, of snd]
        have "snd ` set (map_values (map_set (dn_id n) (Eq, n) m)) \<subseteq> insert n (snd ` set (map_values m))"
          by (simp only: image_insert snd_conv)
        with Cons [of "map_set (dn_id n) (Eq, n) m"] show ?case
          unfolding fold_simps(2) list.set(2) by blast
      qed auto
      from this [of "[]"] show ?thesis by simp
    qed
    moreover have "find_node nxt n \<noteq> None" if "n \<in> set (dw_nodes nxt)" for n
      using that by (auto simp: find_node_def find_None_iff)
    ultimately show ?thesis
      unfolding WorkflowChangeSet_def assms [OF True] simp_thms(6) if_True change_set.select_convs
      by blast
  next
    case False
    then have "cs_nodes (WorkflowChangeSet lo prev nxt) = compareWorkflowsNodes (compareNodes lo) (dw_nodes prev) (dw_nodes nxt)"
      by (simp add: WorkflowChangeSet_def split: prod.split)
    with changed_nodes_found show ?thesis by metis
  qed
  from additive_nodes_returns [OF this] obtain b where "additive_nodes lo nxt (map_values (cs_nodes (WorkflowChangeSet lo prev nxt))) = Inr b"
    by blast
  then have "mergeAdditiveChanges lo prev nxt (WorkflowChangeSet lo prev nxt) =
      Inr (b \<and> length (cs_removed (WorkflowChangeSet lo prev nxt)) = 0 \<and> nodeGroupChangesAreAdditive prev nxt)"
    by (auto simp: mergeAdditiveChanges_def)
  then show ?thesis by (rule exI)
qed

text \<open>
  The specification: every node is still there, unchanged as far as it is compared or with a
  superset of its parameters; every connection is; every group is, with its name and members.
\<close>

definition covered :: "lodash \<Rightarrow> diffable_node \<Rightarrow> diffable_node \<Rightarrow> bool" where
  "covered lo p n \<longleftrightarrow> compareNodes lo (Some p) (Some n) \<or> nodeIsSuperset lo p n"

definition covers :: "lodash \<Rightarrow> diffable_workflow \<Rightarrow> diffable_workflow \<Rightarrow> bool" where
  "covers lo prev nxt \<longleftrightarrow>
     (\<forall>p \<in> set (dw_nodes prev). \<exists>n \<in> set (dw_nodes nxt). dn_id n = dn_id p \<and> covered lo p n)
     \<and> (\<forall>nm ty i. conns_at (dw_connections prev) nm ty i \<subseteq> conns_at (dw_connections nxt) nm ty i)
     \<and> (\<forall>g \<in> set (groups_of prev). \<exists>h \<in> set (groups_of nxt).
          wg_id h = wg_id g \<and> wg_name h = wg_name g \<and> set (wg_nodeIds g) \<subseteq> set (wg_nodeIds h))"

definition distinct_ids :: "diffable_workflow \<Rightarrow> bool" where
  "distinct_ids w \<longleftrightarrow> distinct (map dn_id (dw_nodes w)) \<and> distinct (map wg_id (groups_of w))"

lemma additive_groups_iff:
  assumes "distinct (map wg_id (groups_of nxt))"
  shows "nodeGroupChangesAreAdditive prev nxt \<longleftrightarrow>
     (\<forall>g \<in> set (groups_of prev). \<exists>h \<in> set (groups_of nxt).
          wg_id h = wg_id g \<and> wg_name h = wg_name g \<and> set (wg_nodeIds g) \<subseteq> set (wg_nodeIds h))"
proof -
  note look = lookup_by_key_distinct [OF assms]
  have kept: "(case map_of (fold (\<lambda>g. map_set (wg_id g) g) (groups_of nxt) []) (wg_id g) of
           None \<Rightarrow> False
         | Some h \<Rightarrow> wg_name h = wg_name g \<and> list_all (\<lambda>i. i \<in> set (set_of (wg_nodeIds h))) (wg_nodeIds g))
      \<longleftrightarrow> (\<exists>h \<in> set (groups_of nxt). wg_id h = wg_id g \<and> wg_name h = wg_name g \<and> set (wg_nodeIds g) \<subseteq> set (wg_nodeIds h))" for g
    using look [of "wg_id g"]
    by (cases "map_of (fold (\<lambda>g. map_set (wg_id g) g) (groups_of nxt) []) (wg_id g)")
       (force simp: list_all_iff subset_eq)+
  show ?thesis
    unfolding nodeGroupChangesAreAdditive_def Let_def list_all_iff [of _ "groups_of prev"]
    by (rule ball_cong [OF refl kept])
qed

lemma mergeAdditiveChanges_iff:
  assumes refs: "dw_ref prev \<noteq> dw_ref nxt" and ids: "distinct_ids prev" "distinct_ids nxt"
  shows "mergeAdditiveChanges lo prev nxt (WorkflowChangeSet lo prev nxt) = Inr (covers lo prev nxt)"
proof -
  let ?D = "compareWorkflowsNodes (compareNodes lo) (dw_nodes prev) (dw_nodes nxt)"
  obtain added removed where cc: "compareConnections (dw_connections prev) (dw_connections nxt) = (added, removed)"
    by fastforce
  have look: "map_of (nodes_by_id (dw_nodes w)) i = Some n \<longleftrightarrow> n \<in> set (dw_nodes w) \<and> dn_id n = i"
    if "distinct_ids w" for w i n
    unfolding nodes_by_id_def using that by (intro lookup_by_key_distinct) (simp add: distinct_ids_def)
  have found: "find_node nxt p = Some n" if "n \<in> set (dw_nodes nxt)" "dn_id n = dn_id p" for p n
    using find_by_key_distinct [of dn_id "dw_nodes nxt" n] ids(2) that by (simp add: find_node_def distinct_ids_def)
  have each: "(\<forall>d. map_of ?D (dn_id p) = Some d \<longrightarrow> fst d \<noteq> Deleted
        \<and> (fst d = Modified \<longrightarrow> nodeIsSuperset lo (snd d) (the (find_node nxt (snd d)))))
      \<longleftrightarrow> (\<exists>n \<in> set (dw_nodes nxt). dn_id n = dn_id p \<and> covered lo p n)" if p: "p \<in> set (dw_nodes prev)" for p
  proof -
    have lp: "map_of (nodes_by_id (dw_nodes prev)) (dn_id p) = Some p" using look [OF ids(1)] p by simp
    show ?thesis
    proof (cases "map_of (nodes_by_id (dw_nodes nxt)) (dn_id p)")
      case None
      then have "\<not> (\<exists>n \<in> set (dw_nodes nxt). dn_id n = dn_id p)" using look [OF ids(2), of "dn_id p"] by (metis option.distinct(1))
      with None lp show ?thesis by (auto simp: lookup_compareWorkflowsNodes)
    next
      case (Some n)
      then have n: "n \<in> set (dw_nodes nxt)" "dn_id n = dn_id p" using look [OF ids(2)] by simp_all
      have "m = n" if "m \<in> set (dw_nodes nxt)" "dn_id m = dn_id p" for m
        using look [OF ids(2), of "dn_id p" m] that Some by simp
      with n have ex: "(\<exists>m \<in> set (dw_nodes nxt). dn_id m = dn_id p \<and> covered lo p m) \<longleftrightarrow> covered lo p n" by blast
      show ?thesis
        unfolding ex lookup_compareWorkflowsNodes lp Some using found [OF n] by (simp add: covered_def)
    qed
  qed
  have nodes: "(\<forall>d \<in> set (map_values ?D). fst d \<noteq> Deleted
        \<and> (fst d = Modified \<longrightarrow> nodeIsSuperset lo (snd d) (the (find_node nxt (snd d)))))
      \<longleftrightarrow> (\<forall>p \<in> set (dw_nodes prev). \<exists>n \<in> set (dw_nodes nxt). dn_id n = dn_id p \<and> covered lo p n)" (is "?L \<longleftrightarrow> ?R")
  proof
    assume L: ?L
    have all: "fst d \<noteq> Deleted \<and> (fst d = Modified \<longrightarrow> nodeIsSuperset lo (snd d) (the (find_node nxt (snd d))))"
      if "map_of ?D i = Some d" for i d
    proof -
      from that have "d \<in> set (map_values ?D)" unfolding in_compareWorkflowsNodes by (rule exI)
      with L show ?thesis by (rule bspec)
    qed
    show ?R
    proof
      fix p assume "p \<in> set (dw_nodes prev)"
      then show "\<exists>n \<in> set (dw_nodes nxt). dn_id n = dn_id p \<and> covered lo p n"
        by (rule iffD1 [OF each]) (intro allI impI all)
    qed
  next
    assume R: ?R
    show ?L
    proof
      fix d assume "d \<in> set (map_values ?D)"
      then obtain i where i: "map_of ?D i = Some d" unfolding in_compareWorkflowsNodes by blast
      show "fst d \<noteq> Deleted \<and> (fst d = Modified \<longrightarrow> nodeIsSuperset lo (snd d) (the (find_node nxt (snd d))))"
      proof (cases "map_of (nodes_by_id (dw_nodes prev)) i")
        case None
        with i show ?thesis by (auto simp: lookup_compareWorkflowsNodes split: option.splits)
      next
        case (Some p)
        then have "p \<in> set (dw_nodes prev)" "dn_id p = i" using look [OF ids(1)] by auto
        with R each [of p] i show ?thesis by auto
      qed
    qed
  qed
  have ret: "\<forall>d \<in> set (map_values ?D). fst d \<in> {Eq, Modified} \<longrightarrow> find_node nxt (snd d) \<noteq> None"
    using changed_nodes_found by blast
  have nodes': "additive_nodes lo nxt (map_values ?D) = Inr (\<forall>p \<in> set (dw_nodes prev). \<exists>n \<in> set (dw_nodes nxt).
      dn_id n = dn_id p \<and> covered lo p n)"
    by (simp only: additive_nodes_returns [OF ret] nodes)
  have cs: "WorkflowChangeSet lo prev nxt = \<lparr>cs_nodes = ?D, cs_added = added, cs_removed = removed\<rparr>"
    by (simp add: WorkflowChangeSet_def refs cc)
  have groups: "nodeGroupChangesAreAdditive prev nxt \<longleftrightarrow> (\<forall>g \<in> set (groups_of prev). \<exists>h \<in> set (groups_of nxt).
          wg_id h = wg_id g \<and> wg_name h = wg_name g \<and> set (wg_nodeIds g) \<subseteq> set (wg_nodeIds h))"
    using ids(2) by (intro additive_groups_iff) (simp add: distinct_ids_def)
  show ?thesis
    unfolding mergeAdditiveChanges_def cs change_set.select_convs nodes' res_bind_Inr covers_def
      nothing_removed_iff [OF cc, symmetric] groups [symmetric]
    by auto
qed

section \<open>Credentials, sizes and time spans\<close>

lemma credential_changes_iff:
  "hasCredentialChanges olds news \<longleftrightarrow>
     (\<exists>n \<in> set olds. \<exists>m. map_of (fold (\<lambda>node. map_set (cn_id node) node) news []) (cn_id n) = Some m
        \<and> map_of (credentials_of n) \<noteq> map_of (credentials_of m))"
proof -
  have creds: "(list_ex (\<lambda>t. map_of new_creds t = None \<or> map_of old_creds t \<noteq> map_of new_creds t) (map fst old_creds)
        \<or> list_ex (\<lambda>t. map_of old_creds t = None) (map fst new_creds)) \<longleftrightarrow> map_of old_creds \<noteq> map_of new_creds"
    for old_creds new_creds :: "(string \<times> string option) list"
  proof
    assume "map_of old_creds \<noteq> map_of new_creds"
    then obtain t where t: "map_of old_creds t \<noteq> map_of new_creds t" by blast
    show "list_ex (\<lambda>t. map_of new_creds t = None \<or> map_of old_creds t \<noteq> map_of new_creds t) (map fst old_creds)
        \<or> list_ex (\<lambda>t. map_of old_creds t = None) (map fst new_creds)"
    proof (cases "map_of old_creds t")
      case None
      with t have "t \<in> set (map fst new_creds)" by (metis image_set map_of_eq_None_iff)
      with None show ?thesis by (auto simp: list_ex_iff)
    next
      case (Some i)
      then have "t \<in> set (map fst old_creds)" by (metis image_set map_of_eq_None_iff option.distinct(1))
      with t show ?thesis by (auto simp: list_ex_iff)
    qed
  next
    assume "list_ex (\<lambda>t. map_of new_creds t = None \<or> map_of old_creds t \<noteq> map_of new_creds t) (map fst old_creds)
        \<or> list_ex (\<lambda>t. map_of old_creds t = None) (map fst new_creds)"
    then obtain t where "t \<in> fst ` set old_creds \<and> (map_of new_creds t = None \<or> map_of old_creds t \<noteq> map_of new_creds t)
        \<or> t \<in> fst ` set new_creds \<and> map_of old_creds t = None"
      by (auto simp: list_ex_iff)
    then show "map_of old_creds \<noteq> map_of new_creds" by (metis map_of_eq_None_iff)
  qed
  show ?thesis
    unfolding hasCredentialChanges_def Let_def list_ex_iff [of _ olds] creds
    by (intro bex_cong refl) (simp split: option.split)
qed

text \<open>A size rule uses the time of the largest threshold below the score.\<close>

lemma find_sorted_first:
  assumes "sorted (map f xs)" and "distinct (map f xs)"
  shows "find P xs = Some x \<longleftrightarrow> x \<in> set xs \<and> P x \<and> (\<forall>y \<in> set xs. P y \<longrightarrow> (f x :: int) \<le> f y)"
  using assms
proof (induction xs)
  case (Cons a xs)
  show ?case
  proof (cases "P a")
    case True
    have "f a < f y" if "y \<in> set xs" for y using Cons.prems that by (force simp: order_less_le)
    with True Cons.prems(1) show ?thesis by (fastforce simp: order_less_le)
  next
    case False
    with Cons show ?thesis by auto
  qed
qed simp

lemma size_rule_iff:
  assumes "distinct (map fst mapping)"
  shows "makeMergeDependingOnSizeRule mapping prev nxt wcs (Some score) =
     Inr (\<exists>count time. (count, time) \<in> set mapping \<and> count < score
       \<and> (\<forall>(c, t) \<in> set mapping. c < score \<longrightarrow> c \<le> count) \<and> \<bar>time_difference prev nxt\<bar> < time)"
proof -
  let ?f = "\<lambda>(count :: int, _ :: int). - count"
  let ?pairs = "sort_key ?f mapping"
  have "map ?f mapping = map uminus (map fst mapping)" by (simp add: split_beta)
  then have "distinct (map ?f mapping)" using assms by (simp only: distinct_map inj_on_def) simp
  moreover have "mset (map ?f ?pairs) = mset (map ?f mapping)" by simp
  ultimately have "distinct (map ?f ?pairs)" by (metis mset_eq_imp_distinct_iff)
  then have first: "find (\<lambda>(count, _). count < score) ?pairs = Some x \<longleftrightarrow> x \<in> set mapping \<and> fst x < score
      \<and> (\<forall>y \<in> set mapping. fst y < score \<longrightarrow> fst y \<le> fst x)" for x
    using find_sorted_first [OF sorted_sort_key, of ?f mapping "\<lambda>(count, _). count < score" x]
    by (auto simp: split_beta)
  show ?thesis
  proof (cases "find (\<lambda>(count, _). count < score) ?pairs")
    case None
    then have "\<forall>(c, t) \<in> set mapping. \<not> c < score" by (auto simp: find_None_iff)
    with None show ?thesis by (auto simp: makeMergeDependingOnSizeRule_def Let_def)
  next
    case (Some x)
    obtain c t where x: "x = (c, t)" by (cases x)
    from Some first [of x] have best: "(c, t) \<in> set mapping" "c < score" "\<forall>y \<in> set mapping. fst y < score \<longrightarrow> fst y \<le> c"
      by (auto simp: x)
    have "count = c \<and> time = t" if "(count, time) \<in> set mapping" "count < score"
      "\<forall>(c, t) \<in> set mapping. c < score \<longrightarrow> c \<le> count" for count time
    proof -
      from that best have "count = c" by (metis (no_types, lifting) antisym case_prodD fst_conv)
      with that(1) best(1) assms show ?thesis by (metis eq_key_imp_eq_value)
    qed
    moreover have "\<forall>(d, u) \<in> set mapping. d < score \<longrightarrow> d \<le> c" using best(3) by auto
    ultimately have "(\<exists>count time. (count, time) \<in> set mapping \<and> count < score
       \<and> (\<forall>(c, t) \<in> set mapping. c < score \<longrightarrow> c \<le> count) \<and> \<bar>time_difference prev nxt\<bar> < time)
       \<longleftrightarrow> \<bar>time_difference prev nxt\<bar> < t" using best(1,2) by blast
    with Some show ?thesis by (simp add: makeMergeDependingOnSizeRule_def Let_def makeMergeShortTimeSpan_def x)
  qed
qed

lemma determineNodeSize_positive: "1 \<le> determineNodeSize v"
proof -
  have sum: "(\<forall>x \<in> set xs. 1 \<le> (f x :: int)) \<Longrightarrow> a \<le> foldl (\<lambda>acc x. acc + f x) a xs" for a f and xs :: "'x list"
    by (induction xs arbitrary: a) (auto, smt (verit))
  show ?thesis
  proof (induction v)
    case (JStr s)
    then show ?case by (cases s) auto
  next
    case (JArr xs)
    then show ?case using sum [of xs determineNodeSize 1] by simp
  next
    case (JObj ps)
    then have "\<forall>x \<in> set ps. 1 \<le> determineNodeSize (snd x)" by (force simp: snds.simps)
    from sum [OF this, of 1] show ?case by (simp add: split_beta')
  qed simp_all
qed

end
