(* ===== verification/Edit_Properties.thy ===== *)
theory Edit_Properties
  imports Workflow_Diff
begin

text \<open>
  The properties of what an editor does with a workflow: which selections can be grouped, what the
  difference of two versions says, and what thinning a version history keeps. The sample nodes and
  versions of the witnesses come with the properties that use them.
\<close>

section \<open>Selections\<close>

definition sample_inode :: "string \<Rightarrow> inode" where
  "sample_inode nm =
     \<lparr>node_ref = 0, node_id = nm @ ''id'', node_name = nm, node_typeVersion = (1, 0), node_type = ''set'',
      node_position = (0, 0), node_disabled = None, node_executeOnce = None, node_onError = None,
      node_continueOnFail = None, node_parameters = [], node_rewireOutputLogTo = None,
      node_retryOnFail = None, node_maxTries = None, node_alwaysOutputData = None\<rparr>"

definition sample_link :: "string \<Rightarrow> iconnection" where
  "sample_link nm = \<lparr>conn_node = nm, conn_type = Main_type, conn_index = 0\<rparr>"

text \<open>A chain T, A, B, C of which A and B are selected.\<close>

definition sample_selection :: grouping_input where
  "sample_selection =
     \<lparr>gi_nodes = [sample_inode ''A'', sample_inode ''B''],
      gi_connectionsBySourceNode =
        [(''T'', [(Main_type, [Some [sample_link ''A'']])]),
         (''A'', [(Main_type, [Some [sample_link ''B'']])]),
         (''B'', [(Main_type, [Some [sample_link ''C'']])])],
      gi_getNodeType = (\<lambda>_. None), gi_existingNodeGroups = None,
      gi_getNodeInputs = None, gi_getNodeOutputs = None\<rparr>"

text \<open>
  C17: Grouping accepts a selection exactly if no node of it is in a group, none is a trigger, at
  most one node is entered by main connections from outside and at most one is left by them (a root
  and a leaf of the selection, unless it has none), a path inside the selection joins the two, any
  two selected nodes are joined by connections inside it, and only main connections cross its
  boundary. The accepted start and end are the entry and the exit.
\<close>

theorem selections_that_can_be_grouped:
  assumes "[] \<notin> selection_names input"
  shows "case validateNodeSelectionForGrouping input of
      ValidSelection ns (s, e) \<Rightarrow>
        \<not> already_grouped input \<and> subgraph_selectable input
        \<and> main_boundary (selection_names input) (gi_connectionsBySourceNode input)
        \<and> ns = gi_nodes input
        \<and> set_option s = entries_of (selection_names input) (main_connected (gi_connectionsBySourceNode input))
        \<and> set_option e = exits_of (selection_names input) (main_connected (gi_connectionsBySourceNode input))
    | _ \<Rightarrow> \<not> (\<not> already_grouped input \<and> subgraph_selectable input
        \<and> main_boundary (selection_names input) (gi_connectionsBySourceNode input))"
proof (cases "\<exists>ns s e. validateNodeSelectionForGrouping input = ValidSelection ns (s, e)")
  case True
  then obtain ns s e where v: "validateNodeSelectionForGrouping input = ValidSelection ns (s, e)" by blast
  with True validate_subgraph_iff(2) [OF assms grouping_iff(2) [OF assms v]] grouping_iff(1) [OF assms]
  show ?thesis by simp
next
  case False
  then show ?thesis
    unfolding grouping_iff(1) [OF assms]
    by (cases "validateNodeSelectionForGrouping input")
       (use False in auto)
qed

theorem grouping_witness:
  "validateNodeSelectionForGrouping sample_selection
     = ValidSelection [sample_inode ''A'', sample_inode ''B''] (Some ''A'', Some ''B'')
   \<and> subgraph_selectable sample_selection \<and> \<not> already_grouped sample_selection"
proof -
  have names: "[] \<notin> selection_names sample_selection"
    by (auto simp: selection_names_def sample_selection_def sample_inode_def)
  have valid: "validateNodeSelectionForGrouping sample_selection
     = ValidSelection [sample_inode ''A'', sample_inode ''B''] (Some ''A'', Some ''B'')"
    by code_simp
  from selections_that_can_be_grouped [OF names] valid show ?thesis by simp
qed

section \<open>Differences\<close>

text \<open>
  C40: The difference of two connection objects holds, per node, type and output, exactly the
  connections the newer one has and the older one lacks, and the other way round; so the newer
  connections are the older ones without the removed and with the added ones.
\<close>

theorem connection_differences_are_exact:
  "case compareConnections prev nxt of (added, removed) \<Rightarrow>
     conns_at nxt nm ty i = (conns_at prev nm ty i - diff_at removed nm ty i) \<union> diff_at added nm ty i
     \<and> diff_at added nm ty i \<inter> conns_at prev nm ty i = {}
     \<and> diff_at removed nm ty i \<subseteq> conns_at prev nm ty i - conns_at nxt nm ty i"
proof -
  obtain added removed where c: "compareConnections prev nxt = (added, removed)" by fastforce
  show ?thesis unfolding c using compareConnections_exact [OF c, of nm ty i] by auto
qed

text \<open>
  The scan of \<^verbatim>\<open>stringContainsParts\<close> with its early return decides whether the shorter string
  is a subsequence of the longer one.
\<close>

theorem parts_are_subsequences: "stringContainsParts s substr \<longleftrightarrow> subseq substr s"
  by (rule stringContainsParts_subseq)

text \<open>
  If parameters are replaced by a superset of them, every value that can be reached in the old
  ones by a path of property names is still reached in the new ones: a string with all its
  characters in order, another primitive unchanged, an array or object with as many elements.
\<close>

theorem supersets_keep_every_value:
  assumes "parametersAreSuperset prev nxt" and "json_at prev path = Some v"
  shows "\<exists>w. json_at nxt path = Some w \<and> kept_in v w"
  using assms by (rule superset_keeps)

definition sample_parameters :: "string \<Rightarrow> json" where
  "sample_parameters s = JObj [(''options'', JObj [(''text'', JStr s)]), (''values'', JArr [JNum 1])]"

theorem supersets_witness:
  "\<exists>w. json_at (sample_parameters ''a-b-c'') [''options'', ''text''] = Some w \<and> kept_in (JStr ''abc'') w"
proof (rule supersets_keep_every_value)
  show "parametersAreSuperset (sample_parameters ''abc'') (sample_parameters ''a-b-c'')" by code_simp
  show "json_at (sample_parameters ''abc'') [''options'', ''text''] = Some (JStr ''abc'')" by code_simp
qed

text \<open>
  Credentials count as changed exactly if a node that is still there has other credential ids
  per type than before; deleting or adding a node changes none.
\<close>

theorem credential_changes_are_found:
  "hasCredentialChanges olds news \<longleftrightarrow>
     (\<exists>n \<in> set olds. \<exists>m. map_of (fold (\<lambda>node. map_set (cn_id node) node) news []) (cn_id n) = Some m
        \<and> map_of (credentials_of n) \<noteq> map_of (credentials_of m))"
  by (rule credential_changes_iff)

text \<open>
  An object whose keys are properties of an array is taken for a part of the array: replacing
  the object by the array counts as losing nothing.
\<close>

theorem arrays_cover_objects:
  "parametersAreSuperset (JObj [(''length'', JNum 1)]) (JArr [v])
   \<and> \<not> parametersAreSuperset (JArr [v]) (JObj [(''length'', JNum 1)])"
  by (simp add: superset_JObj superset_JNum superset_JArr index_key_def digit_value_def)

section \<open>Histories\<close>

definition additive_rule :: "lodash \<Rightarrow> diff_rule" where
  "additive_rule lo prev nxt diff _ = mergeAdditiveChanges lo prev nxt diff"

lemma additive_rule_returns:
  "inj_on dw_ref W \<Longrightarrow> rule_returns lo W (additive_rule lo)"
  unfolding rule_returns_def additive_rule_def
  by (intro ballI allI mergeAdditiveChanges_returns) (auto dest: inj_onD)

text \<open>
  C16: Thinning a history by additive changes returns whatever the skip rules say. What is left is a
  part of the history in its order, with its newest version; what is taken out is the rest; every
  version taken out is covered by one that is left, which has its nodes with supersets of their
  parameters, its connections and its groups; and of two neighbours that are left the older one is
  not covered by the newer, or a skip rule keeps them apart.
\<close>

theorem thinned_histories_keep_the_data:
  assumes refs: "distinct (map dw_ref ws)" and ids: "\<forall>w \<in> set ws. distinct_ids w"
    and skips: "\<forall>skip \<in> set skips. rule_returns lo (set ws) skip"
  shows "\<exists>removed remaining. groupWorkflows lo ws [additive_rule lo] skips wantScore = Inr (removed, remaining)
     \<and> mset removed + mset remaining = mset ws \<and> subseq remaining ws \<and> (ws \<noteq> [] \<longrightarrow> last remaining = last ws)
     \<and> (\<forall>w \<in> set removed. \<exists>r \<in> set remaining. covers lo w r)
     \<and> (\<forall>i. Suc i < length remaining \<longrightarrow> \<not> covers lo (remaining ! i) (remaining ! Suc i)
          \<or> (\<exists>skip \<in> set skips. rule_holds lo (size_score wantScore ws) skip (remaining ! i) (remaining ! Suc i)))"
proof -
  let ?M = "merges lo [additive_rule lo] skips (size_score wantScore ws)"
  obtain remaining removed where c: "compact ?M ws = (remaining, removed)" by fastforce
  have d: "distinct ws" and inj: "inj_on dw_ref (set ws)" using refs by (simp_all add: distinct_map)
  have ret: "groupWorkflows lo ws [additive_rule lo] skips wantScore = Inr (removed, remaining)"
    using groupWorkflows_compacts [of "[additive_rule lo]" lo ws skips wantScore] additive_rule_returns [OF inj] skips
    by (simp add: c)
  have m: "mset removed + mset remaining = mset ws" using compact_mset [of ?M ws] by (simp add: c union_commute)
  have sub: "subseq remaining ws" using compact_subseq [of ?M ws] by (simp add: c)
  have parts: "set removed \<union> set remaining = set ws" "set removed \<inter> set remaining = {}" "distinct remaining"
    using m d by (metis set_mset_mset set_mset_union, metis distinct_append mset_append mset_eq_imp_distinct_iff,
        metis distinct_append mset_append mset_eq_imp_distinct_iff)
  have covers: "?M a b \<longleftrightarrow> covers lo a b \<and> \<not> (\<exists>skip \<in> set skips. rule_holds lo (size_score wantScore ws) skip a b)"
    if "a \<in> set ws" "b \<in> set ws" "a \<noteq> b" for a b
  proof -
    have "dw_ref a \<noteq> dw_ref b" using that inj by (auto dest: inj_onD)
    with mergeAdditiveChanges_iff [of a b lo] ids that show ?thesis
      by (auto simp: merges_def rule_holds_def additive_rule_def)
  qed
  have "\<exists>r \<in> set remaining. covers lo w r" if "w \<in> set removed" for w
  proof -
    from that obtain r where r: "r \<in> set remaining" "?M w r" using compact_merged [of w ?M ws] by (auto simp: c)
    with that parts(1,2) have "w \<in> set ws" "r \<in> set ws" "w \<noteq> r" by blast+
    with covers r show ?thesis by blast
  qed
  moreover have "\<not> covers lo (remaining ! i) (remaining ! Suc i)
          \<or> (\<exists>skip \<in> set skips. rule_holds lo (size_score wantScore ws) skip (remaining ! i) (remaining ! Suc i))"
    if "Suc i < length remaining" for i
  proof -
    have apart: "\<not> ?M (remaining ! i) (remaining ! Suc i)"
      using compact_maximal [of ?M ws] that by (simp add: c successively_conv_nth)
    have "remaining ! i \<noteq> remaining ! Suc i" using parts(3) that by (simp add: nth_eq_iff_index_eq)
    moreover have "remaining ! i \<in> set ws" "remaining ! Suc i \<in> set ws"
      using parts(1) that nth_mem [of i remaining] nth_mem [of "Suc i" remaining] by (blast dest: Suc_lessD)+
    ultimately have "?M (remaining ! i) (remaining ! Suc i) \<longleftrightarrow> covers lo (remaining ! i) (remaining ! Suc i)
        \<and> \<not> (\<exists>skip \<in> set skips. rule_holds lo (size_score wantScore ws) skip (remaining ! i) (remaining ! Suc i))"
      by (intro covers)
    with apart show ?thesis by blast
  qed
  ultimately show ?thesis
    using ret m sub compact_last [of ws ?M] by (intro exI [of _ removed] exI [of _ remaining]) (simp add: c)
qed

definition sample_lodash :: lodash where
  "sample_lodash = \<lparr>isEqual = (=),
     pick = (\<lambda>obj ps. case obj of None \<Rightarrow> [] | Some fs \<Rightarrow> filter (\<lambda>(k, _). k \<in> set ps) fs)\<rparr>"

definition sample_version :: "nat \<Rightarrow> string \<Rightarrow> diffable_workflow" where
  "sample_version n s =
     \<lparr>dw_ref = n, dw_nodes = [\<lparr>dn_id = ''a'', dn_parameters = sample_parameters s, dn_fields = [(''name'', JStr ''A'')]\<rparr>],
      dw_connections = [], dw_createdAt = int n, dw_authors = None, dw_nodeGroups = None\<rparr>"

definition sample_history :: "diffable_workflow list" where
  "sample_history = [sample_version 0 ''ab'', sample_version 1 ''abc'', sample_version 2 ''xyz'']"

theorem thinning_witness:
  "\<exists>removed remaining.
     groupWorkflows sample_lodash sample_history [additive_rule sample_lodash] [skipDifferentUsers] False = Inr (removed, remaining)
     \<and> map dw_ref removed = [0] \<and> map dw_ref remaining = [1, 2] \<and> mset removed + mset remaining = mset sample_history"
proof -
  have run: "case groupWorkflows sample_lodash sample_history [additive_rule sample_lodash] [skipDifferentUsers] False of
      Inr (removed, remaining) \<Rightarrow> map dw_ref removed = [0] \<and> map dw_ref remaining = [1, 2] | _ \<Rightarrow> False"
    by code_simp
  have "distinct (map dw_ref sample_history)" "\<forall>w \<in> set sample_history. distinct_ids w"
    by (simp_all add: sample_history_def sample_version_def distinct_ids_def groups_of_def)
  moreover have "\<forall>skip \<in> set [skipDifferentUsers]. rule_returns sample_lodash (set sample_history) skip"
    by (simp add: rule_returns_def skipDifferentUsers_def)
  ultimately obtain removed remaining where
    "groupWorkflows sample_lodash sample_history [additive_rule sample_lodash] [skipDifferentUsers] False = Inr (removed, remaining)"
    "mset removed + mset remaining = mset sample_history"
    using thinned_histories_keep_the_data by blast
  with run show ?thesis by auto
qed

text \<open>
  The rule that merges by size compares the time between the versions with the time of the
  largest threshold below the score, and merges nothing if there is none.
\<close>

theorem size_rules_take_the_largest_threshold:
  assumes "distinct (map fst mapping)"
  shows "makeMergeDependingOnSizeRule mapping prev nxt wcs (Some score) =
     Inr (\<exists>count time. (count, time) \<in> set mapping \<and> count < score
       \<and> (\<forall>(c, t) \<in> set mapping. c < score \<longrightarrow> c \<le> count) \<and> \<bar>time_difference prev nxt\<bar> < time)"
  using assms by (rule size_rule_iff)

text \<open>Two thresholds below the score 50: the time of the larger one, 2000, is compared.\<close>

theorem size_rule_witness:
  "makeMergeDependingOnSizeRule [(0, 100), (40, 2000), (90, 9000)] (sample_version 0 ''a'') (sample_version 500 ''a'') wcs (Some 50)
     = Inr True"
proof -
  have "\<exists>count time. (count, time) \<in> set [(0, 100), (40, 2000), (90, 9000)] \<and> count < (50 :: int)
      \<and> (\<forall>(c, t) \<in> set [(0, 100 :: int), (40, 2000), (90, 9000)]. c < 50 \<longrightarrow> c \<le> count)
      \<and> \<bar>time_difference (sample_version 0 ''a'') (sample_version 500 ''a'')\<bar> < time"
    by (rule exI [of _ 40], rule exI [of _ 2000]) (simp add: time_difference_def sample_version_def)
  with size_rules_take_the_largest_threshold [of "[(0, 100), (40, 2000), (90, 9000)]"
      "sample_version 0 ''a''" "sample_version 500 ''a''" wcs 50] show ?thesis by simp
qed

end
