(* ===== verification/Spec2Isabelle.thy ===== *)
theory Spec2Isabelle
  imports Run_Properties Execute_Properties Workflow_Properties Partial_Properties Service_Properties
    Request_Properties Executions_Properties Lock_Properties Broker_Properties Edit_Properties
begin

text \<open>
  This library models core logic of the n8n workflow automation server (TypeScript, directory
  \<^verbatim>\<open>packages\<close>) and proves what makes it correct.

  The program and its parts. A workflow is a set of nodes and a connection object. The package
  \<^verbatim>\<open>workflow\<close> holds the data types and the graph queries on a workflow; \<^verbatim>\<open>core\<close> runs workflows, and
  prepares a partial execution (re-running a workflow up to one node with the data of an earlier
  run) by a pipeline of graph transformations: choose the trigger, build the graph, cut out the
  subgraph between trigger and destination, remove disabled nodes, find the start nodes, replace
  those in cycles, clean the run data, recreate the execution stack. Around the engine the package
  \<^verbatim>\<open>cli\<close> throttles executions (concurrency control) and hands code to task runners (task
  broker), and \<^verbatim>\<open>@n8n/backend-common\<close> serialises work under named locks.

  The theories.
  \<^item> \<open>Prelude\<close>: errors as a sum, sequencing, the loop \<open>for_each\<close> with its rules, insertion-ordered
    maps and objects behind the locale \<open>keyed_store\<close>, sets, arrays, sorting. \<open>Search\<close>: the locale
    \<open>visited_search\<close> for a depth-first search with a shared collection. \<open>Transitions\<close>: the locale
    \<open>invariant_system\<close> for step relations.
  \<^item> \<open>Workflow_Types\<close>: the interfaces of \<^verbatim>\<open>workflow/src/interfaces.ts\<close>.
    \<open>Connected_Nodes\<close>: \<^verbatim>\<open>workflow/src/common\<close>, inversion of connections and the memoised search.
    \<open>Workflow_Graph\<close>: the queries of the class \<^verbatim>\<open>Workflow\<close> (\<^verbatim>\<open>workflow/src/workflow.ts\<close>).
    \<open>Workflow_Properties\<close>: their properties.
  \<^item> \<open>Graph_Selection\<close>, \<open>Node_Grouping\<close>: which selected nodes can become a group or a workflow of
    their own (\<^verbatim>\<open>workflow/src/graph/graph-utils.ts\<close>, \<^verbatim>\<open>node-grouping-validation.ts\<close>).
    \<open>Connections_Diff\<close>, \<open>Workflow_Diff\<close>: the difference of two versions of a workflow, additive
    changes, thinning of a version history (\<^verbatim>\<open>connections-diff.ts\<close>, \<^verbatim>\<open>workflow-diff.ts\<close>).
    \<open>Edit_Properties\<close>: their properties.
  \<^item> \<open>Directed_Graph\<close>, \<open>Graph_Conversion\<close>, \<open>Graph_Scc\<close>: the class \<^verbatim>\<open>DirectedGraph\<close> of
    \<^verbatim>\<open>core/src/execution-engine/partial-execution-utils\<close>. A graph is a record of the two maps of the
    class, nodes by name and connections by key; a node is compared by identity.
    \<open>Start_Nodes\<close>, \<open>Subgraph\<close>, \<open>Disabled_Nodes\<close>, \<open>Execution_Stack\<close>, \<open>Find_Trigger\<close>: the other
    files of that directory. \<open>Samples\<close>: small workflows and graphs for the witnesses.
    \<open>Partial_Properties\<close>: the properties of the pipeline.
  \<^item> \<open>Workflow_Execute\<close>, \<open>Waiting_Inputs\<close>, \<open>Node_Output\<close>, \<open>Execution_Loop\<close>, \<open>Execution_Ends\<close>,
    \<open>Execution_Indices\<close>: the class \<^verbatim>\<open>WorkflowExecute\<close> of
    \<^verbatim>\<open>core/src/execution-engine/workflow-execute.ts\<close>. The first holds the scheduling of nodes
    (\<^verbatim>\<open>addNodeToBeExecuted\<close> and its helpers, the entries that wait for several inputs), the second
    the invariant of the waiting entries and their view as a partial map, the third what happens
    to the data of one node (tries, error outputs, paired items). \<open>Execution_Loop\<close> composes them:
    \<open>engine_iteration\<close> is one turn of the loop over the node stack, \<open>run_loop\<close> a number of turns.
    What the code asks of a node (its result, the paired items, required inputs, stop times) is an
    argument, the record \<open>engine_config\<close>. The loop need not end, a workflow may be cyclic, so the
    number of turns is an argument; \<open>Execution_Ends\<close> gives a number that suffices for an acyclic
    workflow whatever the nodes return. \<open>Execute_Properties\<close>: the properties of the engine.
  \<^item> \<open>Engine_Requests\<close>: the requests of agents to the engine (\<^verbatim>\<open>requests-response.ts\<close> in the same
    directory, \<^verbatim>\<open>handleEngineRequest\<close> and the collection of responses): a node asks for other nodes to
    run and is resumed with their results. Its preparation returns the changed workflow and run data
    also when it fails. \<open>Requests_Correct\<close>: the slots that a request reserves in the run data, counted
    by the runs of each node, what is read back from them, and the stack. \<open>Request_Properties\<close>: the
    properties of requests. The iterations of \<open>Execution_Loop\<close> take nodes that return data or throw;
    a request is a step on the same state (\<open>exec_state\<close>), not a result of \<open>cf_run\<close>.
  \<^item> \<open>Workflow_Runs\<close>: the methods \<^verbatim>\<open>run\<close> and \<^verbatim>\<open>runPartialWorkflow2\<close> of that class, which compose the
    pipeline of a partial execution and hand a plan to the engine (record \<open>run_plan\<close>), and
    \<^verbatim>\<open>rewire-graph.ts\<close>, which lets a tool be executed alone. \<open>Runs_Correct\<close>: what each step of the
    pipeline needs of the one before, and the plan. \<open>Run_Properties\<close>: the properties of whole runs, from
    the workflow to the nodes that the engine executes.
  \<^item> \<open>Concurrency\<close>: \<^verbatim>\<open>cli/src/concurrency/concurrency-queue.ts\<close> and the system of executions over
    it. \<open>Concurrency_Service\<close>: the service, the evaluation limit, the reservation.
    \<open>Service_Properties\<close>: their properties. \<open>Active_Executions\<close>: the class \<^verbatim>\<open>ActiveExecutions\<close> of
    \<^verbatim>\<open>cli/src/active-executions.ts\<close> composed with that service; the variables captured by the
    callback of a promise are fields of the execution object, which the registry refers to by a
    token. \<open>Executions_Invariant\<close>: its step relation and the invariant that accounts for every slot.
    \<open>Executions_Properties\<close>: its properties, with a run that leads to a lost slot.
  \<^item> \<open>Process_Lock\<close>, \<open>Lock_Properties\<close>: the in-process lock service.
  \<^item> \<open>Task_Messages\<close>, \<open>Task_Broker\<close>: the messages of \<^verbatim>\<open>@n8n/task-runner\<close> and the class \<^verbatim>\<open>TaskBroker\<close>;
    \<open>Broker_Invariant\<close>: its step relation and invariant; \<open>Broker_Properties\<close>: its properties.

  How the code is represented. A function that can throw returns \<open>Inl\<close> of an error or \<open>Inr\<close> of its
  result. A loop over a collection is \<open>for_each\<close> or \<open>fold\<close>. Recursion that follows a graph takes
  fuel: the number of nodes or connections plus a constant, and for every such function a lemma
  shows that the fuel suffices (the searches visit each element once, a branch of the subgraph
  search or of the start node search holds each node at most once), so that the theorems state
  that the code returns. A \<^verbatim>\<open>Map\<close> is an association list in insertion order, an object the same
  with its integer-like keys first. Asynchronous code is cut at its awaits: what runs between two
  awaits is one step, a suspended call is an entry of the state, and the order of steps is
  arbitrary, so the invariants hold for every interleaving.

  What is not modelled, and why. Expression evaluation and node code (they run JavaScript),
  databases, HTTP, file and queue I/O, user interfaces, the integrations, prompting of language
  models. Of modelled files: \<^verbatim>\<open>renameNode\<close> (rewrites expression strings), \<^verbatim>\<open>getParentMainInputNode\<close>
  (asks node descriptions), the resolution of node parameters in the constructor. Of the engine:
  hooks, timing, binary data, trigger, poll and declarative nodes.
  Log lines and the getters and setters for tests are left out. Third-party code is an argument: the
  string comparison of the source groups, the source of fresh task ids (assumed injective), \<^verbatim>\<open>isEqual\<close> and \<^verbatim>\<open>pick\<close> of
  lodash.
\<close>

end
